(* ===== verification/Redis_Prelude.thy ===== *)
theory Redis_Prelude
  imports Main "HOL-Library.Word" "HOL-Library.Monad_Syntax"
begin

text \<open>
  Shared vocabulary of the development: bytes and fixed-width integers in memory, bounds-checked
  access to a block of memory, and the list and option lemmas the components use.

  C code that can leave the defined behaviour of the language (an access outside an allocation,
  a failed \<^verbatim>\<open>assert\<close>) is modelled in the \<^typ>\<open>'a option\<close> monad: \<^const>\<open>None\<close> is such a failure,
  so a theorem that concludes with \<^const>\<open>Some\<close> also says that no access is out of bounds and that
  no assertion fires. The host is little endian, as \<^verbatim>\<open>BYTE_ORDER\<close> of the supported platforms is:
  the \<^verbatim>\<open>*ifbe\<close> macros of \<^verbatim>\<open>endianconv.h\<close> are then the identity.

  Collections: \<open>mem_simps\<close> rewrites reads and writes of encoded blocks; \<open>byte_simps\<close> rewrites the
  integer codecs.
\<close>

named_theorems mem_simps \<open>reads and writes of memory blocks\<close>
named_theorems byte_simps \<open>integers and their byte representation\<close>

type_synonym byte = "8 word"
type_synonym u16 = "16 word"
type_synonym u32 = "32 word"
type_synonym u64 = "64 word"

section \<open>Fixed-width integers in memory\<close>

text \<open>The little-endian representation of an integer in \<open>n\<close> bytes: what a store of a C integer of
  that width leaves in memory, excess bits being cut off.\<close>

primrec le_bytes :: "nat \<Rightarrow> int \<Rightarrow> byte list" where
  "le_bytes 0 v = []"
| "le_bytes (Suc n) v = word_of_int v # le_bytes n (v div 256)"

text \<open>The unsigned and the two's-complement value of a little-endian block of bytes.\<close>

primrec le_uint :: "byte list \<Rightarrow> int" where
  "le_uint [] = 0"
| "le_uint (b # bs) = uint b + 256 * le_uint bs"

definition to_signed :: "nat \<Rightarrow> int \<Rightarrow> int" where
  "to_signed n u = (if u < 2 ^ (n - 1) then u else u - 2 ^ n)"

definition le_sint :: "byte list \<Rightarrow> int" where
  "le_sint bs = to_signed (8 * length bs) (le_uint bs)"

text \<open>\<open>fits n v\<close>: the signed \<open>n\<close>-byte integers.\<close>

definition fits :: "nat \<Rightarrow> int \<Rightarrow> bool" where
  "fits n v \<longleftrightarrow> - (2 ^ (8 * n - 1)) \<le> v \<and> v < 2 ^ (8 * n - 1)"

abbreviation is_int64 :: "int \<Rightarrow> bool" where
  "is_int64 v \<equiv> fits 8 v"

lemma length_le_bytes [simp]: "length (le_bytes n v) = n"
  by (induction n arbitrary: v) auto

lemma le_bytes_zero: "le_bytes n 0 = replicate n 0"
  by (induction n) auto

lemma le_uint_nonneg [simp]: "0 \<le> le_uint bs"
  by (induction bs) auto

lemma le_uint_bound: "le_uint bs < 256 ^ length bs"
proof (induction bs)
  case (Cons b bs)
  have "uint b < 256" using uint_lt2p [of b] by simp
  with Cons show ?case by simp
qed simp

lemma le_uint_le_bytes [byte_simps]: "le_uint (le_bytes n v) = v mod 256 ^ n"
proof (induction n arbitrary: v)
  case (Suc n)
  have "uint (word_of_int v :: byte) = v mod 256"
    by (simp add: uint_word_of_int)
  then have "le_uint (le_bytes (Suc n) v) = v mod 256 + 256 * (v div 256 mod 256 ^ n)"
    by (simp add: Suc)
  also have "\<dots> = v mod (256 * 256 ^ n)"
    by (simp add: zmod_zmult2_eq)
  finally show ?case by simp
qed simp

lemma le_bytes_le_uint [byte_simps]: "length bs = n \<Longrightarrow> le_bytes n (le_uint bs) = bs"
proof (induction bs arbitrary: n)
  case (Cons b bs)
  then obtain m where n: "n = Suc m" and m: "length bs = m" by auto
  have "uint b < 256" using uint_lt2p [of b] by simp
  then have "(uint b + 256 * le_uint bs) div 256 = le_uint bs"
    by simp
  moreover have "(word_of_int (uint b + 256 * le_uint bs) :: byte) = b"
  proof (rule word_uint_eqI)
    show "uint (word_of_int (uint b + 256 * le_uint bs) :: byte) = uint b"
      using \<open>uint b < 256\<close> by (simp only: uint_word_of_int) simp
  qed
  ultimately show ?case using Cons.IH [OF m] n by simp
qed simp

lemma pow256: "(256 :: int) ^ n = 2 ^ (8 * n)"
  by (simp add: power_mult)

lemma to_signed_mod:
  assumes "0 < n" and "- (2 ^ (n - 1)) \<le> v" and "v < 2 ^ (n - 1)"
  shows "to_signed n (v mod 2 ^ n) = v"
proof -
  from \<open>0 < n\<close> have two: "(2 :: int) ^ n = 2 * 2 ^ (n - 1)"
    by (cases n) auto
  show ?thesis
  proof (cases "0 \<le> v")
    case True
    with assms two have "v mod 2 ^ n = v" by (intro mod_pos_pos_trivial) auto
    with assms show ?thesis by (simp add: to_signed_def)
  next
    case False
    have "v mod 2 ^ n = (v + 2 ^ n) mod 2 ^ n" by simp
    also have "\<dots> = v + 2 ^ n" using assms two False by (intro mod_pos_pos_trivial) auto
    finally show ?thesis using assms two by (simp add: to_signed_def)
  qed
qed

text \<open>Storing a signed integer that fits and reading it back gives the integer.\<close>

lemma le_sint_le_bytes [byte_simps]:
  assumes "0 < n" and "fits n v"
  shows "le_sint (le_bytes n v) = v"
  using assms by (simp add: le_sint_def byte_simps pow256 to_signed_mod fits_def)

lemma to_signed_range:
  assumes "0 < n" and "0 \<le> u" and "u < 2 ^ n"
  shows "- (2 ^ (n - 1)) \<le> to_signed n u \<and> to_signed n u < 2 ^ (n - 1)"
proof -
  from \<open>0 < n\<close> have two: "(2 :: int) ^ n = 2 * 2 ^ (n - 1)"
    by (cases n) auto
  with assms show ?thesis by (auto simp: to_signed_def)
qed

lemma fits_le_sint:
  assumes "length bs = n" and "0 < n"
  shows "fits n (le_sint bs)"
  using assms to_signed_range [of "8 * n" "le_uint bs"] le_uint_bound [of bs]
  by (simp add: le_sint_def fits_def pow256)

lemma to_signed_mod_inverse:
  assumes "0 \<le> u" and "u < 2 ^ n"
  shows "to_signed n u mod 2 ^ n = u"
  using assms by (simp add: to_signed_def mod_pos_pos_trivial)

lemma le_bytes_mod: "le_bytes n (v mod 256 ^ n) = le_bytes n v"
  using le_bytes_le_uint [of "le_bytes n v" n] by (simp add: byte_simps)

text \<open>The other direction: every block of bytes is the representation of the integer it reads as.\<close>

lemma le_bytes_le_sint [byte_simps]:
  assumes "length bs = n"
  shows "le_bytes n (le_sint bs) = bs"
proof -
  have "le_sint bs mod 256 ^ n = le_uint bs"
    using assms le_uint_bound [of bs]
    by (simp add: le_sint_def pow256 to_signed_mod_inverse)
  then have "le_bytes n (le_sint bs) = le_bytes n (le_uint bs)"
    using le_bytes_mod [of n "le_sint bs"] by simp
  with assms show ?thesis by (simp add: byte_simps)
qed

lemma fits_mono:
  assumes "fits m v" and "m \<le> n"
  shows "fits n v"
proof -
  have "(2 :: int) ^ (8 * m - 1) \<le> 2 ^ (8 * n - 1)"
    using assms(2) by (intro power_increasing) auto
  with assms(1) show ?thesis unfolding fits_def by linarith
qed

section \<open>Bounds-checked memory access\<close>

text \<open>\<open>mem_read b off n\<close> reads \<open>n\<close> bytes at offset \<open>off\<close> of the block \<open>b\<close>; \<open>mem_write\<close> overwrites;
  \<open>mem_move\<close> is \<^verbatim>\<open>memmove\<close> inside a block (the source is read completely before it is written).
  Outside the block they give \<^const>\<open>None\<close>.\<close>

definition mem_read :: "'a list \<Rightarrow> nat \<Rightarrow> nat \<Rightarrow> 'a list option" where
  "mem_read b off n = (if off + n \<le> length b then Some (take n (drop off b)) else None)"

definition mem_write :: "'a list \<Rightarrow> nat \<Rightarrow> 'a list \<Rightarrow> 'a list option" where
  "mem_write b off xs =
     (if off + length xs \<le> length b
      then Some (take off b @ xs @ drop (off + length xs) b) else None)"

definition mem_move :: "'a list \<Rightarrow> nat \<Rightarrow> nat \<Rightarrow> nat \<Rightarrow> 'a list option" where
  "mem_move b dst src n = (do { xs \<leftarrow> mem_read b src n; mem_write b dst xs })"

text \<open>Single cells: \<^verbatim>\<open>b[i]\<close> as a value and as the target of an assignment.\<close>

definition mem_get :: "'a list \<Rightarrow> nat \<Rightarrow> 'a option" where
  "mem_get b i = (if i < length b then Some (b ! i) else None)"

definition mem_put :: "'a list \<Rightarrow> nat \<Rightarrow> 'a \<Rightarrow> 'a list option" where
  "mem_put b i x = (if i < length b then Some (b[i := x]) else None)"

lemma mem_get_in [simp]: "i < length b \<Longrightarrow> mem_get b i = Some (b ! i)"
  by (simp add: mem_get_def)

lemma mem_put_in [simp]: "i < length b \<Longrightarrow> mem_put b i x = Some (b[i := x])"
  by (simp add: mem_put_def)

text \<open>The bytes of a string literal.\<close>

abbreviation bytes_of :: "string \<Rightarrow> byte list" where
  "bytes_of \<equiv> map of_char"

text \<open>\<^verbatim>\<open>zrealloc\<close> keeps the common prefix. The bytes a growing block gains have no specified value in
  C; the model gives them the value 0.\<close>

definition zrealloc :: "byte list \<Rightarrow> nat \<Rightarrow> byte list" where
  "zrealloc b n = take n b @ replicate (n - length b) 0"

lemma length_zrealloc [simp]: "length (zrealloc b n) = n"
  by (simp add: zrealloc_def)

lemma zrealloc_prefix: "length b = n \<Longrightarrow> zrealloc (b @ gap) n = b"
  by (simp add: zrealloc_def)

lemma mem_write_length:
  "mem_write b off xs = Some b' \<Longrightarrow> length b' = length b"
  by (auto simp: mem_write_def split: if_splits)

lemma mem_read_append [mem_simps]:
  "length xs = off \<Longrightarrow> length ys = n \<Longrightarrow> mem_read (xs @ ys @ zs) off n = Some ys"
  by (simp add: mem_read_def)

lemma mem_write_append [mem_simps]:
  "length xs = off \<Longrightarrow> length ys = length ys' \<Longrightarrow>
   mem_write (xs @ ys @ zs) off ys' = Some (xs @ ys' @ zs)"
  by (simp add: mem_write_def)

section \<open>Arrays of integers in a block\<close>

text \<open>The block that holds the integers \<open>xs\<close>, \<open>w\<close> bytes each.\<close>

definition int_array :: "nat \<Rightarrow> int list \<Rightarrow> byte list" where
  "int_array w xs = concat (map (le_bytes w) xs)"

lemma int_array_Nil [simp]: "int_array w [] = []"
  by (simp add: int_array_def)

lemma int_array_Cons [simp]: "int_array w (x # xs) = le_bytes w x @ int_array w xs"
  by (simp add: int_array_def)

lemma int_array_append [simp]: "int_array w (xs @ ys) = int_array w xs @ int_array w ys"
  by (simp add: int_array_def)

lemma length_int_array [simp]: "length (int_array w xs) = w * length xs"
  by (induction xs) auto

lemma int_array_split:
  "i < length xs \<Longrightarrow>
   int_array w xs = int_array w (take i xs) @ le_bytes w (xs ! i) @ int_array w (drop (Suc i) xs)"
  by (metis id_take_nth_drop int_array_append int_array_Cons)

lemma mem_read_int_array [mem_simps]:
  assumes "i < length xs"
  shows "mem_read (int_array w xs @ rest) (w * i) w = Some (le_bytes w (xs ! i))"
proof -
  have "mem_read (int_array w (take i xs) @ le_bytes w (xs ! i) @
          (int_array w (drop (Suc i) xs) @ rest)) (w * i) w = Some (le_bytes w (xs ! i))"
    using assms by (intro mem_read_append) auto
  then show ?thesis by (simp add: int_array_split [OF assms, of w])
qed

lemma mem_write_int_array [mem_simps]:
  assumes "i < length xs"
  shows "mem_write (int_array w xs @ rest) (w * i) (le_bytes w v) =
         Some (int_array w (xs[i := v]) @ rest)"
proof -
  have "mem_write (int_array w (take i xs) @ le_bytes w (xs ! i) @
          (int_array w (drop (Suc i) xs) @ rest)) (w * i) (le_bytes w v) =
        Some (int_array w (take i xs) @ le_bytes w v @ int_array w (drop (Suc i) xs) @ rest)"
    using assms by (intro mem_write_append) auto
  then show ?thesis
    using assms by (simp add: int_array_split [OF assms, of w] upd_conv_take_nth_drop)
qed

text \<open>Every block whose size is a multiple of \<open>w\<close> is such an array.\<close>

fun ints_of :: "nat \<Rightarrow> nat \<Rightarrow> byte list \<Rightarrow> int list" where
  "ints_of w 0 b = []"
| "ints_of w (Suc n) b = le_sint (take w b) # ints_of w n (drop w b)"

lemma length_ints_of [simp]: "length (ints_of w n b) = n"
  by (induction n arbitrary: b) auto

lemma int_array_ints_of: "length b = w * n \<Longrightarrow> int_array w (ints_of w n b) = b"
  by (induction n arbitrary: b) (auto simp: byte_simps)

lemma ints_of_int_array:
  "0 < w \<Longrightarrow> \<forall>x \<in> set xs. fits w x \<Longrightarrow> ints_of w (length xs) (int_array w xs) = xs"
  by (induction xs) (auto simp: byte_simps)

lemma ints_of_fits: "length b = w * n \<Longrightarrow> 0 < w \<Longrightarrow> x \<in> set (ints_of w n b) \<Longrightarrow> fits w x"
  by (induction n arbitrary: b) (force intro: fits_le_sint)+

section \<open>Strictly sorted lists\<close>

abbreviation ssorted :: "'a::linorder list \<Rightarrow> bool" where
  "ssorted \<equiv> sorted_wrt (<)"

lemma ssorted_nth_less: "ssorted xs \<Longrightarrow> i < j \<Longrightarrow> j < length xs \<Longrightarrow> xs ! i < xs ! j"
  by (rule sorted_wrt_nth_less)

lemma ssorted_short: "length xs \<le> 1 \<Longrightarrow> ssorted xs"
  by (cases xs) auto

lemma ssorted_distinct: "ssorted xs \<Longrightarrow> distinct xs"
  by (simp add: strict_sorted_iff)

lemma ssorted_insert_at:
  assumes "ssorted xs" and "\<forall>x \<in> set (take i xs). x < v" and "\<forall>x \<in> set (drop i xs). v < x"
  shows "ssorted (take i xs @ v # drop i xs)"
proof -
  from assms(1) have "ssorted (take i xs @ drop i xs)" by simp
  with assms(2,3) show ?thesis
    by (auto simp: sorted_wrt_append simp del: append_take_drop_id)
qed

lemma ssorted_remove_at:
  assumes "ssorted xs"
  shows "ssorted (take i xs @ drop (Suc i) xs)"
proof (cases "i < length xs")
  case True
  have "xs = take i xs @ xs ! i # drop (Suc i) xs"
    using True by (rule id_take_nth_drop)
  with assms have "ssorted (take i xs @ xs ! i # drop (Suc i) xs)" by metis
  then show ?thesis by (auto simp: sorted_wrt_append)
qed (use assms in simp)

lemma set_remove_at:
  assumes "distinct xs" and "i < length xs"
  shows "set (take i xs @ drop (Suc i) xs) = set xs - {xs ! i}"
proof -
  have "xs = take i xs @ xs ! i # drop (Suc i) xs"
    using assms(2) by (rule id_take_nth_drop)
  moreover from this assms(1) have "distinct (take i xs @ xs ! i # drop (Suc i) xs)"
    by metis
  ultimately show ?thesis
    by (metis Un_insert_right distinct.simps(2) distinct_append insert_Diff_if list.simps(15)
        Diff_insert_absorb Un_iff insert_iff set_append disjoint_iff)
qed

lemma set_insert_at: "set (take i xs @ v # drop i xs) = insert v (set xs)"
  by (metis Un_insert_right append_take_drop_id list.simps(15) set_append)

end
