(* ===== verification/Set_Interface.thy ===== *)
theory Set_Interface
  imports Redis_Prelude
begin

text \<open>
  The interface of a container of distinct elements, as \<^verbatim>\<open>t_set.c\<close> and its encodings offer it:
  adding, removing and testing an element, each reporting whether the element was new or present; a
  test may change the state too, since a lookup in a hash table moves entries while it is rehashed.
  The locale \<open>set_impl\<close> states the laws a provider promises in terms of the mathematical set
  \<open>elems s\<close> and proves for its clients that any sequence of operations gives the answers and the
  final elements of that set (\<open>run_refines\<close>).
\<close>

datatype 'a set_op = Add 'a | Rem 'a | Mem 'a

fun op_arg :: "'a set_op \<Rightarrow> 'a" where
  "op_arg (Add x) = x"
| "op_arg (Rem x) = x"
| "op_arg (Mem x) = x"

text \<open>One operation on the mathematical set, and a sequence of them with the list of answers.\<close>

fun spec_op :: "'a set_op \<Rightarrow> 'a set \<Rightarrow> 'a set \<times> bool" where
  "spec_op (Add x) X = (insert x X, x \<notin> X)"
| "spec_op (Rem x) X = (X - {x}, x \<in> X)"
| "spec_op (Mem x) X = (X, x \<in> X)"

fun run_spec :: "'a set_op list \<Rightarrow> 'a set \<Rightarrow> 'a set \<times> bool list" where
  "run_spec [] X = (X, [])"
| "run_spec (p # ps) X =
     (let (X', b) = spec_op p X; (Y, bs) = run_spec ps X' in (Y, b # bs))"

text \<open>The same on an implementation, given by its three operations.\<close>

fun impl_op :: "('s \<Rightarrow> 'a \<Rightarrow> ('s \<times> bool) option) \<Rightarrow> ('s \<Rightarrow> 'a \<Rightarrow> ('s \<times> bool) option) \<Rightarrow>
    ('s \<Rightarrow> 'a \<Rightarrow> ('s \<times> bool) option) \<Rightarrow> 'a set_op \<Rightarrow> 's \<Rightarrow> ('s \<times> bool) option" where
  "impl_op add rem mem (Add x) s = add s x"
| "impl_op add rem mem (Rem x) s = rem s x"
| "impl_op add rem mem (Mem x) s = mem s x"

fun run_impl :: "('s \<Rightarrow> 'a \<Rightarrow> ('s \<times> bool) option) \<Rightarrow> ('s \<Rightarrow> 'a \<Rightarrow> ('s \<times> bool) option) \<Rightarrow>
    ('s \<Rightarrow> 'a \<Rightarrow> ('s \<times> bool) option) \<Rightarrow> 'a set_op list \<Rightarrow> 's \<Rightarrow> ('s \<times> bool list) option" where
  "run_impl add rem mem [] s = Some (s, [])"
| "run_impl add rem mem (p # ps) s =
     do {
       (s', b) \<leftarrow> impl_op add rem mem p s;
       (s'', bs) \<leftarrow> run_impl add rem mem ps s';
       Some (s'', b # bs)
     }"

locale set_impl =
  fixes ok :: "'s \<Rightarrow> bool"
    and elems :: "'s \<Rightarrow> 'a set"
    and valid :: "'a \<Rightarrow> bool"
    and cap :: nat
    and add :: "'s \<Rightarrow> 'a \<Rightarrow> ('s \<times> bool) option"
    and rem :: "'s \<Rightarrow> 'a \<Rightarrow> ('s \<times> bool) option"
    and mem :: "'s \<Rightarrow> 'a \<Rightarrow> ('s \<times> bool) option"
  assumes finite_elems: "finite (elems s)"
    and add_ok: "ok s \<Longrightarrow> card (elems s) < cap \<Longrightarrow> valid x \<Longrightarrow>
      \<exists>s'. add s x = Some (s', x \<notin> elems s) \<and> ok s' \<and> elems s' = insert x (elems s)"
    and rem_ok: "ok s \<Longrightarrow> card (elems s) \<le> cap \<Longrightarrow> valid x \<Longrightarrow>
      \<exists>s'. rem s x = Some (s', x \<in> elems s) \<and> ok s' \<and> elems s' = elems s - {x}"
    and mem_ok: "ok s \<Longrightarrow> card (elems s) \<le> cap \<Longrightarrow> valid x \<Longrightarrow>
      \<exists>s'. mem s x = Some (s', x \<in> elems s) \<and> ok s' \<and> elems s' = elems s"
begin

lemma op_refines:
  assumes "ok s" and "card (elems s) < cap" and "valid (op_arg p)"
  shows "\<exists>s'. impl_op add rem mem p s = Some (s', snd (spec_op p (elems s))) \<and> ok s' \<and>
           elems s' = fst (spec_op p (elems s))"
  using assms add_ok [of s] rem_ok [of s] mem_ok [of s] by (cases p) force+

lemma card_spec_op: "finite X \<Longrightarrow> card (fst (spec_op p X)) \<le> Suc (card X)"
  by (cases p) (auto simp: card_insert_if card_Diff_singleton_if)

lemma run_refines:
  assumes "ok s" and "card (elems s) + length ps \<le> cap" and "\<forall>p \<in> set ps. valid (op_arg p)"
  shows "\<exists>s'. run_impl add rem mem ps s = Some (s', snd (run_spec ps (elems s))) \<and> ok s' \<and>
           elems s' = fst (run_spec ps (elems s))"
  using assms
proof (induction ps arbitrary: s)
  case (Cons p ps)
  obtain s' where s': "impl_op add rem mem p s = Some (s', snd (spec_op p (elems s)))" "ok s'"
    "elems s' = fst (spec_op p (elems s))"
    using op_refines [of s p] Cons.prems by auto
  moreover have "card (elems s') + length ps \<le> cap"
    using Cons.prems(2) card_spec_op [OF finite_elems, of p s] s'(3) by simp
  ultimately obtain s'' where "run_impl add rem mem ps s' = Some (s'', snd (run_spec ps (elems s')))"
    "ok s''" "elems s'' = fst (run_spec ps (elems s'))"
    using Cons.IH [of s'] Cons.prems(3) by auto
  with s' show ?case by (auto simp: split_beta Let_def)
qed simp

text \<open>What a client sees: an element is present after it was added and absent after it was removed.\<close>

lemma mem_after_add:
  assumes "ok s" and "card (elems s) < cap" and "valid x" and "valid y" and "add s x = Some (s', b)"
  shows "\<exists>s''. mem s' y = Some (s'', y = x \<or> y \<in> elems s)"
proof -
  have "ok s'" "elems s' = insert x (elems s)"
    using add_ok [OF assms(1-3)] assms(5) by auto
  moreover from this have "card (elems s') \<le> cap"
    using assms(2) finite_elems [of s] by (simp add: card_insert_if)
  ultimately show ?thesis using mem_ok [of s' y] assms(4) by auto
qed

lemma mem_after_rem:
  assumes "ok s" and "card (elems s) \<le> cap" and "valid x" and "valid y" and "rem s x = Some (s', b)"
  shows "\<exists>s''. mem s' y = Some (s'', y \<noteq> x \<and> y \<in> elems s)"
proof -
  have "ok s'" "elems s' = elems s - {x}"
    using rem_ok [OF assms(1-3)] assms(5) by auto
  moreover from this have "card (elems s') \<le> cap"
    using assms(2) finite_elems [of s] by (metis card_Diff1_le le_trans)
  ultimately show ?thesis using mem_ok [of s' y] assms(4) by auto
qed

end

end
