(* ===== verification/Intset.thy ===== *)
theory Intset
  imports Set_Interface
begin

text \<open>
  The integer set of \<^verbatim>\<open>intset.c\<close>: a sorted array of integers in one block of memory, all elements in
  the narrowest of three widths that holds the widest of them.

  \<^item> \<open>intset\<close> is \<^verbatim>\<open>struct intset\<close>; its fields keep their 32 bits, its flexible array \<^verbatim>\<open>contents\<close> is the
    list of the bytes allocated after the header.
  \<^item> A name that starts with an underscore in C starts with \<open>u_\<close> here.
  \<^item> \<^verbatim>\<open>int64_t\<close> values are \<^typ>\<open>int\<close> (\<open>is_int64\<close> gives the range); \<^verbatim>\<open>int\<close> positions are \<^typ>\<open>int\<close>,
    converted from \<^verbatim>\<open>uint32_t\<close> by \<^const>\<open>sint\<close> as the C conversion does.
  \<^item> An out parameter is a component of the result.

  The operations refine insertion, deletion and membership on the set \<open>intset_set\<close>, under the
  invariant \<open>intset_ok\<close> that they keep, for sets below the size where \<^verbatim>\<open>intsetMoveTail\<close> counts bytes
  in more than 32 bits; \<open>intsetAdd_overflow\<close> shows what happens at that size.
\<close>

section \<open>Model\<close>

record intset =
  is_encoding :: u32
  is_length :: u32
  is_contents :: "byte list"

definition INTSET_ENC_INT16 :: u32 where "INTSET_ENC_INT16 = 2"
definition INTSET_ENC_INT32 :: u32 where "INTSET_ENC_INT32 = 4"
definition INTSET_ENC_INT64 :: u32 where "INTSET_ENC_INT64 = 8"

definition u_intsetValueEncoding :: "int \<Rightarrow> u32" where
  "u_intsetValueEncoding v =
     (if v < - (2 ^ 31) \<or> v > 2 ^ 31 - 1 then INTSET_ENC_INT64
      else if v < - (2 ^ 15) \<or> v > 2 ^ 15 - 1 then INTSET_ENC_INT32
      else INTSET_ENC_INT16)"

definition u_intsetGetEncoded :: "intset \<Rightarrow> int \<Rightarrow> u32 \<Rightarrow> int option" where
  "u_intsetGetEncoded s pos enc =
     (if pos < 0 then None
      else if enc = INTSET_ENC_INT64
           then map_option le_sint (mem_read (is_contents s) (8 * nat pos) 8)
      else if enc = INTSET_ENC_INT32
           then map_option le_sint (mem_read (is_contents s) (4 * nat pos) 4)
      else map_option le_sint (mem_read (is_contents s) (2 * nat pos) 2))"

definition u_intsetGet :: "intset \<Rightarrow> int \<Rightarrow> int option" where
  "u_intsetGet s pos = u_intsetGetEncoded s pos (is_encoding s)"

definition u_intsetSet :: "intset \<Rightarrow> int \<Rightarrow> int \<Rightarrow> intset option" where
  "u_intsetSet s pos value =
     (if pos < 0 then None
      else map_option (\<lambda>c. s\<lparr>is_contents := c\<rparr>)
        (if is_encoding s = INTSET_ENC_INT64
           then mem_write (is_contents s) (8 * nat pos) (le_bytes 8 value)
         else if is_encoding s = INTSET_ENC_INT32
           then mem_write (is_contents s) (4 * nat pos) (le_bytes 4 value)
         else mem_write (is_contents s) (2 * nat pos) (le_bytes 2 value)))"

definition intsetNew :: intset where
  "intsetNew = \<lparr>is_encoding = INTSET_ENC_INT16, is_length = 0, is_contents = []\<rparr>"

text \<open>The size of the header, \<^verbatim>\<open>sizeof(intset)\<close>, and the largest \<^verbatim>\<open>size_t\<close>.\<close>

definition sizeof_intset :: nat where "sizeof_intset = 8"
definition SIZE_MAX :: nat where "SIZE_MAX = 2 ^ 64 - 1"

definition intsetResize :: "intset \<Rightarrow> u32 \<Rightarrow> intset option" where
  "intsetResize s len =
     (let size = unat len * unat (is_encoding s)
      in if size \<le> SIZE_MAX - sizeof_intset
         then Some (s\<lparr>is_contents := zrealloc (is_contents s) size\<rparr>) else None)"

text \<open>\<^verbatim>\<open>((unsigned int)min + (unsigned int)max) >> 1\<close>, converted back to \<^verbatim>\<open>int\<close>.\<close>

definition search_mid :: "int \<Rightarrow> int \<Rightarrow> int" where
  "search_mid mn mx = sint (drop_bit 1 (word_of_int mn + word_of_int mx :: u32))"

text \<open>The loop of \<^verbatim>\<open>intsetSearch\<close>; its result is \<^verbatim>\<open>(min, mid, cur)\<close> when it is left.\<close>

partial_function (option) intsetSearch_loop ::
    "intset \<Rightarrow> int \<Rightarrow> int \<Rightarrow> int \<Rightarrow> int \<Rightarrow> int \<Rightarrow> (int \<times> int \<times> int) option" where
  "intsetSearch_loop s value mn mx mid cur =
     (if mx \<ge> mn then
        u_intsetGet s (search_mid mn mx) \<bind> (\<lambda>cur'.
          if value > cur' then
            intsetSearch_loop s value (search_mid mn mx + 1) mx (search_mid mn mx) cur'
          else if value < cur' then
            intsetSearch_loop s value mn (search_mid mn mx - 1) (search_mid mn mx) cur'
          else Some (mn, search_mid mn mx, cur'))
      else Some (mn, mid, cur))"

definition intsetSearch :: "intset \<Rightarrow> int \<Rightarrow> (bool \<times> u32) option" where
  "intsetSearch s value =
     (let mx = sint (is_length s - 1) in
      if is_length s = 0 then Some (False, 0)
      else do {
        hi \<leftarrow> u_intsetGet s mx;
        if value > hi then Some (False, is_length s)
        else do {
          lo \<leftarrow> u_intsetGet s 0;
          if value < lo then Some (False, 0)
          else do {
            (mn, mid, cur) \<leftarrow> intsetSearch_loop s value 0 mx (- 1) (- 1);
            if value = cur then Some (True, word_of_int mid)
            else Some (False, word_of_int mn)
          }
        }
      })"

text \<open>The loop of \<^verbatim>\<open>intsetUpgradeAndAdd\<close> that re-encodes the elements from the last to the first.\<close>

fun upgrade_loop :: "intset \<Rightarrow> int \<Rightarrow> u32 \<Rightarrow> nat \<Rightarrow> intset option" where
  "upgrade_loop s prepend curenc 0 = Some s"
| "upgrade_loop s prepend curenc (Suc n) =
     do {
       v \<leftarrow> u_intsetGetEncoded s (int n) curenc;
       s' \<leftarrow> u_intsetSet s (int n + prepend) v;
       upgrade_loop s' prepend curenc n
     }"

definition intsetUpgradeAndAdd :: "intset \<Rightarrow> int \<Rightarrow> intset option" where
  "intsetUpgradeAndAdd s value =
     (let curenc = is_encoding s;
          newenc = u_intsetValueEncoding value;
          len = sint (is_length s);
          prepend = (if value < 0 then 1 else 0)
      in if len < 0 then None
         else do {
           s1 \<leftarrow> intsetResize (s\<lparr>is_encoding := newenc\<rparr>) (is_length s + 1);
           s2 \<leftarrow> upgrade_loop s1 prepend curenc (nat len);
           s3 \<leftarrow> (if prepend \<noteq> 0 then u_intsetSet s2 0 value
                  else u_intsetSet s2 (sint (is_length s2)) value);
           Some (s3\<lparr>is_length := is_length s3 + 1\<rparr>)
         })"

definition intsetMoveTail :: "intset \<Rightarrow> u32 \<Rightarrow> u32 \<Rightarrow> intset option" where
  "intsetMoveTail s frm to =
     (let bytes = is_length s - frm;
          w = (if is_encoding s = INTSET_ENC_INT64 then 8
               else if is_encoding s = INTSET_ENC_INT32 then 4 else 2)
      in map_option (\<lambda>c. s\<lparr>is_contents := c\<rparr>)
           (mem_move (is_contents s) (w * unat to) (w * unat frm)
              (unat (bytes * (of_nat w :: u32)))))"

definition intsetAdd :: "intset \<Rightarrow> int \<Rightarrow> (intset \<times> bool) option" where
  "intsetAdd s value =
     (if u_intsetValueEncoding value > is_encoding s then
        map_option (\<lambda>s'. (s', True)) (intsetUpgradeAndAdd s value)
      else do {
        (found, pos) \<leftarrow> intsetSearch s value;
        if found then Some (s, False)
        else do {
          s1 \<leftarrow> intsetResize s (is_length s + 1);
          s2 \<leftarrow> (if pos < is_length s1 then intsetMoveTail s1 pos (pos + 1) else Some s1);
          s3 \<leftarrow> u_intsetSet s2 (sint pos) value;
          Some (s3\<lparr>is_length := is_length s3 + 1\<rparr>, True)
        }
      })"

definition intsetRemove :: "intset \<Rightarrow> int \<Rightarrow> (intset \<times> bool) option" where
  "intsetRemove s value =
     (if u_intsetValueEncoding value \<le> is_encoding s then do {
        (found, pos) \<leftarrow> intsetSearch s value;
        if found then do {
          let len = is_length s;
          s1 \<leftarrow> (if pos < len - 1 then intsetMoveTail s (pos + 1) pos else Some s);
          s2 \<leftarrow> intsetResize s1 (len - 1);
          Some (s2\<lparr>is_length := len - 1\<rparr>, True)
        } else Some (s, False)
      } else Some (s, False))"

definition intsetFind :: "intset \<Rightarrow> int \<Rightarrow> bool option" where
  "intsetFind s value =
     (if u_intsetValueEncoding value \<le> is_encoding s
      then map_option fst (intsetSearch s value) else Some False)"

text \<open>\<^verbatim>\<open>rand()\<close> is the argument \<open>r\<close>, a non-negative \<^verbatim>\<open>int\<close>.\<close>

definition intsetRandom :: "intset \<Rightarrow> nat \<Rightarrow> int option" where
  "intsetRandom s r =
     (let len = is_length s
      in if len = 0 then None else u_intsetGet s (int (r mod unat len)))"

definition intsetMax :: "intset \<Rightarrow> int option" where
  "intsetMax s = u_intsetGet s (sint (is_length s - 1))"

definition intsetMin :: "intset \<Rightarrow> int option" where
  "intsetMin s = u_intsetGet s 0"

text \<open>\<^verbatim>\<open>intsetGet\<close> returns 0 out of range (\<open>Some None\<close>) and 1 with the value otherwise.\<close>

definition intsetGet :: "intset \<Rightarrow> u32 \<Rightarrow> int option option" where
  "intsetGet s pos =
     (if pos < is_length s then map_option Some (u_intsetGet s (sint pos)) else Some None)"

definition intsetLen :: "intset \<Rightarrow> u32" where
  "intsetLen s = is_length s"

definition intsetBlobLen :: "intset \<Rightarrow> nat" where
  "intsetBlobLen s = sizeof_intset + unat (is_length s) * unat (is_encoding s)"

text \<open>A blob of bytes read as an intset: the two header fields and the bytes after them.\<close>

definition intset_of_blob :: "byte list \<Rightarrow> intset" where
  "intset_of_blob p =
     \<lparr>is_encoding = word_of_int (le_uint (take 4 p)),
      is_length = word_of_int (le_uint (take 4 (drop 4 p))),
      is_contents = drop 8 p\<rparr>"

fun validate_loop :: "intset \<Rightarrow> int \<Rightarrow> nat \<Rightarrow> nat \<Rightarrow> bool option" where
  "validate_loop s prev i 0 = Some True"
| "validate_loop s prev i (Suc n) =
     do {
       cur \<leftarrow> u_intsetGet s (sint (of_nat i :: u32));
       if cur \<le> prev then Some False else validate_loop s cur (Suc i) n
     }"

definition intsetValidateIntegrity :: "byte list \<Rightarrow> nat \<Rightarrow> bool \<Rightarrow> bool option" where
  "intsetValidateIntegrity p sz deep =
     (let s = intset_of_blob p;
          encoding = is_encoding s;
          count = unat (is_length s)
      in if sz < sizeof_intset then Some False
         else if encoding \<noteq> INTSET_ENC_INT64 \<and> encoding \<noteq> INTSET_ENC_INT32 \<and>
                 encoding \<noteq> INTSET_ENC_INT16 then Some False
         else if sizeof_intset + count * unat encoding \<noteq> sz then Some False
         else if count = 0 then Some False
         else if \<not> deep then Some True
         else do {
           prev \<leftarrow> u_intsetGet s 0;
           validate_loop s prev 1 (count - 1)
         })"

lemmas intset_enc_defs = INTSET_ENC_INT16_def INTSET_ENC_INT32_def INTSET_ENC_INT64_def

section \<open>Representation\<close>

text \<open>\<open>intset_rep s w xs\<close>: the block holds exactly the integers \<open>xs\<close>, in increasing order, \<open>w\<close> bytes each.\<close>

definition intset_rep :: "intset \<Rightarrow> nat \<Rightarrow> int list \<Rightarrow> bool" where
  "intset_rep s w xs \<longleftrightarrow>
     w \<in> {2, 4, 8} \<and> is_encoding s = of_nat w \<and> unat (is_length s) = length xs \<and>
     is_contents s = int_array w xs \<and> ssorted xs \<and> (\<forall>x \<in> set xs. fits w x)"

text \<open>Conversions between the 32-bit and the unbounded positions.\<close>

lemma sint_of_nat_u32: "n < 2 ^ 31 \<Longrightarrow> sint (of_nat n :: u32) = int n"
  by (simp add: signed_of_nat signed_take_bit_int_eq_self)

lemma sint_u32: "unat (x :: u32) < 2 ^ 31 \<Longrightarrow> sint x = int (unat x)"
  using sint_of_nat_u32 [of "unat x"] by simp

lemma unat_of_nat_u32: "n < 2 ^ 32 \<Longrightarrow> unat (of_nat n :: u32) = n"
  by (simp add: unat_of_nat)

lemma unat_pred_u32:
  assumes "0 < unat (x :: u32)"
  shows "unat (x - 1) = unat x - 1"
proof -
  have "1 \<le> x" using assms by (simp add: word_le_nat_alt)
  then show ?thesis by (simp add: unat_sub)
qed

lemma drop_bit1_of_nat_u32:
  assumes "n < 2 ^ 32"
  shows "drop_bit 1 (of_nat n :: u32) = of_nat (n div 2)"
proof -
  have "unat (drop_bit 1 (of_nat n :: u32)) = unat (of_nat (n div 2) :: u32)"
    using assms by (simp only: unsigned_drop_bit_eq) (simp add: drop_bit_eq_div unat_of_nat take_bit_nat_eq_self)
  then show ?thesis by (simp only: word_unat_eq_iff)
qed

lemma search_mid_eq:
  assumes "0 \<le> mn" and "mn \<le> mx" and "mx < 2 ^ 31"
  shows "search_mid mn mx = (mn + mx) div 2"
proof -
  obtain a b where ab: "mn = int a" "mx = int b"
    using assms by (metis nonneg_int_cases order_trans)
  have "(word_of_int mn + word_of_int mx :: u32) = of_nat (a + b)"
    by (simp add: ab)
  moreover have "a + b < 2 ^ 32" and "(a + b) div 2 < 2 ^ 31" using assms by (simp_all add: ab)
  ultimately show ?thesis
    by (simp only: search_mid_def drop_bit1_of_nat_u32 sint_of_nat_u32) (simp add: ab zdiv_int)
qed

text \<open>The width that \<^verbatim>\<open>_intsetValueEncoding\<close> chooses is the least of the three that holds the value.\<close>

lemma valueEncoding_fits:
  assumes "is_int64 v" and "w \<in> {2, 4, 8}"
  shows "u_intsetValueEncoding v \<le> of_nat w \<longleftrightarrow> fits w v"
  using assms by (auto simp: u_intsetValueEncoding_def intset_enc_defs fits_def)

lemma valueEncoding_cases:
  "is_int64 v \<Longrightarrow> \<exists>w \<in> {2, 4, 8}. u_intsetValueEncoding v = of_nat w \<and> fits w v"
  by (auto simp: u_intsetValueEncoding_def intset_enc_defs fits_def)

subsection \<open>Element access\<close>

lemma getEncoded_array:
  assumes "is_contents s = int_array w xs @ rest" and "w \<in> {2, 4, 8}"
    and "\<forall>x \<in> set xs. fits w x" and "i < length xs"
  shows "u_intsetGetEncoded s (int i) (of_nat w) = Some (xs ! i)"
proof -
  have "fits w (xs ! i)" using assms by simp
  with assms show ?thesis
    by (auto simp: u_intsetGetEncoded_def intset_enc_defs mem_simps byte_simps)
qed

lemma set_array:
  assumes "is_contents s = int_array w xs @ rest" and "w \<in> {2, 4, 8}"
    and "is_encoding s = of_nat w" and "i < length xs"
  shows "u_intsetSet s (int i) v = Some (s\<lparr>is_contents := int_array w (xs[i := v]) @ rest\<rparr>)"
  using assms by (auto simp: u_intsetSet_def intset_enc_defs mem_simps)

lemma rep_get:
  assumes "intset_rep s w xs" and "i < length xs"
  shows "u_intsetGet s (int i) = Some (xs ! i)"
  using getEncoded_array [of s w xs "[]" i] assms
  by (simp add: intset_rep_def u_intsetGet_def)

lemma rep_length_word: "intset_rep s w xs \<Longrightarrow> is_length s = of_nat (length xs)"
  by (metis intset_rep_def of_nat_unat ucast_id)

subsection \<open>Binary search\<close>

text \<open>\<open>search_result\<close> is what the search finds: the position of the value, or where to insert it.\<close>

definition search_result :: "int list \<Rightarrow> int \<Rightarrow> bool \<Rightarrow> nat \<Rightarrow> bool" where
  "search_result xs v found i \<longleftrightarrow>
     (if found then i < length xs \<and> xs ! i = v
      else i \<le> length xs \<and> (\<forall>x \<in> set (take i xs). x < v) \<and> (\<forall>x \<in> set (drop i xs). v < x))"

lemma search_result_found: "search_result xs v found i \<Longrightarrow> found \<longleftrightarrow> v \<in> set xs"
proof (cases found)
  case False
  moreover assume "search_result xs v found i"
  ultimately have "v \<notin> set (take i xs @ drop i xs)"
    by (auto simp: search_result_def simp del: append_take_drop_id)
  with False show ?thesis by simp
qed (auto simp: search_result_def)

lemma search_result_absent:
  assumes "\<And>j. j < i \<Longrightarrow> xs ! j < v" and "\<And>j. i \<le> j \<Longrightarrow> j < length xs \<Longrightarrow> v < xs ! j"
    and "i \<le> length xs"
  shows "search_result xs v False i"
  using assms by (auto simp: search_result_def in_set_conv_nth)

text \<open>\<open>search_exit\<close> is what the loop has established when it is left with \<^verbatim>\<open>(min, mid, cur)\<close>.\<close>

definition search_exit :: "int list \<Rightarrow> int \<Rightarrow> int \<times> int \<times> int \<Rightarrow> bool" where
  "search_exit xs v = (\<lambda>(mn, mid, cur). 0 \<le> mn \<and>
     (if cur = v then 0 \<le> mid \<and> search_result xs v True (nat mid)
      else search_result xs v False (nat mn)))"

lemma search_loop:
  assumes rep: "intset_rep s w xs" and sz: "length xs < 2 ^ 31"
    and "0 \<le> mn" and "mx < int (length xs)" and "mn \<le> mx + 1"
    and below: "\<And>j. int j < mn \<Longrightarrow> xs ! j < v"
    and above: "\<And>j. mx < int j \<Longrightarrow> j < length xs \<Longrightarrow> v < xs ! j"
    and out: "mx < mn \<Longrightarrow> cur \<noteq> v"
  shows "\<exists>r. intsetSearch_loop s v mn mx mid cur = Some r \<and> search_exit xs v r"
  using assms(3-)
proof (induction "nat (mx + 1 - mn)" arbitrary: mn mx mid cur rule: less_induct)
  case less
  show ?case
  proof (cases "mn \<le> mx")
    case False
    have "search_result xs v False (nat mn)"
      using less.prems False by (intro search_result_absent) auto
    with False less.prems show ?thesis
      by (auto simp: intsetSearch_loop.simps [of s v mn mx mid cur] search_exit_def)
  next
    case True
    define m where "m = (mn + mx) div 2"
    have mid: "search_mid mn mx = m" and m: "mn \<le> m" "m \<le> mx"
      using less.prems True sz by (auto simp: m_def search_mid_eq)
    have mi: "nat m < length xs" and m0: "0 \<le> m" using m less.prems by auto
    have get: "u_intsetGet s m = Some (xs ! nat m)"
      using rep_get [OF rep mi] m0 by simp
    have mono: "xs ! j < xs ! k" if "j < k" "k < length xs" for j k
      using rep that by (auto simp: intset_rep_def intro: sorted_wrt_nth_less)
    note unfold = intsetSearch_loop.simps [of s v mn mx mid cur] mid get True
    consider "xs ! nat m < v" | "v < xs ! nat m" | "xs ! nat m = v" by linarith
    then show ?thesis
    proof cases
      case 1
      have "\<exists>r. intsetSearch_loop s v (m + 1) mx m (xs ! nat m) = Some r \<and> search_exit xs v r"
      proof (rule less.hyps)
        show "xs ! j < v" if "int j < m + 1" for j
        proof (cases "j < nat m")
          case True
          with mono [OF this mi] 1 show ?thesis by simp
        next
          case False
          with that have "j = nat m" by simp
          with 1 show ?thesis by simp
        qed
      qed (use less.prems m 1 in auto)
      with 1 show ?thesis by (simp add: unfold)
    next
      case 2
      have "\<exists>r. intsetSearch_loop s v mn (m - 1) m (xs ! nat m) = Some r \<and> search_exit xs v r"
      proof (rule less.hyps)
        show "v < xs ! j" if "m - 1 < int j" "j < length xs" for j
        proof (cases "nat m < j")
          case True
          with mono [OF this] that 2 show ?thesis by simp
        next
          case False
          with that m0 have "j = nat m" by simp
          with 2 show ?thesis by simp
        qed
      qed (use less.prems m 2 in auto)
      with 2 show ?thesis by (simp add: unfold)
    next
      case 3
      with mi m0 less.prems show ?thesis
        by (simp add: unfold search_exit_def search_result_def)
    qed
  qed
qed

lemma intsetSearch_rep:
  assumes rep: "intset_rep s w xs" and sz: "length xs < 2 ^ 31"
  shows "\<exists>i. intsetSearch s v = Some (v \<in> set xs, of_nat i) \<and> search_result xs v (v \<in> set xs) i"
proof (cases "xs = []")
  case True
  with rep show ?thesis
    by (simp add: intsetSearch_def search_result_def intset_rep_def unat_eq_0 exI [of _ 0])
next
  case False
  then have pos: "0 < unat (is_length s)" and len: "unat (is_length s) = length xs"
    using rep by (auto simp: intset_rep_def)
  define n where "n = length xs - 1"
  have n: "n < length xs" using False by (simp add: n_def)
  have mx: "sint (is_length s - 1) = int n"
    using sz n len pos unat_pred_u32 [OF pos] by (subst sint_u32) (auto simp: n_def)
  have nz: "is_length s \<noteq> 0" using pos by auto
  have hi: "u_intsetGet s (int n) = Some (xs ! n)" and lo: "u_intsetGet s 0 = Some (xs ! 0)"
    using rep_get [OF rep n] rep_get [OF rep, of 0] False by auto
  have mono: "xs ! j \<le> xs ! k" if "j \<le> k" "k < length xs" for j k
    using rep that by (auto simp: intset_rep_def le_less intro: sorted_wrt_nth_less)
  note unfold = intsetSearch_def mx nz hi lo
  consider "xs ! n < v" | "v \<le> xs ! n" "v < xs ! 0" | "v \<le> xs ! n" "xs ! 0 \<le> v" by linarith
  then show ?thesis
  proof cases
    case 1
    have "xs ! j < v" if "j < length xs" for j
    proof -
      from that have "j \<le> n" by (simp add: n_def)
      with mono [of j n] n 1 show ?thesis by linarith
    qed
    then have "search_result xs v False (length xs)"
      by (intro search_result_absent) auto
    moreover have "intsetSearch s v = Some (False, is_length s)"
      using 1 by (simp add: unfold Let_def)
    ultimately show ?thesis using search_result_found rep_length_word [OF rep] by metis
  next
    case 2
    then have "search_result xs v False 0"
      using mono [of 0] by (intro search_result_absent) force+
    moreover have "intsetSearch s v = Some (False, of_nat 0)"
      using 2 by (simp add: unfold Let_def)
    ultimately show ?thesis using search_result_found by metis
  next
    case 3
    have "\<exists>r. intsetSearch_loop s v 0 (int n) (- 1) (- 1) = Some r \<and> search_exit xs v r"
      using n by (intro search_loop [OF rep sz]) (auto simp: n_def)
    then obtain mn' mid' cur' where
      "intsetSearch_loop s v 0 (int n) (- 1) (- 1) = Some (mn', mid', cur')"
      "search_exit xs v (mn', mid', cur')"
      by auto
    with 3 search_result_found [of xs v True] search_result_found [of xs v False] show ?thesis
      by (cases "cur' = v") (auto simp: unfold search_exit_def intro: exI [of _ "nat mid'"] exI [of _ "nat mn'"])
  qed
qed

subsection \<open>Upgrading the encoding\<close>

lemma upgrade_loop_rep:
  assumes w: "w \<in> {2, 4, 8}" "w' \<in> {2, 4, 8}" "w < w'" and fit: "\<forall>x \<in> set xs. fits w x"
    and "n \<le> length xs" and "is_encoding s = of_nat w'"
    and "is_contents s = pre @ int_array w' (drop n xs) @ rest"
    and "length pre = w' * (n + p)" and "take (w * n) pre = int_array w (take n xs)"
  shows "\<exists>pre'. upgrade_loop s (int p) (of_nat w) n =
            Some (s\<lparr>is_contents := pre' @ int_array w' xs @ rest\<rparr>) \<and> length pre' = w' * p"
  using assms(5-)
proof (induction n arbitrary: s pre)
  case 0
  then show ?case by (intro exI [of _ pre]) (cases s, simp)
next
  case (Suc n)
  note prems = Suc.prems
  have le: "w * Suc n \<le> length pre"
    unfolding prems(4) using w(3) by (intro mult_le_mono) auto
  have pre: "pre = int_array w (take (Suc n) xs) @ drop (w * Suc n) pre"
    using prems(5) by (metis append_take_drop_id)
  have get: "u_intsetGetEncoded s (int n) (of_nat w) = Some (xs ! n)"
    using getEncoded_array [of s w "take (Suc n) xs"
        "drop (w * Suc n) pre @ int_array w' (drop (Suc n) xs) @ rest" n] prems w fit pre
    by (auto dest: in_set_takeD)
  define pre' where "pre' = take (w' * (n + p)) pre"
  have cut: "pre = pre' @ drop (w' * (n + p)) pre" by (simp add: pre'_def)
  have len': "length pre' = w' * (n + p)" using prems(4) by (simp add: pre'_def)
  have lenc: "length (drop (w' * (n + p)) pre) = w'" using prems(4) by simp
  have wr: "mem_write (is_contents s) (w' * (n + p)) (le_bytes w' (xs ! n)) =
        Some (pre' @ le_bytes w' (xs ! n) @ int_array w' (drop (Suc n) xs) @ rest)"
    using mem_write_append [of pre' "w' * (n + p)" "drop (w' * (n + p)) pre" "le_bytes w' (xs ! n)"
        "int_array w' (drop (Suc n) xs) @ rest"] cut len' lenc prems(3)
    by (metis append.assoc length_le_bytes)
  have drop: "int_array w' (drop n xs) = le_bytes w' (xs ! n) @ int_array w' (drop (Suc n) xs)"
    using prems(1) by (simp add: Cons_nth_drop_Suc [symmetric])
  let ?s' = "s\<lparr>is_contents := pre' @ int_array w' (drop n xs) @ rest\<rparr>"
  have set: "u_intsetSet s (int n + int p) (xs ! n) = Some ?s'"
    using wr w(2) prems(2) drop
    by (auto simp: u_intsetSet_def intset_enc_defs nat_int_add simp flip: of_nat_add)
  have "take (w * n) pre' = take (w * n) (take (w * Suc n) pre)"
    using w(3) by (simp add: pre'_def min_def mult_le_mono)
  also have "\<dots> = int_array w (take n xs)"
    using prems(1,5) by (simp add: take_Suc_conv_app_nth)
  finally have "\<exists>pre''. upgrade_loop ?s' (int p) (of_nat w) n =
            Some (?s'\<lparr>is_contents := pre'' @ int_array w' xs @ rest\<rparr>) \<and> length pre'' = w' * p"
    using prems len' by (intro Suc.IH [of ?s' pre']) auto
  then show ?case by (simp add: get set)
qed

lemma upgradeAndAdd_rep:
  assumes rep: "intset_rep s w xs" and sz: "Suc (length xs) < 2 ^ 29" and v: "is_int64 v"
    and up: "\<not> fits w v"
  shows "\<exists>s' w'. intsetUpgradeAndAdd s v = Some s' \<and>
           intset_rep s' w' (if v < 0 then v # xs else xs @ [v])"
proof -
  obtain w' where w': "w' \<in> {2, 4, 8}" and enc: "u_intsetValueEncoding v = of_nat w'"
    and fit': "fits w' v"
    using valueEncoding_cases [OF v] by blast
  from rep have w: "w \<in> {2, 4, 8}" and c: "is_contents s = int_array w xs"
    and len: "unat (is_length s) = length xs" and fit: "\<forall>x \<in> set xs. fits w x"
    and srt: "ssorted xs"
    by (auto simp: intset_rep_def)
  have ww: "w < w'" using up fit' fits_mono [of w' v w] by (meson not_le)
  have len1: "unat (is_length s + 1) = Suc (length xs)"
    using len sz by (simp add: unat_word_ariths)
  have slen: "sint (is_length s) = int (length xs)" using len sz by (simp add: sint_u32)
  define p where "p = (if v < 0 then 1 else 0 :: nat)"
  let ?b = "zrealloc (is_contents s) (Suc (length xs) * w')"
  let ?s1 = "s\<lparr>is_encoding := of_nat w', is_contents := ?b\<rparr>"
  have uw': "unat (of_nat w' :: u32) = w'" using w' by auto
  have small: "Suc (length xs) * w' \<le> SIZE_MAX - sizeof_intset"
    using sz w' by (auto simp: SIZE_MAX_def sizeof_intset_def)
  have rs: "intsetResize (s\<lparr>is_encoding := of_nat w'\<rparr>) (is_length s + 1) = Some ?s1"
    using len1 uw' small by (simp add: intsetResize_def)
  define pre where "pre = take (w' * (length xs + p)) ?b"
  define rest where "rest = drop (w' * (length xs + p)) ?b"
  have "w * length xs \<le> w' * (length xs + p)" "w * length xs \<le> w' * Suc (length xs)"
    using ww by (intro mult_le_mono; simp)+
  then have "take (w * length xs) pre = int_array w xs"
    using c by (simp add: pre_def zrealloc_def min_def mult.commute [of w'])
  moreover have "length pre = w' * (length xs + p)" by (simp add: pre_def p_def)
  ultimately obtain pre' where
    loop: "upgrade_loop ?s1 (int p) (of_nat w) (length xs) =
             Some (?s1\<lparr>is_contents := pre' @ int_array w' xs @ rest\<rparr>)"
    and pre': "length pre' = w' * p"
    using upgrade_loop_rep [of w w' xs "length xs" ?s1 pre rest p] w w' ww fit
    by (auto simp: pre_def rest_def)
  let ?s2 = "?s1\<lparr>is_contents := pre' @ int_array w' xs @ rest\<rparr>"
  have rest: "length rest = w' * (1 - p)" by (simp add: rest_def p_def)
  let ?ys = "if v < 0 then v # xs else xs @ [v]"
  have wr: "mem_write (is_contents ?s2) (w' * (if p = 0 then length xs else 0)) (le_bytes w' v) =
          Some (int_array w' ?ys)"
    using mem_write_append [of "int_array w' xs" "w' * length xs" rest "le_bytes w' v" "[]"]
      mem_write_append [of "[]" 0 pre' "le_bytes w' v" "int_array w' xs"] pre' rest
    by (auto simp: p_def)
  have set: "(if int p \<noteq> 0 then u_intsetSet ?s2 0 v else u_intsetSet ?s2 (sint (is_length ?s2)) v) =
          Some (?s2\<lparr>is_contents := int_array w' ?ys\<rparr>)"
    using wr w' slen by (auto simp: u_intsetSet_def intset_enc_defs p_def split: if_splits)
  let ?s' = "?s2\<lparr>is_contents := int_array w' ?ys, is_length := is_length s + 1\<rparr>"
  have "intsetUpgradeAndAdd s v = Some ?s'"
    using rs loop set slen rep enc
    by (simp add: intsetUpgradeAndAdd_def Let_def intset_rep_def p_def split: if_splits)
  moreover have "ssorted ?ys"
    using srt up fit by (auto simp: sorted_wrt_append fits_def)
  then have "intset_rep ?s' w' ?ys"
    using w' len1 fit fit' ww by (auto simp: intset_rep_def intro: fits_mono [of w])
  ultimately show ?thesis by blast
qed

subsection \<open>Insertion and deletion in place\<close>

lemma int_array_drop: "drop (w * i) (int_array w xs) = int_array w (drop i xs)"
proof (cases "i \<le> length xs")
  case True
  then have "int_array w xs = int_array w (take i xs) @ int_array w (drop i xs)"
    by (metis append_take_drop_id int_array_append)
  with True show ?thesis by simp
qed simp

lemma int_array_take: "take (w * i) (int_array w xs) = int_array w (take i xs)"
proof (cases "i \<le> length xs")
  case True
  then have "int_array w xs = int_array w (take i xs) @ int_array w (drop i xs)"
    by (metis append_take_drop_id int_array_append)
  with True show ?thesis by simp
qed simp

text \<open>Moving the tail of the array by one element, up (\<open>gap\<close> is the freshly allocated slot) or down.\<close>

lemma mem_move_up:
  assumes "i \<le> length xs" and "length gap = w"
  shows "\<exists>gap'. mem_move (int_array w xs @ gap) (w * Suc i) (w * i) (w * (length xs - i)) =
           Some (int_array w (take i xs) @ gap' @ int_array w (drop i xs)) \<and> length gap' = w"
proof -
  let ?b = "int_array w xs @ gap"
  have split: "?b = int_array w (take i xs) @ int_array w (drop i xs) @ gap"
    by (metis append.assoc append_take_drop_id int_array_append)
  have rd: "mem_read ?b (w * i) (w * (length xs - i)) = Some (int_array w (drop i xs))"
    unfolding split using assms(1) by (intro mem_read_append) auto
  define u where "u = take (w * Suc i) ?b"
  have "take (w * i) u = int_array w (take i xs)"
    using assms(1) by (simp add: u_def min_def int_array_take)
  then have u: "u = int_array w (take i xs) @ drop (w * i) u" by (metis append_take_drop_id)
  have "w * Suc i \<le> length ?b" using assms mult_le_mono2 [of i "length xs" w] by simp
  then have lu: "length u = w * Suc i" unfolding u_def by (simp only: length_take min.absorb2)
  have "mem_write (u @ drop (w * Suc i) ?b) (w * Suc i) (int_array w (drop i xs)) =
          Some (u @ int_array w (drop i xs))"
    using mem_write_append [of u "w * Suc i" "drop (w * Suc i) ?b" "int_array w (drop i xs)" "[]"]
      lu assms by (simp add: diff_mult_distrib2)
  then have "mem_write ?b (w * Suc i) (int_array w (drop i xs)) = Some (u @ int_array w (drop i xs))"
    by (simp only: u_def append_take_drop_id)
  with rd u lu show ?thesis
    by (intro exI [of _ "drop (w * i) u"]) (simp add: mem_move_def)
qed

lemma mem_move_down:
  assumes "i < length xs"
  shows "\<exists>gap'. mem_move (int_array w xs) (w * i) (w * Suc i) (w * (length xs - Suc i)) =
           Some (int_array w (take i xs @ drop (Suc i) xs) @ gap') \<and> length gap' = w"
proof -
  let ?b = "int_array w xs" and ?t = "int_array w (drop (Suc i) xs)"
  have split: "?b = int_array w (take (Suc i) xs) @ ?t"
    by (metis append_take_drop_id int_array_append)
  have rd: "mem_read ?b (w * Suc i) (w * (length xs - Suc i)) = Some ?t"
    using mem_read_append [of "int_array w (take (Suc i) xs)" "w * Suc i" ?t
        "w * (length xs - Suc i)" "[]"] assms split
    by (simp add: min.absorb2 Suc_leI)
  have "length (drop (w * i) ?b) = w + length ?t"
    using assms by (simp add: Suc_diff_Suc flip: diff_mult_distrib2 add_mult_distrib2 mult_Suc_right)
  then obtain m g where d: "drop (w * i) ?b = m @ g" "length m = length ?t" "length g = w"
    by (metis append_take_drop_id diff_add_inverse2 le_add2 length_drop length_take min.absorb2)
  have "?b = int_array w (take i xs) @ m @ g"
    using d by (metis append_take_drop_id int_array_take)
  then have "mem_write ?b (w * i) ?t = Some (int_array w (take i xs) @ ?t @ g)"
    using mem_write_append [of "int_array w (take i xs)" "w * i" m ?t g] d assms by (simp add: min_def)
  with rd d show ?thesis by (intro exI [of _ g]) (simp add: mem_move_def)
qed

lemma width_select:
  "w \<in> {2, 4, 8} \<Longrightarrow>
   (if of_nat w = INTSET_ENC_INT64 then 8 else if of_nat w = INTSET_ENC_INT32 then 4 else 2) = w"
  by (auto simp: intset_enc_defs)

lemma moveTail_bytes:
  assumes "w \<in> {2, 4, 8}" and "unat len < 2 ^ 29" and "i \<le> unat len"
  shows "unat ((len - of_nat i) * (of_nat w :: u32)) = w * (unat len - i)"
proof -
  have "unat (len - of_nat i) = unat len - i"
    using assms(2,3) by (subst unat_sub) (auto simp: word_le_nat_alt unat_of_nat_u32)
  moreover have "unat len * 8 < 2 ^ 32" and "(unat len - i) * w \<le> unat len * 8"
    using assms by (auto intro: mult_le_mono)
  moreover have "unat (of_nat w :: u32) = w" using assms(1) by auto
  ultimately show ?thesis by (simp add: unat_word_ariths mult.commute)
qed

lemma intsetMoveTail_eq:
  assumes "w \<in> {2, 4, 8}" and "is_encoding s = of_nat w"
    and "unat (is_length s) < 2 ^ 29" and "unat frm \<le> unat (is_length s)"
  shows "intsetMoveTail s frm to = map_option (\<lambda>c. s\<lparr>is_contents := c\<rparr>)
           (mem_move (is_contents s) (w * unat to) (w * unat frm) (w * (unat (is_length s) - unat frm)))"
proof -
  have "unat ((is_length s - frm) * (of_nat w :: u32)) = w * (unat (is_length s) - unat frm)"
    using moveTail_bytes [OF assms(1,3,4)] by simp
  then show ?thesis
    by (simp only: intsetMoveTail_def Let_def assms(2) width_select [OF assms(1)])
qed

lemma resize_rep:
  assumes "intset_rep s w xs" and "unat len < 2 ^ 32"
  shows "intsetResize s len = Some (s\<lparr>is_contents := zrealloc (int_array w xs) (w * unat len)\<rparr>)"
proof -
  have "unat (is_encoding s) = w" using assms(1) by (auto simp: intset_rep_def)
  moreover from this assms(1) have "unat len * w \<le> unat len * 8"
    by (auto simp: intset_rep_def intro: mult_le_mono)
  then have "unat len * w \<le> SIZE_MAX - sizeof_intset"
    by (rule order_trans) (use assms(2) in \<open>simp add: SIZE_MAX_def sizeof_intset_def\<close>)
  ultimately show ?thesis
    using assms(1) by (simp add: intsetResize_def intset_rep_def mult.commute)
qed

lemma intsetAdd_in_place:
  assumes rep: "intset_rep s w xs" and sz: "Suc (length xs) < 2 ^ 29" and v: "is_int64 v" "fits w v"
    and i: "search_result xs v False i" and srch: "intsetSearch s v = Some (False, of_nat i)"
  shows "\<exists>s'. intsetAdd s v = Some (s', True) \<and> intset_rep s' w (take i xs @ v # drop i xs)"
proof -
  from rep have w: "w \<in> {2, 4, 8}" and enc: "is_encoding s = of_nat w"
    and len: "unat (is_length s) = length xs" and fit: "\<forall>x \<in> set xs. fits w x" and srt: "ssorted xs"
    by (auto simp: intset_rep_def)
  have il: "i \<le> length xs" using i by (simp add: search_result_def)
  have i32: "unat (of_nat i :: u32) = i" "unat (of_nat i + 1 :: u32) = Suc i"
    "sint (of_nat i :: u32) = int i"
    using il sz by (simp_all add: unat_of_nat_u32 sint_of_nat_u32 unat_word_ariths)
  have len1: "unat (is_length s + 1) = Suc (length xs)"
    using len sz by (simp add: unat_word_ariths)
  let ?s1 = "s\<lparr>is_contents := int_array w xs @ replicate w 0\<rparr>"
  have rs: "intsetResize s (is_length s + 1) = Some ?s1"
    using resize_rep [OF rep, of "is_length s + 1"] len1 sz by (simp add: zrealloc_def)
  have "\<exists>gap. (if of_nat i < is_length ?s1 then intsetMoveTail ?s1 (of_nat i) (of_nat i + 1)
                 else Some ?s1) =
          Some (s\<lparr>is_contents := int_array w (take i xs) @ gap @ int_array w (drop i xs)\<rparr>) \<and>
          length gap = w"
  proof (cases "i < length xs")
    case True
    then have "of_nat i < is_length s" using len i32 by (simp add: word_less_nat_alt)
    moreover have "intsetMoveTail ?s1 (of_nat i) (of_nat i + 1) = map_option (\<lambda>c. s\<lparr>is_contents := c\<rparr>)
        (mem_move (int_array w xs @ replicate w 0) (w * Suc i) (w * i) (w * (length xs - i)))"
      using intsetMoveTail_eq [OF w, of ?s1 "of_nat i" "of_nat i + 1"] enc len il sz i32 by simp
    ultimately show ?thesis
      using mem_move_up [OF il, of "replicate w 0" w] by auto
  next
    case False
    with il len i32 show ?thesis
      by (intro exI [of _ "replicate w 0"]) (simp add: word_less_nat_alt)
  qed
  then obtain gap where
    mv: "(if of_nat i < is_length ?s1 then intsetMoveTail ?s1 (of_nat i) (of_nat i + 1) else Some ?s1) =
          Some (s\<lparr>is_contents := int_array w (take i xs) @ gap @ int_array w (drop i xs)\<rparr>)"
    and gap: "length gap = w" by blast
  let ?s2 = "s\<lparr>is_contents := int_array w (take i xs) @ gap @ int_array w (drop i xs)\<rparr>"
  let ?ys = "take i xs @ v # drop i xs"
  have "mem_write (is_contents ?s2) (w * i) (le_bytes w v) = Some (int_array w ?ys)"
    using mem_write_append [of "int_array w (take i xs)" "w * i" gap "le_bytes w v"] gap il by simp
  then have set: "u_intsetSet ?s2 (int i) v = Some (?s2\<lparr>is_contents := int_array w ?ys\<rparr>)"
    using w enc by (auto simp: u_intsetSet_def intset_enc_defs)
  let ?s' = "s\<lparr>is_contents := int_array w ?ys, is_length := is_length s + 1\<rparr>"
  have "\<not> is_encoding s < u_intsetValueEncoding v"
    using valueEncoding_fits [OF v(1) w] v(2) enc by simp
  then have "intsetAdd s v = Some (?s', True)"
    using rs mv set srch i32 by (simp add: intsetAdd_def)
  moreover have "ssorted ?ys"
    using ssorted_insert_at [OF srt] i by (simp add: search_result_def)
  then have "intset_rep ?s' w ?ys"
    using w enc len1 fit v(2) il by (auto simp: intset_rep_def dest: in_set_takeD in_set_dropD)
  ultimately show ?thesis by blast
qed

lemma intsetAdd_rep:
  assumes rep: "intset_rep s w xs" and sz: "Suc (length xs) < 2 ^ 29" and v: "is_int64 v"
  shows "\<exists>s' w' ys. intsetAdd s v = Some (s', v \<notin> set xs) \<and> intset_rep s' w' ys \<and>
           set ys = insert v (set xs)"
proof (cases "fits w v")
  case False
  then have "v \<notin> set xs" "is_encoding s < u_intsetValueEncoding v"
    using rep valueEncoding_fits [OF v, of w] by (auto simp: intset_rep_def not_le)
  moreover obtain s' w' where "intsetUpgradeAndAdd s v = Some s'"
    "intset_rep s' w' (if v < 0 then v # xs else xs @ [v])"
    using upgradeAndAdd_rep [OF rep sz v False] by blast
  moreover have "set (if v < 0 then v # xs else xs @ [v]) = insert v (set xs)" by simp
  ultimately show ?thesis
    by (intro exI [of _ s'] exI [of _ w'] exI conjI) (auto simp: intsetAdd_def)
next
  case True
  obtain i where srch: "intsetSearch s v = Some (v \<in> set xs, of_nat i)"
    and i: "search_result xs v (v \<in> set xs) i"
    using intsetSearch_rep [OF rep] sz by auto
  show ?thesis
  proof (cases "v \<in> set xs")
    case True
    then have "\<not> is_encoding s < u_intsetValueEncoding v"
      using rep valueEncoding_fits [OF v, of w] by (auto simp: intset_rep_def not_less)
    with True srch rep show ?thesis by (auto simp: intsetAdd_def)
  next
    case False
    with srch i have "intsetSearch s v = Some (False, of_nat i)" "search_result xs v False i" by auto
    from intsetAdd_in_place [OF rep sz v True this(2,1)] obtain s' where
      "intsetAdd s v = Some (s', True)" "intset_rep s' w (take i xs @ v # drop i xs)" by blast
    with False set_insert_at [of i xs v] show ?thesis by metis
  qed
qed

lemma intsetRemove_found:
  assumes rep: "intset_rep s w xs" and sz: "length xs < 2 ^ 29" and v: "is_int64 v"
    and i: "i < length xs" "xs ! i = v" and srch: "intsetSearch s v = Some (True, of_nat i)"
  shows "\<exists>s'. intsetRemove s v = Some (s', True) \<and> intset_rep s' w (take i xs @ drop (Suc i) xs)"
proof -
  from rep have w: "w \<in> {2, 4, 8}" and enc: "is_encoding s = of_nat w"
    and c: "is_contents s = int_array w xs"
    and len: "unat (is_length s) = length xs" and fit: "\<forall>x \<in> set xs. fits w x" and srt: "ssorted xs"
    by (auto simp: intset_rep_def)
  have len1: "unat (is_length s - 1) = length xs - 1"
    using unat_pred_u32 [of "is_length s"] len i(1) by linarith
  have i32: "unat (of_nat i :: u32) = i" "unat (of_nat i + 1 :: u32) = Suc i"
    using i sz by (simp_all add: unat_of_nat_u32 unat_word_ariths)
  let ?ys = "take i xs @ drop (Suc i) xs"
  have lys: "length ?ys = length xs - 1" using i by simp
  have "\<exists>gap. (if of_nat i < is_length s - 1 then intsetMoveTail s (of_nat i + 1) (of_nat i)
                 else Some s) =
          Some (s\<lparr>is_contents := int_array w ?ys @ gap\<rparr>)"
  proof (cases "Suc i < length xs")
    case True
    then have "of_nat i < is_length s - 1" using len1 i32 by (simp add: word_less_nat_alt)
    moreover have "intsetMoveTail s (of_nat i + 1) (of_nat i) = map_option (\<lambda>c. s\<lparr>is_contents := c\<rparr>)
        (mem_move (int_array w xs) (w * i) (w * Suc i) (w * (length xs - Suc i)))"
      using intsetMoveTail_eq [OF w, of s "of_nat i + 1" "of_nat i"] enc len sz i32 c True by simp
    ultimately show ?thesis
      using mem_move_down [OF i(1), of w] by auto
  next
    case False
    then have "\<not> of_nat i < is_length s - 1" and ii: "i = length xs - 1"
      using len1 i32 i by (auto simp: word_less_nat_alt)
    moreover have "xs = ?ys @ [v]"
      using i ii id_take_nth_drop [OF i(1)] by simp
    then have "is_contents s = int_array w ?ys @ le_bytes w v"
      using c by (metis append_Nil2 int_array_Cons int_array_Nil int_array_append)
    ultimately show ?thesis by (intro exI [of _ "le_bytes w v"]) (cases s, simp)
  qed
  then obtain gap where
    mv: "(if of_nat i < is_length s - 1 then intsetMoveTail s (of_nat i + 1) (of_nat i) else Some s) =
          Some (s\<lparr>is_contents := int_array w ?ys @ gap\<rparr>)" by blast
  let ?s' = "s\<lparr>is_contents := int_array w ?ys, is_length := is_length s - 1\<rparr>"
  have "zrealloc (int_array w ?ys @ gap) (w * (length xs - 1)) = int_array w ?ys"
    by (rule zrealloc_prefix) (simp only: length_int_array lys)
  moreover have "unat (is_encoding s) = w" using w enc by auto
  moreover have "(length xs - 1) * w \<le> 2 ^ 29 * 8" using sz w by (intro mult_le_mono) auto
  ultimately have rs: "intsetResize (s\<lparr>is_contents := int_array w ?ys @ gap\<rparr>) (is_length s - 1) =
        Some (s\<lparr>is_contents := int_array w ?ys\<rparr>)"
    using len1 by (simp add: intsetResize_def SIZE_MAX_def sizeof_intset_def mult.commute)
  have "v \<in> set xs" using i by auto
  then have "u_intsetValueEncoding v \<le> is_encoding s"
    using valueEncoding_fits [OF v w] fit enc by simp
  then have "intsetRemove s v = Some (?s', True)"
    using srch mv rs by (simp add: intsetRemove_def Let_def)
  moreover have "intset_rep ?s' w ?ys"
    using w enc len1 lys fit ssorted_remove_at [OF srt, of i]
    by (auto simp: intset_rep_def dest: in_set_takeD in_set_dropD)
  ultimately show ?thesis by blast
qed

lemma intsetRemove_rep:
  assumes rep: "intset_rep s w xs" and sz: "length xs < 2 ^ 29" and v: "is_int64 v"
  shows "\<exists>s' ys. intsetRemove s v = Some (s', v \<in> set xs) \<and> intset_rep s' w ys \<and>
           set ys = set xs - {v}"
proof -
  obtain i where srch: "intsetSearch s v = Some (v \<in> set xs, of_nat i)"
    and i: "search_result xs v (v \<in> set xs) i"
    using intsetSearch_rep [OF rep] sz by auto
  show ?thesis
  proof (cases "v \<in> set xs")
    case True
    with i have "i < length xs" "xs ! i = v" by (auto simp: search_result_def)
    moreover from this obtain s' where
      "intsetRemove s v = Some (s', True)" "intset_rep s' w (take i xs @ drop (Suc i) xs)"
      using intsetRemove_found [OF rep sz v, of i] srch True by auto
    moreover have "distinct xs" using rep by (simp add: intset_rep_def ssorted_distinct)
    ultimately show ?thesis using set_remove_at [of xs i] True by metis
  next
    case False
    then have "intsetRemove s v = Some (s, False)" using srch by (simp add: intsetRemove_def)
    with False rep show ?thesis by auto
  qed
qed

lemma intsetFind_rep:
  assumes rep: "intset_rep s w xs" and sz: "length xs < 2 ^ 31" and v: "is_int64 v"
  shows "intsetFind s v = Some (v \<in> set xs)"
proof -
  have w: "w \<in> {2, 4, 8}" and "is_encoding s = of_nat w" using rep by (auto simp: intset_rep_def)
  moreover obtain i where "intsetSearch s v = Some (v \<in> set xs, of_nat i)"
    using intsetSearch_rep [OF rep sz] by auto
  moreover have "v \<notin> set xs" if "\<not> fits w v" using that rep by (auto simp: intset_rep_def)
  ultimately show ?thesis using valueEncoding_fits [OF v w] by (auto simp: intsetFind_def)
qed

section \<open>Invariant and refinement of finite sets\<close>

text \<open>The abstraction: the integers in the block, and the set of them. The invariant is executable.\<close>

definition intset_list :: "intset \<Rightarrow> int list" where
  "intset_list s = ints_of (unat (is_encoding s)) (unat (is_length s)) (is_contents s)"

definition intset_set :: "intset \<Rightarrow> int set" where
  "intset_set s = set (intset_list s)"

definition intset_ok :: "intset \<Rightarrow> bool" where
  "intset_ok s \<longleftrightarrow>
     is_encoding s \<in> {INTSET_ENC_INT16, INTSET_ENC_INT32, INTSET_ENC_INT64} \<and>
     length (is_contents s) = unat (is_encoding s) * unat (is_length s) \<and>
     ssorted (intset_list s)"

lemma intset_ok_rep: "intset_ok s \<Longrightarrow> intset_rep s (unat (is_encoding s)) (intset_list s)"
  by (auto simp: intset_ok_def intset_rep_def intset_list_def intset_enc_defs int_array_ints_of
      dest: ints_of_fits [rotated 2])

lemma intset_rep_ok: "intset_rep s w xs \<Longrightarrow> intset_ok s \<and> intset_list s = xs"
  by (auto simp: intset_ok_def intset_rep_def intset_list_def intset_enc_defs ints_of_int_array)

lemma card_intset_set: "intset_ok s \<Longrightarrow> card (intset_set s) = unat (is_length s)"
  by (simp add: intset_set_def intset_ok_def ssorted_distinct distinct_card)
     (simp add: intset_list_def)

lemma intset_new_ok: "intset_ok intsetNew \<and> intset_set intsetNew = {}"
  by (simp add: intset_ok_def intsetNew_def intset_set_def intset_list_def)

text \<open>The largest size for which every byte count of \<^verbatim>\<open>intsetMoveTail\<close> fits in its 32 bits.\<close>

definition INTSET_SAFE_ENTRIES :: nat where
  "INTSET_SAFE_ENTRIES = 2 ^ 29 - 2"

lemma intsetAdd_ok:
  assumes "intset_ok s" and "card (intset_set s) < INTSET_SAFE_ENTRIES" and "is_int64 v"
  shows "\<exists>s'. intsetAdd s v = Some (s', v \<notin> intset_set s) \<and> intset_ok s' \<and>
           intset_set s' = insert v (intset_set s)"
proof -
  have "length (intset_list s) = unat (is_length s)" by (simp add: intset_list_def)
  with assms have "Suc (length (intset_list s)) < 2 ^ 29"
    by (simp add: card_intset_set INTSET_SAFE_ENTRIES_def)
  from intsetAdd_rep [OF intset_ok_rep [OF assms(1)] this assms(3)] show ?thesis
    using intset_rep_ok unfolding intset_set_def by metis
qed

lemma intsetRemove_ok:
  assumes "intset_ok s" and "card (intset_set s) \<le> INTSET_SAFE_ENTRIES" and "is_int64 v"
  shows "\<exists>s'. intsetRemove s v = Some (s', v \<in> intset_set s) \<and> intset_ok s' \<and>
           intset_set s' = intset_set s - {v}"
proof -
  have "length (intset_list s) = unat (is_length s)" by (simp add: intset_list_def)
  with assms have "length (intset_list s) < 2 ^ 29"
    by (simp add: card_intset_set INTSET_SAFE_ENTRIES_def)
  from intsetRemove_rep [OF intset_ok_rep [OF assms(1)] this assms(3)] show ?thesis
    using intset_rep_ok unfolding intset_set_def by metis
qed

lemma intsetFind_ok:
  assumes "intset_ok s" and "card (intset_set s) \<le> INTSET_SAFE_ENTRIES" and "is_int64 v"
  shows "intsetFind s v = Some (v \<in> intset_set s)"
proof -
  have "length (intset_list s) = unat (is_length s)" by (simp add: intset_list_def)
  with assms have "length (intset_list s) < 2 ^ 31"
    by (simp add: card_intset_set INTSET_SAFE_ENTRIES_def)
  from intsetFind_rep [OF intset_ok_rep [OF assms(1)] this assms(3)] show ?thesis
    by (simp add: intset_set_def)
qed

text \<open>A lookup leaves the intset as it is.\<close>

definition find_step :: "intset \<Rightarrow> int \<Rightarrow> (intset \<times> bool) option" where
  "find_step s v = map_option (Pair s) (intsetFind s v)"

interpretation intset: set_impl intset_ok intset_set is_int64 INTSET_SAFE_ENTRIES
  intsetAdd intsetRemove find_step
proof
  show "finite (intset_set s)" for s by (simp add: intset_set_def)
  show "\<exists>s'. find_step s x = Some (s', x \<in> intset_set s) \<and> intset_ok s' \<and> intset_set s' = intset_set s"
    if "intset_ok s" "card (intset_set s) \<le> INTSET_SAFE_ENTRIES" "is_int64 x" for s x
    using intsetFind_ok [OF that] that(1) by (simp add: find_step_def)
qed (rule intsetAdd_ok intsetRemove_ok; assumption)+

section \<open>Read-only operations and validation of untrusted blobs\<close>

lemma intsetGet_ok:
  assumes "intset_ok s" and "unat (is_length s) < 2 ^ 31"
  shows "intsetGet s pos =
           Some (if pos < is_length s then Some (intset_list s ! unat pos) else None)"
proof (cases "pos < is_length s")
  case True
  then have "unat pos < length (intset_list s)"
    by (simp add: intset_list_def word_less_nat_alt)
  moreover from this assms(2) have "sint pos = int (unat pos)"
    by (intro sint_u32) (simp add: intset_list_def)
  ultimately show ?thesis
    using rep_get [OF intset_ok_rep [OF assms(1)], of "unat pos"] True by (simp add: intsetGet_def)
qed (simp add: intsetGet_def)

lemma ssorted_Min_Max:
  assumes "ssorted xs" and "xs \<noteq> []"
  shows "Min (set xs) = hd xs \<and> Max (set xs) = last xs"
proof -
  from assms have "sorted xs" by (simp add: strict_sorted_iff)
  moreover from this have "hd xs \<le> x" "x \<le> last xs" if "x \<in> set xs" for x
    using that assms(2) sorted_nth_mono [of xs]
    by (auto simp: in_set_conv_nth hd_conv_nth last_conv_nth)
  ultimately show ?thesis using assms(2) by (auto intro!: Min_eqI Max_eqI)
qed

lemma intsetMin_Max_ok:
  assumes "intset_ok s" and "is_length s \<noteq> 0" and "unat (is_length s) < 2 ^ 31"
  shows "intsetMin s = Some (Min (intset_set s)) \<and> intsetMax s = Some (Max (intset_set s))"
proof -
  let ?xs = "intset_list s"
  have len: "length ?xs = unat (is_length s)" by (simp add: intset_list_def)
  have ne: "?xs \<noteq> []" using len assms(2) by (auto simp: unat_eq_0)
  have pos: "0 < unat (is_length s)" using assms(2) by (simp add: unat_gt_0)
  have "sint (is_length s - 1) = int (length ?xs - 1)"
    using unat_pred_u32 [OF pos] assms(3) len by (subst sint_u32) auto
  moreover have "ssorted ?xs" using assms(1) by (simp add: intset_ok_def)
  ultimately show ?thesis
    using rep_get [OF intset_ok_rep [OF assms(1)], of 0]
      rep_get [OF intset_ok_rep [OF assms(1)], of "length ?xs - 1"] ne ssorted_Min_Max [of ?xs]
    by (simp add: intsetMin_def intsetMax_def intset_set_def hd_conv_nth last_conv_nth)
qed

lemma validate_loop_array:
  assumes "is_contents s = int_array w xs" and "w \<in> {2, 4, 8}" and "is_encoding s = of_nat w"
    and "\<forall>x \<in> set xs. fits w x" and "i + n = length xs" and "length xs < 2 ^ 31" and "0 < i"
  shows "validate_loop s (xs ! (i - 1)) i n = Some (ssorted (drop (i - 1) xs))"
  using assms(5,7)
proof (induction n arbitrary: i)
  case 0
  then show ?case by (simp add: ssorted_short)
next
  case (Suc n)
  have get: "u_intsetGet s (sint (of_nat i :: u32)) = Some (xs ! i)"
    using getEncoded_array [of s w xs "[]" i] assms(1-4,6) Suc.prems
    by (simp add: u_intsetGet_def sint_of_nat_u32)
  have "drop (i - 1) xs = xs ! (i - 1) # xs ! i # drop (Suc i) xs"
    using Suc.prems by (metis Cons_nth_drop_Suc Suc_diff_1 add_Suc_right less_add_Suc1 less_imp_diff_less)
  moreover have "drop i xs = xs ! i # drop (Suc i) xs"
    using Suc.prems by (simp add: Cons_nth_drop_Suc)
  ultimately show ?case
    using get Suc.IH [of "Suc i"] Suc.prems by auto
qed

text \<open>A blob passes the deep check exactly when its bytes are a non-empty well-formed integer set.\<close>

lemma validate_ok:
  assumes len: "length p = sz" and small: "unat (is_length (intset_of_blob p)) < 2 ^ 31"
  shows "intsetValidateIntegrity p sz True =
           Some (sizeof_intset \<le> sz \<and> intset_ok (intset_of_blob p) \<and>
                 is_length (intset_of_blob p) \<noteq> 0)"
proof -
  define s where "s = intset_of_blob p"
  define w n where "w = unat (is_encoding s)" and "n = unat (is_length s)"
  have lc: "length (is_contents s) = sz - sizeof_intset"
    using len by (simp add: s_def intset_of_blob_def sizeof_intset_def)
  have nz: "is_length s \<noteq> 0 \<longleftrightarrow> 0 < n" by (simp add: n_def unat_gt_0)
  let ?enc = "is_encoding s \<in> {INTSET_ENC_INT16, INTSET_ENC_INT32, INTSET_ENC_INT64}"
  have V: "intsetValidateIntegrity p sz True =
     (if sizeof_intset \<le> sz \<and> ?enc \<and> sizeof_intset + n * w = sz \<and> 0 < n
      then u_intsetGet s 0 \<bind> (\<lambda>prev. validate_loop s prev 1 (n - 1)) else Some False)"
    unfolding intsetValidateIntegrity_def Let_def s_def [symmetric] w_def [symmetric] n_def [symmetric]
    by auto
  have "intsetValidateIntegrity p sz True =
          Some (sizeof_intset \<le> sz \<and> intset_ok s \<and> is_length s \<noteq> 0)"
  proof (cases "sizeof_intset \<le> sz \<and> ?enc \<and> sizeof_intset + n * w = sz \<and> 0 < n")
    case False
    then have "\<not> (sizeof_intset \<le> sz \<and> intset_ok s \<and> is_length s \<noteq> 0)"
      unfolding intset_ok_def nz lc w_def [symmetric] n_def [symmetric] by (auto simp: mult.commute)
    with False V show ?thesis by (simp only: if_False)
  next
    case True
    let ?xs = "intset_list s"
    have lc': "length (is_contents s) = w * n" using True lc by (auto simp: mult.commute)
    then have arr: "is_contents s = int_array w ?xs" "length ?xs = n"
      by (simp_all add: intset_list_def int_array_ints_of w_def n_def)
    from True have ?enc by simp
    then have w: "w \<in> {2, 4, 8}" "is_encoding s = of_nat w"
      by (auto simp: intset_enc_defs w_def)
    have fit: "\<forall>x \<in> set ?xs. fits w x"
      using ints_of_fits [OF lc'] w(1) unfolding intset_list_def w_def [symmetric] n_def [symmetric]
      by auto
    have "u_intsetGet s 0 = Some (?xs ! 0)"
      using getEncoded_array [of s w ?xs "[]" 0] arr w fit True by (simp add: u_intsetGet_def)
    moreover have "validate_loop s (?xs ! 0) 1 (n - 1) = Some (ssorted ?xs)"
      using validate_loop_array [of s w ?xs 1 "n - 1"] arr w fit True small by (simp add: n_def s_def)
    ultimately have "intsetValidateIntegrity p sz True = Some (ssorted ?xs)"
      using True V by simp
    with True lc' nz show ?thesis
      unfolding intset_ok_def w_def [symmetric] n_def [symmetric] by simp
  qed
  then show ?thesis by (simp only: s_def)
qed

section \<open>The 32-bit byte count of the tail move\<close>

text \<open>With \<open>2 ^ 29\<close> elements of eight bytes behind the insertion point, the \<^verbatim>\<open>uint32_t\<close> product
  \<^verbatim>\<open>bytes *= sizeof(int64_t)\<close> is 0: nothing is moved and the element at the insertion point is
  overwritten.\<close>

lemma moveTail_zero:
  assumes "is_encoding s = INTSET_ENC_INT64" and "unat (is_length s) = 2 ^ 29"
    and "8 \<le> length (is_contents s)"
  shows "intsetMoveTail s 0 1 = Some s"
proof -
  have "is_length s = of_nat (2 ^ 29)" using assms(2) by (metis of_nat_unat ucast_id)
  then have "(is_length s - 0) * (of_nat 8 :: u32) = of_nat (2 ^ 29 * 8)" 
    by (simp only: diff_zero of_nat_mult)
  also have "\<dots> = 0" by simp
  finally have b: "unat ((is_length s - 0) * (of_nat 8 :: u32)) = 0" by (simp only: unsigned_0)
  have "intsetMoveTail s 0 1 = map_option (\<lambda>c. s\<lparr>is_contents := c\<rparr>)
           (mem_move (is_contents s) (8 * unat (1 :: u32)) (8 * unat (0 :: u32)) 0)"
    by (simp only: intsetMoveTail_def Let_def assms(1) if_True simp_thms b)
  with assms(3) show ?thesis by (simp add: mem_move_def mem_read_def mem_write_def)
qed

lemma intsetAdd_overflow:
  assumes rep: "intset_rep s 8 xs" and len: "length xs = 2 ^ 29" and v: "is_int64 v" "v < xs ! 0"
  shows "\<exists>s'. intsetAdd s v = Some (s', True) \<and> intset_list s' = v # tl xs @ [0]"
proof -
  define N :: nat where "N = 2 ^ 29"
  from rep have enc: "is_encoding s = INTSET_ENC_INT64" and c: "is_contents s = int_array 8 xs"
    and ul: "unat (is_length s) = N" and fit: "\<forall>x \<in> set xs. fits 8 x" and srt: "ssorted xs"
    using len by (auto simp: intset_rep_def intset_enc_defs N_def)
  have ln: "length xs = N" "0 < N" "N < 2 ^ 31" using len by (auto simp: N_def)
  have less: "v < x" if xin: "x \<in> set xs" for x
  proof -
    obtain i where "i < length xs" "x = xs ! i" using xin by (metis in_set_conv_nth)
    then have "xs ! 0 \<le> x"
      using sorted_wrt_nth_less [OF srt, of 0 i] by (metis less_imp_le neq0_conv order_refl)
    with v(2) show ?thesis by simp
  qed
  obtain i where srch: "intsetSearch s v = Some (v \<in> set xs, of_nat i)"
    and i: "search_result xs v (v \<in> set xs) i"
    using intsetSearch_rep [OF rep] ln by auto
  have nin: "v \<notin> set xs" using less by auto
  have "i = 0"
  proof (rule ccontr)
    assume "i \<noteq> 0"
    then have "xs ! 0 \<in> set (take i xs)" using ln by (cases xs; cases i) auto
    with i nin v(2) show False by (auto simp: search_result_def)
  qed
  with srch nin have srch: "intsetSearch s v = Some (False, 0)" by simp
  have len1: "unat (is_length s + 1) = Suc N"
    using ul ln by (simp add: unat_word_ariths)
  let ?s1 = "s\<lparr>is_contents := int_array 8 (xs @ [0])\<rparr>"
  have "zrealloc (int_array 8 xs) (8 * Suc N) = int_array 8 (xs @ [0])"
    using ln(1) by (simp add: zrealloc_def le_bytes_zero)
  then have rs: "intsetResize s (is_length s + 1) = Some ?s1"
    using resize_rep [OF rep, of "is_length s + 1"] len1 ln by simp
  have "0 < is_length s" using ul ln by (simp add: word_less_nat_alt)
  moreover have "intsetMoveTail ?s1 0 (0 + 1) = Some ?s1"
    using moveTail_zero [of ?s1] enc ul by (simp add: N_def)
  moreover have "u_intsetSet ?s1 0 v = Some (?s1\<lparr>is_contents := int_array 8 ((xs @ [0])[0 := v])\<rparr>)"
    using set_array [of ?s1 8 "xs @ [0]" "[]" 0 v] enc by (simp add: intset_enc_defs)
  moreover have "\<not> is_encoding s < u_intsetValueEncoding v"
    using valueEncoding_fits [OF v(1), of 8] v(1) enc by (simp add: intset_enc_defs)
  ultimately have "intsetAdd s v = Some (s\<lparr>is_contents := int_array 8 ((xs @ [0])[0 := v]),
        is_length := is_length s + 1\<rparr>, True)"
    using srch rs by (simp add: intsetAdd_def)
  moreover have eq: "(xs @ [0])[0 := v] = v # tl xs @ [0]" using ln by (cases xs) auto
  have "ints_of 8 (Suc N) (int_array 8 (v # tl xs @ [0])) = v # tl xs @ [0]"
    using ints_of_int_array [of 8 "v # tl xs @ [0]"] fit v(1) ln
    by (cases xs) (auto simp: fits_def)
  then have "intset_list (s\<lparr>is_contents := int_array 8 ((xs @ [0])[0 := v]),
        is_length := is_length s + 1\<rparr>) = v # tl xs @ [0]"
    using enc len1 unfolding intset_list_def eq by (simp add: intset_enc_defs)
  ultimately show ?thesis by blast
qed

lemma ramp_exists:
  assumes "n \<le> 2 ^ 40"
  shows "\<exists>xs. ssorted xs \<and> length xs = n \<and> (\<forall>x \<in> set xs. is_int64 x \<and> 0 < x)"
proof (intro exI conjI)
  let ?xs = "map (\<lambda>i. int i + 1) [0..<n]"
  show "ssorted ?xs" by (simp add: sorted_wrt_iff_nth_less)
  show "\<forall>x \<in> set ?xs. is_int64 x \<and> 0 < x" using assms by (auto simp: fits_def)
qed simp

lemma intset_of_list_rep:
  assumes "ssorted xs" and "\<forall>x \<in> set xs. is_int64 x" and "length xs < 2 ^ 32"
  shows "intset_rep \<lparr>is_encoding = INTSET_ENC_INT64, is_length = of_nat (length xs),
           is_contents = int_array 8 xs\<rparr> 8 xs"
  using assms by (simp add: intset_rep_def intset_enc_defs unat_of_nat_u32)

section \<open>Properties\<close>

text \<open>C1. Refinement: any sequence of \<^verbatim>\<open>intsetAdd\<close>, \<^verbatim>\<open>intsetRemove\<close> and \<^verbatim>\<open>intsetFind\<close> on 64-bit integers,
  started on an empty intset and short enough for the 32-bit byte counts, never leaves the block,
  keeps the representation sorted and gives exactly the answers and the final elements of the
  mathematical set.\<close>

theorem intset_ops_refine_set:
  assumes "length ps \<le> INTSET_SAFE_ENTRIES" and "\<forall>p \<in> set ps. is_int64 (op_arg p)"
  shows "\<exists>s'. run_impl intsetAdd intsetRemove find_step ps intsetNew = Some (s', snd (run_spec ps {})) \<and>
           intset_ok s' \<and> intset_set s' = fst (run_spec ps {})"
  using intset.run_refines [of intsetNew ps] intset_new_ok assms by simp

theorem intset_ops_refine_set_witness:
  "\<exists>s'. run_impl intsetAdd intsetRemove find_step [Add 5, Add 70000, Add 5, Rem 5, Mem 5] intsetNew =
          Some (s', [True, True, False, True, False]) \<and> intset_ok s' \<and> intset_set s' = {70000}"
  using intset_ops_refine_set [of "[Add 5, Add 70000, Add 5, Rem 5, Mem 5]"]
  by (simp add: INTSET_SAFE_ENTRIES_def fits_def insert_Diff_if)

text \<open>C2. The binary search of \<^verbatim>\<open>intsetSearch\<close> returns on every well-formed intset that an \<^verbatim>\<open>int\<close> can
  index, without reading outside the block: it reports whether the value is present, with its
  position, or else the position that keeps the array sorted when the value is inserted there.\<close>

theorem intsetSearch_correct:
  assumes "intset_ok s" and "unat (is_length s) < 2 ^ 31"
  shows "\<exists>i. intsetSearch s v = Some (v \<in> intset_set s, of_nat i) \<and>
           search_result (intset_list s) v (v \<in> intset_set s) i"
  using intsetSearch_rep [OF intset_ok_rep [OF assms(1)], of v] assms(2)
  by (simp add: intset_set_def intset_list_def)

theorem intsetSearch_correct_witness:
  "\<exists>i. intsetSearch \<lparr>is_encoding = 2, is_length = 2, is_contents = [1, 0, 5, 0]\<rparr> 3 =
          Some (False, of_nat i) \<and> search_result [1, 5] 3 False i"
proof -
  let ?s = "\<lparr>is_encoding = 2, is_length = 2, is_contents = [1, 0, 5, 0]\<rparr>"
  have l: "intset_list ?s = [1, 5]" by code_simp
  then have "intset_ok ?s" by (simp add: intset_ok_def intset_enc_defs)
  from intsetSearch_correct [OF this, of 3] l show ?thesis by (simp add: intset_set_def)
qed



text \<open>C4. The bound of C1 is needed: there is a well-formed intset of \<open>2 ^ 29\<close> elements, below the
  \<^verbatim>\<open>1<<30\<close> entries that \<^verbatim>\<open>intsetMaxEntries\<close> of \<^verbatim>\<open>t_set.c\<close> allows, from which \<^verbatim>\<open>intsetAdd\<close> of a smaller
  element reports success and loses an element.\<close>

theorem intsetAdd_loses_element:
  "\<exists>s s' x. intset_ok s \<and> card (intset_set s) = 2 ^ 29 \<and> intsetAdd s 0 = Some (s', True) \<and>
     x \<in> intset_set s \<and> x \<notin> intset_set s'"
proof -
  obtain xs where xs: "ssorted xs" "length xs = 2 ^ 29" "\<forall>x \<in> set xs. is_int64 x \<and> 0 < x"
    using ramp_exists [of "2 ^ 29"] by auto
  let ?s = "\<lparr>is_encoding = INTSET_ENC_INT64, is_length = of_nat (length xs), is_contents = int_array 8 xs\<rparr>"
  have rep: "intset_rep ?s 8 xs"
    using xs by (intro intset_of_list_rep) auto
  then have ok: "intset_ok ?s" "intset_list ?s = xs" using intset_rep_ok by auto
  obtain y ys where cons: "xs = y # ys" using xs(2) by (cases xs) auto
  obtain s' where s': "intsetAdd ?s 0 = Some (s', True)" "intset_list s' = 0 # ys @ [0]"
    using intsetAdd_overflow [OF rep xs(2), of 0] xs(3) cons by (auto simp: fits_def)
  have "y \<notin> set (0 # ys @ [0])" using xs(1,3) cons by auto
  moreover have "card (intset_set ?s) = 2 ^ 29"
    using ok xs(1,2) by (simp add: intset_set_def distinct_card ssorted_distinct)
  ultimately show ?thesis
    using ok s' cons unfolding intset_set_def by (intro exI [of _ ?s] exI [of _ s'] exI [of _ y]) simp
qed

end
