(* ===== verification/Util_Glob.thy ===== *)
theory Util_Glob
  imports Redis_Prelude
begin

text \<open>
  The glob-style matcher of \<^verbatim>\<open>util.c\<close> that \<^verbatim>\<open>KEYS\<close>, \<^verbatim>\<open>SCAN MATCH\<close> and the pattern subscriptions use.
  A pattern is a block of bytes with the index of the pattern pointer and the number of bytes that
  remain; the code also reads the byte after the last one, so the block has to be terminated.
  The matcher is compared with the declarative meaning of the tokens of the pattern.
\<close>

section \<open>The model\<close>

text \<open>\<^verbatim>\<open>tolower\<close> in the C locale, on a \<^verbatim>\<open>char\<close> that was promoted to \<^verbatim>\<open>int\<close>.\<close>

definition tolower :: "int \<Rightarrow> int" where
  "tolower c = (if 65 \<le> c \<and> c \<le> 90 then c + 32 else c)"

definition char_eq :: "bool \<Rightarrow> byte \<Rightarrow> byte \<Rightarrow> bool" where
  "char_eq nocase a b = (if \<not> nocase then a = b else tolower (sint a) = tolower (sint b))"

definition in_range :: "bool \<Rightarrow> byte \<Rightarrow> byte \<Rightarrow> byte \<Rightarrow> bool" where
  "in_range nocase a b ch =
     (let start = sint a; last = sint b; c = sint ch;
          (start, last) = (if start > last then (last, start) else (start, last));
          (start, last, c) = (if nocase then (tolower start, tolower last, tolower c)
                              else (start, last, c))
      in start \<le> c \<and> c \<le> last)"

text \<open>The loop that leaves the pointer on the last of a run of stars.\<close>

function skip_stars :: "byte list \<Rightarrow> nat \<Rightarrow> int \<Rightarrow> (nat \<times> int) option" where
  "skip_stars pat p plen =
     (if plen \<noteq> 0 then do {
        c \<leftarrow> mem_get pat (p + 1);
        if c = 42 then skip_stars pat (p + 1) (plen - 1) else Some (p, plen)
      } else Some (p, plen))"
  by auto
termination
  by (relation "measure (\<lambda>(pat, p, plen). length pat - p)") (auto simp: mem_get_def split: if_splits)

text \<open>The loop over the stars at the end of the pattern once the string is used up.\<close>

function skip_trailing :: "byte list \<Rightarrow> nat \<Rightarrow> int \<Rightarrow> (nat \<times> int) option" where
  "skip_trailing pat p plen =
     do {
       c \<leftarrow> mem_get pat p;
       if c = 42 then skip_trailing pat (p + 1) (plen - 1) else Some (p, plen)
     }"
  by auto
termination
  by (relation "measure (\<lambda>(pat, p, plen). length pat - p)") (auto simp: mem_get_def split: if_splits)

text \<open>The \<^verbatim>\<open>while(1)\<close> loop over a character class; \<open>ch\<close> is \<^verbatim>\<open>string[0]\<close>.\<close>

function class_loop ::
  "byte list \<Rightarrow> nat \<Rightarrow> int \<Rightarrow> byte \<Rightarrow> bool \<Rightarrow> bool \<Rightarrow> (nat \<times> int \<times> bool) option" where
  "class_loop pat p plen ch nocase match =
     do {
       c \<leftarrow> mem_get pat p;
       if c = 92 \<and> plen \<ge> 2 then do {
         e \<leftarrow> mem_get pat (p + 1);
         class_loop pat (p + 2) (plen - 2) ch nocase (match \<or> e = ch)
       }
       else if c = 93 then Some (p, plen, match)
       else if plen = 0 then Some (p - 1, plen + 1, match)
       else do {
         range \<leftarrow> (if plen \<ge> 3 then do { d \<leftarrow> mem_get pat (p + 1); Some (d = 45) } else Some False);
         if range then do {
           e \<leftarrow> mem_get pat (p + 2);
           class_loop pat (p + 3) (plen - 3) ch nocase (match \<or> in_range nocase c e ch)
         }
         else class_loop pat (p + 1) (plen - 1) ch nocase (match \<or> char_eq nocase c ch)
       }
     }"
  by auto
termination
  by (relation "measure (\<lambda>(pat, p, plen, ch, nocase, match). length pat - p)")
    (auto simp: mem_get_def split: if_splits)

declare skip_stars.simps [simp del] skip_trailing.simps [simp del] class_loop.simps [simp del]

text \<open>The three cases that compare one byte of the string: \<open>Some None\<close> is the return without a match,
  otherwise the pointer on the last byte of the token.\<close>

definition match_class ::
  "byte list \<Rightarrow> nat \<Rightarrow> int \<Rightarrow> byte \<Rightarrow> bool \<Rightarrow> (nat \<times> int) option option" where
  "match_class pat p plen ch nocase =
     do {
       let p = p + 1;
       let plen = plen - 1;
       c \<leftarrow> mem_get pat p;
       let neg = (c = 94);
       let (p, plen) = (if neg then (p + 1, plen - 1) else (p, plen));
       (p, plen, match) \<leftarrow> class_loop pat p plen ch nocase False;
       let match = (if neg then \<not> match else match);
       Some (if match then Some (p, plen) else None)
     }"

definition match_literal ::
  "byte list \<Rightarrow> nat \<Rightarrow> int \<Rightarrow> byte \<Rightarrow> bool \<Rightarrow> (nat \<times> int) option option" where
  "match_literal pat p plen ch nocase =
     do {
       c \<leftarrow> mem_get pat p;
       let (p, plen) = (if c = 92 \<and> plen \<ge> 2 then (p + 1, plen - 1) else (p, plen));
       c \<leftarrow> mem_get pat p;
       Some (if char_eq nocase c ch then Some (p, plen) else None)
     }"

lemma skip_stars_mono: "skip_stars pat p plen = Some (p', plen') \<Longrightarrow> p \<le> p'"
proof (induction pat p plen rule: skip_stars.induct)
  case (1 pat p plen)
  then show ?case
    by (subst (asm) (2) skip_stars.simps) (fastforce split: if_splits bind_splits)
qed

lemma class_loop_mono: "class_loop pat p plen ch nocase m = Some (p', plen', m') \<Longrightarrow> p \<le> Suc p'"
proof (induction pat p plen ch nocase m rule: class_loop.induct)
  case (1 pat p plen ch nocase m)
  then show ?case
    by (subst (asm) (4) class_loop.simps) (fastforce split: if_splits bind_splits)
qed

lemma match_class_mono: "match_class pat p plen ch nocase = Some (Some (p', plen')) \<Longrightarrow> p \<le> p'"
  by (auto simp: match_class_def Let_def split: if_splits bind_splits dest!: class_loop_mono)

lemma match_literal_mono: "match_literal pat p plen ch nocase = Some (Some (p', plen')) \<Longrightarrow> p \<le> p'"
  by (auto simp: match_literal_def Let_def split: if_splits bind_splits)

text \<open>The matcher with its loop, and the loop of the case of a star. Both return the result together
  with the final value of \<^verbatim>\<open>*skipLongerMatches\<close>; in \<open>star_loop\<close> the pointer is \<^verbatim>\<open>pattern+1\<close>.\<close>

function stringmatchlen_impl ::
    "byte list \<Rightarrow> nat \<Rightarrow> int \<Rightarrow> byte list \<Rightarrow> nat \<Rightarrow> nat \<Rightarrow> bool \<Rightarrow> bool \<Rightarrow> (bool \<times> bool) option"
  and star_loop ::
    "byte list \<Rightarrow> nat \<Rightarrow> int \<Rightarrow> byte list \<Rightarrow> nat \<Rightarrow> nat \<Rightarrow> bool \<Rightarrow> bool \<Rightarrow> (bool \<times> bool) option" where
  "stringmatchlen_impl pat p plen str s slen nocase skip =
     (if plen \<noteq> 0 \<and> slen \<noteq> 0 then do {
        c \<leftarrow> mem_get pat p;
        if c = 42 then do {
          (p', plen') \<leftarrow> skip_stars pat p plen;
          if plen' = 1 then Some (True, skip)
          else star_loop pat (p' + 1) (plen' - 1) str s slen nocase skip
        }
        else do {
          r \<leftarrow> (if c = 63 then Some (Some (p, plen))
                else do {
                  ch \<leftarrow> mem_get str s;
                  if c = 91 then match_class pat p plen ch nocase
                  else match_literal pat p plen ch nocase
                });
          (case r of
             None \<Rightarrow> Some (False, skip)
           | Some (p', plen') \<Rightarrow>
               if slen - 1 = 0 then do {
                 (p'', plen'') \<leftarrow> skip_trailing pat (p' + 1) (plen' - 1);
                 Some (plen'' = 0, skip)
               }
               else stringmatchlen_impl pat (p' + 1) (plen' - 1) str (s + 1) (slen - 1) nocase skip)
        }
      } else Some (plen = 0 \<and> slen = 0, skip))"
| "star_loop pat q qlen str s slen nocase skip =
     (if slen \<noteq> 0 then do {
        (m, skip') \<leftarrow> stringmatchlen_impl pat q qlen str s slen nocase skip;
        if m then Some (True, skip')
        else if skip' then Some (False, skip')
        else star_loop pat q qlen str (s + 1) (slen - 1) nocase skip'
      } else Some (False, True))"
  by pat_completeness auto
termination
proof (relation "inv_image (less_than <*lex*> less_than <*lex*> less_than)
   (\<lambda>x. case x of
          Inl (pat, p, plen, str, s, slen, nocase, skip) \<Rightarrow> (length pat - p, slen, 0 :: nat)
        | Inr (pat, p, plen, str, s, slen, nocase, skip) \<Rightarrow> (length pat - p, slen, 1))")
qed (auto simp: mem_get_def split: if_splits bind_splits
       dest!: skip_stars_mono match_class_mono match_literal_mono)

declare stringmatchlen_impl.simps [simp del] star_loop.simps [simp del]

definition stringmatchlen :: "byte list \<Rightarrow> int \<Rightarrow> byte list \<Rightarrow> nat \<Rightarrow> bool \<Rightarrow> bool option" where
  "stringmatchlen pat plen str slen nocase =
     map_option fst (stringmatchlen_impl pat 0 plen str 0 slen nocase False)"

text \<open>\<^verbatim>\<open>stringmatch\<close> on two terminated strings, given without their terminators.\<close>

definition stringmatch :: "byte list \<Rightarrow> byte list \<Rightarrow> bool \<Rightarrow> bool option" where
  "stringmatch pattern str nocase =
     stringmatchlen (pattern @ [0]) (int (length pattern)) (str @ [0]) (length str) nocase"

section \<open>The meaning of a pattern\<close>

text \<open>A pattern is a sequence of tokens: a star, any byte, a possibly negated class of items, or a
  literal byte.\<close>

datatype gitem = Escaped byte | Range byte byte | Plain byte

datatype gtok = Star | Any | Class bool "gitem list" | Literal byte

fun parse_class :: "byte list \<Rightarrow> gitem list \<times> byte list" where
  "parse_class [] = ([], [])"
| "parse_class [c] = (if c = 93 then ([], []) else ([Plain c], []))"
| "parse_class [c, d] =
     (if c = 92 then ([Escaped d], [])
      else if c = 93 then ([], [d])
      else apfst ((#) (Plain c)) (parse_class [d]))"
| "parse_class (c # d # e # r) =
     (if c = 92 then apfst ((#) (Escaped d)) (parse_class (e # r))
      else if c = 93 then ([], d # e # r)
      else if d = 45 then apfst ((#) (Range c e)) (parse_class r)
      else apfst ((#) (Plain c)) (parse_class (d # e # r)))"

lemma parse_class_snd: "length (snd (parse_class r)) \<le> length r"
  by (induction r rule: parse_class.induct) auto

lemma parse_class_length: "(items, rest) = parse_class r \<Longrightarrow> length rest \<le> length r"
  by (metis parse_class_snd snd_conv)

definition class_negated :: "byte list \<Rightarrow> bool" where
  "class_negated r \<longleftrightarrow> r \<noteq> [] \<and> hd r = 94"

function parse_glob :: "byte list \<Rightarrow> gtok list" where
  "parse_glob [] = []"
| "parse_glob (c # r) =
     (if c = 42 then Star # parse_glob r
      else if c = 63 then Any # parse_glob r
      else if c = 91 then
        (let neg = class_negated r; (items, rest) = parse_class (if neg then tl r else r)
         in Class neg items # parse_glob rest)
      else if c = 92 \<and> r \<noteq> [] then Literal (hd r) # parse_glob (tl r)
      else Literal c # parse_glob r)"
  by pat_completeness auto
termination
  by (relation "measure length")
    (auto simp: class_negated_def dest!: parse_class_length split: if_splits)

fun item_ok :: "bool \<Rightarrow> byte \<Rightarrow> gitem \<Rightarrow> bool" where
  "item_ok nocase ch (Escaped c) = (c = ch)"
| "item_ok nocase ch (Range a b) = in_range nocase a b ch"
| "item_ok nocase ch (Plain c) = char_eq nocase c ch"

fun tok_ok :: "bool \<Rightarrow> gtok \<Rightarrow> byte \<Rightarrow> bool" where
  "tok_ok nocase Star ch = False"
| "tok_ok nocase Any ch = True"
| "tok_ok nocase (Class neg items) ch = (list_ex (item_ok nocase ch) items \<noteq> neg)"
| "tok_ok nocase (Literal c) ch = char_eq nocase c ch"

fun glob_matches :: "bool \<Rightarrow> gtok list \<Rightarrow> byte list \<Rightarrow> bool" where
  "glob_matches nocase [] s = (s = [])"
| "glob_matches nocase (Star # ts) [] = glob_matches nocase ts []"
| "glob_matches nocase (Star # ts) (c # s) =
     (glob_matches nocase ts (c # s) \<or> glob_matches nocase (Star # ts) s)"
| "glob_matches nocase (t # ts) [] = False"
| "glob_matches nocase (t # ts) (c # s) = (tok_ok nocase t c \<and> glob_matches nocase ts s)"

lemma glob_matches_Star:
  "glob_matches nocase (Star # ts) s \<longleftrightarrow> (\<exists>k \<le> length s. glob_matches nocase ts (drop k s))"
proof (induction s)
  case (Cons c s)
  have "(\<exists>k \<le> length (c # s). glob_matches nocase ts (drop k (c # s))) \<longleftrightarrow>
        glob_matches nocase ts (c # s) \<or> (\<exists>k \<le> length s. glob_matches nocase ts (drop k s))"
    (is "?L \<longleftrightarrow> ?R")
  proof
    assume ?L
    then obtain k where "k \<le> length (c # s)" "glob_matches nocase ts (drop k (c # s))" by blast
    then show ?R by (cases k) auto
  next
    assume ?R
    then show ?L by (metis Suc_le_mono drop0 drop_Suc_Cons le0 length_Cons)
  qed
  then show ?case using Cons by simp
qed simp

lemma glob_matches_Cons:
  "t \<noteq> Star \<Longrightarrow> glob_matches nocase (t # ts) s \<longleftrightarrow>
     s \<noteq> [] \<and> tok_ok nocase t (hd s) \<and> glob_matches nocase ts (tl s)"
  by (cases t; cases s) auto

lemma glob_matches_Star_Star:
  "glob_matches nocase (Star # Star # ts) s = glob_matches nocase (Star # ts) s"
proof -
  have "(\<exists>k \<le> length s. \<exists>j \<le> length (drop k s). glob_matches nocase ts (drop j (drop k s))) \<longleftrightarrow>
        (\<exists>k \<le> length s. glob_matches nocase ts (drop k s))" (is "?L = ?R")
  proof
    assume ?L
    then obtain k j where "k \<le> length s" "j \<le> length s - k" "glob_matches nocase ts (drop (j + k) s)" by auto
    then show ?R by (intro exI [of _ "j + k"]) auto
  next
    assume ?R then show ?L by (metis drop0 le0)
  qed
  then show ?thesis by (simp only: glob_matches_Star)
qed

section \<open>The loops on a terminated pattern\<close>

text \<open>\<open>pat_at pat p R\<close>: the bytes \<open>R\<close> of the pattern remain at index \<open>p\<close>, followed by a terminator.\<close>

definition pat_at :: "byte list \<Rightarrow> nat \<Rightarrow> byte list \<Rightarrow> bool" where
  "pat_at pat p R \<longleftrightarrow> (\<exists>z. drop p pat = R @ 0 # z)"

lemma pat_at_get:
  assumes "pat_at pat p R"
  shows "i < length R \<Longrightarrow> mem_get pat (p + i) = Some (R ! i)"
    and "mem_get pat (p + length R) = Some 0"
proof -
  obtain z where z: "drop p pat = R @ 0 # z" using assms by (auto simp: pat_at_def)
  have get: "mem_get pat (p + i) = Some (drop p pat ! i)" if "i < length (drop p pat)" for i
    using that by (auto simp: mem_get_def)
  show "i < length R \<Longrightarrow> mem_get pat (p + i) = Some (R ! i)"
    using get [of i] z by (simp add: nth_append)
  show "mem_get pat (p + length R) = Some 0"
    using get [of "length R"] z by simp
qed

lemma pat_at_drop: "pat_at pat p R \<Longrightarrow> k \<le> length R \<Longrightarrow> pat_at pat (p + k) (drop k R)"
  by (auto simp: pat_at_def add.commute simp flip: drop_drop)

lemma pat_at_tl: "pat_at pat p (c # R) \<Longrightarrow> pat_at pat (Suc p) R"
  using pat_at_drop [of pat p "c # R" 1] by simp

lemma pat_at_hd:
  "pat_at pat p (c # R) \<Longrightarrow> mem_get pat p = Some c"
  "pat_at pat p (c # R) \<Longrightarrow> mem_get pat (Suc p) = Some (hd (R @ [0]))"
  "pat_at pat p [] \<Longrightarrow> mem_get pat p = Some 0"
  using pat_at_get(1) [of pat p "c # R" 0] pat_at_get(2) [of pat p "[]"]
    pat_at_get(1) [of pat p "c # R" 1] pat_at_get(2) [of pat p "c # R"]
  by (auto simp: hd_append hd_conv_nth)

lemma skip_stars_ok:
  "pat_at pat p (42 # R) \<Longrightarrow> plen = int (length (42 # R)) \<Longrightarrow>
   \<exists>p' R'. skip_stars pat p plen = Some (p', int (length (42 # R'))) \<and> pat_at pat p' (42 # R') \<and>
      (R' = [] \<or> hd R' \<noteq> 42) \<and> length R' \<le> length R \<and>
      (\<forall>s. glob_matches nocase (parse_glob (42 # R)) s = glob_matches nocase (parse_glob (42 # R')) s)"
proof (induction R arbitrary: p plen)
  case Nil
  then show ?case
    by (intro exI [of _ p] exI [of _ "[]"]) (subst skip_stars.simps, simp add: pat_at_hd)
next
  case (Cons c R)
  show ?case
  proof (cases "c = 42")
    case True
    have at: "pat_at pat (Suc p) (42 # R)" using Cons.prems True pat_at_tl by blast
    from Cons.IH [OF this refl] obtain p' R' where
      *: "skip_stars pat (Suc p) (int (length (42 # R))) = Some (p', int (length (42 # R')))"
      "pat_at pat p' (42 # R')" "R' = [] \<or> hd R' \<noteq> 42" "length R' \<le> length R"
      "\<forall>s. glob_matches nocase (parse_glob (42 # R)) s = glob_matches nocase (parse_glob (42 # R')) s" by blast
    have "skip_stars pat p plen = skip_stars pat (Suc p) (int (length (42 # R)))"
      using Cons.prems True by (subst skip_stars.simps) (simp add: pat_at_hd)
    moreover have "glob_matches nocase (parse_glob (42 # c # R)) s = glob_matches nocase (parse_glob (42 # R)) s" for s
      using True glob_matches_Star_Star [of nocase "parse_glob R" s] by (simp del: glob_matches.simps)
    ultimately show ?thesis using * by (metis le_SucI length_Cons)
  next
    case False
    then show ?thesis using Cons.prems
      by (intro exI [of _ p] exI [of _ "c # R"]) (subst skip_stars.simps, simp add: pat_at_hd)
  qed
qed

lemma skip_trailing_ok:
  "pat_at pat p R \<Longrightarrow> plen = int (length R) \<Longrightarrow>
   \<exists>p' plen'. skip_trailing pat p plen = Some (p', plen') \<and>
      (plen' = 0 \<longleftrightarrow> glob_matches nocase (parse_glob R) [])"
proof (induction R arbitrary: p plen)
  case Nil
  then show ?case by (subst skip_trailing.simps) (simp add: pat_at_hd)
next
  case (Cons c R)
  show ?case
  proof (cases "c = 42")
    case True
    have "pat_at pat (Suc p) R" using Cons.prems pat_at_tl by blast
    from Cons.IH [OF this refl] show ?thesis
      using Cons.prems True by (subst skip_trailing.simps) (simp add: pat_at_hd)
  next
    case False
    then have "\<not> glob_matches nocase (parse_glob (c # R)) []"
      by (auto simp: glob_matches_Cons Let_def split: prod.splits)
    then show ?thesis
      using Cons.prems False by (subst skip_trailing.simps) (simp add: pat_at_hd del: parse_glob.simps)
  qed
qed

lemma class_loop_ok:
  assumes "pat_at pat p R" "plen = int (length R)" "0 < p"
  shows "\<exists>p'. class_loop pat p plen ch nocase m =
              Some (p', int (length (snd (parse_class R))) + 1,
                    m \<or> list_ex (item_ok nocase ch) (fst (parse_class R))) \<and>
              pat_at pat (Suc p') (snd (parse_class R)) \<and> p \<le> Suc p'"
  using assms
proof (induction R arbitrary: p plen m rule: parse_class.induct)
  case 1
  then show ?case
    by (intro exI [of _ "p - 1"]) (subst class_loop.simps, simp add: pat_at_hd)
next
  case (2 c)
  have nil: "pat_at pat (Suc p) []" using "2.prems" pat_at_tl by blast
  have "class_loop pat (Suc p) 0 ch nocase m = Some (p, 1, m)" for m
    using nil by (subst class_loop.simps) (simp add: pat_at_hd)
  then show ?case
    using "2.prems" nil by (intro exI [of _ p]) (subst class_loop.simps, simp add: pat_at_hd)
next
  case (3 c d)
  have at: "pat_at pat (Suc p) [d]" "pat_at pat (Suc (Suc p)) []" using "3.prems" pat_at_tl by blast+
  show ?case
  proof (cases "c = 92 \<or> c = 93")
    case True
    have "class_loop pat (Suc (Suc p)) 0 ch nocase m = Some (Suc p, 1, m)" for m
      using at by (subst class_loop.simps) (simp add: pat_at_hd)
    then show ?thesis
      using "3.prems" at True
      by (intro exI [of _ "if c = 92 then Suc p else p"]) (subst class_loop.simps, auto simp: pat_at_hd)
  next
    case False
    have "class_loop pat p plen ch nocase m = class_loop pat (Suc p) 1 ch nocase (m \<or> char_eq nocase c ch)"
      using "3.prems" at False by (subst class_loop.simps) (auto simp: pat_at_hd)
    moreover obtain p' where "class_loop pat (Suc p) 1 ch nocase (m \<or> char_eq nocase c ch) =
              Some (p', int (length (snd (parse_class [d]))) + 1,
                    (m \<or> char_eq nocase c ch) \<or> list_ex (item_ok nocase ch) (fst (parse_class [d])))"
         "pat_at pat (Suc p') (snd (parse_class [d]))" "Suc p \<le> Suc p'"
      using "3.IH" [OF _ _ at(1), of 1 "m \<or> char_eq nocase c ch"] False by auto
    ultimately show ?thesis using False by (intro exI [of _ p']) (auto simp del: parse_class.simps(2))
  qed
next
  case (4 c d e r)
  have at: "pat_at pat (Suc p) (d # e # r)" "pat_at pat (Suc (Suc p)) (e # r)" "pat_at pat (Suc (Suc (Suc p))) r"
    using "4.prems" pat_at_tl by blast+
  consider "c = 92" | "c = 93" | "c \<noteq> 92" "c \<noteq> 93" "d = 45" | "c \<noteq> 92" "c \<noteq> 93" "d \<noteq> 45" by blast
  then show ?case
  proof cases
    case 1
    have "class_loop pat p plen ch nocase m =
            class_loop pat (Suc (Suc p)) (int (length (e # r))) ch nocase (m \<or> d = ch)"
      using "4.prems" at 1 by (subst class_loop.simps) (simp add: pat_at_hd)
    with "4.IH"(1) [OF 1 at(2) refl, of "m \<or> d = ch"] 1 show ?thesis
      by (auto simp: disj_ac intro: le_trans [of p "Suc (Suc p)"])
  next
    case 2
    then show ?thesis using "4.prems" at by (subst class_loop.simps) (simp add: pat_at_hd)
  next
    case 3
    have "class_loop pat p plen ch nocase m =
            class_loop pat (Suc (Suc (Suc p))) (int (length r)) ch nocase (m \<or> in_range nocase c e ch)"
      using "4.prems" at 3 by (subst class_loop.simps) (simp add: pat_at_hd numeral_3_eq_3)
    with "4.IH"(2) [OF 3(1,2,3) at(3) refl, of "m \<or> in_range nocase c e ch"] 3 show ?thesis
      by (auto simp: disj_ac intro: le_trans [of p "Suc (Suc (Suc p))"])
  next
    case 4
    have "class_loop pat p plen ch nocase m =
            class_loop pat (Suc p) (int (length (d # e # r))) ch nocase (m \<or> char_eq nocase c ch)"
      using "4.prems" at 4 by (subst class_loop.simps) (simp add: pat_at_hd)
    with "4.IH"(3) [OF 4(1,2,3) at(1) refl, of "m \<or> char_eq nocase c ch"] 4 show ?thesis
      by (auto simp: disj_ac)
  qed
qed

lemma match_class_ok:
  assumes "pat_at pat p (c # R)" "plen = int (length (c # R))"
  shows "\<exists>p'. match_class pat p plen ch nocase =
           Some (if list_ex (item_ok nocase ch) (fst (parse_class (if class_negated R then tl R else R))) \<noteq> class_negated R
                 then Some (p', int (length (snd (parse_class (if class_negated R then tl R else R)))) + 1) else None) \<and>
           pat_at pat (Suc p') (snd (parse_class (if class_negated R then tl R else R)))"
proof -
  have at: "pat_at pat (Suc p) R" using assms(1) by (rule pat_at_tl)
  have neg: "mem_get pat (Suc p) = Some (hd (R @ [0]))" "(hd (R @ [0]) = 94) = class_negated R"
    using pat_at_hd(2) [OF assms(1)] by (auto simp: class_negated_def hd_append)
  define R' where "R' = (if class_negated R then tl R else R)"
  define q where "q = (if class_negated R then Suc (Suc p) else Suc p)"
  have at': "pat_at pat q R'" using at by (cases R) (auto simp: class_negated_def q_def R'_def intro: pat_at_tl)
  have len: "int (length R') = (if class_negated R then plen - 2 else plen - 1)"
    using assms(2) by (cases R) (auto simp: class_negated_def R'_def)
  have "0 < q" by (simp add: q_def)
  from class_loop_ok [OF at' refl this, of ch nocase False] obtain p' where
    "class_loop pat q (int (length R')) ch nocase False =
              Some (p', int (length (snd (parse_class R'))) + 1,
                    list_ex (item_ok nocase ch) (fst (parse_class R')))"
    "pat_at pat (Suc p') (snd (parse_class R'))" by auto
  then show ?thesis using neg
    unfolding R'_def [symmetric] len q_def
    by (intro exI [of _ p']) (auto simp: match_class_def Let_def)
qed

lemma match_literal_ok:
  assumes "pat_at pat p (c # R)" "plen = int (length (c # R))"
  shows "match_literal pat p plen ch nocase =
           (if c = 92 \<and> R \<noteq> []
            then Some (if char_eq nocase (hd R) ch then Some (Suc p, int (length (tl R)) + 1) else None)
            else Some (if char_eq nocase c ch then Some (p, int (length R) + 1) else None))"
  using assms pat_at_hd(1,2) [OF assms(1)] by (cases R) (auto simp: match_literal_def Let_def)

definition token_step ::
  "byte list \<Rightarrow> nat \<Rightarrow> int \<Rightarrow> byte list \<Rightarrow> nat \<Rightarrow> bool \<Rightarrow> byte \<Rightarrow> (nat \<times> int) option option" where
  "token_step pat p plen str s nocase c =
     (if c = 63 then Some (Some (p, plen))
      else do {
        ch \<leftarrow> mem_get str s;
        if c = 91 then match_class pat p plen ch nocase
        else match_literal pat p plen ch nocase
      })"

lemma token_step_ok:
  assumes at: "pat_at pat p (c # R)" and plen: "plen = int (length (c # R))" and c: "c \<noteq> 42"
    and ch: "mem_get str s = Some ch"
  shows "\<exists>t rest p'. parse_glob (c # R) = t # parse_glob rest \<and> t \<noteq> Star \<and> length rest \<le> length R \<and>
           pat_at pat (Suc p') rest \<and>
           token_step pat p plen str s nocase c =
             Some (if tok_ok nocase t ch then Some (p', int (length rest) + 1) else None)"
proof -
  consider "c = 63" | "c = 91" | "c \<noteq> 63" "c \<noteq> 91" by blast
  then show ?thesis
  proof cases
    case 1
    then show ?thesis using at plen c
      by (intro exI [of _ Any] exI [of _ R] exI [of _ p]) (auto simp: token_step_def intro: pat_at_tl)
  next
    case 2
    let ?R = "if class_negated R then tl R else R"
    obtain items rest where pc: "parse_class ?R = (items, rest)" by (cases "parse_class ?R")
    have "length rest \<le> length R"
      using parse_class_length [OF pc [symmetric]] by (auto split: if_splits)
    moreover obtain p' where "match_class pat p plen ch nocase =
           Some (if list_ex (item_ok nocase ch) items \<noteq> class_negated R
                 then Some (p', int (length rest) + 1) else None)" "pat_at pat (Suc p') rest"
      using match_class_ok [OF at plen, of ch nocase] unfolding pc fst_conv snd_conv by blast
    ultimately show ?thesis using 2 pc ch
      by (intro exI [of _ "Class (class_negated R) items"] exI [of _ rest] exI [of _ p'])
        (auto simp: token_step_def Let_def)
  next
    case 3
    have "pat_at pat (Suc p) R" using at by (rule pat_at_tl)
    moreover have "pat_at pat (Suc (Suc p)) (tl R)" if "R \<noteq> []"
      using that \<open>pat_at pat (Suc p) R\<close> by (cases R) (auto intro: pat_at_tl)
    moreover have "token_step pat p plen str s nocase c = match_literal pat p plen ch nocase"
      using 3 ch by (simp add: token_step_def)
    ultimately show ?thesis
      using 3 c match_literal_ok [OF at plen, of ch nocase]
      by (intro exI [of _ "Literal (if c = 92 \<and> R \<noteq> [] then hd R else c)"]
            exI [of _ "if c = 92 \<and> R \<noteq> [] then tl R else R"]
            exI [of _ "if c = 92 \<and> R \<noteq> [] then Suc p else p"]) simp
  qed
qed

lemma impl_unfold:
  "stringmatchlen_impl pat p plen str s slen nocase skip =
     (if plen \<noteq> 0 \<and> slen \<noteq> 0 then do {
        c \<leftarrow> mem_get pat p;
        if c = 42 then do {
          (p', plen') \<leftarrow> skip_stars pat p plen;
          if plen' = 1 then Some (True, skip)
          else star_loop pat (p' + 1) (plen' - 1) str s slen nocase skip
        }
        else do {
          r \<leftarrow> token_step pat p plen str s nocase c;
          (case r of
             None \<Rightarrow> Some (False, skip)
           | Some (p', plen') \<Rightarrow>
               if slen - 1 = 0 then do {
                 (p'', plen'') \<leftarrow> skip_trailing pat (p' + 1) (plen' - 1);
                 Some (plen'' = 0, skip)
               }
               else stringmatchlen_impl pat (p' + 1) (plen' - 1) str (s + 1) (slen - 1) nocase skip)
        }
      } else Some (plen = 0 \<and> slen = 0, skip))"
  unfolding token_step_def by (rule stringmatchlen_impl.simps)

text \<open>What a run promises on the string \<open>S\<close>: the right result, and \<^verbatim>\<open>skipLongerMatches\<close> set after a
  failure only when no suffix of \<open>S\<close> matches either.\<close>

definition run_ok :: "bool \<Rightarrow> gtok list \<Rightarrow> byte list \<Rightarrow> (bool \<times> bool) option \<Rightarrow> bool" where
  "run_ok nocase ts S r \<longleftrightarrow>
     (\<exists>sk. r = Some (glob_matches nocase ts S, sk) \<and>
       (sk \<and> \<not> glob_matches nocase ts S \<longrightarrow> (\<forall>k. \<not> glob_matches nocase ts (drop k S))))"

lemma run_okI: "r = Some (glob_matches nocase ts S, False) \<Longrightarrow> run_ok nocase ts S r"
  by (auto simp: run_ok_def)

lemma take_drop_step:
  "s + Suc n \<le> length str \<Longrightarrow> take (Suc n) (drop s str) = str ! s # take n (drop (Suc s) str)"
  by (metis Cons_nth_drop_Suc Suc_le_lessD add_Suc_right le_add1 le_less_trans take_Suc_Cons)

lemma drop_star_not:
  "\<not> glob_matches nocase (Star # ts) S \<Longrightarrow> \<not> glob_matches nocase (Star # ts) (drop k S)"
proof -
  assume no: "\<not> glob_matches nocase (Star # ts) S"
  have "\<not> glob_matches nocase ts (drop j S)" for j
    using no unfolding glob_matches_Star by (metis drop_all le0 le_refl nle_le order.trans)
  then show ?thesis unfolding glob_matches_Star drop_drop by blast
qed

lemma star_loop_ok:
  assumes impl: "\<And>s slen. s + slen \<le> length str \<Longrightarrow> 0 < slen \<Longrightarrow>
      run_ok nocase ts (take slen (drop s str)) (stringmatchlen_impl pat q qlen str s slen nocase False)"
    and nil: "\<not> glob_matches nocase ts []" and bnd: "s + slen \<le> length str"
  shows "run_ok nocase (Star # ts) (take slen (drop s str)) (star_loop pat q qlen str s slen nocase False)"
proof -
  let ?S = "take slen (drop s str)"
  have "\<exists>sk. star_loop pat q qlen str s slen nocase False = Some (glob_matches nocase (Star # ts) ?S, sk)"
    using bnd
  proof (induction slen arbitrary: s)
    case 0
    then show ?case using nil by (subst star_loop.simps) auto
  next
    case (Suc n)
    let ?S = "take (Suc n) (drop s str)"
    from impl [OF Suc.prems] obtain sk where r:
      "stringmatchlen_impl pat q qlen str s (Suc n) nocase False = Some (glob_matches nocase ts ?S, sk)"
      "sk \<and> \<not> glob_matches nocase ts ?S \<longrightarrow> (\<forall>k. \<not> glob_matches nocase ts (drop k ?S))"
      unfolding run_ok_def by auto
    have st: "glob_matches nocase (Star # ts) ?S \<longleftrightarrow> glob_matches nocase ts ?S \<or>
        glob_matches nocase (Star # ts) (take n (drop (Suc s) str))"
      using take_drop_step [OF Suc.prems] by simp
    show ?case
    proof (cases "\<not> glob_matches nocase ts ?S \<and> sk")
      case True
      then have "\<not> glob_matches nocase (Star # ts) ?S" using r(2) unfolding glob_matches_Star by blast
      with True r(1) show ?thesis by (subst star_loop.simps) auto
    next
      case False
      then show ?thesis using r(1) st Suc.IH [of "Suc s"] Suc.prems by (subst star_loop.simps) auto
    qed
  qed
  then show ?thesis unfolding run_ok_def using drop_star_not by metis
qed


lemma impl_ok:
  assumes "pat_at pat p R" "plen = int (length R)" "s + slen \<le> length str" "0 < slen"
  shows "run_ok nocase (parse_glob R) (take slen (drop s str))
           (stringmatchlen_impl pat p plen str s slen nocase False)"
  using assms
proof (induction "length R" arbitrary: R p plen s slen rule: less_induct)
  case less
  define S where "S = take slen (drop s str)"
  have S: "S = str ! s # take (slen - 1) (drop (Suc s) str)"
    using take_drop_step [of s "slen - 1" str] less.prems by (simp add: S_def)
  show ?case
  proof (cases R)
    case Nil
    then show ?thesis using less.prems S
      by (subst impl_unfold) (auto simp: run_ok_def simp flip: S_def)
  next
    case (Cons c R0)
    note at = less.prems(1) [unfolded Cons] and plen = less.prems(2) [unfolded Cons]
    show ?thesis
    proof (cases "c = 42")
      case True
      obtain p' R' where sk: "skip_stars pat p plen = Some (p', int (length (42 # R')))"
        "pat_at pat p' (42 # R')" "R' = [] \<or> hd R' \<noteq> 42"
        "\<forall>s. glob_matches nocase (parse_glob R) s = glob_matches nocase (parse_glob (42 # R')) s"
        "length R' \<le> length R0"
        using skip_stars_ok [of pat p R0 plen nocase] at plen True unfolding Cons by metis
      have eq: "run_ok nocase (parse_glob R) S r \<longleftrightarrow> run_ok nocase (Star # parse_glob R') S r" for r
        using sk(4) by (simp add: run_ok_def)
      show ?thesis
      proof (cases "R' = []")
        case nil: True
        have "stringmatchlen_impl pat p plen str s slen nocase False = Some (True, False)"
          using less.prems(4) plen at True sk(1) nil by (subst impl_unfold) (simp add: pat_at_hd)
        moreover have "glob_matches nocase [Star] S" unfolding glob_matches_Star by (metis drop_all glob_matches.simps(1) le_refl)
        ultimately show ?thesis unfolding S_def [symmetric] eq nil by (auto simp: run_ok_def)
      next
        case False
        have "stringmatchlen_impl pat p plen str s slen nocase False =
                star_loop pat (Suc p') (int (length R')) str s slen nocase False"
          using less.prems(4) plen at True sk(1) False by (subst impl_unfold) (simp add: pat_at_hd)
        moreover have "run_ok nocase (Star # parse_glob R') S
            (star_loop pat (Suc p') (int (length R')) str s slen nocase False)"
          unfolding S_def
        proof (rule star_loop_ok)
          show "run_ok nocase (parse_glob R') (take slen (drop s str))
             (stringmatchlen_impl pat (Suc p') (int (length R')) str s slen nocase False)"
            if "s + slen \<le> length str" "0 < slen" for s slen
            using less.hyps [OF _ pat_at_tl [OF sk(2)] refl that] sk(5) Cons by simp
          show "\<not> glob_matches nocase (parse_glob R') []"
            using sk(3) False by (cases R') (auto simp: glob_matches_Cons Let_def split: prod.splits)
        qed (rule less.prems(3))
        ultimately show ?thesis unfolding S_def [symmetric] eq by simp
      qed
    next
      case False
      have "mem_get str s = Some (str ! s)" using less.prems by simp
      from token_step_ok [OF at plen False this, of nocase] obtain t rest p' where
        t: "parse_glob (c # R0) = t # parse_glob rest" "t \<noteq> Star" "length rest \<le> length R0"
          "pat_at pat (Suc p') rest"
          "token_step pat p plen str s nocase c =
             Some (if tok_ok nocase t (str ! s) then Some (p', int (length rest) + 1) else None)" by blast
      have S': "S = str ! s # take (slen - 1) (drop (Suc s) str)" by (rule S)
      have gm: "glob_matches nocase (t # ts) S' \<longleftrightarrow>
                  S' \<noteq> [] \<and> tok_ok nocase t (hd S') \<and> glob_matches nocase ts (tl S')" for ts S'
        using t(2) by (rule glob_matches_Cons)
      show ?thesis
      proof (cases "tok_ok nocase t (str ! s)")
        case no: False
        have "stringmatchlen_impl pat p plen str s slen nocase False = Some (False, False)"
          using less.prems(4) plen at False t(5) no by (subst impl_unfold) (simp add: pat_at_hd)
        then show ?thesis using no S unfolding S_def [symmetric] Cons t(1) by (simp add: run_okI gm)
      next
        case yes: True
        show ?thesis
        proof (cases "slen = 1")
          case True
          obtain p'' plen'' where tr: "skip_trailing pat (Suc p') (int (length rest)) = Some (p'', plen'')"
            "plen'' = 0 \<longleftrightarrow> glob_matches nocase (parse_glob rest) []"
            using skip_trailing_ok [OF t(4) refl] by blast
          have "stringmatchlen_impl pat p plen str s slen nocase False = Some (plen'' = 0, False)"
            using plen at False t(5) yes True tr(1) by (subst impl_unfold) (simp add: pat_at_hd)
          then show ?thesis using yes S tr(2) True unfolding S_def [symmetric] Cons t(1)
            by (simp add: run_okI gm)
        next
          case False2: False
          let ?T = "take (slen - 1) (drop (Suc s) str)"
          let ?r = "stringmatchlen_impl pat (Suc p') (int (length rest)) str (Suc s) (slen - 1) nocase False"
          have "stringmatchlen_impl pat p plen str s slen nocase False = ?r"
            using less.prems(4) plen at False t(5) yes False2 by (subst impl_unfold) (simp add: pat_at_hd)
          moreover have "run_ok nocase (parse_glob rest) ?T ?r"
            by (rule less.hyps) (use t(3,4) Cons less.prems(3,4) False2 in auto)
          moreover have "\<not> glob_matches nocase (t # parse_glob rest) (drop k S)"
            if "\<forall>k. \<not> glob_matches nocase (parse_glob rest) (drop k ?T)" for k
            using that S by (simp add: gm tl_drop drop_Suc flip: drop_Suc)
          ultimately show ?thesis using yes S unfolding S_def [symmetric] Cons t(1)
            by (auto simp: run_ok_def gm)
        qed
      qed
    qed
  qed
qed


section \<open>Properties\<close>

text \<open>C21. \<^verbatim>\<open>stringmatchlen\<close> returns on every terminated pattern without reading past the terminator or
  the string, and it decides the declarative meaning of the pattern: the early termination by
  \<^verbatim>\<open>skipLongerMatches\<close> never changes the answer. On the empty string only the empty pattern matches.\<close>

theorem stringmatchlen_meaning:
  "stringmatchlen (P @ 0 # z) (int (length P)) (S @ y) (length S) nocase =
     Some (if S = [] then P = [] else glob_matches nocase (parse_glob P) S)"
proof (cases "S = []")
  case True
  then show ?thesis by (simp add: stringmatchlen_def stringmatchlen_impl.simps)
next
  case False
  have "pat_at (P @ 0 # z) 0 P" by (simp add: pat_at_def)
  from impl_ok [OF this refl, of 0 "length S" "S @ y" nocase] False show ?thesis
    by (auto simp: stringmatchlen_def run_ok_def)
qed


end
