(* ===== verification/Dict.thy ===== *)
theory Dict
  imports Redis_Prelude
begin

text \<open>
  The hash table of \<^verbatim>\<open>dict.c\<close>: chained buckets in two tables, of which the second exists while an
  incremental rehash moves the buckets of the first one by one. This theory holds the model; the
  invariant and the refinement to a finite map are in \<open>Dict_Proofs\<close>.

  The three arrays \<^verbatim>\<open>ht_table\<close>, \<^verbatim>\<open>ht_used\<close> and \<^verbatim>\<open>ht_size_exp\<close> of the C structure are one record per
  table. A chain is a value of the datatype \<open>chain\<close>, one constructor per kind of tagged pointer that
  the C code distinguishes by the low bits; the chains of a dict never share a cell. A pointer to an
  entry is a table number, a bucket number and a position. The type of the dict, \<^verbatim>\<open>d->type\<close>, is an
  argument, as are the global \<^verbatim>\<open>dict_can_resize\<close> and the outcome of an allocation that may fail.
  Metadata, destructors and defragmentation are not modelled.
\<close>

unbundle bit_operations_syntax

section \<open>Types\<close>

text \<open>A pointer to an entry: \<^verbatim>\<open>NULL\<close>, a bare odd key, an entry without a value, and a normal entry. The
  value of a new entry is not initialised (\<^const>\<open>None\<close>) until it is set.\<close>

datatype ('k, 'v) chain =
    NULL
  | EKey 'k
  | ENoValue 'k "('k, 'v) chain"
  | ENormal 'k "'v option" "('k, 'v) chain"

datatype dictResizeEnable = DICT_RESIZE_ENABLE | DICT_RESIZE_AVOID | DICT_RESIZE_FORBID

text \<open>\<open>ptr_odd\<close> is the low bit of a key pointer, \<^verbatim>\<open>(uintptr_t)key & 1\<close>. \<open>expandAllowed\<close> is given the
  memory needed, and the load factor as a numerator and a denominator.\<close>

record ('k, 'v) dictType =
  hashFunction :: "'k \<Rightarrow> u64"
  keyDup :: "('k \<Rightarrow> 'k) option"
  valDup :: "('v \<Rightarrow> 'v) option"
  keyCompare :: "('k \<Rightarrow> 'k \<Rightarrow> bool) option"
  expandAllowed :: "(nat \<Rightarrow> nat \<Rightarrow> nat \<Rightarrow> bool) option"
  no_value :: bool
  keys_are_odd :: bool
  ptr_odd :: "'k \<Rightarrow> bool"

record ('k, 'v) dictht =
  ht_table :: "('k, 'v) chain list option"
  ht_used :: nat
  ht_size_exp :: int

record ('k, 'v) dict =
  ht0 :: "('k, 'v) dictht"
  ht1 :: "('k, 'v) dictht"
  rehashidx :: int
  pauserehash :: int

type_synonym entry_ref = "nat \<times> nat \<times> nat"

definition dict_force_resize_ratio :: nat where "dict_force_resize_ratio = 5"
definition DICT_HT_INITIAL_EXP :: int where "DICT_HT_INITIAL_EXP = 2"
definition DICT_HT_INITIAL_SIZE :: nat where "DICT_HT_INITIAL_SIZE = 4"
definition DICT_LONG_MAX :: nat where "DICT_LONG_MAX = 2 ^ 63 - 1"

definition DICTHT_SIZE :: "int \<Rightarrow> nat" where
  "DICTHT_SIZE e = (if e = -1 then 0 else 2 ^ nat e)"

definition DICTHT_SIZE_MASK :: "int \<Rightarrow> u64" where
  "DICTHT_SIZE_MASK e = (if e = -1 then 0 else of_nat (DICTHT_SIZE e) - 1)"

definition get_ht :: "('k, 'v) dict \<Rightarrow> nat \<Rightarrow> ('k, 'v) dictht" where
  "get_ht d i = (if i = 0 then ht0 d else ht1 d)"

definition set_ht :: "('k, 'v) dict \<Rightarrow> nat \<Rightarrow> ('k, 'v) dictht \<Rightarrow> ('k, 'v) dict" where
  "set_ht d i h = (if i = 0 then d\<lparr>ht0 := h\<rparr> else d\<lparr>ht1 := h\<rparr>)"

definition dictIsRehashing :: "('k, 'v) dict \<Rightarrow> bool" where
  "dictIsRehashing d \<longleftrightarrow> rehashidx d \<noteq> -1"

definition dictSize :: "('k, 'v) dict \<Rightarrow> nat" where
  "dictSize d = ht_used (ht0 d) + ht_used (ht1 d)"

definition dictSlots :: "('k, 'v) dict \<Rightarrow> nat" where
  "dictSlots d = DICTHT_SIZE (ht_size_exp (ht0 d)) + DICTHT_SIZE (ht_size_exp (ht1 d))"

definition dictPauseRehashing :: "('k, 'v) dict \<Rightarrow> ('k, 'v) dict" where
  "dictPauseRehashing d = d\<lparr>pauserehash := pauserehash d + 1\<rparr>"

definition dictResumeRehashing :: "('k, 'v) dict \<Rightarrow> ('k, 'v) dict" where
  "dictResumeRehashing d = d\<lparr>pauserehash := pauserehash d - 1\<rparr>"

definition dictCompareKeys :: "('k, 'v) dictType \<Rightarrow> 'k \<Rightarrow> 'k \<Rightarrow> bool" where
  "dictCompareKeys t k1 k2 = (case keyCompare t of Some f \<Rightarrow> f k1 k2 | None \<Rightarrow> k1 = k2)"

text \<open>The test \<^verbatim>\<open>key == he_key || dictCompareKeys(d, key, he_key)\<close>.\<close>

definition same_key :: "('k, 'v) dictType \<Rightarrow> 'k \<Rightarrow> 'k \<Rightarrow> bool" where
  "same_key t k1 k2 \<longleftrightarrow> k1 = k2 \<or> dictCompareKeys t k1 k2"

text \<open>The bucket of a hash in a table: \<^verbatim>\<open>h & DICTHT_SIZE_MASK(exp)\<close>.\<close>

definition bucket_index :: "u64 \<Rightarrow> int \<Rightarrow> nat" where
  "bucket_index h e = unat (h AND DICTHT_SIZE_MASK e)"

section \<open>Entries\<close>

definition entryIsKey :: "('k, 'v) chain \<Rightarrow> bool" where
  "entryIsKey de \<longleftrightarrow> (case de of EKey _ \<Rightarrow> True | _ \<Rightarrow> False)"

definition entryIsNormal :: "('k, 'v) chain \<Rightarrow> bool" where
  "entryIsNormal de \<longleftrightarrow> (case de of ENormal _ _ _ \<Rightarrow> True | _ \<Rightarrow> False)"

definition entryIsNoValue :: "('k, 'v) chain \<Rightarrow> bool" where
  "entryIsNoValue de \<longleftrightarrow> (case de of ENoValue _ _ \<Rightarrow> True | _ \<Rightarrow> False)"

definition createEntryNoValue :: "'k \<Rightarrow> ('k, 'v) chain \<Rightarrow> ('k, 'v) chain" where
  "createEntryNoValue key next = ENoValue key next"

fun dictGetKey :: "('k, 'v) chain \<Rightarrow> 'k option" where
  "dictGetKey NULL = None"
| "dictGetKey (EKey k) = Some k"
| "dictGetKey (ENoValue k n) = Some k"
| "dictGetKey (ENormal k v n) = Some k"

fun dictGetVal :: "('k, 'v) chain \<Rightarrow> 'v option" where
  "dictGetVal (ENormal k v n) = v"
| "dictGetVal _ = None"

fun dictGetNext :: "('k, 'v) chain \<Rightarrow> ('k, 'v) chain" where
  "dictGetNext NULL = NULL"
| "dictGetNext (EKey k) = NULL"
| "dictGetNext (ENoValue k n) = n"
| "dictGetNext (ENormal k v n) = n"

fun dictSetNext :: "('k, 'v) chain \<Rightarrow> ('k, 'v) chain \<Rightarrow> ('k, 'v) chain option" where
  "dictSetNext NULL next = None"
| "dictSetNext (EKey k) next = None"
| "dictSetNext (ENoValue k n) next = Some (ENoValue k next)"
| "dictSetNext (ENormal k v n) next = Some (ENormal k v next)"

text \<open>The keys and values of a chain, in order.\<close>

primrec chain_list :: "('k, 'v) chain \<Rightarrow> ('k \<times> 'v option) list" where
  "chain_list NULL = []"
| "chain_list (EKey k) = [(k, None)]"
| "chain_list (ENoValue k n) = (k, None) # chain_list n"
| "chain_list (ENormal k v n) = (k, v) # chain_list n"

lemma length_dictGetNext [termination_simp]:
  "de \<noteq> NULL \<Longrightarrow> length (chain_list (dictGetNext de)) < length (chain_list de)"
  by (cases de) auto

section \<open>Creation and expansion\<close>

definition empty_ht :: "('k, 'v) dictht" where
  "empty_ht = \<lparr>ht_table = None, ht_used = 0, ht_size_exp = -1\<rparr>"

definition u_dictReset :: "('k, 'v) dict \<Rightarrow> nat \<Rightarrow> ('k, 'v) dict" where
  "u_dictReset d i = set_ht d i empty_ht"

definition u_dictInit :: "('k, 'v) dict \<Rightarrow> ('k, 'v) dict" where
  "u_dictInit d = (u_dictReset (u_dictReset d 0) 1)\<lparr>rehashidx := -1, pauserehash := 0\<rparr>"

text \<open>The fields of the fresh allocation have no specified value before \<^verbatim>\<open>_dictInit\<close> writes them.\<close>

definition dictCreate :: "('k, 'v) dict" where
  "dictCreate = u_dictInit \<lparr>ht0 = empty_ht, ht1 = empty_ht, rehashidx = 0, pauserehash = 0\<rparr>"

text \<open>\<^verbatim>\<open>__builtin_clzl\<close>: the leading zeros of a 64-bit number.\<close>

fun bit_length :: "nat \<Rightarrow> nat" where
  "bit_length n = (if n = 0 then 0 else Suc (bit_length (n div 2)))"

declare bit_length.simps [simp del]

definition clzl :: "nat \<Rightarrow> nat" where
  "clzl n = 64 - bit_length n"

definition u_dictNextExp :: "nat \<Rightarrow> int" where
  "u_dictNextExp sz =
     (if sz \<le> DICT_HT_INITIAL_SIZE then DICT_HT_INITIAL_EXP
      else if sz \<ge> DICT_LONG_MAX then 63
      else 64 - int (clzl (sz - 1)))"

text \<open>The result is the dict, whether the expansion was performed (\<^verbatim>\<open>DICT_OK\<close>) and \<^verbatim>\<open>*malloc_failed\<close>;
  \<open>alloc\<close> says whether the allocation succeeds.\<close>

definition u_dictExpand :: "('k, 'v) dict \<Rightarrow> nat \<Rightarrow> bool \<Rightarrow> ('k, 'v) dict \<times> bool \<times> bool" where
  "u_dictExpand d sz alloc =
     (if dictIsRehashing d \<or> ht_used (ht0 d) > sz then (d, False, False)
      else
        let new_ht_size_exp = u_dictNextExp sz;
            newsize = 2 ^ nat new_ht_size_exp
        in if newsize < sz \<or> newsize * 8 mod 2 ^ 64 < newsize then (d, False, False)
           else if new_ht_size_exp = ht_size_exp (ht0 d) then (d, False, False)
           else if \<not> alloc then (d, False, True)
           else
             let h = \<lparr>ht_table = Some (replicate newsize NULL), ht_used = 0,
                      ht_size_exp = new_ht_size_exp\<rparr>
             in if ht_table (ht0 d) = None then (d\<lparr>ht0 := h\<rparr>, True, False)
                else (d\<lparr>ht1 := h, rehashidx := 0\<rparr>, True, False))"

definition dictExpand :: "('k, 'v) dict \<Rightarrow> nat \<Rightarrow> ('k, 'v) dict \<times> bool" where
  "dictExpand d sz = (let (d', r, _) = u_dictExpand d sz True in (d', r))"

definition dictTryExpand :: "('k, 'v) dict \<Rightarrow> nat \<Rightarrow> bool \<Rightarrow> ('k, 'v) dict \<times> bool" where
  "dictTryExpand d sz alloc = (let (d', _, malloc_failed) = u_dictExpand d sz alloc in (d', \<not> malloc_failed))"

definition dictResize :: "dictResizeEnable \<Rightarrow> ('k, 'v) dict \<Rightarrow> ('k, 'v) dict \<times> bool" where
  "dictResize can d =
     (if can \<noteq> DICT_RESIZE_ENABLE \<or> dictIsRehashing d then (d, False)
      else let minimal = ht_used (ht0 d);
               minimal = (if minimal < DICT_HT_INITIAL_SIZE then DICT_HT_INITIAL_SIZE else minimal)
           in dictExpand d minimal)"

definition dictTypeExpandAllowed :: "('k, 'v) dictType \<Rightarrow> ('k, 'v) dict \<Rightarrow> bool" where
  "dictTypeExpandAllowed t d =
     (case expandAllowed t of
        None \<Rightarrow> True
      | Some f \<Rightarrow> f (DICTHT_SIZE (u_dictNextExp (ht_used (ht0 d) + 1)) * 8)
                   (ht_used (ht0 d)) (DICTHT_SIZE (ht_size_exp (ht0 d))))"

definition u_dictExpandIfNeeded ::
  "dictResizeEnable \<Rightarrow> ('k, 'v) dictType \<Rightarrow> ('k, 'v) dict \<Rightarrow> ('k, 'v) dict \<times> bool" where
  "u_dictExpandIfNeeded can t d =
     (let h = ht0 d; sz = DICTHT_SIZE (ht_size_exp h)
      in if dictIsRehashing d then (d, True)
         else if sz = 0 then dictExpand d DICT_HT_INITIAL_SIZE
         else if can = DICT_RESIZE_ENABLE \<and> ht_used h \<ge> sz \<or>
                 can \<noteq> DICT_RESIZE_FORBID \<and> ht_used h div sz > dict_force_resize_ratio then
           (if \<not> dictTypeExpandAllowed t d then (d, True)
            else dictExpand d (ht_used h + 1))
         else (d, True))"

section \<open>Incremental rehashing\<close>

text \<open>The loop over empty buckets: the new index, the remaining visits and whether the function
  returns 1 because they are used up.\<close>

function rehash_skip :: "('k, 'v) chain list \<Rightarrow> nat \<Rightarrow> int \<Rightarrow> (nat \<times> int \<times> bool) option" where
  "rehash_skip tab idx empty_visits =
     do {
       de \<leftarrow> mem_get tab idx;
       if de = NULL then
         (if empty_visits - 1 = 0 then Some (idx + 1, 0, True)
          else rehash_skip tab (idx + 1) (empty_visits - 1))
       else Some (idx, empty_visits, False)
     }"
  by auto
termination
  by (relation "measure (\<lambda>(tab, idx, ev). length tab - idx)") (auto simp: mem_get_def split: if_splits)

declare rehash_skip.simps [simp del]

text \<open>The entry that takes the place of \<open>de\<close> in front of the destination bucket \<open>old\<close>.\<close>

definition rehash_entry ::
  "('k, 'v) dictType \<Rightarrow> ('k, 'v) chain \<Rightarrow> 'k \<Rightarrow> ('k, 'v) chain \<Rightarrow> ('k, 'v) chain option" where
  "rehash_entry t de key old =
     (if no_value t then
        (if keys_are_odd t \<and> old = NULL then
           (if ptr_odd t key then Some (EKey key) else None)
         else if entryIsKey de then Some (createEntryNoValue key old)
         else if entryIsNoValue de then dictSetNext de old
         else None)
      else dictSetNext de old)"

text \<open>The loop that moves the entries of one bucket; the number of entries moved is added to
  \<^verbatim>\<open>ht_used[1]\<close> and taken from \<^verbatim>\<open>ht_used[0]\<close>, which must not fall below 0.\<close>

function rehash_bucket ::
  "('k, 'v) dictType \<Rightarrow> nat \<Rightarrow> int \<Rightarrow> ('k, 'v) chain \<Rightarrow> ('k, 'v) dictht \<Rightarrow> ('k, 'v) dictht \<Rightarrow>
     (('k, 'v) dictht \<times> ('k, 'v) dictht) option" where
  "rehash_bucket t idx exp0 de h0 h1 =
     (if de = NULL then Some (h0, h1)
      else do {
        key \<leftarrow> dictGetKey de;
        let h = (if ht_size_exp h1 > exp0
                 then bucket_index (hashFunction t key) (ht_size_exp h1)
                 else bucket_index (of_nat idx) (ht_size_exp h1));
        tab1 \<leftarrow> ht_table h1;
        old \<leftarrow> mem_get tab1 h;
        de' \<leftarrow> rehash_entry t de key old;
        tab1' \<leftarrow> mem_put tab1 h de';
        if ht_used h0 = 0 then None
        else rehash_bucket t idx exp0 (dictGetNext de)
               (h0\<lparr>ht_used := ht_used h0 - 1\<rparr>)
               (h1\<lparr>ht_table := Some tab1', ht_used := ht_used h1 + 1\<rparr>)
      })"
  by auto
termination
  by (relation "measure (\<lambda>(t, idx, exp0, de, h0, h1). length (chain_list de))")
    (auto simp: length_dictGetNext)

declare rehash_bucket.simps [simp del]

text \<open>The outer loop: the dict and whether the function returned 1 in the loop.\<close>

fun rehash_loop ::
  "('k, 'v) dictType \<Rightarrow> ('k, 'v) dict \<Rightarrow> nat \<Rightarrow> int \<Rightarrow> (('k, 'v) dict \<times> bool) option" where
  "rehash_loop t d 0 empty_visits = Some (d, False)"
| "rehash_loop t d (Suc n) empty_visits =
     (if ht_used (ht0 d) = 0 then Some (d, False)
      else if \<not> DICTHT_SIZE (ht_size_exp (ht0 d)) > nat (rehashidx d) then None
      else do {
        tab0 \<leftarrow> ht_table (ht0 d);
        (idx, empty_visits, stop) \<leftarrow> rehash_skip tab0 (nat (rehashidx d)) empty_visits;
        if stop then Some (d\<lparr>rehashidx := int idx\<rparr>, True)
        else do {
          de \<leftarrow> mem_get tab0 idx;
          (h0, h1) \<leftarrow> rehash_bucket t idx (ht_size_exp (ht0 d)) de (ht0 d) (ht1 d);
          tab0' \<leftarrow> mem_put tab0 idx NULL;
          rehash_loop t (d\<lparr>ht0 := h0\<lparr>ht_table := Some tab0'\<rparr>, ht1 := h1, rehashidx := int idx + 1\<rparr>)
            n empty_visits
        }
      })"

definition dictRehash ::
  "dictResizeEnable \<Rightarrow> ('k, 'v) dictType \<Rightarrow> ('k, 'v) dict \<Rightarrow> nat \<Rightarrow> (('k, 'v) dict \<times> bool) option" where
  "dictRehash can t d n =
     (let empty_visits = int n * 10;
          s0 = DICTHT_SIZE (ht_size_exp (ht0 d));
          s1 = DICTHT_SIZE (ht_size_exp (ht1 d))
      in if can = DICT_RESIZE_FORBID \<or> \<not> dictIsRehashing d then Some (d, False)
         else if can = DICT_RESIZE_AVOID \<and>
                 (s1 > s0 \<and> s1 div s0 < dict_force_resize_ratio \<or>
                  s1 < s0 \<and> s0 div s1 < dict_force_resize_ratio) then Some (d, False)
         else do {
           (d, stop) \<leftarrow> rehash_loop t d n empty_visits;
           if stop then Some (d, True)
           else if ht_used (ht0 d) = 0 then
             Some ((u_dictReset (d\<lparr>ht0 := ht1 d\<rparr>) 1)\<lparr>rehashidx := -1\<rparr>, False)
           else Some (d, True)
         })"

definition u_dictRehashStep ::
  "dictResizeEnable \<Rightarrow> ('k, 'v) dictType \<Rightarrow> ('k, 'v) dict \<Rightarrow> ('k, 'v) dict option" where
  "u_dictRehashStep can t d =
     (if pauserehash d = 0 then map_option fst (dictRehash can t d 1) else Some d)"

text \<open>\<open>expired\<close> lists the outcomes of the clock test \<^verbatim>\<open>timeInMilliseconds()-start > ms\<close>; when the list
  ends the time is up.\<close>

fun rehash_ms_loop ::
  "dictResizeEnable \<Rightarrow> ('k, 'v) dictType \<Rightarrow> ('k, 'v) dict \<Rightarrow> bool list \<Rightarrow> nat \<Rightarrow> (('k, 'v) dict \<times> nat) option" where
  "rehash_ms_loop can t d expired rehashes =
     do {
       (d, more) \<leftarrow> dictRehash can t d 100;
       if \<not> more then Some (d, rehashes)
       else (case expired of
               [] \<Rightarrow> Some (d, rehashes + 100)
             | e # es \<Rightarrow> if e then Some (d, rehashes + 100)
                         else rehash_ms_loop can t d es (rehashes + 100))
     }"

definition dictRehashMilliseconds ::
  "dictResizeEnable \<Rightarrow> ('k, 'v) dictType \<Rightarrow> ('k, 'v) dict \<Rightarrow> bool list \<Rightarrow> (('k, 'v) dict \<times> nat) option" where
  "dictRehashMilliseconds can t d expired =
     (if pauserehash d > 0 then Some (d, 0) else rehash_ms_loop can t d expired 0)"

section \<open>Lookup\<close>

text \<open>The loop over a chain: the position of the first entry with the key.\<close>

function chain_find :: "('k, 'v) dictType \<Rightarrow> 'k \<Rightarrow> ('k, 'v) chain \<Rightarrow> nat \<Rightarrow> nat option option" where
  "chain_find t key he pos =
     (if he = NULL then Some None
      else do {
        he_key \<leftarrow> dictGetKey he;
        if same_key t key he_key then Some (Some pos)
        else chain_find t key (dictGetNext he) (pos + 1)
      })"
  by auto
termination
  by (relation "measure (\<lambda>(t, key, he, pos). length (chain_list he))") (auto simp: length_dictGetNext)

declare chain_find.simps [simp del]

definition find_in_table ::
  "('k, 'v) dictType \<Rightarrow> ('k, 'v) dict \<Rightarrow> 'k \<Rightarrow> u64 \<Rightarrow> nat \<Rightarrow> entry_ref option option" where
  "find_in_table t d key h i =
     do {
       let idx = bucket_index h (ht_size_exp (get_ht d i));
       tab \<leftarrow> ht_table (get_ht d i);
       he \<leftarrow> mem_get tab idx;
       r \<leftarrow> chain_find t key he 0;
       Some (map_option (\<lambda>pos. (i, idx, pos)) r)
     }"

text \<open>The loop \<^verbatim>\<open>for (table = 0; table <= 1; table++)\<close> with its exit when no rehash is going on.\<close>

definition find_in_tables ::
  "('k, 'v) dictType \<Rightarrow> ('k, 'v) dict \<Rightarrow> 'k \<Rightarrow> u64 \<Rightarrow> entry_ref option option" where
  "find_in_tables t d key h =
     do {
       r \<leftarrow> find_in_table t d key h 0;
       (case r of
          Some ref \<Rightarrow> Some (Some ref)
        | None \<Rightarrow> if \<not> dictIsRehashing d then Some None else find_in_table t d key h 1)
     }"

definition dictFind ::
  "dictResizeEnable \<Rightarrow> ('k, 'v) dictType \<Rightarrow> ('k, 'v) dict \<Rightarrow> 'k \<Rightarrow> (('k, 'v) dict \<times> entry_ref option) option" where
  "dictFind can t d key =
     (if dictSize d = 0 then Some (d, None)
      else do {
        d \<leftarrow> (if dictIsRehashing d then u_dictRehashStep can t d else Some d);
        r \<leftarrow> find_in_tables t d key (hashFunction t key);
        Some (d, r)
      })"

text \<open>The pointer behind an entry reference.\<close>

definition entry_at :: "('k, 'v) dict \<Rightarrow> entry_ref \<Rightarrow> ('k, 'v) chain option" where
  "entry_at d ref =
     (let (i, idx, pos) = ref
      in do {
        tab \<leftarrow> ht_table (get_ht d i);
        he \<leftarrow> mem_get tab idx;
        let he = (dictGetNext ^^ pos) he;
        if he = NULL then None else Some he
      })"

text \<open>\<open>Some None\<close> is \<^verbatim>\<open>NULL\<close>.\<close>

definition dictFetchValue ::
  "dictResizeEnable \<Rightarrow> ('k, 'v) dictType \<Rightarrow> ('k, 'v) dict \<Rightarrow> 'k \<Rightarrow> (('k, 'v) dict \<times> 'v option) option" where
  "dictFetchValue can t d key =
     do {
       (d, r) \<leftarrow> dictFind can t d key;
       (case r of
          None \<Rightarrow> Some (d, None)
        | Some ref \<Rightarrow> do { he \<leftarrow> entry_at d ref; v \<leftarrow> dictGetVal he; Some (d, Some v) })
     }"

section \<open>Insertion\<close>

text \<open>\<^verbatim>\<open>dictFindPositionForInsert\<close>: the bucket, or \<^verbatim>\<open>NULL\<close> together with \<^verbatim>\<open>*existing\<close>.\<close>

definition dictFindPositionForInsert ::
  "dictResizeEnable \<Rightarrow> ('k, 'v) dictType \<Rightarrow> ('k, 'v) dict \<Rightarrow> 'k \<Rightarrow>
     (('k, 'v) dict \<times> (nat \<times> nat) option \<times> entry_ref option) option" where
  "dictFindPositionForInsert can t d key =
     do {
       let hash = hashFunction t key;
       d \<leftarrow> (if dictIsRehashing d then u_dictRehashStep can t d else Some d);
       let (d, ok) = u_dictExpandIfNeeded can t d;
       if \<not> ok then Some (d, None, None)
       else do {
         r \<leftarrow> find_in_tables t d key hash;
         (case r of
            Some ref \<Rightarrow> Some (d, None, Some ref)
          | None \<Rightarrow>
              let i = (if dictIsRehashing d then 1 else 0)
              in Some (d, Some (i, bucket_index hash (ht_size_exp (get_ht d i))), None))
       }
     }"

text \<open>The new entry is the first of its bucket.\<close>

definition dictInsertAtPosition ::
  "('k, 'v) dictType \<Rightarrow> ('k, 'v) dict \<Rightarrow> 'k \<Rightarrow> nat \<times> nat \<Rightarrow> (('k, 'v) dict \<times> entry_ref) option" where
  "dictInsertAtPosition t d key position =
     (let (i, idx) = position; htidx = (if dictIsRehashing d then 1 else 0); h = get_ht d htidx
      in if \<not> (i = htidx \<and> idx \<le> unat (DICTHT_SIZE_MASK (ht_size_exp h))) then None
         else do {
           tab \<leftarrow> ht_table h;
           bucket \<leftarrow> mem_get tab idx;
           entry \<leftarrow> (if no_value t then
                       (if keys_are_odd t \<and> bucket = NULL then
                          (if ptr_odd t key then Some (EKey key) else None)
                        else Some (createEntryNoValue key bucket))
                     else Some (ENormal key None bucket));
           tab' \<leftarrow> mem_put tab idx entry;
           Some (set_ht d htidx (h\<lparr>ht_table := Some tab', ht_used := ht_used h + 1\<rparr>), (htidx, idx, 0))
         })"

text \<open>The new entry or \<^verbatim>\<open>NULL\<close>, and \<^verbatim>\<open>*existing\<close>.\<close>

definition dictAddRaw ::
  "dictResizeEnable \<Rightarrow> ('k, 'v) dictType \<Rightarrow> ('k, 'v) dict \<Rightarrow> 'k \<Rightarrow>
     (('k, 'v) dict \<times> entry_ref option \<times> entry_ref option) option" where
  "dictAddRaw can t d key =
     do {
       (d, position, existing) \<leftarrow> dictFindPositionForInsert can t d key;
       (case position of
          None \<Rightarrow> Some (d, None, existing)
        | Some p \<Rightarrow> do {
            let key = (case keyDup t of Some f \<Rightarrow> f key | None \<Rightarrow> key);
            (d, ref) \<leftarrow> dictInsertAtPosition t d key p;
            Some (d, Some ref, existing)
          })
     }"

text \<open>An update of the entry at a position of a chain.\<close>

fun chain_update ::
  "(('k, 'v) chain \<Rightarrow> ('k, 'v) chain option) \<Rightarrow> nat \<Rightarrow> ('k, 'v) chain \<Rightarrow> ('k, 'v) chain option" where
  "chain_update f 0 he = (if he = NULL then None else f he)"
| "chain_update f (Suc n) he =
     (if he = NULL then None
      else do { next \<leftarrow> chain_update f n (dictGetNext he); dictSetNext he next })"

definition update_entry ::
  "(('k, 'v) chain \<Rightarrow> ('k, 'v) chain option) \<Rightarrow> ('k, 'v) dict \<Rightarrow> entry_ref \<Rightarrow> ('k, 'v) dict option" where
  "update_entry f d ref =
     (let (i, idx, pos) = ref; h = get_ht d i
      in do {
        tab \<leftarrow> ht_table h;
        he \<leftarrow> mem_get tab idx;
        he' \<leftarrow> chain_update f pos he;
        tab' \<leftarrow> mem_put tab idx he';
        Some (set_ht d i (h\<lparr>ht_table := Some tab'\<rparr>))
      })"

definition dictSetVal ::
  "('k, 'v) dictType \<Rightarrow> ('k, 'v) dict \<Rightarrow> entry_ref \<Rightarrow> 'v \<Rightarrow> ('k, 'v) dict option" where
  "dictSetVal t d ref val =
     update_entry (\<lambda>de. case de of
         ENormal k v n \<Rightarrow> Some (ENormal k (Some (case valDup t of Some f \<Rightarrow> f val | None \<Rightarrow> val)) n)
       | _ \<Rightarrow> None) d ref"

definition dictSetKey ::
  "('k, 'v) dictType \<Rightarrow> ('k, 'v) dict \<Rightarrow> entry_ref \<Rightarrow> 'k \<Rightarrow> ('k, 'v) dict option" where
  "dictSetKey t d ref key =
     (if no_value t then None
      else update_entry (\<lambda>de. case de of
             ENormal k v n \<Rightarrow> Some (ENormal (case keyDup t of Some f \<Rightarrow> f key | None \<Rightarrow> key) v n)
           | _ \<Rightarrow> None) d ref)"

definition dictAdd ::
  "dictResizeEnable \<Rightarrow> ('k, 'v) dictType \<Rightarrow> ('k, 'v) dict \<Rightarrow> 'k \<Rightarrow> 'v \<Rightarrow> (('k, 'v) dict \<times> bool) option" where
  "dictAdd can t d key val =
     do {
       (d, entry, _) \<leftarrow> dictAddRaw can t d key;
       (case entry of
          None \<Rightarrow> Some (d, False)
        | Some ref \<Rightarrow> do {
            d \<leftarrow> (if \<not> no_value t then dictSetVal t d ref val else Some d);
            Some (d, True)
          })
     }"

text \<open>\<^verbatim>\<open>dictReplace\<close> reads the old value before it sets the new one.\<close>

definition dictReplace ::
  "dictResizeEnable \<Rightarrow> ('k, 'v) dictType \<Rightarrow> ('k, 'v) dict \<Rightarrow> 'k \<Rightarrow> 'v \<Rightarrow> (('k, 'v) dict \<times> bool) option" where
  "dictReplace can t d key val =
     do {
       (d, entry, existing) \<leftarrow> dictAddRaw can t d key;
       (case entry of
          Some ref \<Rightarrow> do { d \<leftarrow> dictSetVal t d ref val; Some (d, True) }
        | None \<Rightarrow> do {
            ref \<leftarrow> existing;
            he \<leftarrow> entry_at d ref;
            oldval \<leftarrow> dictGetVal he;
            d \<leftarrow> dictSetVal t d ref val;
            Some (d, False)
          })
     }"

definition dictAddOrFind ::
  "dictResizeEnable \<Rightarrow> ('k, 'v) dictType \<Rightarrow> ('k, 'v) dict \<Rightarrow> 'k \<Rightarrow> (('k, 'v) dict \<times> entry_ref option) option" where
  "dictAddOrFind can t d key =
     do {
       (d, entry, existing) \<leftarrow> dictAddRaw can t d key;
       Some (d, case entry of Some ref \<Rightarrow> Some ref | None \<Rightarrow> existing)
     }"

section \<open>Deletion\<close>

text \<open>The loop that unlinks the first entry with the key: the entry and the new chain.\<close>

function chain_unlink ::
  "('k, 'v) dictType \<Rightarrow> 'k \<Rightarrow> ('k, 'v) chain \<Rightarrow> (('k, 'v) chain \<times> ('k, 'v) chain) option option" where
  "chain_unlink t key he =
     (if he = NULL then Some None
      else do {
        he_key \<leftarrow> dictGetKey he;
        if same_key t key he_key then Some (Some (he, dictGetNext he))
        else do {
          r \<leftarrow> chain_unlink t key (dictGetNext he);
          (case r of
             None \<Rightarrow> Some None
           | Some (e, next) \<Rightarrow> do { he' \<leftarrow> dictSetNext he next; Some (Some (e, he')) })
        }
      })"
  by auto
termination
  by (relation "measure (\<lambda>(t, key, he). length (chain_list he))") (auto simp: length_dictGetNext)

declare chain_unlink.simps [simp del]

definition delete_in_table ::
  "('k, 'v) dictType \<Rightarrow> ('k, 'v) dict \<Rightarrow> 'k \<Rightarrow> u64 \<Rightarrow> nat \<Rightarrow> (('k, 'v) dict \<times> ('k, 'v) chain option) option" where
  "delete_in_table t d key h i =
     do {
       let ht = get_ht d i;
       let idx = bucket_index h (ht_size_exp ht);
       tab \<leftarrow> ht_table ht;
       he \<leftarrow> mem_get tab idx;
       r \<leftarrow> chain_unlink t key he;
       (case r of
          None \<Rightarrow> Some (d, None)
        | Some (e, he') \<Rightarrow> do {
            tab' \<leftarrow> mem_put tab idx he';
            if ht_used ht = 0 then None
            else Some (set_ht d i (ht\<lparr>ht_table := Some tab', ht_used := ht_used ht - 1\<rparr>), Some e)
          })
     }"

text \<open>The unlinked entry is returned; whether it is freed makes no difference to the dict.\<close>

definition dictGenericDelete ::
  "dictResizeEnable \<Rightarrow> ('k, 'v) dictType \<Rightarrow> ('k, 'v) dict \<Rightarrow> 'k \<Rightarrow>
     (('k, 'v) dict \<times> ('k, 'v) chain option) option" where
  "dictGenericDelete can t d key =
     (if dictSize d = 0 then Some (d, None)
      else do {
        d \<leftarrow> (if dictIsRehashing d then u_dictRehashStep can t d else Some d);
        let h = hashFunction t key;
        (d, r) \<leftarrow> delete_in_table t d key h 0;
        (case r of
           Some e \<Rightarrow> Some (d, Some e)
         | None \<Rightarrow> if \<not> dictIsRehashing d then Some (d, None) else delete_in_table t d key h 1)
      })"

definition dictDelete ::
  "dictResizeEnable \<Rightarrow> ('k, 'v) dictType \<Rightarrow> ('k, 'v) dict \<Rightarrow> 'k \<Rightarrow> (('k, 'v) dict \<times> bool) option" where
  "dictDelete can t d key = map_option (\<lambda>(d, r). (d, r \<noteq> None)) (dictGenericDelete can t d key)"

definition dictUnlink ::
  "dictResizeEnable \<Rightarrow> ('k, 'v) dictType \<Rightarrow> ('k, 'v) dict \<Rightarrow> 'k \<Rightarrow>
     (('k, 'v) dict \<times> ('k, 'v) chain option) option" where
  "dictUnlink can t d key = dictGenericDelete can t d key"

definition dictTwoPhaseUnlinkFind ::
  "dictResizeEnable \<Rightarrow> ('k, 'v) dictType \<Rightarrow> ('k, 'v) dict \<Rightarrow> 'k \<Rightarrow> (('k, 'v) dict \<times> entry_ref option) option" where
  "dictTwoPhaseUnlinkFind can t d key =
     (if dictSize d = 0 then Some (d, None)
      else do {
        d \<leftarrow> (if dictIsRehashing d then u_dictRehashStep can t d else Some d);
        r \<leftarrow> find_in_tables t d key (hashFunction t key);
        (case r of
           Some ref \<Rightarrow> Some (dictPauseRehashing d, Some ref)
         | None \<Rightarrow> Some (d, None))
      })"

definition dictTwoPhaseUnlinkFree ::
  "('k, 'v) dict \<Rightarrow> entry_ref option \<Rightarrow> ('k, 'v) dict option" where
  "dictTwoPhaseUnlinkFree d he =
     (case he of
        None \<Rightarrow> Some d
      | Some ref \<Rightarrow> do {
          let (i, idx, pos) = ref;
          let h = get_ht d i;
          if ht_used h = 0 then None
          else do {
            d \<leftarrow> update_entry (\<lambda>de. Some (dictGetNext de))
                    (set_ht d i (h\<lparr>ht_used := ht_used h - 1\<rparr>)) ref;
            Some (dictResumeRehashing d)
          }
        })"

section \<open>Emptying a dict\<close>

text \<open>The entries are freed one by one; the model collects them.\<close>

function clear_chain ::
  "('k, 'v) chain \<Rightarrow> nat \<Rightarrow> (('k \<times> 'v option) list \<times> nat) option" where
  "clear_chain he used =
     (if he = NULL then Some ([], used)
      else if used = 0 then None
      else do {
        key \<leftarrow> dictGetKey he;
        (freed, used) \<leftarrow> clear_chain (dictGetNext he) (used - 1);
        Some ((key, dictGetVal he) # freed, used)
      })"
  by auto
termination
  by (relation "measure (\<lambda>(he, used). length (chain_list he))") (auto simp: length_dictGetNext)

declare clear_chain.simps [simp del]

fun clear_loop ::
  "('k, 'v) chain list \<Rightarrow> nat \<Rightarrow> nat \<Rightarrow> nat \<Rightarrow> (('k \<times> 'v option) list \<times> nat) option" where
  "clear_loop tab i 0 used = Some ([], used)"
| "clear_loop tab i (Suc n) used =
     (if used > 0 then do {
        he \<leftarrow> mem_get tab i;
        (freed1, used) \<leftarrow> clear_chain he used;
        (freed2, used) \<leftarrow> clear_loop tab (Suc i) n used;
        Some (freed1 @ freed2, used)
      } else Some ([], used))"

definition u_dictClear :: "('k, 'v) dict \<Rightarrow> nat \<Rightarrow> (('k, 'v) dict \<times> ('k \<times> 'v option) list) option" where
  "u_dictClear d i =
     (let h = get_ht d i
      in do {
        (freed, used) \<leftarrow> clear_loop (case ht_table h of Some tab \<Rightarrow> tab | None \<Rightarrow> []) 0
                            (DICTHT_SIZE (ht_size_exp h)) (ht_used h);
        Some (u_dictReset d i, freed)
      })"

definition dictEmpty :: "('k, 'v) dict \<Rightarrow> (('k, 'v) dict \<times> ('k \<times> 'v option) list) option" where
  "dictEmpty d =
     do {
       (d, freed0) \<leftarrow> u_dictClear d 0;
       (d, freed1) \<leftarrow> u_dictClear d 1;
       Some (d\<lparr>rehashidx := -1, pauserehash := 0\<rparr>, freed0 @ freed1)
     }"

text \<open>\<^verbatim>\<open>dictRelease\<close> also frees the structure; what remains is the list of the freed entries.\<close>

definition dictRelease :: "('k, 'v) dict \<Rightarrow> ('k \<times> 'v option) list option" where
  "dictRelease d =
     do {
       (d, freed0) \<leftarrow> u_dictClear d 0;
       (d, freed1) \<leftarrow> u_dictClear d 1;
       Some (freed0 @ freed1)
     }"

section \<open>Iterators\<close>

text \<open>\<open>a0\<close> and \<open>a1\<close> are the addresses of the two tables.\<close>

definition fingerprint_step :: "u64 \<Rightarrow> u64 \<Rightarrow> u64" where
  "fingerprint_step hash x =
     (let hash = hash + x;
          hash = NOT hash + push_bit 21 hash;
          hash = hash XOR drop_bit 24 hash;
          hash = (hash + push_bit 3 hash) + push_bit 8 hash;
          hash = hash XOR drop_bit 14 hash;
          hash = (hash + push_bit 2 hash) + push_bit 4 hash;
          hash = hash XOR drop_bit 28 hash
      in hash + push_bit 31 hash)"

definition dictFingerprint :: "u64 \<Rightarrow> u64 \<Rightarrow> ('k, 'v) dict \<Rightarrow> u64" where
  "dictFingerprint a0 a1 d =
     foldl fingerprint_step 0
       [a0, word_of_int (ht_size_exp (ht0 d)), of_nat (ht_used (ht0 d)),
        a1, word_of_int (ht_size_exp (ht1 d)), of_nat (ht_used (ht1 d))]"

record ('k, 'v) dictIterator =
  it_index :: int
  it_table :: nat
  it_safe :: bool
  it_entry :: "('k, 'v) chain"
  it_nextEntry :: "('k, 'v) chain"
  it_fingerprint :: u64

definition dictInitIterator :: "('k, 'v) dictIterator" where
  "dictInitIterator =
     \<lparr>it_index = -1, it_table = 0, it_safe = False, it_entry = NULL, it_nextEntry = NULL,
      it_fingerprint = 0\<rparr>"

definition dictInitSafeIterator :: "('k, 'v) dictIterator" where
  "dictInitSafeIterator = dictInitIterator\<lparr>it_safe := True\<rparr>"

text \<open>One pass of the loop of \<^verbatim>\<open>dictNext\<close> up to the test of \<open>it_entry\<close>: \<open>None\<close> in the middle is the
  \<^verbatim>\<open>break\<close>.\<close>

definition next_bucket ::
  "('k, 'v) dict \<Rightarrow> ('k, 'v) dictIterator \<Rightarrow> ('k, 'v) dictIterator option option" where
  "next_bucket d it =
     (let it = it\<lparr>it_index := it_index it + 1\<rparr>;
          out = it_index it \<ge> int (DICTHT_SIZE (ht_size_exp (get_ht d (it_table it))))
      in if out \<and> \<not> (dictIsRehashing d \<and> it_table it = 0) then Some None
         else do {
           let it = (if out then it\<lparr>it_table := it_table it + 1, it_index := 0\<rparr> else it);
           tab \<leftarrow> ht_table (get_ht d (it_table it));
           he \<leftarrow> mem_get tab (nat (it_index it));
           Some (Some (it\<lparr>it_entry := he\<rparr>))
         })"

text \<open>The start of the first pass: a safe iterator pauses the rehashing, an unsafe one takes the
  fingerprint.\<close>

definition next_start ::
  "u64 \<Rightarrow> u64 \<Rightarrow> ('k, 'v) dict \<Rightarrow> ('k, 'v) dictIterator \<Rightarrow> ('k, 'v) dict \<times> ('k, 'v) dictIterator" where
  "next_start a0 a1 d it =
     (if it_index it = -1 \<and> it_table it = 0 then
        (if it_safe it then (dictPauseRehashing d, it)
         else (d, it\<lparr>it_fingerprint := dictFingerprint a0 a1 d\<rparr>))
      else (d, it))"

partial_function (option) dictNext ::
  "u64 \<Rightarrow> u64 \<Rightarrow> ('k, 'v) dict \<Rightarrow> ('k, 'v) dictIterator \<Rightarrow>
     (('k, 'v) dict \<times> ('k, 'v) dictIterator \<times> ('k, 'v) chain) option" where
  "dictNext a0 a1 d it =
     (if it_entry it = NULL then
        (let (d, it) = next_start a0 a1 d it
         in do {
           r \<leftarrow> next_bucket d it;
           (case r of
              None \<Rightarrow> Some (d, it\<lparr>it_index := it_index it + 1\<rparr>, NULL)
            | Some it \<Rightarrow>
                if it_entry it \<noteq> NULL
                then Some (d, it\<lparr>it_nextEntry := dictGetNext (it_entry it)\<rparr>, it_entry it)
                else dictNext a0 a1 d it)
         })
      else
        (let it = it\<lparr>it_entry := it_nextEntry it\<rparr>
         in if it_entry it \<noteq> NULL
            then Some (d, it\<lparr>it_nextEntry := dictGetNext (it_entry it)\<rparr>, it_entry it)
            else dictNext a0 a1 d it))"

text \<open>\<^verbatim>\<open>dictResetIterator\<close>: a wrong fingerprint of an unsafe iterator is a failed assertion.\<close>

definition dictResetIterator ::
  "u64 \<Rightarrow> u64 \<Rightarrow> ('k, 'v) dict \<Rightarrow> ('k, 'v) dictIterator \<Rightarrow> ('k, 'v) dict option" where
  "dictResetIterator a0 a1 d it =
     (if \<not> (it_index it = -1 \<and> it_table it = 0) then
        (if it_safe it then Some (dictResumeRehashing d)
         else if it_fingerprint it = dictFingerprint a0 a1 d then Some d else None)
      else Some d)"

section \<open>Scanning\<close>

text \<open>The reversal of the bits of a word; \<open>s\<close> is halved before each pass.\<close>

function rev_loop :: "nat \<Rightarrow> u64 \<Rightarrow> u64 \<Rightarrow> u64" where
  "rev_loop s msk v =
     (let s = drop_bit 1 s
      in if s > 0 then
           let msk = msk XOR push_bit s msk;
               v = (drop_bit s v AND msk) OR (push_bit s v AND NOT msk)
           in rev_loop s msk v
         else v)"
  by auto
termination
  by (relation "measure (\<lambda>(s, msk, v). s)") (auto simp: drop_bit_eq_div)

declare rev_loop.simps [simp del]

definition rev_bits :: "u64 \<Rightarrow> u64" where
  "rev_bits v = rev_loop 64 (NOT 0) v"

text \<open>The entries the callback is called with at a bucket.\<close>

definition scan_bucket :: "('k, 'v) dict \<Rightarrow> nat \<Rightarrow> u64 \<Rightarrow> ('k \<times> 'v option) list option" where
  "scan_bucket d i v =
     do {
       tab \<leftarrow> ht_table (get_ht d i);
       de \<leftarrow> mem_get tab (unat (v AND DICTHT_SIZE_MASK (ht_size_exp (get_ht d i))));
       Some (chain_list de)
     }"

text \<open>The increment of the reversed cursor under a mask.\<close>

definition cursor_next :: "u64 \<Rightarrow> u64 \<Rightarrow> u64" where
  "cursor_next m v = rev_bits (rev_bits (v OR NOT m) + 1)"

text \<open>The \<^verbatim>\<open>do\<close> loop over the expansions of the cursor in the larger table.\<close>

partial_function (option) scan_expansions ::
  "('k, 'v) dict \<Rightarrow> nat \<Rightarrow> u64 \<Rightarrow> u64 \<Rightarrow> u64 \<Rightarrow> ('k \<times> 'v option) list \<Rightarrow> (u64 \<times> ('k \<times> 'v option) list) option" where
  "scan_expansions d i m0 m1 v acc =
     do {
       es \<leftarrow> scan_bucket d i v;
       let v = cursor_next m1 v;
       if v AND (m0 XOR m1) \<noteq> 0 then scan_expansions d i m0 m1 v (acc @ es)
       else Some (v, acc @ es)
     }"

text \<open>The next cursor and the entries emitted; the dict is as before at the end, since the pause of
  the rehashing is undone.\<close>

definition dictScan :: "('k, 'v) dict \<Rightarrow> u64 \<Rightarrow> (u64 \<times> ('k \<times> 'v option) list) option" where
  "dictScan d v =
     (if dictSize d = 0 then Some (0, [])
      else let d = dictPauseRehashing d
           in if \<not> dictIsRehashing d then do {
                let m0 = DICTHT_SIZE_MASK (ht_size_exp (ht0 d));
                es \<leftarrow> scan_bucket d 0 v;
                Some (cursor_next m0 v, es)
              } else do {
                let swap = DICTHT_SIZE (ht_size_exp (ht0 d)) > DICTHT_SIZE (ht_size_exp (ht1 d));
                let htidx0 = (if swap then 1 else 0);
                let htidx1 = (if swap then 0 else 1);
                let m0 = DICTHT_SIZE_MASK (ht_size_exp (get_ht d htidx0));
                let m1 = DICTHT_SIZE_MASK (ht_size_exp (get_ht d htidx1));
                es \<leftarrow> scan_bucket d htidx0 v;
                scan_expansions d htidx1 m0 m1 v es
              })"

section \<open>Random entries and other lookups\<close>

text \<open>A loop that draws until the bucket is not empty; \<open>rs\<close> are the values the generator gives.\<close>

fun draw_bucket ::
  "(u64 \<Rightarrow> ('k, 'v) chain option) \<Rightarrow> u64 list \<Rightarrow> (('k, 'v) chain \<times> u64 list) option" where
  "draw_bucket f [] = None"
| "draw_bucket f (r # rs) = do { he \<leftarrow> f r; if he = NULL then draw_bucket f rs else Some (he, rs) }"

definition dictGetRandomKey ::
  "dictResizeEnable \<Rightarrow> ('k, 'v) dictType \<Rightarrow> u64 list \<Rightarrow> nat \<Rightarrow> ('k, 'v) dict \<Rightarrow>
     (('k, 'v) dict \<times> ('k, 'v) chain) option" where
  "dictGetRandomKey can t rs r2 d =
     (if dictSize d = 0 then Some (d, NULL)
      else do {
        d \<leftarrow> (if dictIsRehashing d then u_dictRehashStep can t d else Some d);
        (he, rs) \<leftarrow>
          (if dictIsRehashing d then
             draw_bucket (\<lambda>r.
               let s0 = DICTHT_SIZE (ht_size_exp (ht0 d));
                   h = nat (rehashidx d) + unat r mod (dictSlots d - nat (rehashidx d))
               in if h \<ge> s0 then do { tab \<leftarrow> ht_table (ht1 d); mem_get tab (h - s0) }
                  else do { tab \<leftarrow> ht_table (ht0 d); mem_get tab h }) rs
           else
             draw_bucket (\<lambda>r.
               do { tab \<leftarrow> ht_table (ht0 d);
                    mem_get tab (unat (r AND DICTHT_SIZE_MASK (ht_size_exp (ht0 d)))) }) rs);
        let listlen = length (chain_list he);
        Some (d, (dictGetNext ^^ (r2 mod listlen)) he)
      })"

definition dictGetHash :: "('k, 'v) dictType \<Rightarrow> 'k \<Rightarrow> u64" where
  "dictGetHash t key = hashFunction t key"

function chain_find_ptr :: "'k \<Rightarrow> ('k, 'v) chain \<Rightarrow> nat \<Rightarrow> nat option option" where
  "chain_find_ptr oldptr he pos =
     (if he = NULL then Some None
      else do {
        he_key \<leftarrow> dictGetKey he;
        if oldptr = he_key then Some (Some pos) else chain_find_ptr oldptr (dictGetNext he) (pos + 1)
      })"
  by auto
termination
  by (relation "measure (\<lambda>(key, he, pos). length (chain_list he))") (auto simp: length_dictGetNext)

declare chain_find_ptr.simps [simp del]

definition find_ptr_in_table :: "('k, 'v) dict \<Rightarrow> 'k \<Rightarrow> u64 \<Rightarrow> nat \<Rightarrow> entry_ref option option" where
  "find_ptr_in_table d oldptr h i =
     do {
       let idx = bucket_index h (ht_size_exp (get_ht d i));
       tab \<leftarrow> ht_table (get_ht d i);
       he \<leftarrow> mem_get tab idx;
       r \<leftarrow> chain_find_ptr oldptr he 0;
       Some (map_option (\<lambda>pos. (i, idx, pos)) r)
     }"

definition dictFindEntryByPtrAndHash ::
  "('k, 'v) dict \<Rightarrow> 'k \<Rightarrow> u64 \<Rightarrow> entry_ref option option" where
  "dictFindEntryByPtrAndHash d oldptr hash =
     (if dictSize d = 0 then Some None
      else do {
        r \<leftarrow> find_ptr_in_table d oldptr hash 0;
        (case r of
           Some ref \<Rightarrow> Some (Some ref)
         | None \<Rightarrow> if \<not> dictIsRehashing d then Some None else find_ptr_in_table d oldptr hash 1)
      })"

definition dictMemUsage :: "('k, 'v) dict \<Rightarrow> nat" where
  "dictMemUsage d = dictSize d * 24 + dictSlots d * 8"

end
