(* ===== verification/Dict_Proofs.thy ===== *)
theory Dict_Proofs
  imports Dict "HOL-Library.Multiset"
begin

text \<open>
  The invariant of a dict and the refinement of every operation of \<open>Dict\<close> to a finite map. The bag of
  the entries of both tables is the link between the two: rehashing keeps it, insertion adds an
  entry, deletion removes one. What the callbacks of a dict type have to guarantee is the locale
  \<open>dict_contract\<close>; the client lemmas are proved in it once for all dict types.
\<close>

unbundle bit_operations_syntax

section \<open>The invariant\<close>

fun chain_ok :: "('k, 'v) dictType \<Rightarrow> ('k, 'v) chain \<Rightarrow> bool" where
  "chain_ok t NULL = True"
| "chain_ok t (EKey k) = (no_value t \<and> keys_are_odd t)"
| "chain_ok t (ENoValue k n) = (no_value t \<and> chain_ok t n)"
| "chain_ok t (ENormal k v n) = (\<not> no_value t \<and> chain_ok t n)"

definition table_list :: "('k, 'v) chain list \<Rightarrow> ('k \<times> 'v option) list" where
  "table_list tab = concat (map chain_list tab)"

definition ht_list :: "('k, 'v) dictht \<Rightarrow> ('k \<times> 'v option) list" where
  "ht_list h = (case ht_table h of None \<Rightarrow> [] | Some tab \<Rightarrow> table_list tab)"

definition in_bucket :: "('k, 'v) dictType \<Rightarrow> int \<Rightarrow> nat \<Rightarrow> ('k, 'v) chain \<Rightarrow> bool" where
  "in_bucket t e i c \<longleftrightarrow> (\<forall>p \<in> set (chain_list c). bucket_index (hashFunction t (fst p)) e = i)"

definition table_ok :: "('k, 'v) dictType \<Rightarrow> ('k, 'v) dictht \<Rightarrow> bool" where
  "table_ok t h \<longleftrightarrow>
     (case ht_table h of
        None \<Rightarrow> ht_size_exp h = -1 \<and> ht_used h = 0
      | Some tab \<Rightarrow>
          0 \<le> ht_size_exp h \<and> ht_size_exp h \<le> 60 \<and> length tab = 2 ^ nat (ht_size_exp h) \<and>
          ht_used h = length (table_list tab) \<and>
          (\<forall>i < length tab. chain_ok t (tab ! i) \<and> in_bucket t (ht_size_exp h) i (tab ! i)))"

definition dict_entries :: "('k, 'v) dict \<Rightarrow> ('k \<times> 'v option) list" where
  "dict_entries d = ht_list (ht0 d) @ ht_list (ht1 d)"

text \<open>The two tables are consistent, the second one exists exactly while a rehash is going on, the
  buckets below \<^verbatim>\<open>rehashidx\<close> are empty, and no key is stored twice.\<close>

definition rehash_ok :: "('k, 'v) dict \<Rightarrow> bool" where
  "rehash_ok d \<longleftrightarrow>
     (if rehashidx d = -1 then ht_table (ht1 d) = None
      else 0 \<le> rehashidx d \<and> ht_size_exp (ht0 d) \<noteq> ht_size_exp (ht1 d) \<and> ht_table (ht1 d) \<noteq> None \<and>
           (case ht_table (ht0 d) of
              None \<Rightarrow> False
            | Some tab \<Rightarrow> nat (rehashidx d) \<le> length tab \<and> (\<forall>i < nat (rehashidx d). tab ! i = NULL)))"

definition dict_ok :: "('k, 'v) dictType \<Rightarrow> ('k \<Rightarrow> 'i) \<Rightarrow> ('k, 'v) dict \<Rightarrow> bool" where
  "dict_ok t key_id d \<longleftrightarrow>
     table_ok t (ht0 d) \<and> table_ok t (ht1 d) \<and> rehash_ok d \<and>
     distinct (map (key_id \<circ> fst) (dict_entries d))"

text \<open>The map a dict stands for, on the identities of its keys; a value that was never set is
  \<^const>\<open>None\<close>.\<close>

definition dict_map :: "('k \<Rightarrow> 'i) \<Rightarrow> ('k, 'v) dict \<Rightarrow> 'i \<Rightarrow> 'v option option" where
  "dict_map key_id d = map_of (map (\<lambda>(k, v). (key_id k, v)) (dict_entries d))"

abbreviation dict_bag :: "('k, 'v) dict \<Rightarrow> ('k \<times> 'v option) multiset" where
  "dict_bag d \<equiv> mset (dict_entries d)"

section \<open>Bucket numbers\<close>

lemma mask_word: "e \<noteq> -1 \<Longrightarrow> DICTHT_SIZE_MASK e = mask (nat e)"
  by (simp add: DICTHT_SIZE_MASK_def DICTHT_SIZE_def mask_eq_exp_minus_1)

lemma bucket_index_mod:
  assumes "0 \<le> e"
  shows "bucket_index h e = unat h mod 2 ^ nat e"
proof -
  have "bucket_index h e = unat (take_bit (nat e) h)"
    using assms by (simp add: bucket_index_def mask_word take_bit_eq_mask)
  also have "\<dots> = take_bit (nat e) (unat h)" by (simp add: unsigned_take_bit_eq)
  finally show ?thesis by (simp only: take_bit_eq_mod)
qed

lemma bucket_index_less: "0 \<le> e \<Longrightarrow> bucket_index h e < 2 ^ nat e"
  by (simp add: bucket_index_mod)

lemma bucket_index_shrink:
  assumes "0 \<le> e1" "e1 \<le> e0" "e0 \<le> 60"
  shows "bucket_index (of_nat (bucket_index h e0)) e1 = bucket_index h e1"
proof -
  have "2 ^ nat e1 dvd (2 ^ nat e0 :: nat)" using assms by (simp add: le_imp_power_dvd)
  moreover have "2 ^ nat e1 dvd (2 ^ 64 :: nat)" using assms by (intro le_imp_power_dvd) simp
  ultimately show ?thesis
    using assms by (simp add: bucket_index_mod unat_of_nat mod_mod_cancel)
qed

lemma DICTHT_SIZE_pos [simp]: "0 \<le> e \<Longrightarrow> DICTHT_SIZE e = 2 ^ nat e"
  by (simp add: DICTHT_SIZE_def)

section \<open>Tables\<close>

lemma distinct_map_mset: "mset xs = mset ys \<Longrightarrow> distinct (map f xs) = distinct (map f ys)"
  by (metis mset_eq_imp_distinct_iff mset_map)

lemma table_list_update:
  assumes "i < length tab"
  shows "mset (table_list (tab[i := c])) + mset (chain_list (tab ! i)) =
         mset (table_list tab) + mset (chain_list c)"
proof -
  have "tab = take i tab @ tab ! i # drop (Suc i) tab" using assms by (rule id_take_nth_drop)
  then have "mset (table_list tab) =
      mset (table_list (take i tab)) + mset (chain_list (tab ! i)) + mset (table_list (drop (Suc i) tab))"
    by (metis (no_types, lifting) append.assoc concat.simps(2) concat_append list.simps(9) map_append mset_append table_list_def)
  moreover have "mset (table_list (tab[i := c])) =
      mset (table_list (take i tab)) + mset (chain_list c) + mset (table_list (drop (Suc i) tab))"
    using assms by (simp add: upd_conv_take_nth_drop table_list_def)
  ultimately show ?thesis by simp
qed

lemma length_table_list_update:
  assumes "i < length tab"
  shows "length (table_list (tab[i := c])) + length (chain_list (tab ! i)) =
         length (table_list tab) + length (chain_list c)"
  using arg_cong [OF table_list_update [OF assms], of size c] by simp

lemma chain_in_table: "i < length tab \<Longrightarrow> set (chain_list (tab ! i)) \<subseteq> set (table_list tab)"
  by (force simp: table_list_def)

lemma length_chain_le: "i < length tab \<Longrightarrow> length (chain_list (tab ! i)) \<le> length (table_list tab)"
  using length_table_list_update [of i tab NULL] by simp

lemma chain_list_Nil [simp]: "chain_list c = [] \<longleftrightarrow> c = NULL"
  by (cases c) auto

lemma table_list_NULL [simp]: "table_list (replicate n NULL) = []"
  by (simp add: table_list_def)

lemma table_ok_Some:
  assumes "table_ok t h" "ht_table h = Some tab"
  shows "0 \<le> ht_size_exp h" "ht_size_exp h \<le> 60" "length tab = 2 ^ nat (ht_size_exp h)"
    "ht_used h = length (table_list tab)"
    "i < length tab \<Longrightarrow> chain_ok t (tab ! i)"
    "i < length tab \<Longrightarrow> in_bucket t (ht_size_exp h) i (tab ! i)"
  using assms by (auto simp: table_ok_def)

lemma table_ok_used: "table_ok t h \<Longrightarrow> ht_used h = length (ht_list h)"
  by (auto simp: table_ok_def ht_list_def split: option.splits)

text \<open>Replacing the chain of one bucket: the one lemma behind insertion, deletion, the setting of a
  value and the moves of a rehash.\<close>

lemma table_update:
  assumes "table_ok t h" "ht_table h = Some tab" "i < length tab" "chain_ok t c"
    "in_bucket t (ht_size_exp h) i c"
    "u + length (chain_list (tab ! i)) = ht_used h + length (chain_list c)"
  shows "table_ok t (h\<lparr>ht_table := Some (tab[i := c]), ht_used := u\<rparr>)"
    and "mset (ht_list (h\<lparr>ht_table := Some (tab[i := c]), ht_used := u\<rparr>)) + mset (chain_list (tab ! i)) =
         mset (ht_list h) + mset (chain_list c)"
proof -
  show "table_ok t (h\<lparr>ht_table := Some (tab[i := c]), ht_used := u\<rparr>)"
    using table_ok_Some [OF assms(1,2)] assms(3-6) length_table_list_update [of i tab c]
    by (auto simp: table_ok_def nth_list_update)
  show "mset (ht_list (h\<lparr>ht_table := Some (tab[i := c]), ht_used := u\<rparr>)) + mset (chain_list (tab ! i)) =
         mset (ht_list h) + mset (chain_list c)"
    using table_list_update [OF assms(3)] assms(2) by (simp add: ht_list_def)
qed

lemma table_update_Some:
  assumes "table_ok t h" "ht_table h = Some tab" "i < length tab" "chain_ok t c"
    "in_bucket t (ht_size_exp h) i c"
    "u + length (chain_list (tab ! i)) = ht_used h + length (chain_list c)"
  shows "table_ok t (h\<lparr>ht_table := Some (tab[i := c]), ht_used := u\<rparr>)"
  using table_update(1) [OF assms] .

section \<open>Chains\<close>

lemma chain_cons:
  assumes "c \<noteq> NULL"
  obtains k v where "chain_list c = (k, v) # chain_list (dictGetNext c)" "dictGetKey c = Some k"
  using assms by (cases c) auto

lemma chain_ok_next: "chain_ok t c \<Longrightarrow> chain_ok t (dictGetNext c)"
  by (cases c) auto

text \<open>An entry with a \<open>next\<close> field, or the last one: the new chain starts with the same entry.\<close>

lemma dictSetNext_ok:
  assumes "chain_ok t c" "c \<noteq> NULL" "chain_ok t n" "\<not> entryIsKey c"
  shows "\<exists>c'. dictSetNext c n = Some c' \<and> chain_ok t c' \<and> chain_list c' = hd (chain_list c) # chain_list n"
  using assms by (cases c) (auto simp: entryIsKey_def)

lemma in_bucket_Cons:
  "chain_list c = p # chain_list n \<Longrightarrow>
     in_bucket t e i c \<longleftrightarrow> bucket_index (hashFunction t (fst p)) e = i \<and> in_bucket t e i n"
  by (auto simp: in_bucket_def)

lemma in_bucket_NULL [simp]: "in_bucket t e i NULL"
  by (simp add: in_bucket_def)

lemma funpow_next_list: "chain_list ((dictGetNext ^^ n) c) = drop n (chain_list c)"
proof (induction n arbitrary: c)
  case (Suc n)
  have "chain_list (dictGetNext c) = drop 1 (chain_list c)" by (cases c) auto
  then show ?case using Suc [of "dictGetNext c"] by (simp add: funpow_swap1)
qed simp

section \<open>The contract of a dict type\<close>

locale dict_contract =
  fixes t :: "('k, 'v) dictType" and key_id :: "'k \<Rightarrow> 'i"
  assumes same_key_id: "same_key t k k' \<longleftrightarrow> key_id k = key_id k'"
    and hash_id: "key_id k = key_id k' \<Longrightarrow> hashFunction t k = hashFunction t k'"
    and odd_keys: "no_value t \<Longrightarrow> keys_are_odd t \<Longrightarrow> ptr_odd t k"
    and dup_id: "keyDup t = Some f \<Longrightarrow> key_id (f k) = key_id k"
begin

lemma rehash_entry_ok:
  assumes "chain_ok t de" "de \<noteq> NULL" "chain_ok t old" "dictGetKey de = Some k"
  shows "\<exists>de'. rehash_entry t de k old = Some de' \<and> chain_ok t de' \<and>
           chain_list de' = hd (chain_list de) # chain_list old"
  using assms odd_keys [of k]
  by (cases de) (auto simp: rehash_entry_def entryIsKey_def entryIsNoValue_def createEntryNoValue_def)

lemma rehash_bucket_ok:
  assumes "chain_ok t de" "in_bucket t e0 idx de" "table_ok t h1" "ht_table h1 \<noteq> None"
    "0 \<le> e0" "e0 \<le> 60" "e0 \<noteq> ht_size_exp h1" "length (chain_list de) \<le> ht_used h0"
  shows "\<exists>h1'. rehash_bucket t idx e0 de h0 h1 =
            Some (h0\<lparr>ht_used := ht_used h0 - length (chain_list de)\<rparr>, h1') \<and>
          table_ok t h1' \<and> ht_table h1' \<noteq> None \<and> ht_size_exp h1' = ht_size_exp h1 \<and>
          mset (ht_list h1') = mset (ht_list h1) + mset (chain_list de)"
  using assms
proof (induction "length (chain_list de)" arbitrary: de h0 h1)
  case 0
  then show ?case by (subst rehash_bucket.simps) (cases h0, simp)
next
  case (Suc n)
  then have "de \<noteq> NULL" by auto
  then obtain k v where de: "chain_list de = (k, v) # chain_list (dictGetNext de)" "dictGetKey de = Some k"
    by (rule chain_cons)
  obtain tab where tab: "ht_table h1 = Some tab" using Suc.prems(4) by auto
  note ok1 = table_ok_Some [OF Suc.prems(3) tab]
  define e1 h where "e1 = ht_size_exp h1"
    and "h = (if e1 > e0 then bucket_index (hashFunction t k) e1 else bucket_index (of_nat idx) e1)"
  have "bucket_index (hashFunction t k) e0 = idx" using Suc.prems(2) in_bucket_Cons [OF de(1)] by simp
  then have h: "h = bucket_index (hashFunction t k) e1"
    using bucket_index_shrink [of e1 e0] ok1(1) Suc.prems(6) by (auto simp: h_def e1_def)
  then have hlen: "h < length tab" using ok1(1,3) bucket_index_less by (simp add: e1_def)
  obtain de' where de': "rehash_entry t de k (tab ! h) = Some de'" "chain_ok t de'"
    "chain_list de' = (k, v) # chain_list (tab ! h)"
    using rehash_entry_ok [OF Suc.prems(1) \<open>de \<noteq> NULL\<close> ok1(5) [OF hlen] de(2)] de(1) by auto
  define h1' where "h1' = h1\<lparr>ht_table := Some (tab[h := de']), ht_used := ht_used h1 + 1\<rparr>"
  have inb: "in_bucket t (ht_size_exp h1) h de'"
    using in_bucket_Cons [OF de'(3)] ok1(6) [OF hlen] h by (simp add: e1_def)
  have upd: "table_ok t h1'" "mset (ht_list h1') = mset (ht_list h1) + {#(k, v)#}"
    using table_update [OF Suc.prems(3) tab hlen de'(2) inb, of "ht_used h1 + 1"] de'(3)
    by (simp_all add: h1'_def)
  define h0' where "h0' = h0\<lparr>ht_used := ht_used h0 - 1\<rparr>"
  have hc: "e0 < e1 \<Longrightarrow> bucket_index (hashFunction t k) e1 = h"
    "\<not> e0 < e1 \<Longrightarrow> bucket_index (word_of_nat idx) e1 = h" by (simp_all add: h_def)
  have step: "rehash_bucket t idx e0 de h0 h1 = rehash_bucket t idx e0 (dictGetNext de) h0' h1'"
    using \<open>de \<noteq> NULL\<close> de tab hlen de'(1) Suc.prems(8)
    by (subst rehash_bucket.simps)
      (simp add: h1'_def h0'_def Let_def hc flip: e1_def)
  have "\<exists>h1''. rehash_bucket t idx e0 (dictGetNext de) h0' h1' =
            Some (h0'\<lparr>ht_used := ht_used h0' - length (chain_list (dictGetNext de))\<rparr>, h1'') \<and>
          table_ok t h1'' \<and> ht_table h1'' \<noteq> None \<and> ht_size_exp h1'' = ht_size_exp h1' \<and>
          mset (ht_list h1'') = mset (ht_list h1') + mset (chain_list (dictGetNext de))"
    using Suc.prems de(1) upd(1) chain_ok_next in_bucket_Cons [OF de(1)]
    by (intro Suc.hyps(1)) (use Suc.hyps(2) in \<open>auto simp: h1'_def h0'_def\<close>)
  then show ?case using step de(1) upd(2) by (auto simp: h0'_def h1'_def)
qed

lemma rehash_skip_ok:
  assumes "idx \<le> j" "j < length tab" "tab ! j \<noteq> NULL"
  shows "\<exists>idx' ev' stop. rehash_skip tab idx ev = Some (idx', ev', stop) \<and> idx \<le> idx' \<and> idx' \<le> j \<and>
           (\<forall>i. idx \<le> i \<and> i < idx' \<longrightarrow> tab ! i = NULL) \<and>
           (if stop then idx < idx' else tab ! idx' \<noteq> NULL)"
  using assms
proof (induction tab idx ev rule: rehash_skip.induct)
  case (1 tab idx ev)
  have lt: "idx < length tab" using "1.prems" by simp
  show ?case
  proof (cases "tab ! idx = NULL")
    case False
    then have "rehash_skip tab idx ev = Some (idx, ev, False)"
      using lt by (subst rehash_skip.simps) simp
    then show ?thesis using False "1.prems"(1)
      by (intro exI [of _ idx] exI [of _ ev] exI [of _ False]) auto
  next
    case True
    then have j: "idx + 1 \<le> j" using "1.prems" by (cases "idx = j") auto
    show ?thesis
    proof (cases "ev - 1 = 0")
      case stop: True
      then have "rehash_skip tab idx ev = Some (idx + 1, 0, True)"
        using True lt by (subst rehash_skip.simps) simp
      then show ?thesis using True j
        by (intro exI [of _ "idx + 1"] exI [of _ 0] exI [of _ True]) (auto simp: less_Suc_eq)
    next
      case False
      have "\<exists>idx' ev' stop. rehash_skip tab (idx + 1) (ev - 1) = Some (idx', ev', stop) \<and> idx + 1 \<le> idx' \<and> idx' \<le> j \<and>
           (\<forall>i. idx + 1 \<le> i \<and> i < idx' \<longrightarrow> tab ! i = NULL) \<and>
           (if stop then idx + 1 < idx' else tab ! idx' \<noteq> NULL)"
        by (rule "1.IH" [of NULL]) (use lt True False j "1.prems" in auto)
      then obtain idx' ev' stop where r: "rehash_skip tab (idx + 1) (ev - 1) = Some (idx', ev', stop)"
        "idx + 1 \<le> idx'" "idx' \<le> j" "\<forall>i. idx + 1 \<le> i \<and> i < idx' \<longrightarrow> tab ! i = NULL"
        "if stop then idx + 1 < idx' else tab ! idx' \<noteq> NULL" by blast
      have "rehash_skip tab idx ev = Some (idx', ev', stop)"
        using lt True False r(1) by (subst rehash_skip.simps) simp
      moreover have "\<forall>i. idx \<le> i \<and> i < idx' \<longrightarrow> tab ! i = NULL"
        using r(4) True by (metis Suc_eq_plus1 Suc_leI le_neq_implies_less)
      ultimately show ?thesis using r(2,3,5) by (intro exI conjI) (auto split: if_splits)
    qed
  qed
qed

text \<open>The part of the invariant that a rehash in progress maintains.\<close>

definition rehashing_ok :: "('k, 'v) dict \<Rightarrow> bool" where
  "rehashing_ok d \<longleftrightarrow> table_ok t (ht0 d) \<and> table_ok t (ht1 d) \<and> rehash_ok d \<and> rehashidx d \<noteq> -1"

lemma nonempty_bucket:
  assumes "rehashing_ok d" "ht_table (ht0 d) = Some tab" "ht_used (ht0 d) \<noteq> 0"
  obtains j where "nat (rehashidx d) \<le> j" "j < length tab" "tab ! j \<noteq> NULL"
proof -
  have "table_list tab \<noteq> []"
    using assms table_ok_Some(4) [of t "ht0 d" tab] by (auto simp: rehashing_ok_def)
  then obtain j where "j < length tab" "chain_list (tab ! j) \<noteq> []"
    by (auto simp: table_list_def in_set_conv_nth)
  then show thesis
    using that [of j] assms by (cases "j < nat (rehashidx d)") (auto simp: rehashing_ok_def rehash_ok_def)
qed

lemma rehash_move_ok:
  assumes ok: "rehashing_ok d" and tab: "ht_table (ht0 d) = Some tab" and idx: "nat (rehashidx d) \<le> idx" "idx < length tab"
    and nulls: "\<forall>i. nat (rehashidx d) \<le> i \<and> i < idx \<longrightarrow> tab ! i = NULL"
  shows "\<exists>h0 h1. rehash_bucket t idx (ht_size_exp (ht0 d)) (tab ! idx) (ht0 d) (ht1 d) = Some (h0, h1) \<and>
          (let d' = d\<lparr>ht0 := h0\<lparr>ht_table := Some (tab[idx := NULL])\<rparr>, ht1 := h1, rehashidx := int idx + 1\<rparr>
           in rehashing_ok d' \<and> dict_bag d' = dict_bag d \<and>
              ht_size_exp (ht0 d') = ht_size_exp (ht0 d) \<and> ht_size_exp (ht1 d') = ht_size_exp (ht1 d))"
proof -
  have ok0: "table_ok t (ht0 d)" "table_ok t (ht1 d)" "rehash_ok d" "rehashidx d \<noteq> -1"
    using ok by (simp_all add: rehashing_ok_def)
  note t0 = table_ok_Some [OF ok0(1) tab]
  have le: "length (chain_list (tab ! idx)) \<le> ht_used (ht0 d)" using t0(4) length_chain_le [OF idx(2)] by simp
  have rh: "ht_table (ht1 d) \<noteq> None" "ht_size_exp (ht0 d) \<noteq> ht_size_exp (ht1 d)" "0 \<le> rehashidx d"
    "\<forall>i < nat (rehashidx d). tab ! i = NULL"
    using ok0(3,4) tab by (simp_all add: rehash_ok_def)
  obtain h1 where rb: "rehash_bucket t idx (ht_size_exp (ht0 d)) (tab ! idx) (ht0 d) (ht1 d) =
        Some ((ht0 d)\<lparr>ht_used := ht_used (ht0 d) - length (chain_list (tab ! idx))\<rparr>, h1)"
      "table_ok t h1" "ht_table h1 \<noteq> None" "ht_size_exp h1 = ht_size_exp (ht1 d)"
      "mset (ht_list h1) = mset (ht_list (ht1 d)) + mset (chain_list (tab ! idx))"
    using rehash_bucket_ok [OF t0(5,6) [OF idx(2)] ok0(2) rh(1) t0(1,2) rh(2) le] idx(2) by blast
  let ?h0 = "(ht0 d)\<lparr>ht_table := Some (tab[idx := NULL]),
                      ht_used := ht_used (ht0 d) - length (chain_list (tab ! idx))\<rparr>"
  have h0: "(ht0 d)\<lparr>ht_used := ht_used (ht0 d) - length (chain_list (tab ! idx)),
              ht_table := Some (tab[idx := NULL])\<rparr> = ?h0" by simp
  have up: "table_ok t ?h0" "mset (ht_list ?h0) + mset (chain_list (tab ! idx)) = mset (ht_list (ht0 d))"
    using table_update [OF ok0(1) tab idx(2), of NULL "ht_used (ht0 d) - length (chain_list (tab ! idx))"] le
    by simp_all
  have "\<forall>i < Suc idx. tab[idx := NULL] ! i = NULL"
    using nulls rh(4) idx by (metis linorder_not_less less_antisym nth_list_update)
  then have "rehash_ok (d\<lparr>ht0 := ?h0, ht1 := h1, rehashidx := int idx + 1\<rparr>)"
    using rb(3,4) rh(2) idx(2) by (simp add: rehash_ok_def nat_add_distrib)
  then have ok': "rehashing_ok (d\<lparr>ht0 := ?h0, ht1 := h1, rehashidx := int idx + 1\<rparr>)"
    using rb(2) up(1) by (simp add: rehashing_ok_def)
  have bag: "dict_bag (d\<lparr>ht0 := ?h0, ht1 := h1, rehashidx := int idx + 1\<rparr>) = dict_bag d"
    unfolding dict_entries_def mset_append up(2) [symmetric] by (simp add: rb(5) ac_simps)
  show ?thesis
    by (intro exI conjI, rule rb(1), unfold h0 Let_def, intro conjI ok' bag)
      (simp_all add: rb(4))
qed

lemma rehash_loop_ok:
  assumes "rehashing_ok d"
  shows "\<exists>d' stop. rehash_loop t d n ev = Some (d', stop) \<and> rehashing_ok d' \<and> dict_bag d' = dict_bag d \<and>
           pauserehash d' = pauserehash d \<and>
           ht_size_exp (ht0 d') = ht_size_exp (ht0 d) \<and> ht_size_exp (ht1 d') = ht_size_exp (ht1 d) \<and>
           rehashidx d \<le> rehashidx d' \<and>
           (0 < n \<and> ht_used (ht0 d) \<noteq> 0 \<longrightarrow> rehashidx d < rehashidx d')"
  using assms
proof (induction n arbitrary: d ev)
  case (Suc n)
  show ?case
  proof (cases "ht_used (ht0 d) = 0")
    case False
    obtain tab where tab: "ht_table (ht0 d) = Some tab"
      using Suc.prems by (auto simp: rehashing_ok_def rehash_ok_def split: option.splits)
    obtain j where j: "nat (rehashidx d) \<le> j" "j < length tab" "tab ! j \<noteq> NULL"
      using Suc.prems tab False by (rule nonempty_bucket)
    obtain idx ev' stop where sk: "rehash_skip tab (nat (rehashidx d)) ev = Some (idx, ev', stop)"
      "nat (rehashidx d) \<le> idx" "idx \<le> j" "\<forall>i. nat (rehashidx d) \<le> i \<and> i < idx \<longrightarrow> tab ! i = NULL"
      "if stop then nat (rehashidx d) < idx else tab ! idx \<noteq> NULL"
      using rehash_skip_ok [OF j, of ev] by blast
    have nn: "0 \<le> rehashidx d" "\<forall>i < nat (rehashidx d). tab ! i = NULL" "ht_size_exp (ht0 d) \<noteq> ht_size_exp (ht1 d)"
      "ht_table (ht1 d) \<noteq> None"
      using Suc.prems tab by (auto simp: rehashing_ok_def rehash_ok_def)
    have guard: "nat (rehashidx d) < DICTHT_SIZE (ht_size_exp (ht0 d))"
    proof -
      have "DICTHT_SIZE (ht_size_exp (ht0 d)) = length tab"
        using table_ok_Some [of t "ht0 d" tab] Suc.prems tab by (auto simp: rehashing_ok_def)
      then show ?thesis using le_less_trans [OF j(1,2)] by (simp only:)
    qed
    show ?thesis
    proof (cases stop)
      case True
      have r: "rehash_loop t d (Suc n) ev = Some (d\<lparr>rehashidx := int idx\<rparr>, True)"
        using False guard tab sk(1) True by simp
      have "\<forall>i < idx. tab ! i = NULL" using nn(2) sk(4) by (meson linorder_not_le)
      then have "rehashing_ok (d\<lparr>rehashidx := int idx\<rparr>)"
        using Suc.prems tab sk(3) j(2) nn by (simp add: rehashing_ok_def rehash_ok_def)
      then show ?thesis using r True sk(5) nn(1)
        by (intro exI [of _ "d\<lparr>rehashidx := int idx\<rparr>"] exI [of _ True]) (auto simp: dict_entries_def)
    next
      case no: False
      have idx: "idx < length tab" using sk(3) j(2) by simp
      obtain h0 h1 where mv: "rehash_bucket t idx (ht_size_exp (ht0 d)) (tab ! idx) (ht0 d) (ht1 d) = Some (h0, h1)"
        "let d' = d\<lparr>ht0 := h0\<lparr>ht_table := Some (tab[idx := NULL])\<rparr>, ht1 := h1, rehashidx := int idx + 1\<rparr>
           in rehashing_ok d' \<and> dict_bag d' = dict_bag d \<and>
              ht_size_exp (ht0 d') = ht_size_exp (ht0 d) \<and> ht_size_exp (ht1 d') = ht_size_exp (ht1 d)"
        using rehash_move_ok [OF Suc.prems tab sk(2) idx sk(4)] by blast
      define d' where "d' = d\<lparr>ht0 := h0\<lparr>ht_table := Some (tab[idx := NULL])\<rparr>, ht1 := h1, rehashidx := int idx + 1\<rparr>"
      have d': "rehashing_ok d'" "dict_bag d' = dict_bag d" "ht_size_exp (ht0 d') = ht_size_exp (ht0 d)"
        "ht_size_exp (ht1 d') = ht_size_exp (ht1 d)" "pauserehash d' = pauserehash d" "rehashidx d < rehashidx d'"
        using mv(2) sk(2) by (simp_all add: Let_def d'_def)
      have "rehash_loop t d (Suc n) ev = rehash_loop t d' n ev'"
        using False guard tab sk(1) no mv(1) idx by (simp add: d'_def)
      with Suc.IH [OF d'(1), of ev'] d'(2-6) show ?thesis by fastforce
    qed
  qed (use Suc.prems in auto)
qed auto

text \<open>A call of \<^verbatim>\<open>dictRehash\<close> never fails, keeps the invariant and the entries.\<close>

lemma dictRehash_ok:
  assumes ok: "dict_ok t key_id d"
  shows "\<exists>d' r. dictRehash can t d n = Some (d', r) \<and> dict_ok t key_id d' \<and> dict_bag d' = dict_bag d \<and>
           pauserehash d' = pauserehash d \<and>
           (can = DICT_RESIZE_ENABLE \<and> 0 < n \<longrightarrow>
              r = dictIsRehashing d' \<and>
              (dictIsRehashing d' \<longrightarrow> rehashidx d < rehashidx d' \<and> ht_size_exp (ht0 d') = ht_size_exp (ht0 d)))"
proof (cases "dictIsRehashing d \<and> can \<noteq> DICT_RESIZE_FORBID \<and>
      \<not> (can = DICT_RESIZE_AVOID \<and>
         (DICTHT_SIZE (ht_size_exp (ht1 d)) > DICTHT_SIZE (ht_size_exp (ht0 d)) \<and>
          DICTHT_SIZE (ht_size_exp (ht1 d)) div DICTHT_SIZE (ht_size_exp (ht0 d)) < dict_force_resize_ratio \<or>
          DICTHT_SIZE (ht_size_exp (ht1 d)) < DICTHT_SIZE (ht_size_exp (ht0 d)) \<and>
          DICTHT_SIZE (ht_size_exp (ht0 d)) div DICTHT_SIZE (ht_size_exp (ht1 d)) < dict_force_resize_ratio))")
  case False
  then have "dictRehash can t d n = Some (d, False)" by (auto simp: dictRehash_def Let_def)
  then show ?thesis using ok False by auto
next
  case True
  then have "rehashing_ok d" using ok by (simp add: dict_ok_def rehashing_ok_def dictIsRehashing_def)
  from rehash_loop_ok [OF this, of n "int n * 10"] obtain d' stop where
    lp: "rehash_loop t d n (int n * 10) = Some (d', stop)" "rehashing_ok d'" "dict_bag d' = dict_bag d"
      "pauserehash d' = pauserehash d" "ht_size_exp (ht0 d') = ht_size_exp (ht0 d)"
      "0 < n \<and> ht_used (ht0 d) \<noteq> 0 \<longrightarrow> rehashidx d < rehashidx d'" by blast
  have empty: "d' = d \<and> \<not> stop" if "ht_used (ht0 d) = 0" using lp(1) that by (cases n) auto
  have dist: "distinct (map (key_id \<circ> fst) (dict_entries d'))"
    using ok lp(3) by (simp add: dict_ok_def distinct_map_mset [OF lp(3)])
  have reh: "rehashidx d' \<noteq> -1" using lp(2) by (simp add: rehashing_ok_def)
  show ?thesis
  proof (cases "\<not> stop \<and> ht_used (ht0 d') = 0")
    case fin: True
    let ?d = "(u_dictReset (d'\<lparr>ht0 := ht1 d'\<rparr>) 1)\<lparr>rehashidx := -1\<rparr>"
    have "dictRehash can t d n = Some (?d, False)"
      using True fin lp(1) by (auto simp: dictRehash_def Let_def)
    moreover have "ht_list (ht0 d') = []"
      using fin lp(2) table_ok_used by (fastforce simp: rehashing_ok_def)
    then have "dict_entries ?d = dict_entries d'"
      by (simp add: dict_entries_def u_dictReset_def set_ht_def empty_ht_def ht_list_def)
    moreover have "table_ok t (ht0 ?d)" "table_ok t (ht1 ?d)" "rehash_ok ?d"
      using lp(2) by (simp_all add: rehashing_ok_def u_dictReset_def set_ht_def empty_ht_def table_ok_def rehash_ok_def)
    ultimately show ?thesis using dist lp(3,4)
      by (intro exI [of _ ?d] exI [of _ False])
        (simp add: dict_ok_def dictIsRehashing_def u_dictReset_def set_ht_def)
  next
    case more: False
    then have "dictRehash can t d n = Some (d', True)"
      using True lp(1) by (auto simp: dictRehash_def Let_def)
    moreover have "ht_used (ht0 d) \<noteq> 0" using more empty by auto
    ultimately show ?thesis using lp reh dist
      by (intro exI [of _ d'] exI [of _ True]) (auto simp: dict_ok_def rehashing_ok_def dictIsRehashing_def)
  qed
qed

end

section \<open>Expansion\<close>

lemma bit_length_pow: "n < 2 ^ bit_length n"
proof (induction n rule: bit_length.induct)
  case (1 n)
  show ?case
  proof (cases "n = 0")
    case False
    then have "n div 2 < 2 ^ bit_length (n div 2)" using 1 by simp
    then have "n < 2 * 2 ^ bit_length (n div 2)" by linarith
    then show ?thesis using False by (subst bit_length.simps) simp
  qed (simp add: bit_length.simps)
qed

lemma bit_length_le: "n < 2 ^ k \<Longrightarrow> bit_length n \<le> k"
proof (induction k arbitrary: n)
  case (Suc k)
  then have "n div 2 < 2 ^ k" by auto
  with Suc.IH show ?case by (subst bit_length.simps) auto
qed (simp add: bit_length.simps)

lemma bit_length_ge: "2 ^ k \<le> n \<Longrightarrow> k < bit_length n"
  using bit_length_pow [of n] by (metis le_less_trans linorder_not_le one_less_numeral_iff power_strict_increasing_iff semiring_norm(76))

lemma dictNextExp_bounds:
  assumes "sz < 2 ^ 64"
  shows "2 \<le> u_dictNextExp sz" "u_dictNextExp sz \<le> 63"
    "sz \<le> 2 ^ 60 \<Longrightarrow> u_dictNextExp sz \<le> 60 \<and> sz \<le> 2 ^ nat (u_dictNextExp sz)"
proof -
  consider "sz \<le> 4" | "DICT_LONG_MAX \<le> sz" "4 < sz" | "4 < sz" "sz < DICT_LONG_MAX" by linarith
  then have "2 \<le> u_dictNextExp sz \<and> u_dictNextExp sz \<le> 63 \<and>
     (sz \<le> 2 ^ 60 \<longrightarrow> u_dictNextExp sz \<le> 60 \<and> sz \<le> 2 ^ nat (u_dictNextExp sz))"
  proof cases
    case 3
    let ?b = "bit_length (sz - 1)"
    have b: "?b \<le> 63" using 3 by (intro bit_length_le) (simp add: DICT_LONG_MAX_def)
    have "2 < ?b" using 3 by (intro bit_length_ge) simp
    moreover have "u_dictNextExp sz = int ?b"
      using 3 b by (simp add: u_dictNextExp_def DICT_HT_INITIAL_SIZE_def clzl_def)
    moreover have "sz \<le> 2 ^ ?b" using bit_length_pow [of "sz - 1"] by simp
    moreover have "?b \<le> 60" if "sz \<le> 2 ^ 60" using that 3 by (intro bit_length_le) simp
    ultimately show ?thesis using b by simp
  qed (auto simp: u_dictNextExp_def DICT_HT_INITIAL_SIZE_def DICT_HT_INITIAL_EXP_def DICT_LONG_MAX_def)
  then show "2 \<le> u_dictNextExp sz" "u_dictNextExp sz \<le> 63"
    "sz \<le> 2 ^ 60 \<Longrightarrow> u_dictNextExp sz \<le> 60 \<and> sz \<le> 2 ^ nat (u_dictNextExp sz)" by auto
qed

text \<open>The overflow test of \<^verbatim>\<open>_dictExpand\<close> is a bound on the exponent.\<close>

lemma newsize_overflow:
  assumes "n \<le> 63"
  shows "(2::nat) ^ n * 8 mod 2 ^ 64 < 2 ^ n \<longleftrightarrow> 60 < n"
proof (cases "n \<le> 60")
  case True
  have "(2::nat) ^ n * 8 = 2 ^ (n + 3)" by (simp add: power_add)
  moreover have "(2::nat) ^ (n + 3) < 2 ^ 64" using True by (intro power_strict_increasing) auto
  ultimately show ?thesis using True by simp
next
  case False
  then have "(2::nat) ^ 64 dvd 2 ^ (n + 3)" by (intro le_imp_power_dvd) simp
  moreover have "(2::nat) ^ n * 8 = 2 ^ (n + 3)" by (simp add: power_add)
  ultimately have "(2::nat) ^ n * 8 mod 2 ^ 64 = 0" by (simp only: mod_eq_0_iff_dvd)
  then show ?thesis using False by simp
qed

lemma new_table_ok:
  assumes "0 \<le> e" "e \<le> 60"
  shows "table_ok t \<lparr>ht_table = Some (replicate (2 ^ nat e) NULL), ht_used = 0, ht_size_exp = e\<rparr>"
  using assms by (simp add: table_ok_def)

lemma dictExpand_ok:
  assumes ok: "dict_ok t key_id d" and sz: "sz < 2 ^ 64"
  shows "let (d', r, mf) = u_dictExpand d sz alloc
         in dict_ok t key_id d' \<and> dict_bag d' = dict_bag d \<and> pauserehash d' = pauserehash d \<and>
            (r \<longrightarrow> ht_table (ht0 d') \<noteq> None) \<and>
            (\<not> dictIsRehashing d \<and> ht_used (ht0 d) \<le> sz \<and> sz \<le> 2 ^ 60 \<and> alloc \<and>
             u_dictNextExp sz \<noteq> ht_size_exp (ht0 d) \<longrightarrow> r)"
proof -
  define e where "e = u_dictNextExp sz"
  note e = dictNextExp_bounds [OF sz, folded e_def]
  define h :: "('a, 'b) dictht" where
    "h = \<lparr>ht_table = Some (replicate (2 ^ nat e) NULL), ht_used = 0, ht_size_exp = e\<rparr>"
  define skip where "skip = (dictIsRehashing d \<or> ht_used (ht0 d) > sz \<or> 2 ^ nat e < sz \<or> 60 < nat e \<or> e = ht_size_exp (ht0 d))"
  have def: "u_dictExpand d sz alloc =
       (if skip then (d, False, False) else if \<not> alloc then (d, False, True)
        else if ht_table (ht0 d) = None then (d\<lparr>ht0 := h\<rparr>, True, False)
        else (d\<lparr>ht1 := h, rehashidx := 0\<rparr>, True, False))"
    using newsize_overflow [of "nat e"] e(2) by (auto simp: u_dictExpand_def Let_def skip_def h_def simp flip: e_def)
  have reason: "\<not> skip" if "\<not> dictIsRehashing d" "ht_used (ht0 d) \<le> sz" "sz \<le> 2 ^ 60" "e \<noteq> ht_size_exp (ht0 d)"
    using that e by (auto simp: skip_def)
  show ?thesis
  proof (cases "skip \<or> \<not> alloc")
    case True
    then show ?thesis using ok reason by (auto simp: def e_def)
  next
    case False
    have "0 \<le> e" "e \<le> 60" using False e by (auto simp: skip_def)
    then have h_ok: "table_ok t h" unfolding h_def by (rule new_table_ok)
    have hl: "ht_list h = []" by (simp add: h_def ht_list_def)
    have nr: "rehashidx d = -1" "ht_table (ht1 d) = None"
      using False ok by (auto simp: skip_def dictIsRehashing_def dict_ok_def rehash_ok_def)
    show ?thesis
    proof (cases "ht_table (ht0 d)")
      case None
      then show ?thesis
        using False def ok nr h_ok hl
        by (auto simp: dict_ok_def rehash_ok_def dict_entries_def ht_list_def h_def)
    next
      case (Some tab)
      then show ?thesis
        using False def ok nr h_ok hl
        by (auto simp: dict_ok_def rehash_ok_def dict_entries_def ht_list_def h_def skip_def)
    qed
  qed
qed

lemma expandIfNeeded_ok:
  assumes ok: "dict_ok t key_id d" and small: "length (dict_entries d) < 2 ^ 60"
  shows "\<exists>d'. u_dictExpandIfNeeded can t d = (d', True) \<and> dict_ok t key_id d' \<and> dict_bag d' = dict_bag d \<and>
           pauserehash d' = pauserehash d \<and> ht_table (ht0 d') \<noteq> None"
proof -
  have t0: "table_ok t (ht0 d)" using ok by (simp add: dict_ok_def)
  have used: "ht_used (ht0 d) < 2 ^ 60" using table_ok_used [OF t0] small by (simp add: dict_entries_def)
  show ?thesis
  proof (cases "ht_table (ht0 d)")
    case None
    then have e: "ht_size_exp (ht0 d) = -1" "ht_used (ht0 d) = 0" using t0 by (simp_all add: table_ok_def)
    moreover have nr: "\<not> dictIsRehashing d" using ok None by (auto simp: dict_ok_def rehash_ok_def dictIsRehashing_def split: if_splits)
    ultimately have "u_dictExpandIfNeeded can t d = dictExpand d 4"
      by (simp add: u_dictExpandIfNeeded_def Let_def DICTHT_SIZE_def DICT_HT_INITIAL_SIZE_def)
    then show ?thesis
      using dictExpand_ok [OF ok, of 4 True] nr e dictNextExp_bounds(1) [of 4]
      by (auto simp: dictExpand_def Let_def split: prod.splits)
  next
    case (Some tab)
    note s = table_ok_Some [OF t0 Some]
    define n where "n = ht_used (ht0 d)"
    show ?thesis
    proof (cases "dictIsRehashing d \<or> \<not> (can = DICT_RESIZE_ENABLE \<and> n \<ge> 2 ^ nat (ht_size_exp (ht0 d)) \<or>
                 can \<noteq> DICT_RESIZE_FORBID \<and> n div 2 ^ nat (ht_size_exp (ht0 d)) > dict_force_resize_ratio) \<or>
           \<not> dictTypeExpandAllowed t d")
      case True
      then have "u_dictExpandIfNeeded can t d = (d, True)"
        using s(1) by (auto simp: u_dictExpandIfNeeded_def Let_def simp flip: n_def)
      then show ?thesis using ok Some by simp
    next
      case False
      have "u_dictExpandIfNeeded can t d = dictExpand d (n + 1)"
        using s(1) False by (auto simp: u_dictExpandIfNeeded_def Let_def simp flip: n_def)
      moreover have ge: "2 ^ nat (ht_size_exp (ht0 d)) \<le> n"
        using False by (auto simp: dict_force_resize_ratio_def) (metis div_less not_less_zero linorder_not_le)
      moreover have "u_dictNextExp (n + 1) \<noteq> ht_size_exp (ht0 d)"
      proof
        assume "u_dictNextExp (n + 1) = ht_size_exp (ht0 d)"
        moreover have "n + 1 \<le> 2 ^ nat (u_dictNextExp (n + 1))"
          using dictNextExp_bounds(3) [of "n + 1"] used by (simp add: n_def)
        ultimately show False using ge by simp
      qed
      ultimately show ?thesis
        using dictExpand_ok [OF ok, of "n + 1" True] False used
        by (auto simp: dictExpand_def Let_def n_def split: prod.splits)
    qed
  qed
qed

section \<open>Lookup\<close>

text \<open>\<open>ref_points d ref p\<close>: the reference leads to the entry \<open>p\<close>.\<close>

definition ref_points :: "('k, 'v) dict \<Rightarrow> entry_ref \<Rightarrow> 'k \<times> 'v option \<Rightarrow> bool" where
  "ref_points d ref p \<longleftrightarrow>
     (let (i, idx, pos) = ref
      in i \<le> 1 \<and> (\<exists>tab. ht_table (get_ht d i) = Some tab \<and> idx < length tab \<and>
           pos < length (chain_list (tab ! idx)) \<and> chain_list (tab ! idx) ! pos = p))"

lemma get_ht_le: "i \<le> 1 \<Longrightarrow> set (ht_list (get_ht d i)) \<subseteq> set (dict_entries d)"
  by (auto simp: get_ht_def dict_entries_def)

lemma ref_points_entry: "ref_points d ref p \<Longrightarrow> p \<in> set (dict_entries d)"
proof -
  assume "ref_points d ref p"
  then obtain i idx pos tab where r: "ref = (i, idx, pos)" "i \<le> 1" "ht_table (get_ht d i) = Some tab"
    "idx < length tab" "pos < length (chain_list (tab ! idx))" "chain_list (tab ! idx) ! pos = p"
    by (cases ref) (auto simp: ref_points_def)
  then have "p \<in> set (table_list tab)" using chain_in_table [of idx tab] by auto
  then show ?thesis using get_ht_le [OF r(2), of d] r(3) by (auto simp: ht_list_def)
qed

lemma ref_points_entry_at:
  assumes "ref_points d ref p"
  shows "\<exists>he. entry_at d ref = Some he \<and> he \<noteq> NULL \<and> hd (chain_list he) = p"
proof -
  obtain i idx pos tab where r: "ref = (i, idx, pos)" "i \<le> 1" "ht_table (get_ht d i) = Some tab"
    "idx < length tab" "pos < length (chain_list (tab ! idx))" "chain_list (tab ! idx) ! pos = p"
    using assms by (cases ref) (auto simp: ref_points_def)
  let ?he = "(dictGetNext ^^ pos) (tab ! idx)"
  have l: "chain_list ?he = drop pos (chain_list (tab ! idx))" by (rule funpow_next_list)
  then have "?he \<noteq> NULL" using r(5) by (metis chain_list_Nil drop_eq_Nil2 not_le)
  then show ?thesis using r l by (simp add: entry_at_def hd_drop_conv_nth)
qed

lemma dict_map_bag:
  assumes "dict_ok t key_id d" "dict_ok t key_id d'" "dict_bag d' = dict_bag d"
  shows "dict_map key_id d' = dict_map key_id d"
proof -
  have "distinct (map fst (map (\<lambda>(k, v). (key_id k, v)) (dict_entries d)))"
    "distinct (map fst (map (\<lambda>(k, v). (key_id k, v)) (dict_entries d')))"
    using assms(1,2) by (simp_all add: dict_ok_def comp_def case_prod_unfold)
  then show ?thesis
    using mset_eq_setD [OF assms(3)] by (simp add: dict_map_def map_of_inject_set)
qed

lemma dict_map_entry:
  assumes "dict_ok t key_id d"
  shows "dict_map key_id d i = Some v \<longleftrightarrow> (\<exists>k. (k, v) \<in> set (dict_entries d) \<and> key_id k = i)"
proof -
  have "distinct (map fst (map (\<lambda>(k, v). (key_id k, v)) (dict_entries d)))"
    using assms by (simp add: dict_ok_def comp_def case_prod_unfold)
  then have "dict_map key_id d i = Some v \<longleftrightarrow> (i, v) \<in> set (map (\<lambda>(k, v). (key_id k, v)) (dict_entries d))"
    by (simp add: dict_map_def)
  then show ?thesis by auto
qed

lemma dict_map_None:
  "dict_map key_id d i = None \<longleftrightarrow> (\<forall>p \<in> set (dict_entries d). key_id (fst p) \<noteq> i)"
  by (force simp: dict_map_def map_of_eq_None_iff case_prod_unfold image_image)

lemma dict_ok_size: "dict_ok t key_id d \<Longrightarrow> dictSize d = length (dict_entries d)"
  by (auto simp: dict_ok_def dictSize_def dict_entries_def dest!: table_ok_used)

lemma dict_ok_table0:
  assumes "dict_ok t key_id d" "dict_entries d \<noteq> []"
  shows "ht_table (ht0 d) \<noteq> None"
  using assms by (auto simp: dict_ok_def rehash_ok_def dict_entries_def ht_list_def split: option.splits if_splits)

lemma bag_length: "dict_bag d' = dict_bag d \<Longrightarrow> length (dict_entries d') = length (dict_entries d)"
  by (metis size_mset)

context dict_contract
begin

lemma rehash_step_ok:
  assumes "dict_ok t key_id d"
  shows "\<exists>d'. (if dictIsRehashing d then u_dictRehashStep can t d else Some d) = Some d' \<and>
           dict_ok t key_id d' \<and> dict_bag d' = dict_bag d \<and> pauserehash d' = pauserehash d"
  using dictRehash_ok [OF assms, of can 1] assms by (auto simp: u_dictRehashStep_def)

lemma chain_find_ok:
  "\<exists>r. chain_find t key he pos = Some r \<and>
     (case r of
        None \<Rightarrow> \<forall>p \<in> set (chain_list he). key_id (fst p) \<noteq> key_id key
      | Some n \<Rightarrow> pos \<le> n \<and> n - pos < length (chain_list he) \<and>
                  key_id (fst (chain_list he ! (n - pos))) = key_id key)"
proof (induction "length (chain_list he)" arbitrary: he pos)
  case 0
  then show ?case by (subst chain_find.simps) simp
next
  case (Suc m)
  then have "he \<noteq> NULL" by auto
  then obtain k v where he: "chain_list he = (k, v) # chain_list (dictGetNext he)" "dictGetKey he = Some k"
    by (rule chain_cons)
  show ?case
  proof (cases "key_id key = key_id k")
    case True
    then have "chain_find t key he pos = Some (Some pos)"
      using \<open>he \<noteq> NULL\<close> he(2) same_key_id by (subst chain_find.simps) simp
    then show ?thesis using True he(1) by simp
  next
    case False
    then have "chain_find t key he pos = chain_find t key (dictGetNext he) (pos + 1)"
      using \<open>he \<noteq> NULL\<close> he(2) same_key_id by (subst chain_find.simps) simp
    moreover obtain r where r: "chain_find t key (dictGetNext he) (pos + 1) = Some r"
      "case r of
        None \<Rightarrow> \<forall>p \<in> set (chain_list (dictGetNext he)). key_id (fst p) \<noteq> key_id key
      | Some n \<Rightarrow> pos + 1 \<le> n \<and> n - (pos + 1) < length (chain_list (dictGetNext he)) \<and>
                  key_id (fst (chain_list (dictGetNext he) ! (n - (pos + 1)))) = key_id key"
      using Suc.hyps(1) [of "dictGetNext he" "pos + 1"] Suc.hyps(2) he(1) by auto
    ultimately have "chain_find t key he pos = Some r" by simp
    moreover have "n - pos < length (chain_list he) \<and> key_id (fst (chain_list he ! (n - pos))) = key_id key"
      if "r = Some n" for n
    proof -
      have "n - pos = Suc (n - (pos + 1))" using r(2) that by auto
      then show ?thesis using r(2) that he(1) by simp
    qed
    ultimately show ?thesis using False he(1) r(2)
      by (intro exI [of _ r]) (cases r, auto)
  qed
qed

lemma bucket_holds_key:
  assumes "table_ok t h" "ht_table h = Some tab" "p \<in> set (ht_list h)" "key_id (fst p) = key_id key"
  shows "p \<in> set (chain_list (tab ! bucket_index (hashFunction t key) (ht_size_exp h)))"
proof -
  obtain c where "c \<in> set tab" "p \<in> set (chain_list c)"
    using assms(2,3) by (auto simp: ht_list_def table_list_def)
  then obtain i where i: "i < length tab" "p \<in> set (chain_list (tab ! i))"
    by (auto simp: in_set_conv_nth [of c])
  then have "bucket_index (hashFunction t (fst p)) (ht_size_exp h) = i"
    using table_ok_Some(6) [OF assms(1,2) i(1)] by (auto simp: in_bucket_def)
  then show ?thesis using i(2) hash_id [OF assms(4)] by simp
qed

lemma find_in_table_ok:
  assumes "table_ok t (get_ht d i)" "ht_table (get_ht d i) = Some tab" "i \<le> 1"
  shows "\<exists>r. find_in_table t d key (hashFunction t key) i = Some r \<and>
     (case r of
        None \<Rightarrow> \<forall>p \<in> set (ht_list (get_ht d i)). key_id (fst p) \<noteq> key_id key
      | Some ref \<Rightarrow> \<exists>p. ref_points d ref p \<and> key_id (fst p) = key_id key)"
proof -
  let ?h = "get_ht d i"
  let ?idx = "bucket_index (hashFunction t key) (ht_size_exp ?h)"
  have idx: "?idx < length tab" using table_ok_Some [OF assms(1,2)] bucket_index_less by simp
  obtain r where r: "chain_find t key (tab ! ?idx) 0 = Some r"
    "case r of
        None \<Rightarrow> \<forall>p \<in> set (chain_list (tab ! ?idx)). key_id (fst p) \<noteq> key_id key
      | Some n \<Rightarrow> 0 \<le> n \<and> n - 0 < length (chain_list (tab ! ?idx)) \<and>
                  key_id (fst (chain_list (tab ! ?idx) ! (n - 0))) = key_id key"
    using chain_find_ok by blast
  have "find_in_table t d key (hashFunction t key) i = Some (map_option (\<lambda>pos. (i, ?idx, pos)) r)"
    using assms(2) idx r(1) by (simp add: find_in_table_def Let_def)
  then show ?thesis
    using r(2) bucket_holds_key [OF assms(1,2)] assms(2,3) idx
    by (cases r) (auto simp: ref_points_def)
qed

lemma find_in_tables_ok:
  assumes ok: "dict_ok t key_id d" and tab: "ht_table (ht0 d) \<noteq> None"
  shows "\<exists>r. find_in_tables t d key (hashFunction t key) = Some r \<and>
     (case r of
        None \<Rightarrow> dict_map key_id d (key_id key) = None
      | Some ref \<Rightarrow> \<exists>k v. ref_points d ref (k, v) \<and> key_id k = key_id key \<and>
                     dict_map key_id d (key_id key) = Some v)"
proof -
  have t: "table_ok t (get_ht d 0)" "table_ok t (get_ht d 1)" using ok by (simp_all add: get_ht_def dict_ok_def)
  obtain tab0 where tab0: "ht_table (get_ht d 0) = Some tab0" using tab by (auto simp: get_ht_def)
  have found: "\<exists>k v. ref_points d ref (k, v) \<and> key_id k = key_id key \<and> dict_map key_id d (key_id key) = Some v"
    if "ref_points d ref p" "key_id (fst p) = key_id key" for ref p
    using that ref_points_entry [OF that(1)] dict_map_entry [OF ok] by (metis prod.collapse)
  obtain r where r: "find_in_table t d key (hashFunction t key) 0 = Some r"
    "case r of
        None \<Rightarrow> \<forall>p \<in> set (ht_list (get_ht d 0)). key_id (fst p) \<noteq> key_id key
      | Some ref \<Rightarrow> \<exists>p. ref_points d ref p \<and> key_id (fst p) = key_id key"
    using find_in_table_ok [OF t(1) tab0] by auto
  show ?thesis
  proof (cases r)
    case (Some ref)
    then obtain p where "ref_points d ref p" "key_id (fst p) = key_id key" using r(2) by auto
    from found [OF this] show ?thesis using r(1) Some by (simp add: find_in_tables_def)
  next
    case None
    show ?thesis
    proof (cases "dictIsRehashing d")
      case False
      then have "ht_list (ht1 d) = []"
        using ok by (simp add: dict_ok_def rehash_ok_def dictIsRehashing_def ht_list_def)
      then show ?thesis using r None False
        by (auto simp: find_in_tables_def dict_map_None dict_entries_def get_ht_def)
    next
      case True
      then obtain tab1 where "ht_table (get_ht d 1) = Some tab1"
        using ok by (auto simp: dict_ok_def rehash_ok_def dictIsRehashing_def get_ht_def)
      from find_in_table_ok [OF t(2) this, of key] obtain r' where
        r': "find_in_table t d key (hashFunction t key) 1 = Some r'"
        "case r' of
            None \<Rightarrow> \<forall>p \<in> set (ht_list (get_ht d 1)). key_id (fst p) \<noteq> key_id key
          | Some ref \<Rightarrow> \<exists>p. ref_points d ref p \<and> key_id (fst p) = key_id key" by auto
      show ?thesis
      proof (cases r')
        case (Some ref)
        then obtain p where "ref_points d ref p" "key_id (fst p) = key_id key" using r'(2) by auto
        from found [OF this] show ?thesis using r(1) r'(1) None True Some by (simp add: find_in_tables_def)
      next
        case none: None
        then show ?thesis using r r' None True
          by (auto simp: find_in_tables_def dict_map_None dict_entries_def get_ht_def)
      qed
    qed
  qed
qed

lemma dictFind_ok:
  assumes ok: "dict_ok t key_id d"
  shows "\<exists>d' r. dictFind can t d key = Some (d', r) \<and> dict_ok t key_id d' \<and> dict_bag d' = dict_bag d \<and>
     pauserehash d' = pauserehash d \<and>
     (case r of
        None \<Rightarrow> dict_map key_id d (key_id key) = None
      | Some ref \<Rightarrow> \<exists>k v. ref_points d' ref (k, v) \<and> key_id k = key_id key \<and>
                     dict_map key_id d (key_id key) = Some v)"
proof (cases "dictSize d = 0")
  case True
  then show ?thesis using ok dict_ok_size [OF ok] by (simp add: dictFind_def dict_map_None)
next
  case False
  obtain d' where d': "(if dictIsRehashing d then u_dictRehashStep can t d else Some d) = Some d'"
    "dict_ok t key_id d'" "dict_bag d' = dict_bag d" "pauserehash d' = pauserehash d"
    using rehash_step_ok [OF ok] by blast
  have "dict_entries d' \<noteq> []" using False dict_ok_size [OF ok] bag_length [OF d'(3)] by auto
  then have "ht_table (ht0 d') \<noteq> None" by (rule dict_ok_table0 [OF d'(2)])
  from find_in_tables_ok [OF d'(2) this, of key, unfolded dict_map_bag [OF ok d'(2,3)]] show ?thesis
    using d' False by (auto simp: dictFind_def)
qed

end

section \<open>From bags to maps\<close>

lemma dict_map_of_list:
  assumes "dict_ok t key_id d" "dict_bag d = mset ys"
  shows "dict_map key_id d = map_of (map (\<lambda>(k, v). (key_id k, v)) ys)"
proof -
  have "distinct (map (key_id \<circ> fst) ys)"
    using assms distinct_map_mset [OF assms(2), of "key_id \<circ> fst"] by (simp add: dict_ok_def)
  then have "distinct (map fst (map (\<lambda>(k, v). (key_id k, v)) ys))"
    "distinct (map fst (map (\<lambda>(k, v). (key_id k, v)) (dict_entries d)))"
    using assms(1) by (simp_all add: dict_ok_def comp_def case_prod_unfold)
  then show ?thesis using mset_eq_setD [OF assms(2)] by (simp add: dict_map_def map_of_inject_set)
qed

lemma dict_map_insert:
  assumes "dict_ok t key_id d'" "dict_bag d' = add_mset (k, v) (dict_bag d)"
  shows "dict_map key_id d' = (dict_map key_id d)(key_id k \<mapsto> v)"
  using dict_map_of_list [OF assms(1), of "(k, v) # dict_entries d"] assms(2)
  by (simp add: dict_map_def)

lemma dict_map_replace:
  assumes "dict_ok t key_id d" "dict_ok t key_id d'"
    "add_mset (k, v) (dict_bag d') = add_mset (k, v') (dict_bag d)" "(k, v) \<in># dict_bag d"
  shows "dict_map key_id d' = (dict_map key_id d)(key_id k \<mapsto> v')"
proof -
  obtain L where L: "mset L = dict_bag d - {#(k, v)#}" using ex_mset by blast
  have d: "dict_bag d = mset ((k, v) # L)" using L assms(4) by simp
  then have d': "dict_bag d' = mset ((k, v') # L)" using assms(3) by (simp add: add_mset_commute)
  show ?thesis using dict_map_of_list [OF assms(1) d] dict_map_of_list [OF assms(2) d'] by simp
qed

lemma dict_map_delete:
  assumes "dict_ok t key_id d" "dict_ok t key_id d'" "dict_bag d = add_mset (k, v) (dict_bag d')"
  shows "dict_map key_id d' = (dict_map key_id d)(key_id k := None)"
proof -
  have "distinct (map (key_id \<circ> fst) ((k, v) # dict_entries d'))"
    using distinct_map_mset [of "dict_entries d" "(k, v) # dict_entries d'" "key_id \<circ> fst"] assms(1,3)
    by (simp add: dict_ok_def)
  then have "dict_map key_id d' (key_id k) = None" by (auto simp: dict_map_None image_iff)
  then show ?thesis using dict_map_insert [OF assms(1,3)] by (auto simp: fun_upd_def)
qed

section \<open>Updating one bucket of a dict\<close>

lemma get_set_ht [simp]:
  "get_ht (set_ht d i h) i = h"
  "pauserehash (set_ht d i h) = pauserehash d" "rehashidx (set_ht d i h) = rehashidx d"
  "dictIsRehashing (set_ht d i h) = dictIsRehashing d"
  by (simp_all add: get_ht_def set_ht_def dictIsRehashing_def)

lemma dict_update_bag:
  assumes "ht_table (get_ht d i) = Some tab" "idx < length tab"
  shows "dict_bag (set_ht d i ((get_ht d i)\<lparr>ht_table := Some (tab[idx := c]), ht_used := u\<rparr>)) +
           mset (chain_list (tab ! idx)) = dict_bag d + mset (chain_list c)"
  using table_list_update [OF assms(2), of c] assms(1)
  by (auto simp: dict_entries_def set_ht_def get_ht_def ht_list_def ac_simps split: if_splits)

lemma dict_update_ok:
  assumes ok: "dict_ok t key_id d" and tab: "ht_table (get_ht d i) = Some tab" and idx: "idx < length tab"
    and c: "chain_ok t c" "in_bucket t (ht_size_exp (get_ht d i)) idx c"
    and u: "u + length (chain_list (tab ! idx)) = ht_used (get_ht d i) + length (chain_list c)"
    and low: "i = 0 \<Longrightarrow> dictIsRehashing d \<Longrightarrow> tab ! idx \<noteq> NULL"
    and d': "d' = set_ht d i ((get_ht d i)\<lparr>ht_table := Some (tab[idx := c]), ht_used := u\<rparr>)"
    and dist: "distinct (map (key_id \<circ> fst) (dict_entries d'))"
  shows "dict_ok t key_id d'"
proof -
  have t: "table_ok t (get_ht d i)" using ok by (simp add: dict_ok_def get_ht_def)
  have h': "table_ok t ((get_ht d i)\<lparr>ht_table := Some (tab[idx := c]), ht_used := u\<rparr>)"
    by (rule table_update_Some [OF t tab idx c u])
  have "rehash_ok d'"
  proof (cases "i = 0")
    case True
    then have "\<not> idx < nat (rehashidx d)" if "rehashidx d \<noteq> -1"
      using that low ok tab idx by (auto simp: dict_ok_def rehash_ok_def get_ht_def dictIsRehashing_def)
    with True ok tab show ?thesis
      by (auto simp: d' rehash_ok_def dict_ok_def set_ht_def get_ht_def nth_list_update)
  next
    case False
    with ok tab show ?thesis
      by (auto simp: d' rehash_ok_def dict_ok_def set_ht_def get_ht_def split: option.splits if_splits)
  qed
  with ok h' dist show ?thesis by (cases "i = 0") (simp_all add: d' dict_ok_def set_ht_def get_ht_def)
qed

lemma length_bag_add: "dict_bag d' = add_mset p (dict_bag d) \<Longrightarrow> length (dict_entries d') = Suc (length (dict_entries d))"
  by (metis size_add_mset size_mset)

section \<open>Updating one entry\<close>

lemma entry_not_key: "1 < length (chain_list he) \<Longrightarrow> \<not> entryIsKey he"
  by (cases he) (auto simp: entryIsKey_def)

lemma chain_update_ok:
  assumes "chain_ok t he" "pos < length (chain_list he)"
    "f ((dictGetNext ^^ pos) he) = Some c" "chain_ok t c"
  shows "\<exists>he'. chain_update f pos he = Some he' \<and> chain_ok t he' \<and>
           chain_list he' = take pos (chain_list he) @ chain_list c"
  using assms
proof (induction pos arbitrary: he)
  case 0
  then show ?case by auto
next
  case (Suc n)
  then have nn: "he \<noteq> NULL" by auto
  then obtain k v where he: "chain_list he = (k, v) # chain_list (dictGetNext he)"
    by (rule chain_cons)
  have "f ((dictGetNext ^^ n) (dictGetNext he)) = Some c" using Suc.prems(3) by (simp add: funpow_swap1)
  with Suc.IH [of "dictGetNext he"] Suc.prems he chain_ok_next obtain n' where
    n': "chain_update f n (dictGetNext he) = Some n'" "chain_ok t n'"
      "chain_list n' = take n (chain_list (dictGetNext he)) @ chain_list c" by auto
  have "\<not> entryIsKey he" using Suc.prems(2) by (intro entry_not_key) simp
  from dictSetNext_ok [OF Suc.prems(1) nn n'(2) this] n' he show ?case using nn by auto
qed

lemma update_entry_ok:
  assumes ok: "dict_ok t key_id d" and ref: "ref = (i, idx, pos)" "i \<le> 1"
    and tab: "ht_table (get_ht d i) = Some tab" "idx < length tab" "pos < length (chain_list (tab ! idx))"
    and f: "f ((dictGetNext ^^ pos) (tab ! idx)) = Some c" "chain_ok t c"
  shows "\<exists>he'. update_entry f d ref =
             Some (set_ht d i ((get_ht d i)\<lparr>ht_table := Some (tab[idx := he'])\<rparr>)) \<and>
           chain_ok t he' \<and> chain_list he' = take pos (chain_list (tab ! idx)) @ chain_list c"
proof -
  have "table_ok t (get_ht d i)" using ok by (simp add: dict_ok_def get_ht_def)
  then have "chain_ok t (tab ! idx)" using table_ok_Some(5) [OF _ tab(1,2)] by simp
  from chain_update_ok [where f = f, OF this tab(3) f] ref(1) tab(1,2) show ?thesis
    by (auto simp: update_entry_def Let_def)
qed

lemma ref_pointsE:
  assumes "ref_points d ref p"
  obtains i idx pos tab where "ref = (i, idx, pos)" "i \<le> 1" "ht_table (get_ht d i) = Some tab"
    "idx < length tab" "pos < length (chain_list (tab ! idx))" "chain_list (tab ! idx) ! pos = p"
  using assms by (cases ref) (auto simp: ref_points_def)

lemma mset_take_nth_drop:
  "pos < length xs \<Longrightarrow> mset xs = mset (take pos xs) + {#xs ! pos#} + mset (drop (Suc pos) xs)"
  using arg_cong [OF id_take_nth_drop [of pos xs], of mset] by simp

text \<open>Replacing the entry a reference points to by another one with the same key.\<close>

lemma replace_entry_ok:
  assumes ok: "dict_ok t key_id d" and ref: "ref_points d ref (k, v)"
    and f: "\<And>c. chain_ok t c \<Longrightarrow> c \<noteq> NULL \<Longrightarrow> hd (chain_list c) = (k, v) \<Longrightarrow>
       \<exists>c'. f c = Some c' \<and> chain_ok t c' \<and> chain_list c' = (k, v') # tl (chain_list c)"
  shows "\<exists>d'. update_entry f d ref = Some d' \<and> dict_ok t key_id d' \<and> pauserehash d' = pauserehash d \<and>
           dict_map key_id d' = (dict_map key_id d)(key_id k \<mapsto> v') \<and>
           add_mset (k, v) (dict_bag d') = add_mset (k, v') (dict_bag d)"
proof -
  obtain i idx pos tab where r: "ref = (i, idx, pos)" "i \<le> 1" "ht_table (get_ht d i) = Some tab"
    "idx < length tab" "pos < length (chain_list (tab ! idx))" "chain_list (tab ! idx) ! pos = (k, v)"
    using ref by (rule ref_pointsE)
  let ?c = "(dictGetNext ^^ pos) (tab ! idx)"
  have t: "table_ok t (get_ht d i)" using ok by (simp add: dict_ok_def get_ht_def)
  have cok: "chain_ok t (tab ! idx)" "in_bucket t (ht_size_exp (get_ht d i)) idx (tab ! idx)"
    using table_ok_Some(5,6) [OF t r(3) r(4)] .
  have cl: "chain_list ?c = drop pos (chain_list (tab ! idx))" by (rule funpow_next_list)
  have "chain_ok t ?c" using cok(1) by (induction pos) (auto intro: chain_ok_next)
  moreover have "?c \<noteq> NULL" using cl r(5) by (metis chain_list_Nil drop_eq_Nil2 not_le)
  moreover have "hd (chain_list ?c) = (k, v)" using cl r(5,6) by (simp add: hd_drop_conv_nth)
  ultimately obtain c' where c': "f ?c = Some c'" "chain_ok t c'" "chain_list c' = (k, v') # drop (Suc pos) (chain_list (tab ! idx))"
    using f [of ?c] cl by (auto simp: drop_Suc tl_drop)
  obtain he' where he': "update_entry f d ref = Some (set_ht d i ((get_ht d i)\<lparr>ht_table := Some (tab[idx := he'])\<rparr>))"
    "chain_ok t he'" "chain_list he' = take pos (chain_list (tab ! idx)) @ (k, v') # drop (Suc pos) (chain_list (tab ! idx))"
    using update_entry_ok [where f = f, OF ok r(1-5) c'(1,2)] c'(3) by auto
  define h' where "h' = (get_ht d i)\<lparr>ht_table := Some (tab[idx := he']), ht_used := ht_used (get_ht d i)\<rparr>"
  have h': "(get_ht d i)\<lparr>ht_table := Some (tab[idx := he'])\<rparr> = h'" by (simp add: h'_def)
  have ch: "add_mset (k, v) (mset (chain_list he')) = add_mset (k, v') (mset (chain_list (tab ! idx)))"
    using mset_take_nth_drop [OF r(5)] r(6) he'(3) by simp
  have "add_mset (k, v) (dict_bag (set_ht d i h')) + mset (chain_list (tab ! idx)) =
          dict_bag d + add_mset (k, v) (mset (chain_list he'))"
    using dict_update_bag [OF r(3,4), where c = he' and u = "ht_used (get_ht d i)"]
    unfolding h'_def [symmetric] by simp
  then have bag: "add_mset (k, v) (dict_bag (set_ht d i h')) = add_mset (k, v') (dict_bag d)"
    unfolding ch by simp
  have "mset (map (key_id \<circ> fst) (dict_entries (set_ht d i h'))) = mset (map (key_id \<circ> fst) (dict_entries d))"
    using arg_cong [OF bag, of "image_mset (key_id \<circ> fst)"] by simp
  then have dist: "distinct (map (key_id \<circ> fst) (dict_entries (set_ht d i h')))"
    using ok by (metis dict_ok_def mset_eq_imp_distinct_iff)
  have inb: "in_bucket t (ht_size_exp (get_ht d i)) idx he'"
  proof -
    have "set (chain_list (tab ! idx)) =
            insert (k, v) (set (take pos (chain_list (tab ! idx))) \<union> set (drop (Suc pos) (chain_list (tab ! idx))))"
      using arg_cong [OF id_take_nth_drop [OF r(5)], of set] r(6) by simp
    then show ?thesis using cok(2) by (auto simp: in_bucket_def he'(3))
  qed
  have ok': "dict_ok t key_id (set_ht d i h')"
    by (rule dict_update_ok [OF ok r(3,4) he'(2) inb _ _ h'_def [THEN arg_cong [of _ _ "set_ht d i"]] dist])
      (use r(4,5) he'(3) in auto)
  show ?thesis
    using he'(1) ok' bag dict_map_replace [OF ok ok' bag] ref_points_entry [OF ref]
    unfolding h' by simp
qed

section \<open>Insertion, replacement and deletion\<close>

text \<open>The value that is stored for \<open>val\<close>.\<close>

definition stored_value :: "('k, 'v) dictType \<Rightarrow> 'v \<Rightarrow> 'v" where
  "stored_value t val = (case valDup t of Some f \<Rightarrow> f val | None \<Rightarrow> val)"

lemma dictSetVal_ok:
  assumes ok: "dict_ok t key_id d" and ref: "ref_points d ref (k, v)" and nv: "\<not> no_value t"
  shows "\<exists>d'. dictSetVal t d ref val = Some d' \<and> dict_ok t key_id d' \<and> pauserehash d' = pauserehash d \<and>
           dict_map key_id d' = (dict_map key_id d)(key_id k \<mapsto> Some (stored_value t val)) \<and>
           add_mset (k, v) (dict_bag d') = add_mset (k, Some (stored_value t val)) (dict_bag d)"
  unfolding dictSetVal_def
proof (rule replace_entry_ok [OF ok ref])
  fix c assume c: "chain_ok t c" "c \<noteq> NULL" "hd (chain_list c) = (k, v)"
  then show "\<exists>c'. (case c of ENormal k v n \<Rightarrow> Some (ENormal k (Some (case valDup t of Some f \<Rightarrow> f val | None \<Rightarrow> val)) n)
                   | _ \<Rightarrow> None) = Some c' \<and> chain_ok t c' \<and>
                 chain_list c' = (k, Some (stored_value t val)) # tl (chain_list c)"
    using nv by (cases c) (auto simp: stored_value_def)
qed

context dict_contract
begin

lemma insert_at_ok:
  assumes ok: "dict_ok t key_id d" and tab: "ht_table (ht0 d) \<noteq> None"
    and new: "dict_map key_id d (key_id key) = None"
  shows "let i = (if dictIsRehashing d then 1 else 0)
         in \<exists>d' ref. dictInsertAtPosition t d key (i, bucket_index (hashFunction t key) (ht_size_exp (get_ht d i))) = Some (d', ref) \<and>
             dict_ok t key_id d' \<and> dict_bag d' = add_mset (key, None) (dict_bag d) \<and>
             pauserehash d' = pauserehash d \<and> ref_points d' ref (key, None)"
proof -
  define i where "i = (if dictIsRehashing d then 1 else 0 :: nat)"
  define h where "h = get_ht d i"
  define idx where "idx = bucket_index (hashFunction t key) (ht_size_exp h)"
  have t: "table_ok t h" using ok by (simp add: dict_ok_def h_def get_ht_def)
  obtain tb where tb: "ht_table h = Some tb"
    using ok tab
    by (cases "rehashidx d = -1") (auto simp: h_def i_def get_ht_def dict_ok_def rehash_ok_def dictIsRehashing_def)
  note tt = table_ok_Some [OF t tb]
  have idx: "idx < length tb" using tt(1,3) bucket_index_less by (simp add: idx_def)
  define c where "c = (if no_value t then (if keys_are_odd t \<and> tb ! idx = NULL then EKey key
                         else ENoValue key (tb ! idx)) else ENormal key None (tb ! idx))"
  have c: "chain_ok t c" "chain_list c = (key, None) # chain_list (tb ! idx)"
    using tt(5) [OF idx] by (auto simp: c_def)
  then have inb: "in_bucket t (ht_size_exp h) idx c"
    using in_bucket_Cons [OF c(2)] tt(6) [OF idx] by (simp add: idx_def)
  define d' where "d' = set_ht d i (h\<lparr>ht_table := Some (tb[idx := c]), ht_used := ht_used h + 1\<rparr>)"
  have le: "idx \<le> unat (DICTHT_SIZE_MASK (ht_size_exp h))"
  proof -
    have "idx \<le> unat (mask (nat (ht_size_exp h)) :: u64)"
      unfolding idx_def bucket_index_def using tt(1) by (simp add: mask_word word_and_le1 word_le_nat_alt [symmetric])
    then show ?thesis using tt(1) by (simp add: mask_word)
  qed
  have ins: "dictInsertAtPosition t d key (i, idx) = Some (d', (i, idx, 0))"
    using tb idx le odd_keys [of key]
    by (simp add: dictInsertAtPosition_def Let_def d'_def c_def createEntryNoValue_def
        flip: i_def h_def)
  have bag: "dict_bag d' = add_mset (key, None) (dict_bag d)"
    using dict_update_bag [of d i tb idx "ht_used h + 1" c] tb idx c(2)
    by (simp add: d'_def flip: h_def)
  have "distinct (map (key_id \<circ> fst) ((key, None) # dict_entries d))"
    using ok new by (auto simp: dict_ok_def dict_map_None image_iff)
  then have dist: "distinct (map (key_id \<circ> fst) (dict_entries d'))"
    using distinct_map_mset [of "dict_entries d'" "(key, None) # dict_entries d" "key_id \<circ> fst"] bag by simp
  have "dict_ok t key_id d'"
    by (rule dict_update_ok [where i = i and tab = tb and idx = idx and c = c and u = "ht_used h + 1", OF ok])
      (use tb idx c inb dist in \<open>auto simp: d'_def h_def i_def\<close>)
  moreover have "ref_points d' (i, idx, 0) (key, None)"
    using idx c(2) by (auto simp: ref_points_def d'_def i_def)
  moreover have "pauserehash d' = pauserehash d" by (simp add: d'_def)
  ultimately show ?thesis using ins bag by (auto simp: Let_def idx_def h_def simp flip: i_def)
qed

lemma dictAddRaw_ok:
  assumes ok: "dict_ok t key_id d" and small: "length (dict_entries d) < 2 ^ 60"
  shows "\<exists>d' e x. dictAddRaw can t d key = Some (d', e, x) \<and> dict_ok t key_id d' \<and>
     pauserehash d' = pauserehash d \<and>
     (case dict_map key_id d (key_id key) of
        None \<Rightarrow> \<exists>ref key'. e = Some ref \<and> x = None \<and> key_id key' = key_id key \<and>
                   dict_bag d' = add_mset (key', None) (dict_bag d) \<and> ref_points d' ref (key', None)
      | Some v \<Rightarrow> e = None \<and> dict_bag d' = dict_bag d \<and>
                   (\<exists>ref k. x = Some ref \<and> ref_points d' ref (k, v) \<and> key_id k = key_id key))"
proof -
  obtain d1 where d1: "(if dictIsRehashing d then u_dictRehashStep can t d else Some d) = Some d1"
    "dict_ok t key_id d1" "dict_bag d1 = dict_bag d" "pauserehash d1 = pauserehash d"
    using rehash_step_ok [OF ok] by blast
  have "length (dict_entries d1) < 2 ^ 60" using small bag_length [OF d1(3)] by simp
  from expandIfNeeded_ok [OF d1(2) this, of can] obtain d2 where
    d2: "u_dictExpandIfNeeded can t d1 = (d2, True)" "dict_ok t key_id d2" "dict_bag d2 = dict_bag d"
      "pauserehash d2 = pauserehash d" "ht_table (ht0 d2) \<noteq> None" using d1 by auto
  have m: "dict_map key_id d2 = dict_map key_id d" by (rule dict_map_bag [OF ok d2(2,3)])
  from find_in_tables_ok [OF d2(2,5), of key] obtain r where
    r: "find_in_tables t d2 key (hashFunction t key) = Some r"
     "case r of
        None \<Rightarrow> dict_map key_id d (key_id key) = None
      | Some ref \<Rightarrow> \<exists>k v. ref_points d2 ref (k, v) \<and> key_id k = key_id key \<and>
                     dict_map key_id d (key_id key) = Some v" unfolding m by blast
  show ?thesis
  proof (cases r)
    case (Some ref)
    then show ?thesis using r d1(1) d2
      by (auto simp: dictAddRaw_def dictFindPositionForInsert_def Let_def)
  next
    case None
    define key' where "key' = (case keyDup t of Some f \<Rightarrow> f key | None \<Rightarrow> key)"
    have id: "key_id key' = key_id key" using dup_id by (auto simp: key'_def split: option.splits)
    then have hk: "hashFunction t key' = hashFunction t key" by (rule hash_id)
    have "dict_map key_id d2 (key_id key') = None" using r(2) None m id by simp
    from insert_at_ok [OF d2(2,5) this, unfolded hk Let_def] show ?thesis
      using r d1(1) d2 None id
      by (auto simp: dictAddRaw_def dictFindPositionForInsert_def Let_def simp flip: key'_def)
  qed
qed

text \<open>The map after storing a value: entries of a dict without values only have a key.\<close>

definition new_value :: "'v \<Rightarrow> 'v option" where
  "new_value val = (if no_value t then None else Some (stored_value t val))"

lemma dictAdd_ok:
  assumes ok: "dict_ok t key_id d" and small: "length (dict_entries d) < 2 ^ 60"
  shows "\<exists>d'. dictAdd can t d key val = Some (d', dict_map key_id d (key_id key) = None) \<and>
     dict_ok t key_id d' \<and> pauserehash d' = pauserehash d \<and>
     dict_map key_id d' = (if dict_map key_id d (key_id key) = None
                           then (dict_map key_id d)(key_id key \<mapsto> new_value val) else dict_map key_id d) \<and>
     length (dict_entries d') \<le> Suc (length (dict_entries d))"
proof -
  from dictAddRaw_ok [OF ok small, of can key] obtain d1 e x where
    d1: "dictAddRaw can t d key = Some (d1, e, x)" "dict_ok t key_id d1" "pauserehash d1 = pauserehash d"
     "case dict_map key_id d (key_id key) of
        None \<Rightarrow> \<exists>ref key'. e = Some ref \<and> x = None \<and> key_id key' = key_id key \<and>
                   dict_bag d1 = add_mset (key', None) (dict_bag d) \<and> ref_points d1 ref (key', None)
      | Some v \<Rightarrow> e = None \<and> dict_bag d1 = dict_bag d \<and>
                   (\<exists>ref k. x = Some ref \<and> ref_points d1 ref (k, v) \<and> key_id k = key_id key)" by blast
  show ?thesis
  proof (cases "dict_map key_id d (key_id key)")
    case (Some v)
    then have e: "e = None" "dict_bag d1 = dict_bag d" using d1(4) by auto
    then have "dict_map key_id d1 = dict_map key_id d" "length (dict_entries d1) = length (dict_entries d)"
      using dict_map_bag [OF ok d1(2)] bag_length by auto
    then show ?thesis using d1 Some e by (simp add: dictAdd_def)
  next
    case None
    then obtain ref key' where r: "e = Some ref" "key_id key' = key_id key"
      "dict_bag d1 = add_mset (key', None) (dict_bag d)" "ref_points d1 ref (key', None)" using d1(4) by auto
    have m1: "dict_map key_id d1 = (dict_map key_id d)(key_id key \<mapsto> None)"
      using dict_map_insert [OF d1(2) r(3)] r(2) by simp
    have l1: "length (dict_entries d1) = Suc (length (dict_entries d))" using r(3) by (rule length_bag_add)
    show ?thesis
    proof (cases "no_value t")
      case True
      then show ?thesis using d1 r None m1 l1 by (auto simp: dictAdd_def new_value_def)
    next
      case False
      from dictSetVal_ok [OF d1(2) r(4) False, of val] obtain d2 where
        d2: "dictSetVal t d1 ref val = Some d2" "dict_ok t key_id d2" "pauserehash d2 = pauserehash d1"
          "dict_map key_id d2 = (dict_map key_id d1)(key_id key \<mapsto> Some (stored_value t val))"
          "add_mset (key', None) (dict_bag d2) = add_mset (key', Some (stored_value t val)) (dict_bag d1)"
        using r(2) by auto
      have "length (dict_entries d2) = length (dict_entries d1)"
        using arg_cong [OF d2(5), of size] by simp
      then show ?thesis using d1(1,3) r(1) None m1 l1 d2 False
        by (auto simp: dictAdd_def new_value_def)
    qed
  qed
qed

lemma dictReplace_ok:
  assumes ok: "dict_ok t key_id d" and small: "length (dict_entries d) < 2 ^ 60" and nv: "\<not> no_value t"
    and init: "dict_map key_id d (key_id key) \<noteq> Some None"
  shows "\<exists>d'. dictReplace can t d key val = Some (d', dict_map key_id d (key_id key) = None) \<and>
     dict_ok t key_id d' \<and> pauserehash d' = pauserehash d \<and>
     dict_map key_id d' = (dict_map key_id d)(key_id key \<mapsto> Some (stored_value t val)) \<and>
     length (dict_entries d') \<le> Suc (length (dict_entries d))"
proof -
  from dictAddRaw_ok [OF ok small, of can key] obtain d1 e x where
    d1: "dictAddRaw can t d key = Some (d1, e, x)" "dict_ok t key_id d1" "pauserehash d1 = pauserehash d"
     "case dict_map key_id d (key_id key) of
        None \<Rightarrow> \<exists>ref key'. e = Some ref \<and> x = None \<and> key_id key' = key_id key \<and>
                   dict_bag d1 = add_mset (key', None) (dict_bag d) \<and> ref_points d1 ref (key', None)
      | Some v \<Rightarrow> e = None \<and> dict_bag d1 = dict_bag d \<and>
                   (\<exists>ref k. x = Some ref \<and> ref_points d1 ref (k, v) \<and> key_id k = key_id key)" by blast
  obtain ref k v where r: "ref_points d1 ref (k, v)" "key_id k = key_id key"
    "dict_map key_id d1 = (if dict_map key_id d (key_id key) = None
         then (dict_map key_id d)(key_id key \<mapsto> None) else dict_map key_id d)"
    "length (dict_entries d1) \<le> Suc (length (dict_entries d))"
    "if dict_map key_id d (key_id key) = None then e = Some ref
     else e = None \<and> x = Some ref \<and> v \<noteq> None"
  proof (cases "dict_map key_id d (key_id key)")
    case (Some v)
    then obtain ref k where *: "e = None" "dict_bag d1 = dict_bag d" "x = Some ref" "ref_points d1 ref (k, v)"
      "key_id k = key_id key" using d1(4) by auto
    then show ?thesis
      using that [of ref k v] Some init dict_map_bag [OF ok d1(2) *(2)] bag_length [OF *(2)] by auto
  next
    case None
    then obtain ref key' where *: "e = Some ref" "key_id key' = key_id key"
      "dict_bag d1 = add_mset (key', None) (dict_bag d)" "ref_points d1 ref (key', None)" using d1(4) by auto
    then show ?thesis
      using that [of ref key' None] None dict_map_insert [OF d1(2) *(3)] length_bag_add [OF *(3)] by auto
  qed
  from dictSetVal_ok [OF d1(2) r(1) nv, of val] obtain d2 where
    d2: "dictSetVal t d1 ref val = Some d2" "dict_ok t key_id d2" "pauserehash d2 = pauserehash d1"
      "dict_map key_id d2 = (dict_map key_id d1)(key_id key \<mapsto> Some (stored_value t val))"
      "add_mset (k, v) (dict_bag d2) = add_mset (k, Some (stored_value t val)) (dict_bag d1)"
    using r(2) by auto
  have l: "length (dict_entries d2) = length (dict_entries d1)" using arg_cong [OF d2(5), of size] by simp
  obtain he where he: "entry_at d1 ref = Some he" "he \<noteq> NULL" "hd (chain_list he) = (k, v)"
    using ref_points_entry_at [OF r(1)] by blast
  have "\<exists>w. dictGetVal he = Some w" if "v \<noteq> None"
    using he(2,3) that by (cases he) auto
  then show ?thesis
    using d1(1,3) d2 r(3-5) l he(1)
    by (cases "dict_map key_id d (key_id key) = None") (auto simp: dictReplace_def)
qed

lemma chain_unlink_ok:
  assumes "chain_ok t he"
  shows "\<exists>r. chain_unlink t key he = Some r \<and>
     (case r of
        None \<Rightarrow> \<forall>p \<in> set (chain_list he). key_id (fst p) \<noteq> key_id key
      | Some (e, he') \<Rightarrow> \<exists>k v. e \<noteq> NULL \<and> hd (chain_list e) = (k, v) \<and> key_id k = key_id key \<and>
           chain_ok t he' \<and> mset (chain_list he) = add_mset (k, v) (mset (chain_list he')))"
  using assms
proof (induction "length (chain_list he)" arbitrary: he)
  case 0
  then show ?case by (subst chain_unlink.simps) simp
next
  case (Suc m)
  then have nn: "he \<noteq> NULL" by auto
  then obtain k v where he: "chain_list he = (k, v) # chain_list (dictGetNext he)" "dictGetKey he = Some k"
    by (rule chain_cons)
  show ?case
  proof (cases "key_id key = key_id k")
    case True
    then have "chain_unlink t key he = Some (Some (he, dictGetNext he))"
      using nn he(2) same_key_id by (subst chain_unlink.simps) simp
    then show ?thesis using True he(1) nn chain_ok_next [OF Suc.prems] by simp
  next
    case False
    then have un: "chain_unlink t key he = do {
          r \<leftarrow> chain_unlink t key (dictGetNext he);
          (case r of
             None \<Rightarrow> Some None
           | Some (e, next) \<Rightarrow> do { he' \<leftarrow> dictSetNext he next; Some (Some (e, he')) }) }"
      using nn he(2) same_key_id by (subst chain_unlink.simps) simp
    have "m = length (chain_list (dictGetNext he))" using Suc.hyps(2) he(1) by simp
    from Suc.hyps(1) [OF this chain_ok_next [OF Suc.prems]] obtain r where
      r: "chain_unlink t key (dictGetNext he) = Some r"
      "case r of
        None \<Rightarrow> \<forall>p \<in> set (chain_list (dictGetNext he)). key_id (fst p) \<noteq> key_id key
      | Some (e, he') \<Rightarrow> \<exists>k v. e \<noteq> NULL \<and> hd (chain_list e) = (k, v) \<and> key_id k = key_id key \<and>
           chain_ok t he' \<and> mset (chain_list (dictGetNext he)) = add_mset (k, v) (mset (chain_list he'))" by blast
    show ?thesis
    proof (cases r)
      case None
      then show ?thesis using un r False he(1) by auto
    next
      case (Some p)
      obtain e nx where p: "p = (e, nx)" by (cases p)
      obtain k' v' where e: "e \<noteq> NULL" "hd (chain_list e) = (k', v')" "key_id k' = key_id key"
           "chain_ok t nx" "mset (chain_list (dictGetNext he)) = add_mset (k', v') (mset (chain_list nx))"
        using r(2) Some p by auto
      have "chain_list (dictGetNext he) \<noteq> []" using e(5) by auto
      then have "\<not> entryIsKey he" using he(1) by (intro entry_not_key) simp
      from dictSetNext_ok [OF Suc.prems nn e(4) this] obtain c where
        c: "dictSetNext he nx = Some c" "chain_ok t c" "chain_list c = (k, v) # chain_list nx" using he(1) by auto
      then have "chain_unlink t key he = Some (Some (e, c))" using un r(1) Some p by simp
      moreover have "mset (chain_list he) = add_mset (k', v') (mset (chain_list c))"
        using he(1) c(3) e(5) by simp
      ultimately show ?thesis using e c(2) by auto
    qed
  qed
qed

lemma delete_in_table_ok:
  assumes ok: "dict_ok t key_id d" and i: "i \<le> 1" and tab: "ht_table (get_ht d i) = Some tab"
  shows "\<exists>d' r. delete_in_table t d key (hashFunction t key) i = Some (d', r) \<and>
     (case r of
        None \<Rightarrow> d' = d \<and> (\<forall>p \<in> set (ht_list (get_ht d i)). key_id (fst p) \<noteq> key_id key)
      | Some e \<Rightarrow> \<exists>k v. e \<noteq> NULL \<and> hd (chain_list e) = (k, v) \<and> key_id k = key_id key \<and>
          dict_ok t key_id d' \<and> dict_bag d = add_mset (k, v) (dict_bag d') \<and> pauserehash d' = pauserehash d)"
proof -
  define h where "h = get_ht d i"
  define idx where "idx = bucket_index (hashFunction t key) (ht_size_exp h)"
  have t: "table_ok t h" using ok by (simp add: dict_ok_def h_def get_ht_def)
  have tb: "ht_table h = Some tab" using tab by (simp add: h_def)
  note tt = table_ok_Some [OF t tb]
  have idx: "idx < length tab" using tt(1,3) bucket_index_less by (simp add: idx_def)
  obtain r where r: "chain_unlink t key (tab ! idx) = Some r"
    "case r of
        None \<Rightarrow> \<forall>p \<in> set (chain_list (tab ! idx)). key_id (fst p) \<noteq> key_id key
      | Some (e, he') \<Rightarrow> \<exists>k v. e \<noteq> NULL \<and> hd (chain_list e) = (k, v) \<and> key_id k = key_id key \<and>
           chain_ok t he' \<and> mset (chain_list (tab ! idx)) = add_mset (k, v) (mset (chain_list he'))"
    using chain_unlink_ok [OF tt(5) [OF idx]] by blast
  show ?thesis
  proof (cases r)
    case None
    then have "\<forall>p \<in> set (ht_list h). key_id (fst p) \<noteq> key_id key"
      using r(2) bucket_holds_key [OF t tb, of _ key] by (auto simp flip: idx_def)
    then show ?thesis
      using None r(1) tb idx by (auto simp: delete_in_table_def Let_def simp flip: h_def idx_def)
  next
    case (Some p)
    obtain e c where p: "p = (e, c)" by (cases p)
    obtain k v where e: "e \<noteq> NULL" "hd (chain_list e) = (k, v)" "key_id k = key_id key" "chain_ok t c"
      "mset (chain_list (tab ! idx)) = add_mset (k, v) (mset (chain_list c))" using r(2) Some p by auto
    have len: "length (chain_list (tab ! idx)) = Suc (length (chain_list c))"
      using arg_cong [OF e(5), of size] by simp
    then have used: "0 < ht_used h" using tt(4) length_chain_le [OF idx] by linarith
    define d' where "d' = set_ht d i (h\<lparr>ht_table := Some (tab[idx := c]), ht_used := ht_used h - 1\<rparr>)"
    have run: "delete_in_table t d key (hashFunction t key) i = Some (d', Some e)"
      using r(1) Some p tb idx used by (simp add: delete_in_table_def Let_def d'_def flip: h_def idx_def)
    have bag: "dict_bag d = add_mset (k, v) (dict_bag d')"
      using dict_update_bag [of d i tab idx "ht_used h - 1" c] tab idx e(5) by (simp add: d'_def flip: h_def)
    have "distinct (map (key_id \<circ> fst) ((k, v) # dict_entries d'))"
      using ok distinct_map_mset [of "dict_entries d" "(k, v) # dict_entries d'" "key_id \<circ> fst"] bag
      by (simp add: dict_ok_def)
    then have dist: "distinct (map (key_id \<circ> fst) (dict_entries d'))" by simp
    have "set (chain_list c) \<subseteq> set (chain_list (tab ! idx))" using arg_cong [OF e(5), of set_mset] by auto
    then have inb: "in_bucket t (ht_size_exp h) idx c" using tt(6) [OF idx] by (auto simp: in_bucket_def)
    have "tab ! idx \<noteq> NULL" using len by auto
    then have "dict_ok t key_id d'"
      by (intro dict_update_ok [where i = i and tab = tab and idx = idx and c = c and u = "ht_used h - 1", OF ok])
        (use tab idx e(4) inb dist len used in \<open>auto simp: d'_def h_def\<close>)
    moreover have "pauserehash d' = pauserehash d" by (simp add: d'_def)
    ultimately show ?thesis using run e bag by auto
  qed
qed

lemma dictGenericDelete_ok:
  assumes ok: "dict_ok t key_id d"
  shows "\<exists>d' r. dictGenericDelete can t d key = Some (d', r) \<and> dict_ok t key_id d' \<and>
     pauserehash d' = pauserehash d \<and> dict_map key_id d' = (dict_map key_id d)(key_id key := None) \<and>
     length (dict_entries d') \<le> length (dict_entries d) \<and>
     (case r of
        None \<Rightarrow> dict_map key_id d (key_id key) = None
      | Some e \<Rightarrow> \<exists>k v. e \<noteq> NULL \<and> hd (chain_list e) = (k, v) \<and> key_id k = key_id key \<and>
                   dict_map key_id d (key_id key) = Some v)"
proof (cases "dictSize d = 0")
  case True
  then show ?thesis using ok dict_ok_size [OF ok]
    by (auto simp: dictGenericDelete_def dict_map_None fun_upd_idem)
next
  case False
  obtain d1 where d1: "(if dictIsRehashing d then u_dictRehashStep can t d else Some d) = Some d1"
    "dict_ok t key_id d1" "dict_bag d1 = dict_bag d" "pauserehash d1 = pauserehash d"
    using rehash_step_ok [OF ok] by blast
  have m1: "dict_map key_id d1 = dict_map key_id d" by (rule dict_map_bag [OF ok d1(2,3)])
  have l1: "length (dict_entries d1) = length (dict_entries d)" by (rule bag_length [OF d1(3)])
  have "dict_entries d1 \<noteq> []" using False dict_ok_size [OF ok] l1 by auto
  then obtain tab0 where tab0: "ht_table (get_ht d1 0) = Some tab0"
    using dict_ok_table0 [OF d1(2)] by (auto simp: get_ht_def)
  have hit: ?thesis if "dictGenericDelete can t d key = Some (d2, Some e)" "e \<noteq> NULL" "hd (chain_list e) = (k, v)"
      "key_id k = key_id key" "dict_ok t key_id d2" "dict_bag d1 = add_mset (k, v) (dict_bag d2)"
      "pauserehash d2 = pauserehash d1" for d2 e k v
  proof -
    have "(k, v) \<in> set (dict_entries d1)" using arg_cong [OF that(6), of set_mset] by auto
    then have "dict_map key_id d1 (key_id key) = Some v" using dict_map_entry [OF d1(2)] that(4) by blast
    moreover have "length (dict_entries d1) = Suc (length (dict_entries d2))" using that(6) by (rule length_bag_add)
    ultimately show ?thesis
      using that dict_map_delete [OF d1(2) that(5,6)] m1 l1 d1(4) by auto
  qed
  obtain d2 r where r: "delete_in_table t d1 key (hashFunction t key) 0 = Some (d2, r)"
     "case r of
        None \<Rightarrow> d2 = d1 \<and> (\<forall>p \<in> set (ht_list (get_ht d1 0)). key_id (fst p) \<noteq> key_id key)
      | Some e \<Rightarrow> \<exists>k v. e \<noteq> NULL \<and> hd (chain_list e) = (k, v) \<and> key_id k = key_id key \<and>
          dict_ok t key_id d2 \<and> dict_bag d1 = add_mset (k, v) (dict_bag d2) \<and> pauserehash d2 = pauserehash d1"
    using delete_in_table_ok [OF d1(2) _ tab0, of key] by auto
  show ?thesis
  proof (cases r)
    case (Some e)
    have "dictGenericDelete can t d key = Some (d2, Some e)"
      using False d1(1) r(1) Some by (simp add: dictGenericDelete_def Let_def)
    then show ?thesis using r(2) Some hit by auto
  next
    case None
    show ?thesis
    proof (cases "dictIsRehashing d1")
      case no: False
      then have "ht_list (ht1 d1) = []"
        using d1(2) by (simp add: dict_ok_def rehash_ok_def dictIsRehashing_def ht_list_def)
      then have none: "dict_map key_id d (key_id key) = None"
        using r(2) None m1 [symmetric] by (auto simp: dict_map_None dict_entries_def get_ht_def)
      have "dictGenericDelete can t d key = Some (d1, None)"
        using False d1(1) r None no by (simp add: dictGenericDelete_def Let_def)
      then show ?thesis using none d1 m1 l1 by (auto simp: fun_upd_idem)
    next
      case yes: True
      then obtain tab1 where tab1: "ht_table (get_ht d1 1) = Some tab1"
        using d1(2) by (auto simp: dict_ok_def rehash_ok_def dictIsRehashing_def get_ht_def)
      obtain d3 r' where r': "delete_in_table t d1 key (hashFunction t key) 1 = Some (d3, r')"
        "case r' of
           None \<Rightarrow> d3 = d1 \<and> (\<forall>p \<in> set (ht_list (get_ht d1 1)). key_id (fst p) \<noteq> key_id key)
         | Some e \<Rightarrow> \<exists>k v. e \<noteq> NULL \<and> hd (chain_list e) = (k, v) \<and> key_id k = key_id key \<and>
             dict_ok t key_id d3 \<and> dict_bag d1 = add_mset (k, v) (dict_bag d3) \<and> pauserehash d3 = pauserehash d1"
        using delete_in_table_ok [OF d1(2) _ tab1, of key] by auto
      have run: "dictGenericDelete can t d key = Some (d3, r')"
        using False d1(1) r None yes r'(1) by (simp add: dictGenericDelete_def Let_def)
      show ?thesis
      proof (cases r')
        case (Some e)
        then show ?thesis using r'(2) hit run by auto
      next
        case none: None
        then have "dict_map key_id d (key_id key) = None"
          using r(2) r'(2) None m1 [symmetric] by (auto simp: dict_map_None dict_entries_def get_ht_def)
        then show ?thesis using run none r'(2) d1 m1 l1 by (auto simp: fun_upd_idem)
      qed
    qed
  qed
qed

end

end
