(* ===== verification/Dict_Scan.thy ===== *)
theory Dict_Scan
  imports Dict_Proofs
begin

text \<open>
  The cursor of \<^verbatim>\<open>dictScan\<close>: the reversal of the bits of a word, the order in which the reversed
  increments visit the buckets, and the guarantee of a full scan of a dict that is resized and
  rehashed in any way between the calls.
\<close>

unbundle bit_operations_syntax

section \<open>Reversing the bits of a cursor\<close>

definition rev_step :: "nat \<Rightarrow> u64 \<Rightarrow> u64 \<Rightarrow> u64" where
  "rev_step s m v = (drop_bit s v AND m) OR (push_bit s v AND NOT m)"

lemma rev_bits_steps:
  "rev_bits v = rev_step 1 0x5555555555555555 (rev_step 2 0x3333333333333333
     (rev_step 4 0x0F0F0F0F0F0F0F0F (rev_step 8 0x00FF00FF00FF00FF
       (rev_step 16 0x0000FFFF0000FFFF (rev_step 32 0x00000000FFFFFFFF v)))))"
proof -
  have unf: "rev_loop s m v =
     (if s div 2 > 0 then rev_loop (s div 2) (m XOR push_bit (s div 2) m)
          (rev_step (s div 2) (m XOR push_bit (s div 2) m) v) else v)" for s m v
    by (subst rev_loop.simps) (simp add: Let_def rev_step_def drop_bit_eq_div)
  have m: "NOT 0 XOR push_bit 32 (NOT 0) = (0x00000000FFFFFFFF :: u64)"
    "0x00000000FFFFFFFF XOR push_bit 16 0x00000000FFFFFFFF = (0x0000FFFF0000FFFF :: u64)"
    "0x0000FFFF0000FFFF XOR push_bit 8 0x0000FFFF0000FFFF = (0x00FF00FF00FF00FF :: u64)"
    "0x00FF00FF00FF00FF XOR push_bit 4 0x00FF00FF00FF00FF = (0x0F0F0F0F0F0F0F0F :: u64)"
    "0x0F0F0F0F0F0F0F0F XOR push_bit 2 0x0F0F0F0F0F0F0F0F = (0x3333333333333333 :: u64)"
    "0x3333333333333333 XOR push_bit 1 0x3333333333333333 = (0x5555555555555555 :: u64)"
    by code_simp+
  have st: "rev_loop s m v = rev_loop s' m' (rev_step s' m' v)"
    if "s div 2 = s'" "0 < s'" "m XOR push_bit s' m = m'" for s s' m m' v
    using unf [of s m v] that by simp
  have "rev_bits v = rev_loop 1 0x5555555555555555 (rev_step 1 0x5555555555555555 (rev_step 2 0x3333333333333333
     (rev_step 4 0x0F0F0F0F0F0F0F0F (rev_step 8 0x00FF00FF00FF00FF
       (rev_step 16 0x0000FFFF0000FFFF (rev_step 32 0x00000000FFFFFFFF v))))))"
    unfolding rev_bits_def
    by (simp only: st [OF _ _ m(1), of 64] st [OF _ _ m(2), of 32] st [OF _ _ m(3), of 16]
        st [OF _ _ m(4), of 8] st [OF _ _ m(5), of 4] st [OF _ _ m(6), of 2]
        div_self numeral_eq_iff)
  then show ?thesis using unf [of 1] by simp
qed

lemma bit_rev_step:
  assumes "\<And>i. i < 64 \<Longrightarrow> bit m i \<longleftrightarrow> even (i div s)" "i < 64" "0 < s"
  shows "bit (rev_step s m v) i = bit v (if even (i div s) then i + s else i - s)"
proof (cases "even (i div s)")
  case True
  then show ?thesis using assms by (simp add: rev_step_def bit_simps add.commute)
next
  case False
  then have "s \<le> i" by (metis div_less dvd_0_right linorder_not_le)
  then show ?thesis using assms False by (simp add: rev_step_def bit_simps)
qed

definition flip :: "nat \<Rightarrow> nat \<Rightarrow> nat" where
  "flip s i = (if even (i div s) then i + s else i - s)"

text \<open>The index with its lowest \<open>k\<close> bits inverted.\<close>

definition mirror :: "nat \<Rightarrow> nat \<Rightarrow> nat" where
  "mirror k i = i div 2 ^ k * 2 ^ k + (2 ^ k - 1 - i mod 2 ^ k)"

lemma mirror_0: "mirror 0 i = i"
  by (simp add: mirror_def)

lemma mirror_Suc: "flip (2 ^ k) (mirror k i) = mirror (Suc k) i"
proof -
  define a r where "a = i div 2 ^ k" and "r = i mod 2 ^ k"
  have r: "r < 2 ^ k" by (simp add: r_def)
  have m: "mirror k i = a * 2 ^ k + (2 ^ k - 1 - r)" by (simp add: mirror_def a_def r_def)
  have "(a * 2 ^ k + q) div 2 ^ k = a" if "q < 2 ^ k" for q :: nat using that by simp
  from this [of "2 ^ k - 1 - r"] have d: "mirror k i div 2 ^ k = a" using m by (simp add: less_imp_diff_less)
  have dm: "i div 2 ^ Suc k = a div 2" "i mod 2 ^ Suc k = 2 ^ k * (a mod 2) + r"
    using div_mult2_eq [of i "2 ^ k" 2] mod_mult2_eq [of i "2 ^ k" 2] by (simp_all add: a_def r_def mult.commute)
  have f: "flip (2 ^ k) (mirror k i) = (if even a then mirror k i + 2 ^ k else mirror k i - 2 ^ k)"
    unfolding flip_def d ..
  show ?thesis
  proof (cases "even a")
    case True
    then obtain b where b: "a = 2 * b" by blast
    then show ?thesis using r f True unfolding mirror_def [of "Suc k"] dm m by (simp add: algebra_simps)
  next
    case False
    then obtain b where b: "a = 2 * b + 1" by (metis oddE)
    have am: "a mod 2 = 1" "a div 2 = b" using b by simp_all
    show ?thesis using r f False unfolding mirror_def [of "Suc k"] dm m am by (simp add: b algebra_simps)
  qed
qed

lemma mirror_less:
  assumes "i < 64" "k \<le> 6"
  shows "mirror k i < 64"
proof -
  have p: "(2::nat) ^ k * 2 ^ (6 - k) = 64" using assms(2) by (simp flip: power_add)
  have "i div 2 ^ k < 2 ^ (6 - k)" using assms(1) p by (metis less_mult_imp_div_less mult.commute)
  then have "(i div 2 ^ k + 1) * 2 ^ k \<le> 2 ^ (6 - k) * 2 ^ k" by (intro mult_le_mono1) simp
  then have "i div 2 ^ k * 2 ^ k + 2 ^ k \<le> 64" using p by (simp add: mult.commute)
  moreover have "2 ^ k - 1 - i mod 2 ^ k < (2 ^ k :: nat)" by (simp add: less_imp_diff_less)
  ultimately show ?thesis unfolding mirror_def by linarith
qed

lemma flips:
  assumes "i < 64"
  shows "flip 32 (flip 16 (flip 8 (flip 4 (flip 2 (flip 1 i))))) = 63 - i"
    "flip 1 i < 64" "flip 2 (flip 1 i) < 64" "flip 4 (flip 2 (flip 1 i)) < 64"
    "flip 8 (flip 4 (flip 2 (flip 1 i))) < 64" "flip 16 (flip 8 (flip 4 (flip 2 (flip 1 i)))) < 64"
proof -
  have f: "flip 1 i = mirror 1 i" "flip 2 (mirror 1 i) = mirror 2 i" "flip 4 (mirror 2 i) = mirror 3 i"
    "flip 8 (mirror 3 i) = mirror 4 i" "flip 16 (mirror 4 i) = mirror 5 i" "flip 32 (mirror 5 i) = mirror 6 i"
    using mirror_Suc [of 0 i] mirror_Suc [of 1 i] mirror_Suc [of 2 i] mirror_Suc [of 3 i]
      mirror_Suc [of 4 i] mirror_Suc [of 5 i] by (simp_all add: mirror_0 numeral_eq_Suc)
  show "flip 32 (flip 16 (flip 8 (flip 4 (flip 2 (flip 1 i))))) = 63 - i"
    unfolding f using assms by (simp add: mirror_def)
  show "flip 1 i < 64" "flip 2 (flip 1 i) < 64" "flip 4 (flip 2 (flip 1 i)) < 64"
    "flip 8 (flip 4 (flip 2 (flip 1 i))) < 64" "flip 16 (flip 8 (flip 4 (flip 2 (flip 1 i)))) < 64"
    unfolding f by (rule mirror_less [OF assms]; simp)+
qed
lemma mask_bits:
  "i < 64 \<Longrightarrow> (bit (0x5555555555555555 :: u64) i \<longleftrightarrow> even (i div 1)) \<and>
     (bit (0x3333333333333333 :: u64) i \<longleftrightarrow> even (i div 2)) \<and>
     (bit (0x0F0F0F0F0F0F0F0F :: u64) i \<longleftrightarrow> even (i div 4)) \<and>
     (bit (0x00FF00FF00FF00FF :: u64) i \<longleftrightarrow> even (i div 8)) \<and>
     (bit (0x0000FFFF0000FFFF :: u64) i \<longleftrightarrow> even (i div 16)) \<and>
     (bit (0x00000000FFFFFFFF :: u64) i \<longleftrightarrow> even (i div 32))"
proof -
  have "list_all (\<lambda>i. (bit (0x5555555555555555 :: u64) i \<longleftrightarrow> even (i div 1)) \<and>
     (bit (0x3333333333333333 :: u64) i \<longleftrightarrow> even (i div 2)) \<and>
     (bit (0x0F0F0F0F0F0F0F0F :: u64) i \<longleftrightarrow> even (i div 4)) \<and>
     (bit (0x00FF00FF00FF00FF :: u64) i \<longleftrightarrow> even (i div 8)) \<and>
     (bit (0x0000FFFF0000FFFF :: u64) i \<longleftrightarrow> even (i div 16)) \<and>
     (bit (0x00000000FFFFFFFF :: u64) i \<longleftrightarrow> even (i div 32))) [0..<64]"
    by code_simp
  then have *: "i \<in> {0..<64} \<Longrightarrow> ?thesis" unfolding list_all_iff set_upt by (rule bspec)
  show "i < 64 \<Longrightarrow> ?thesis" using * by (simp only: atLeastLessThan_iff) simp
qed

lemma bit_rev_bits:
  assumes "i < 64"
  shows "bit (rev_bits v) i \<longleftrightarrow> bit v (63 - i)"
proof -
  note f = flips [OF assms]
  have b: "bit (rev_step 1 0x5555555555555555 v) i = bit v (flip 1 i)"
    "bit (rev_step 2 0x3333333333333333 v) i = bit v (flip 2 i)"
    "bit (rev_step 4 0x0F0F0F0F0F0F0F0F v) i = bit v (flip 4 i)"
    "bit (rev_step 8 0x00FF00FF00FF00FF v) i = bit v (flip 8 i)"
    "bit (rev_step 16 0x0000FFFF0000FFFF v) i = bit v (flip 16 i)"
    "bit (rev_step 32 0x00000000FFFFFFFF v) i = bit v (flip 32 i)" if "i < 64" for i v
    unfolding flip_def by (rule bit_rev_step; use that mask_bits in \<open>simp del: One_nat_def\<close>)+
  show ?thesis
    unfolding rev_bits_steps
    using f assms by (simp only: b)
qed

lemma rev_bits_rev_bits [simp]: "rev_bits (rev_bits v) = v"
  by (rule bit_word_eqI) (simp add: bit_rev_bits)

text \<open>The order in which the cursors are visited: the value of the reversed bits.\<close>

definition scan_rank :: "u64 \<Rightarrow> nat" where
  "scan_rank v = unat (rev_bits v)"

lemma scan_rank_less: "scan_rank v < 2 ^ 64"
  using unsigned_less [of "rev_bits v"] by (simp add: scan_rank_def)

lemma scan_rank_0 [simp]: "scan_rank 0 = 0"
proof -
  have "rev_bits 0 = 0" by (rule bit_word_eqI) (simp add: bit_rev_bits)
  then show ?thesis by (simp add: scan_rank_def)
qed

lemma scan_rank_eq_0: "scan_rank v = 0 \<longleftrightarrow> v = 0"
proof
  assume "scan_rank v = 0"
  then have "rev_bits v = rev_bits 0" by (metis scan_rank_0 scan_rank_def unsigned_word_eqI)
  then show "v = 0" by (metis rev_bits_rev_bits)
qed simp

text \<open>The next multiple of \<open>a\<close>.\<close>

definition next_mult :: "nat \<Rightarrow> nat \<Rightarrow> nat" where
  "next_mult a x = (x div a + 1) * a"

lemma next_mult_gt: "0 < a \<Longrightarrow> x < next_mult a x"
  using dividend_less_div_times [of a x] by (simp add: next_mult_def algebra_simps)

lemma next_mult_le: "0 < a \<Longrightarrow> x < k * a \<Longrightarrow> next_mult a x \<le> k * a"
  unfolding next_mult_def by (intro mult_le_mono1) (metis Suc_eq_plus1 Suc_leI less_mult_imp_div_less)

lemma next_mult_dvd: "a dvd next_mult a x"
  by (simp add: next_mult_def)

lemma next_mult_block: "0 < a \<Longrightarrow> x \<le> y \<Longrightarrow> y < next_mult a x \<Longrightarrow> y div a = x div a"
  by (metis Suc_eq_plus1 div_le_mono leD le_less_Suc_eq less_mult_imp_div_less next_mult_def order_le_less)

lemma next_mult_eqI: "0 < a \<Longrightarrow> x \<le> y \<Longrightarrow> y < next_mult a x \<Longrightarrow> next_mult a y = next_mult a x"
  using next_mult_block [of a x y] by (simp add: next_mult_def)

lemma next_mult_coarse: "0 < a \<Longrightarrow> 0 < c \<Longrightarrow> next_mult a x \<le> next_mult (a * c) x"
  using next_mult_le [of a x "(x div (a * c) + 1) * c"] next_mult_gt [of "a * c" x]
  by (simp add: next_mult_def algebra_simps)

lemma rev_bits_or:
  assumes "e \<le> 64"
  shows "rev_bits (v OR NOT (mask e)) = rev_bits v OR mask (64 - e)"
  using assms by (intro bit_word_eqI) (auto simp: bit_rev_bits bit_simps)

lemma or_mask_nat: "(x :: nat) OR mask n = x div 2 ^ n * 2 ^ n + (2 ^ n - 1)"
proof -
  have "x OR mask n = push_bit n (drop_bit n x) OR mask n"
    by (rule bit_eqI) (auto simp: bit_simps)
  also have "\<dots> = push_bit n (drop_bit n x) + mask n"
    by (rule disjunctive_add [symmetric]) (auto simp: bit_simps)
  finally show ?thesis by (simp add: push_bit_eq_mult drop_bit_eq_div mask_eq_exp_minus_1)
qed

lemma unat_mask_u64: "n \<le> 64 \<Longrightarrow> unat (mask n :: u64) = mask n"
proof -
  assume n: "n \<le> 64"
  have "unat (take_bit n (- 1) :: u64) = take_bit n (mask 64)"
    by (simp only: unsigned_take_bit_eq unsigned_minus_1_eq_mask) simp
  then show ?thesis using n by (simp add: take_bit_minus_one_eq_mask take_bit_of_mask)
qed

lemma scan_rank_next:
  assumes "e \<le> 64"
  shows "scan_rank (cursor_next (mask e) v) = next_mult (2 ^ (64 - e)) (scan_rank v) mod 2 ^ 64"
proof -
  let ?x = "rev_bits v" and ?n = "64 - e"
  have "unat (?x OR mask ?n) = unat ?x OR mask ?n"
    using unat_mask_u64 [of ?n] by (simp add: unsigned_or_eq)
  then have "unat (?x OR mask ?n) = unat ?x div 2 ^ ?n * 2 ^ ?n + (2 ^ ?n - 1)" by (simp add: or_mask_nat)
  then have "unat (?x OR mask ?n) + 1 = next_mult (2 ^ ?n) (unat ?x)" by (simp add: next_mult_def)
  then have "unat ((?x OR mask ?n) + 1) = next_mult (2 ^ ?n) (unat ?x) mod 2 ^ 64"
    by (simp add: unat_word_ariths)
  then show ?thesis by (simp add: scan_rank_def cursor_next_def rev_bits_or [OF assms])
qed

lemma same_block:
  assumes "e \<le> 64"
  shows "take_bit e h = take_bit e v \<longleftrightarrow> scan_rank h div 2 ^ (64 - e) = scan_rank v div 2 ^ (64 - e)"
proof -
  have r: "scan_rank w div 2 ^ (64 - e) = unat (drop_bit (64 - e) (rev_bits w))" for w
  proof -
    have "take_bit 64 (unat (rev_bits w)) = unat (rev_bits w)"
      using scan_rank_less [of w] by (simp add: scan_rank_def take_bit_nat_eq_self)
    then show ?thesis by (simp only: scan_rank_def unsigned_drop_bit_eq) (simp add: drop_bit_eq_div)
  qed
  have "take_bit e h = take_bit e v \<longleftrightarrow> drop_bit (64 - e) (rev_bits h) = drop_bit (64 - e) (rev_bits v)"
  proof
    assume eq: "take_bit e h = take_bit e v"
    show "drop_bit (64 - e) (rev_bits h) = drop_bit (64 - e) (rev_bits v)"
    proof (rule bit_word_eqI)
      fix i assume "i < LENGTH(64)"
      have "bit h (63 - (64 - e + i)) = bit v (63 - (64 - e + i))" if "64 - e + i < 64"
        using arg_cong [OF eq, of "\<lambda>w. bit w (63 - (64 - e + i))"] that assms by (simp add: bit_take_bit_iff)
      then show "bit (drop_bit (64 - e) (rev_bits h)) i = bit (drop_bit (64 - e) (rev_bits v)) i"
        by (cases "64 - e + i < 64") (auto simp: bit_drop_bit_eq bit_rev_bits dest!: bit_imp_le_length)
    qed
  next
    assume eq: "drop_bit (64 - e) (rev_bits h) = drop_bit (64 - e) (rev_bits v)"
    show "take_bit e h = take_bit e v"
    proof (rule bit_word_eqI)
      fix j assume "j < LENGTH(64)"
      have "bit h j = bit v j" if "j < e"
      proof -
        have "bit (rev_bits h) (63 - j) = bit (rev_bits v) (63 - j)"
          using arg_cong [OF eq, of "\<lambda>w. bit w (63 - j - (64 - e))"] that assms by (simp add: bit_drop_bit_eq)
        then show ?thesis using that assms by (simp add: bit_rev_bits)
      qed
      then show "bit (take_bit e h) j = bit (take_bit e v) j" by (auto simp: bit_take_bit_iff)
    qed
  qed
  then show ?thesis unfolding r by (metis unsigned_word_eqI)
qed

lemma expansion_test:
  assumes "e0 \<le> e1" "e1 \<le> 64" "2 ^ (64 - e1) dvd scan_rank v"
  shows "v AND (mask e0 XOR mask e1) \<noteq> 0 \<longleftrightarrow> \<not> 2 ^ (64 - e0) dvd scan_rank v"
proof -
  have d: "2 ^ n dvd scan_rank v \<longleftrightarrow> (\<forall>i < n. \<not> bit (rev_bits v) i)" if "n \<le> 64" for n
  proof -
    have "2 ^ n dvd scan_rank v \<longleftrightarrow> unat (take_bit n (rev_bits v)) = 0"
      by (simp add: scan_rank_def unsigned_take_bit_eq take_bit_eq_0_iff)
    also have "\<dots> \<longleftrightarrow> take_bit n (rev_bits v) = 0" by (rule unsigned_eq_0_iff)
    also have "\<dots> \<longleftrightarrow> (\<forall>i < n. \<not> bit (rev_bits v) i)"
      using that by (auto simp: bit_eq_iff bit_take_bit_iff)
    finally show ?thesis .
  qed
  have "v AND (mask e0 XOR mask e1) \<noteq> 0 \<longleftrightarrow> (\<exists>j. e0 \<le> j \<and> j < e1 \<and> bit v j)"
  proof -
    have "bit (v AND (mask e0 XOR mask e1)) j \<longleftrightarrow> e0 \<le> j \<and> j < e1 \<and> bit v j" for j
      using assms(1) by (auto simp: bit_simps dest: bit_imp_le_length)
    note b = this
    show ?thesis
    proof
      assume "v AND (mask e0 XOR mask e1) \<noteq> 0"
      then obtain j where "bit (v AND (mask e0 XOR mask e1)) j"
        by (metis bit_0_eq bit_word_eqI bot_apply bot_bool_def)
      then show "\<exists>j. e0 \<le> j \<and> j < e1 \<and> bit v j" using b by blast
    next
      assume "\<exists>j. e0 \<le> j \<and> j < e1 \<and> bit v j"
      then obtain j where "bit (v AND (mask e0 XOR mask e1)) j" using b by blast
      then show "v AND (mask e0 XOR mask e1) \<noteq> 0" by auto
    qed
  qed
  also have "\<dots> \<longleftrightarrow> (\<exists>i. 64 - e1 \<le> i \<and> i < 64 - e0 \<and> bit (rev_bits v) i)"
  proof
    assume "\<exists>j. e0 \<le> j \<and> j < e1 \<and> bit v j"
    then obtain j where "e0 \<le> j" "j < e1" "bit v j" by blast
    then show "\<exists>i. 64 - e1 \<le> i \<and> i < 64 - e0 \<and> bit (rev_bits v) i"
      using assms(2) by (intro exI [of _ "63 - j"]) (auto simp: bit_rev_bits)
  next
    assume "\<exists>i. 64 - e1 \<le> i \<and> i < 64 - e0 \<and> bit (rev_bits v) i"
    then obtain i where "64 - e1 \<le> i" "i < 64 - e0" "bit (rev_bits v) i" by blast
    then show "\<exists>j. e0 \<le> j \<and> j < e1 \<and> bit v j"
      using assms(2) by (intro exI [of _ "63 - i"]) (auto simp: bit_rev_bits)
  qed
  also have "\<dots> \<longleftrightarrow> \<not> 2 ^ (64 - e0) dvd scan_rank v"
    using assms(3) d [of "64 - e0"] d [of "64 - e1"] by (metis diff_le_self linorder_not_less)
  finally show ?thesis .
qed

section \<open>Scanning\<close>

text \<open>The entries of a table whose hash lies in a range of ranks.\<close>

definition in_ranks :: "('k, 'v) dictType \<Rightarrow> nat \<Rightarrow> nat \<Rightarrow> 'k \<times> 'v option \<Rightarrow> bool" where
  "in_ranks t lo hi p \<longleftrightarrow> lo \<le> scan_rank (hashFunction t (fst p)) \<and> scan_rank (hashFunction t (fst p)) < hi"

lemma scan_bucket_ok:
  assumes ok: "table_ok t (get_ht d i)" and tab: "ht_table (get_ht d i) = Some tab"
  shows "\<exists>es. scan_bucket d i v = Some es \<and> set es \<subseteq> set (ht_list (get_ht d i)) \<and>
     (\<forall>p \<in> set (ht_list (get_ht d i)).
        in_ranks t (scan_rank v) (next_mult (2 ^ (64 - nat (ht_size_exp (get_ht d i)))) (scan_rank v)) p \<longrightarrow> p \<in> set es)"
proof -
  define e where "e = nat (ht_size_exp (get_ht d i))"
  note tt = table_ok_Some [OF ok tab]
  have e: "e \<le> 64" "ht_size_exp (get_ht d i) = int e" using tt(1,2) by (simp_all add: e_def)
  define idx where "idx = bucket_index v (ht_size_exp (get_ht d i))"
  have idx: "idx < length tab" using tt(1,3) bucket_index_less by (simp add: idx_def)
  have "scan_bucket d i v = Some (chain_list (tab ! idx))"
    using tab idx by (simp add: scan_bucket_def idx_def bucket_index_def)
  moreover have "set (chain_list (tab ! idx)) \<subseteq> set (ht_list (get_ht d i))"
    using chain_in_table [OF idx] tab by (simp add: ht_list_def)
  moreover have "p \<in> set (chain_list (tab ! idx))"
    if p: "p \<in> set (ht_list (get_ht d i))" and r: "in_ranks t (scan_rank v) (next_mult (2 ^ (64 - e)) (scan_rank v)) p" for p
  proof -
    obtain c where "c \<in> set tab" "p \<in> set (chain_list c)"
      using p tab by (auto simp: ht_list_def table_list_def)
    then obtain j where j: "j < length tab" "p \<in> set (chain_list (tab ! j))"
      by (auto simp: in_set_conv_nth [of c])
    let ?h = "hashFunction t (fst p)"
    have "scan_rank ?h div 2 ^ (64 - e) = scan_rank v div 2 ^ (64 - e)"
      using r by (intro next_mult_block) (auto simp: in_ranks_def)
    then have "take_bit e ?h = take_bit e v" using same_block [OF e(1)] by simp
    then have "bucket_index ?h (int e) = idx"
      by (simp add: idx_def e(2) bucket_index_def mask_word take_bit_eq_mask)
    moreover have "bucket_index ?h (int e) = j"
      using tt(6) [OF j(1)] j(2) by (auto simp: in_bucket_def e(2))
    ultimately show ?thesis using j(2) by simp
  qed
  ultimately show ?thesis by (auto simp flip: e_def)
qed

lemma pow_dvd_64: "n \<le> 64 \<Longrightarrow> (2::nat) ^ n dvd 2 ^ 64"
  by (rule le_imp_power_dvd)

lemma next_mult_64: "n \<le> 64 \<Longrightarrow> x < 2 ^ 64 \<Longrightarrow> next_mult (2 ^ n) x \<le> 2 ^ 64"
  using next_mult_le [of "2 ^ n" x "2 ^ (64 - n)"] by (simp flip: power_add)

lemma scan_expansions_ok:
  assumes ok: "table_ok t (get_ht d i)" and tab: "ht_table (get_ht d i) = Some tab"
    and e1: "ht_size_exp (get_ht d i) = int e1" and e0: "e0 < e1"
  shows "\<exists>v' es. scan_expansions d i (mask e0) (mask e1) v acc = Some (v', acc @ es) \<and>
     scan_rank v' = next_mult (2 ^ (64 - e0)) (scan_rank v) mod 2 ^ 64 \<and>
     set es \<subseteq> set (ht_list (get_ht d i)) \<and>
     (\<forall>p \<in> set (ht_list (get_ht d i)).
        in_ranks t (scan_rank v) (next_mult (2 ^ (64 - e0)) (scan_rank v)) p \<longrightarrow> p \<in> set es)"
proof (induction "next_mult (2 ^ (64 - e0)) (scan_rank v) - scan_rank v" arbitrary: v acc rule: less_induct)
  case less
  define a b where "a = (2::nat) ^ (64 - e1)" and "b = (2::nat) ^ (64 - e0)"
  have le: "e1 \<le> 60" using table_ok_Some(2) [OF ok tab] e1 by simp
  have ab: "b = a * 2 ^ (e1 - e0)" "0 < a" "0 < b"
    using e0 le by (simp_all add: a_def b_def flip: power_add)
  define x X where "x = scan_rank v" and "X = next_mult a x"
  have x: "x < 2 ^ 64" unfolding x_def by (rule scan_rank_less)
  have X: "x < X" "X \<le> next_mult b x" "next_mult b x \<le> 2 ^ 64"
    unfolding X_def using next_mult_gt ab next_mult_coarse [of a "2 ^ (e1 - e0)" x] next_mult_64 [OF _ x, of "64 - e0"]
    by (simp_all add: b_def)
  define w where "w = cursor_next (mask e1) v"
  have rw: "scan_rank w = X mod 2 ^ 64"
    unfolding w_def X_def x_def a_def by (rule scan_rank_next) (use le in simp)
  obtain es where es: "scan_bucket d i v = Some es" "set es \<subseteq> set (ht_list (get_ht d i))"
    "\<forall>p \<in> set (ht_list (get_ht d i)). in_ranks t x X p \<longrightarrow> p \<in> set es"
    using scan_bucket_ok [OF ok tab, of v] unfolding e1 x_def X_def a_def by auto
  have "a dvd X mod 2 ^ 64"
    using pow_dvd_64 [of "64 - e1"] next_mult_dvd [of a x] by (simp add: a_def X_def dvd_mod_iff)
  then have test: "w AND (mask e0 XOR mask e1) \<noteq> 0 \<longleftrightarrow> \<not> b dvd X mod 2 ^ 64"
    using expansion_test [of e0 e1 w] e0 le rw by (simp add: a_def b_def)
  have bX: "b dvd X mod 2 ^ 64 \<longleftrightarrow> b dvd X"
    using pow_dvd_64 [of "64 - e0"] by (simp add: b_def dvd_mod_iff)
  show ?case
  proof (cases "b dvd X")
    case True
    have "X = next_mult b x"
    proof (rule antisym [OF X(2)])
      obtain k where "X = k * b" using True by (metis dvd_def mult.commute)
      then show "next_mult b x \<le> X" using next_mult_le [OF ab(3), of x k] X(1) by simp
    qed
    moreover have "scan_expansions d i (mask e0) (mask e1) v acc = Some (w, acc @ es)"
      using es(1) test bX True by (subst scan_expansions.simps) (simp add: Let_def flip: w_def)
    ultimately show ?thesis using es rw unfolding x_def b_def by auto
  next
    case False
    have lt: "X < next_mult b x" using X(2) False next_mult_dvd [of b x] by (metis le_neq_implies_less)
    then have rw': "scan_rank w = X" using rw X(3) by simp
    have nb: "next_mult b X = next_mult b x"
      using next_mult_eqI [OF ab(3), of x X] X(1) lt by simp
    have step: "scan_expansions d i (mask e0) (mask e1) v acc = scan_expansions d i (mask e0) (mask e1) w (acc @ es)"
      using es(1) test bX False by (subst scan_expansions.simps) (simp add: Let_def flip: w_def)
    have "next_mult (2 ^ (64 - e0)) (scan_rank w) - scan_rank w < next_mult (2 ^ (64 - e0)) (scan_rank v) - scan_rank v"
      using X(1) lt nb by (simp add: rw' flip: b_def x_def)
    from less.hyps [OF this, of "acc @ es"] obtain v' es' where
      r: "scan_expansions d i (mask e0) (mask e1) w (acc @ es) = Some (v', (acc @ es) @ es')"
        "scan_rank v' = next_mult b x mod 2 ^ 64" "set es' \<subseteq> set (ht_list (get_ht d i))"
        "\<forall>p \<in> set (ht_list (get_ht d i)). in_ranks t X (next_mult b x) p \<longrightarrow> p \<in> set es'"
      unfolding rw' b_def [symmetric] nb by blast
    have "p \<in> set (es @ es')" if "p \<in> set (ht_list (get_ht d i))" "in_ranks t x (next_mult b x) p" for p
      using that es(3) r(4) by (cases "scan_rank (hashFunction t (fst p)) < X") (auto simp: in_ranks_def)
    then show ?thesis
      using step r es(2) unfolding x_def b_def
      by (intro exI [of _ v'] exI [of _ "es @ es'"]) auto
  qed
qed

text \<open>The exponent that governs the cursor: that of the smaller table.\<close>

definition scan_exp :: "('k, 'v) dict \<Rightarrow> nat" where
  "scan_exp d = (if dictIsRehashing d then min (nat (ht_size_exp (ht0 d))) (nat (ht_size_exp (ht1 d)))
                 else nat (ht_size_exp (ht0 d)))"

lemma pause_simps [simp]:
  "get_ht (dictPauseRehashing d) i = get_ht d i" "dictIsRehashing (dictPauseRehashing d) = dictIsRehashing d"
  "ht0 (dictPauseRehashing d) = ht0 d" "ht1 (dictPauseRehashing d) = ht1 d"
  by (simp_all add: dictPauseRehashing_def get_ht_def dictIsRehashing_def)

lemma dictScan_ok:
  assumes ok: "dict_ok t key_id d"
  shows "\<exists>v' es hi. dictScan d v = Some (v', es) \<and> set es \<subseteq> set (dict_entries d) \<and>
     hi \<le> 2 ^ 64 \<and> scan_rank v' = hi mod 2 ^ 64 \<and>
     next_mult (2 ^ (64 - scan_exp d)) (scan_rank v) \<le> hi \<and>
     (\<forall>p \<in> set (dict_entries d). in_ranks t (scan_rank v) hi p \<longrightarrow> p \<in> set es)"
proof (cases "dictSize d = 0")
  case True
  then have "dict_entries d = []" using dict_ok_size [OF ok] by simp
  moreover have "dictScan d v = Some (0, [])" using True by (simp add: dictScan_def)
  ultimately show ?thesis
    using next_mult_64 [of "64 - scan_exp d" "scan_rank v"] scan_rank_less
    by (intro exI [of _ 0] exI [of _ "[]"] exI [of _ "2 ^ 64"]) simp
next
  case False
  let ?d = "dictPauseRehashing d"
  have t: "table_ok t (get_ht ?d 0)" "table_ok t (get_ht ?d 1)" using ok by (simp_all add: get_ht_def dict_ok_def)
  have "dict_entries d \<noteq> []" using False dict_ok_size [OF ok] by auto
  then obtain tab0 where tab0: "ht_table (get_ht ?d 0) = Some tab0"
    using dict_ok_table0 [OF ok] by (auto simp: get_ht_def)
  note t0 = table_ok_Some [OF t(1) tab0]
  show ?thesis
  proof (cases "dictIsRehashing d")
    case no: False
    have m0: "DICTHT_SIZE_MASK (ht_size_exp (ht0 ?d)) = mask (nat (ht_size_exp (ht0 d)))"
      using t0(1) by (simp add: mask_word get_ht_def)
    have "ht_list (ht1 d) = []" using no ok by (simp add: dict_ok_def rehash_ok_def dictIsRehashing_def ht_list_def)
    then have ents: "dict_entries d = ht_list (get_ht ?d 0)" by (simp add: dict_entries_def get_ht_def)
    obtain es where es: "scan_bucket ?d 0 v = Some es" "set es \<subseteq> set (ht_list (get_ht ?d 0))"
     "\<forall>p \<in> set (ht_list (get_ht ?d 0)).
        in_ranks t (scan_rank v) (next_mult (2 ^ (64 - nat (ht_size_exp (get_ht ?d 0)))) (scan_rank v)) p \<longrightarrow> p \<in> set es"
      using scan_bucket_ok [OF t(1) tab0] by blast
    let ?hi = "next_mult (2 ^ (64 - scan_exp d)) (scan_rank v)"
    have "dictScan d v = Some (cursor_next (mask (scan_exp d)) v, es)"
      using False no es(1) m0 by (simp add: dictScan_def Let_def scan_exp_def)
    moreover have "scan_rank (cursor_next (mask (scan_exp d)) v) = ?hi mod 2 ^ 64"
      by (rule scan_rank_next) (use no t0(2) in \<open>simp add: scan_exp_def get_ht_def\<close>)
    moreover have "?hi \<le> 2 ^ 64" using scan_rank_less by (intro next_mult_64) simp_all
    ultimately show ?thesis using es(2,3) no ents
      by (intro exI [of _ "cursor_next (mask (scan_exp d)) v"] exI [of _ es] exI [of _ ?hi])
        (simp add: scan_exp_def get_ht_def)
  next
    case yes: True
    then obtain tab1 where tab1: "ht_table (get_ht ?d 1) = Some tab1"
      using ok by (auto simp: dict_ok_def rehash_ok_def dictIsRehashing_def get_ht_def)
    note t1 = table_ok_Some [OF t(2) tab1]
    have ne: "ht_size_exp (get_ht ?d 0) \<noteq> ht_size_exp (get_ht ?d 1)"
      using ok yes by (simp add: dict_ok_def rehash_ok_def dictIsRehashing_def get_ht_def)
    define swap where "swap = (DICTHT_SIZE (ht_size_exp (ht0 d)) > DICTHT_SIZE (ht_size_exp (ht1 d)))"
    have swap: "swap \<longleftrightarrow> ht_size_exp (get_ht ?d 1) < ht_size_exp (get_ht ?d 0)"
      using t0(1) t1(1) by (auto simp: swap_def get_ht_def nat_less_eq_zless)
    define lo hi where "lo = (if swap then 1 else 0 :: nat)" and "hi = (if swap then 0 else 1 :: nat)"
    have lt: "ht_size_exp (get_ht ?d lo) < ht_size_exp (get_ht ?d hi)" using swap ne by (auto simp: lo_def hi_def)
    obtain tl th where tl: "ht_table (get_ht ?d lo) = Some tl" "table_ok t (get_ht ?d lo)"
      and th: "ht_table (get_ht ?d hi) = Some th" "table_ok t (get_ht ?d hi)"
      using tab0 tab1 t by (cases swap) (auto simp: lo_def hi_def)
    define e0 e1 where "e0 = nat (ht_size_exp (get_ht ?d lo))" and "e1 = nat (ht_size_exp (get_ht ?d hi))"
    have e: "ht_size_exp (get_ht ?d lo) = int e0" "ht_size_exp (get_ht ?d hi) = int e1" "e0 < e1" "e1 \<le> 60"
      using table_ok_Some(1,2) [OF tl(2,1)] table_ok_Some(1,2) [OF th(2,1)] lt by (auto simp: e0_def e1_def)
    have se: "scan_exp d = e0" using yes swap by (auto simp: scan_exp_def e0_def lo_def get_ht_def)
    obtain es where es: "scan_bucket ?d lo v = Some es" "set es \<subseteq> set (ht_list (get_ht ?d lo))"
     "\<forall>p \<in> set (ht_list (get_ht ?d lo)).
        in_ranks t (scan_rank v) (next_mult (2 ^ (64 - e0)) (scan_rank v)) p \<longrightarrow> p \<in> set es"
      using scan_bucket_ok [OF tl(2,1), of v] unfolding e0_def by blast
    obtain v' es' where ex: "scan_expansions ?d hi (mask e0) (mask e1) v es = Some (v', es @ es')"
      "scan_rank v' = next_mult (2 ^ (64 - e0)) (scan_rank v) mod 2 ^ 64"
      "set es' \<subseteq> set (ht_list (get_ht ?d hi))"
      "\<forall>p \<in> set (ht_list (get_ht ?d hi)).
        in_ranks t (scan_rank v) (next_mult (2 ^ (64 - e0)) (scan_rank v)) p \<longrightarrow> p \<in> set es'"
      using scan_expansions_ok [OF th(2,1) e(2,3)] by blast
    have "dictScan d v = Some (v', es @ es')"
      using False yes es(1) ex(1) e
      by (simp add: dictScan_def Let_def mask_word flip: swap_def lo_def hi_def)
    moreover have "set (dict_entries d) = set (ht_list (get_ht ?d lo)) \<union> set (ht_list (get_ht ?d hi))"
      by (auto simp: dict_entries_def get_ht_def lo_def hi_def)
    moreover have "next_mult (2 ^ (64 - e0)) (scan_rank v) \<le> 2 ^ 64"
      using scan_rank_less by (intro next_mult_64) simp_all
    ultimately show ?thesis using es(2,3) ex(2-4) unfolding se
      by (intro exI [of _ v'] exI [of _ "es @ es'"] exI [of _ "next_mult (2 ^ (64 - e0)) (scan_rank v)"]) auto
  qed
qed

text \<open>A full iteration: the dict may be in a different state, listed in \<open>ds\<close>, at every call; it ends
  when the cursor is 0 again.\<close>

fun scan_run :: "('k, 'v) dict list \<Rightarrow> u64 \<Rightarrow> (u64 \<times> ('k \<times> 'v option) list) option" where
  "scan_run [] v = Some (v, [])"
| "scan_run (d # ds) v =
     do {
       (v', es) \<leftarrow> dictScan d v;
       if v' = 0 then Some (0, es)
       else do { (v'', es') \<leftarrow> scan_run ds v'; Some (v'', es @ es') }
     }"

lemma scan_run_progress:
  assumes "\<forall>d \<in> set ds. dict_ok t key_id d \<and> scan_exp d \<le> E" "E \<le> 64"
  shows "\<exists>v' es. scan_run ds v = Some (v', es) \<and>
     (v' = 0 \<or> (scan_rank v div 2 ^ (64 - E) + length ds) * 2 ^ (64 - E) \<le> scan_rank v') \<and>
     set es \<subseteq> (\<Union>d \<in> set ds. set (dict_entries d))"
  using assms(1)
proof (induction ds arbitrary: v)
  case (Cons d ds)
  define a where "a = (2::nat) ^ (64 - E)"
  obtain v1 es hi where s: "dictScan d v = Some (v1, es)" "set es \<subseteq> set (dict_entries d)" "hi \<le> 2 ^ 64"
    "scan_rank v1 = hi mod 2 ^ 64" "next_mult (2 ^ (64 - scan_exp d)) (scan_rank v) \<le> hi"
    using dictScan_ok [of t key_id d v] Cons.prems by auto
  show ?case
  proof (cases "v1 = 0")
    case True
    then show ?thesis using s(1,2) by auto
  next
    case False
    then have "scan_rank v1 \<noteq> 0" by (simp add: scan_rank_eq_0)
    then have "hi < 2 ^ 64" using s(3,4) by (cases "hi = 2 ^ 64") auto
    then have r1: "scan_rank v1 = hi" using s(4) by simp
    have "a * 2 ^ (E - scan_exp d) = 2 ^ (64 - scan_exp d)"
      using Cons.prems assms(2) by (simp add: a_def flip: power_add)
    then have "next_mult a (scan_rank v) \<le> hi"
      using next_mult_coarse [of a "2 ^ (E - scan_exp d)" "scan_rank v"] s(5) by (simp add: a_def)
    then have "scan_rank v div a + 1 \<le> scan_rank v1 div a"
      by (simp add: r1 next_mult_def a_def less_eq_div_iff_mult_less_eq)
    then have le: "(scan_rank v div a + length (d # ds)) * a \<le> (scan_rank v1 div a + length ds) * a"
      by (intro mult_le_mono1) simp
    obtain v2 es' where r: "scan_run ds v1 = Some (v2, es')"
      "v2 = 0 \<or> (scan_rank v1 div a + length ds) * a \<le> scan_rank v2"
      "set es' \<subseteq> (\<Union>d \<in> set ds. set (dict_entries d))"
      using Cons.IH [of v1] Cons.prems by (auto simp: a_def)
    have "v2 = 0 \<or> (scan_rank v div a + length (d # ds)) * a \<le> scan_rank v2"
      using r(2) le by linarith
    then show ?thesis using s(1,2) r(1,3) False unfolding a_def
      by (intro exI [of _ v2] exI [of _ "es @ es'"]) auto
  qed
qed simp

lemma scan_run_ends:
  assumes "\<forall>d \<in> set ds. dict_ok t key_id d \<and> scan_exp d \<le> E" "E \<le> 64" "2 ^ E \<le> length ds"
  shows "\<exists>es. scan_run ds 0 = Some (0, es) \<and> set es \<subseteq> (\<Union>d \<in> set ds. set (dict_entries d))"
proof -
  obtain v' es where r: "scan_run ds 0 = Some (v', es)"
    "v' = 0 \<or> (scan_rank 0 div 2 ^ (64 - E) + length ds) * 2 ^ (64 - E) \<le> scan_rank v'"
    "set es \<subseteq> (\<Union>d \<in> set ds. set (dict_entries d))"
    using scan_run_progress [OF assms(1,2), of 0] by auto
  have "(2::nat) ^ 64 = 2 ^ E * 2 ^ (64 - E)" using assms(2) by (simp flip: power_add)
  also have "\<dots> \<le> length ds * 2 ^ (64 - E)" using assms(3) by (intro mult_le_mono1)
  finally have "\<not> length ds * 2 ^ (64 - E) \<le> scan_rank v'" using scan_rank_less [of v'] by linarith
  then show ?thesis using r by auto
qed

context dict_contract
begin

lemma scan_run_visits:
  assumes "\<forall>d \<in> set ds. dict_ok t key_id d \<and> dict_map key_id d (key_id k) \<noteq> None" "ds \<noteq> []"
    "scan_run ds v = Some (0, es)" "scan_rank v \<le> scan_rank (hashFunction t k)"
  shows "\<exists>p \<in> set es. key_id (fst p) = key_id k"
  using assms
proof (induction ds arbitrary: v es)
  case (Cons d ds)
  obtain v1 es1 hi where s: "dictScan d v = Some (v1, es1)" "hi \<le> 2 ^ 64"
    "scan_rank v1 = hi mod 2 ^ 64" "\<forall>p \<in> set (dict_entries d). in_ranks t (scan_rank v) hi p \<longrightarrow> p \<in> set es1"
    "next_mult (2 ^ (64 - scan_exp d)) (scan_rank v) \<le> hi"
    using dictScan_ok [of t key_id d v] Cons.prems(1) by auto
  obtain p where p: "p \<in> set (dict_entries d)" "key_id (fst p) = key_id k"
    using Cons.prems(1) by (auto simp: dict_map_None)
  show ?case
  proof (cases "scan_rank (hashFunction t k) < hi")
    case True
    then have "p \<in> set es1" using s(4) p Cons.prems(4) hash_id [OF p(2)] by (simp add: in_ranks_def)
    moreover have "set es1 \<subseteq> set es" using Cons.prems(3) s(1) by (auto split: if_splits bind_splits)
    ultimately show ?thesis using p(2) by auto
  next
    case False
    then have "hi < 2 ^ 64" using scan_rank_less [of "hashFunction t k"] by linarith
    then have r1: "scan_rank v1 = hi" using s(3) by simp
    have "0 < hi" using s(5) next_mult_gt [of "2 ^ (64 - scan_exp d)" "scan_rank v"] by simp
    then have v1: "v1 \<noteq> 0" using r1 by auto
    then obtain es2 where es2: "scan_run ds v1 = Some (0, es2)" "es = es1 @ es2"
      using Cons.prems(3) s(1) by (auto split: bind_splits)
    then have "ds \<noteq> []" using v1 by auto
    from Cons.IH [OF _ this es2(1)] Cons.prems(1) False r1 es2(2) show ?thesis by auto
  qed
qed simp

end

end
