(* ===== verification/Dict_Traversal.thy ===== *)
theory Dict_Traversal
  imports Dict_Scan
begin

text \<open>
  The operations that walk over a whole dict or hold on to a place in it: emptying, the end of an
  incremental rehash, two-phase unlinking and iteration.
\<close>

section \<open>Emptying a dict\<close>

lemma clear_chain_ok:
  "chain_ok t he \<Longrightarrow> length (chain_list he) \<le> used \<Longrightarrow>
     clear_chain he used = Some (chain_list he, used - length (chain_list he))"
proof (induction "length (chain_list he)" arbitrary: he used)
  case 0
  then show ?case by (subst clear_chain.simps) simp
next
  case (Suc n)
  then have nn: "he \<noteq> NULL" by auto
  then obtain k v where he: "chain_list he = (k, v) # chain_list (dictGetNext he)" "dictGetKey he = Some k"
    by (rule chain_cons)
  have v: "dictGetVal he = v" using he(1) Suc.prems(1) by (cases he) auto
  have "clear_chain (dictGetNext he) (used - 1) =
          Some (chain_list (dictGetNext he), used - 1 - length (chain_list (dictGetNext he)))"
    by (rule Suc.hyps(1)) (use Suc.hyps(2) Suc.prems he(1) chain_ok_next in auto)
  then show ?case using nn he v Suc.prems(2) by (subst clear_chain.simps) simp
qed

lemma clear_loop_ok:
  assumes "\<forall>j < length tab. chain_ok t (tab ! j)" "i + n = length tab" "used = length (table_list (drop i tab))"
  shows "\<exists>u. clear_loop tab i n used = Some (table_list (drop i tab), u)"
  using assms(2,3)
proof (induction n arbitrary: i used)
  case (Suc n)
  then have d: "drop i tab = tab ! i # drop (Suc i) tab" by (simp add: Cons_nth_drop_Suc)
  show ?case
  proof (cases "used > 0")
    case True
    let ?u = "used - length (chain_list (tab ! i))"
    have cl: "clear_chain (tab ! i) used = Some (chain_list (tab ! i), ?u)"
      using assms(1) Suc.prems d by (intro clear_chain_ok [where t = t]) (auto simp: table_list_def)
    have "?u = length (table_list (drop (Suc i) tab))" using Suc.prems(2) d by (simp add: table_list_def)
    with Suc.IH [of "Suc i" ?u] Suc.prems(1) obtain u where
      "clear_loop tab (Suc i) n ?u = Some (table_list (drop (Suc i) tab), u)" by auto
    then show ?thesis using True cl Suc.prems(1) d by (simp add: table_list_def)
  next
    case False
    then show ?thesis using Suc.prems(2) by simp
  qed
qed (simp add: table_list_def)

lemma dictClear_ok:
  assumes "table_ok t (get_ht d i)"
  shows "u_dictClear d i = Some (u_dictReset d i, ht_list (get_ht d i))"
proof (cases "ht_table (get_ht d i)")
  case None
  then show ?thesis using assms by (simp add: u_dictClear_def Let_def table_ok_def DICTHT_SIZE_def ht_list_def)
next
  case (Some tab)
  note s = table_ok_Some [OF assms Some]
  have "\<exists>u. clear_loop tab 0 (length tab) (ht_used (get_ht d i)) = Some (table_list (drop 0 tab), u)"
    by (rule clear_loop_ok [of tab t]) (use s in auto)
  then show ?thesis using Some s(1,3) by (auto simp: u_dictClear_def Let_def ht_list_def)
qed

lemma dictEmpty_ok:
  assumes "dict_ok t key_id d"
  shows "dictEmpty d = Some (dictCreate, dict_entries d)"
proof -
  have t: "table_ok t (get_ht d 0)" "table_ok t (get_ht (u_dictReset d 0) 1)"
    using assms by (simp_all add: dict_ok_def get_ht_def u_dictReset_def set_ht_def)
  show ?thesis
    using dictClear_ok [OF t(1)] dictClear_ok [OF t(2)]
    by (cases d) (simp add: dictEmpty_def dict_entries_def dictCreate_def u_dictInit_def u_dictReset_def set_ht_def get_ht_def empty_ht_def)
qed

lemma dictRelease_ok:
  assumes "dict_ok t key_id d"
  shows "dictRelease d = Some (dict_entries d)"
proof -
  have t: "table_ok t (get_ht d 0)" "table_ok t (get_ht (u_dictReset d 0) 1)"
    using assms by (simp_all add: dict_ok_def get_ht_def u_dictReset_def set_ht_def)
  show ?thesis
    using dictClear_ok [OF t(1)] dictClear_ok [OF t(2)]
    by (simp add: dictRelease_def dict_entries_def u_dictReset_def set_ht_def get_ht_def)
qed

lemma dictCreate_ok: "dict_ok t key_id dictCreate" "dict_map key_id dictCreate = Map.empty"
  "dict_entries dictCreate = []" "pauserehash dictCreate = 0"
  by (simp_all add: dictCreate_def u_dictInit_def u_dictReset_def set_ht_def empty_ht_def dict_ok_def
      table_ok_def rehash_ok_def dict_entries_def ht_list_def dict_map_def)

section \<open>A rehash ends\<close>

fun rehash_calls ::
  "('k, 'v) dictType \<Rightarrow> nat \<Rightarrow> ('k, 'v) dict \<Rightarrow> ('k, 'v) dict option" where
  "rehash_calls t 0 d = Some d"
| "rehash_calls t (Suc n) d = do { (d', r) \<leftarrow> dictRehash DICT_RESIZE_ENABLE t d 1; rehash_calls t n d' }"

context dict_contract
begin

lemma rehash_calls_end:
  assumes "dict_ok t key_id d" "dictIsRehashing d \<longrightarrow> DICTHT_SIZE (ht_size_exp (ht0 d)) < n + nat (rehashidx d)"
  shows "\<exists>d'. rehash_calls t n d = Some d' \<and> dict_ok t key_id d' \<and> \<not> dictIsRehashing d' \<and>
           dict_bag d' = dict_bag d"
  using assms
proof (induction n arbitrary: d)
  case 0
  have "\<not> dictIsRehashing d"
  proof
    assume r: "dictIsRehashing d"
    then obtain tab where tab: "ht_table (ht0 d) = Some tab" "nat (rehashidx d) \<le> length tab"
      using "0.prems"(1) by (auto simp: dict_ok_def rehash_ok_def dictIsRehashing_def split: option.splits)
    have "length tab = DICTHT_SIZE (ht_size_exp (ht0 d))"
      using table_ok_Some [OF _ tab(1)] "0.prems"(1) by (auto simp: dict_ok_def)
    then show False using tab(2) "0.prems"(2) r by simp
  qed
  then show ?case using "0.prems"(1) by simp
next
  case (Suc n)
  obtain d1 r where d1: "dictRehash DICT_RESIZE_ENABLE t d 1 = Some (d1, r)" "dict_ok t key_id d1"
    "dict_bag d1 = dict_bag d"
    "dictIsRehashing d1 \<longrightarrow> rehashidx d < rehashidx d1 \<and> ht_size_exp (ht0 d1) = ht_size_exp (ht0 d)"
    using dictRehash_ok [OF Suc.prems(1), of DICT_RESIZE_ENABLE 1] by auto
  have pres: "dictIsRehashing d" if "dictIsRehashing d1"
    using d1(1) that by (cases "dictIsRehashing d") (simp_all add: dictRehash_def Let_def)
  have "dictIsRehashing d1 \<longrightarrow> DICTHT_SIZE (ht_size_exp (ht0 d1)) < n + nat (rehashidx d1)"
  proof
    assume r: "dictIsRehashing d1"
    then have "0 \<le> rehashidx d"
      using pres Suc.prems(1) by (auto simp: dict_ok_def rehash_ok_def dictIsRehashing_def)
    then show "DICTHT_SIZE (ht_size_exp (ht0 d1)) < n + nat (rehashidx d1)"
      using Suc.prems(2) pres [OF r] d1(4) r by auto
  qed
  from Suc.IH [OF d1(2) this] d1 show ?case by auto
qed

section \<open>Two-phase unlinking\<close>

lemma two_phase_ok:
  assumes ok: "dict_ok t key_id d"
  shows "\<exists>d1 r d2. dictTwoPhaseUnlinkFind can t d key = Some (d1, r) \<and>
     dictTwoPhaseUnlinkFree d1 r = Some d2 \<and> dict_ok t key_id d2 \<and>
     pauserehash d2 = pauserehash d \<and> (r = None \<longleftrightarrow> dict_map key_id d (key_id key) = None) \<and>
     dict_map key_id d2 = (dict_map key_id d)(key_id key := None) \<and>
     length (dict_entries d2) \<le> length (dict_entries d)"
proof (cases "dictSize d = 0")
  case True
  then have "dict_map key_id d (key_id key) = None" using dict_ok_size [OF ok] by (simp add: dict_map_None)
  then show ?thesis using ok True
    by (simp add: dictTwoPhaseUnlinkFind_def dictTwoPhaseUnlinkFree_def fun_upd_idem)
next
  case False
  obtain d' where d': "(if dictIsRehashing d then u_dictRehashStep can t d else Some d) = Some d'"
    "dict_ok t key_id d'" "dict_bag d' = dict_bag d" "pauserehash d' = pauserehash d"
    using rehash_step_ok [OF ok] by blast
  have m: "dict_map key_id d' = dict_map key_id d" by (rule dict_map_bag [OF ok d'(2,3)])
  have "dict_entries d' \<noteq> []" using False dict_ok_size [OF ok] bag_length [OF d'(3)] by auto
  then have "ht_table (ht0 d') \<noteq> None" by (rule dict_ok_table0 [OF d'(2)])
  from find_in_tables_ok [OF d'(2) this, of key] obtain r where
    r: "find_in_tables t d' key (hashFunction t key) = Some r"
     "case r of
        None \<Rightarrow> dict_map key_id d (key_id key) = None
      | Some ref \<Rightarrow> \<exists>k v. ref_points d' ref (k, v) \<and> key_id k = key_id key \<and>
                     dict_map key_id d (key_id key) = Some v" unfolding m by blast
  show ?thesis
  proof (cases r)
    case None
    then have f: "dictTwoPhaseUnlinkFind can t d key = Some (d', None)"
      using False d'(1) r(1) by (simp add: dictTwoPhaseUnlinkFind_def)
    moreover have "dict_map key_id d (key_id key) = None" using r(2) None by simp
    ultimately show ?thesis using d'(2,4) m bag_length [OF d'(3)]
      by (intro exI [of _ d'] exI [of _ None] exI [of _ d']) (simp add: dictTwoPhaseUnlinkFree_def fun_upd_idem)
  next
    case (Some ref)
    then obtain k v where kv: "ref_points d' ref (k, v)" "key_id k = key_id key" "dict_map key_id d (key_id key) = Some v"
      using r(2) by auto
    obtain i idx pos tab where p: "ref = (i, idx, pos)" "i \<le> 1" "ht_table (get_ht d' i) = Some tab"
      "idx < length tab" "pos < length (chain_list (tab ! idx))" "chain_list (tab ! idx) ! pos = (k, v)"
      using kv(1) by (rule ref_pointsE)
    define h where "h = get_ht d' i"
    define dp where "dp = dictPauseRehashing d'"
    have hp: "get_ht dp i = h" by (simp add: dp_def h_def)
    have t: "table_ok t h" using d'(2) by (simp add: dict_ok_def h_def get_ht_def)
    note tt = table_ok_Some [OF t p(3) [folded h_def]]
    let ?l = "chain_list (tab ! idx)"
    have used: "0 < ht_used h" using tt(4) length_chain_le [OF p(4)] p(5) by linarith
    let ?c = "(dictGetNext ^^ pos) (tab ! idx)"
    have "chain_ok t (tab ! idx)" using tt(5) [OF p(4)] .
    then have "chain_ok t ?c" by (induction pos) (auto intro: chain_ok_next)
    then have cn: "chain_ok t (dictGetNext ?c)" by (rule chain_ok_next)
    have nl: "chain_list (dictGetNext ?c) = drop (Suc pos) ?l"
      using funpow_next_list [of "Suc pos" "tab ! idx"] by simp
    from chain_update_ok [where f = "\<lambda>de. Some (dictGetNext de)", OF tt(5) [OF p(4)] p(5) refl cn] obtain c where
      c: "chain_update (\<lambda>de. Some (dictGetNext de)) pos (tab ! idx) = Some c" "chain_ok t c"
        "chain_list c = take pos ?l @ drop (Suc pos) ?l" using nl by auto
    have ml: "mset ?l = add_mset (k, v) (mset (chain_list c))"
      using mset_take_nth_drop [OF p(5)] p(6) c(3) by simp
    have len: "length ?l = Suc (length (chain_list c))" using arg_cong [OF ml, of size] by simp
    define h' where "h' = h\<lparr>ht_table := Some (tab[idx := c]), ht_used := ht_used h - 1\<rparr>"
    define d2 where "d2 = set_ht d' i h'"
    have up: "update_entry (\<lambda>de. Some (dictGetNext de)) (set_ht dp i (h\<lparr>ht_used := ht_used h - 1\<rparr>)) ref =
                Some (set_ht dp i h')"
      using p c(1) hp unfolding h_def [symmetric]
      by (simp add: update_entry_def Let_def h'_def) (simp add: set_ht_def)
    have free: "dictTwoPhaseUnlinkFree dp (Some ref) = Some d2"
      using up used hp p(1)
      by (simp add: dictTwoPhaseUnlinkFree_def Let_def)
        (simp add: d2_def set_ht_def dictResumeRehashing_def dp_def dictPauseRehashing_def)
    have find: "dictTwoPhaseUnlinkFind can t d key = Some (dp, Some ref)"
      using False d'(1) r(1) Some by (simp add: dictTwoPhaseUnlinkFind_def dp_def)
    have bag: "dict_bag d' = add_mset (k, v) (dict_bag d2)"
      using dict_update_bag [of d' i tab idx "ht_used h - 1" c] p(3,4) ml by (simp add: d2_def h'_def flip: h_def)
    have "distinct (map (key_id \<circ> fst) ((k, v) # dict_entries d2))"
      using d'(2) distinct_map_mset [of "dict_entries d'" "(k, v) # dict_entries d2" "key_id \<circ> fst"] bag
      by (simp add: dict_ok_def)
    then have dist: "distinct (map (key_id \<circ> fst) (dict_entries d2))" by simp
    have "set (chain_list c) \<subseteq> set ?l" using arg_cong [OF ml, of set_mset] by auto
    then have inb: "in_bucket t (ht_size_exp h) idx c" using tt(6) [OF p(4)] by (auto simp: in_bucket_def)
    have "tab ! idx \<noteq> NULL" using len by auto
    then have ok2: "dict_ok t key_id d2"
      by (intro dict_update_ok [where i = i and tab = tab and idx = idx and c = c and u = "ht_used h - 1", OF d'(2)])
        (use p c(2) inb dist len used in \<open>auto simp: d2_def h'_def h_def\<close>)
    have "dict_map key_id d2 = (dict_map key_id d)(key_id key := None)"
      using dict_map_delete [OF d'(2) ok2 bag] m kv(2) by simp
    moreover have "length (dict_entries d2) \<le> length (dict_entries d)"
      using length_bag_add [OF bag] bag_length [OF d'(3)] by simp
    moreover have "pauserehash d2 = pauserehash d" using d'(4) by (simp add: d2_def)
    ultimately show ?thesis using find free ok2 kv(3)
      by (intro exI [of _ dp] exI [of _ "Some ref"] exI [of _ d2]) simp
  qed
qed

end

section \<open>Iteration\<close>

text \<open>What an iterator has yet to deliver: the rest of the chain it stands in, the buckets after it, and
  the second table while a rehash is going on.\<close>

definition buckets_from :: "('k, 'v) dict \<Rightarrow> nat \<Rightarrow> nat \<Rightarrow> ('k \<times> 'v option) list" where
  "buckets_from d i n =
     (case ht_table (get_ht d i) of None \<Rightarrow> [] | Some tab \<Rightarrow> table_list (drop n tab)) @
     (if i = 0 \<and> dictIsRehashing d then ht_list (ht1 d) else [])"

definition remaining :: "('k, 'v) dict \<Rightarrow> ('k, 'v) dictIterator \<Rightarrow> ('k \<times> 'v option) list" where
  "remaining d it =
     (if it_entry it = NULL then [] else chain_list (it_nextEntry it)) @
     buckets_from d (it_table it) (nat (it_index it + 1))"

definition buckets_left :: "('k, 'v) dict \<Rightarrow> ('k, 'v) dictIterator \<Rightarrow> nat" where
  "buckets_left d it =
     DICTHT_SIZE (ht_size_exp (get_ht d (it_table it))) - nat (it_index it + 1) +
     (if it_table it = 0 then DICTHT_SIZE (ht_size_exp (ht1 d)) + 1 else 0)"

definition it_ok :: "('k, 'v) dictType \<Rightarrow> ('k, 'v) dict \<Rightarrow> ('k, 'v) dictIterator \<Rightarrow> bool" where
  "it_ok t d it \<longleftrightarrow>
     -1 \<le> it_index it \<and> it_table it \<le> 1 \<and> (it_table it = 1 \<longrightarrow> dictIsRehashing d) \<and>
     (it_entry it \<noteq> NULL \<longrightarrow> it_index it \<noteq> -1 \<and> chain_ok t (it_nextEntry it))"

definition same_tables :: "('k, 'v) dict \<Rightarrow> ('k, 'v) dict \<Rightarrow> bool" where
  "same_tables d d' \<longleftrightarrow> ht0 d' = ht0 d \<and> ht1 d' = ht1 d \<and> rehashidx d' = rehashidx d"

lemma same_tables_get:
  assumes "same_tables d d'"
  shows "get_ht d' = get_ht d" "dictIsRehashing d' = dictIsRehashing d" "ht1 d' = ht1 d"
  using assms by (auto simp: same_tables_def get_ht_def dictIsRehashing_def)

lemma same_tablesD:
  assumes "same_tables d d'"
  shows "buckets_from d' i n = buckets_from d i n" "remaining d' it = remaining d it"
    "it_ok t d' it \<longleftrightarrow> it_ok t d it" "next_bucket d' it = next_bucket d it"
    "buckets_left d' it = buckets_left d it"
  unfolding buckets_from_def remaining_def it_ok_def next_bucket_def buckets_left_def
    same_tables_get [OF assms] by (rule refl)+

lemma same_tables_fingerprint: "same_tables d d' \<Longrightarrow> dictFingerprint a0 a1 d' = dictFingerprint a0 a1 d"
  by (simp add: same_tables_def dictFingerprint_def)

lemma next_start_same:
  assumes "next_start a0 a1 d it = (d', it')"
  shows "same_tables d d'" "it_index it' = it_index it" "it_table it' = it_table it"
    "it_entry it' = it_entry it" "it_safe it' = it_safe it"
  using assms
  by (auto simp: next_start_def same_tables_def dictPauseRehashing_def split: if_splits)

text \<open>A step to the next bucket.\<close>

lemma next_bucket_ok:
  assumes ok: "dict_ok t key_id d" and it: "it_ok t d it"
  shows "\<exists>r. next_bucket d it = Some r \<and>
     (case r of
        None \<Rightarrow> buckets_from d (it_table it) (nat (it_index it + 1)) = []
      | Some it' \<Rightarrow> it_ok t d (it'\<lparr>it_entry := NULL\<rparr>) \<and> 0 \<le> it_index it' \<and> it_safe it' = it_safe it \<and>
          it_fingerprint it' = it_fingerprint it \<and> chain_ok t (it_entry it') \<and>
          buckets_from d (it_table it) (nat (it_index it + 1)) =
            chain_list (it_entry it') @ buckets_from d (it_table it') (nat (it_index it' + 1)) \<and>
          buckets_left d it' < buckets_left d it)"
proof -
  let ?h = "get_ht d (it_table it)"
  let ?i = "nat (it_index it + 1)"
  have i: "int ?i = it_index it + 1" using it by (simp add: it_ok_def)
  have t: "table_ok t ?h" using ok by (simp add: dict_ok_def get_ht_def)
  have size: "DICTHT_SIZE (ht_size_exp ?h) = (case ht_table ?h of None \<Rightarrow> 0 | Some tab \<Rightarrow> length tab)"
    using t by (auto simp: table_ok_def DICTHT_SIZE_def split: option.splits)
  show ?thesis
  proof (cases "?i < DICTHT_SIZE (ht_size_exp ?h)")
    case True
    then obtain tab where tab: "ht_table ?h = Some tab" "?i < length tab" using size by (auto split: option.splits)
    then have "drop ?i tab = tab ! ?i # drop (Suc ?i) tab" by (simp add: Cons_nth_drop_Suc)
    then have "buckets_from d (it_table it) ?i = chain_list (tab ! ?i) @ buckets_from d (it_table it) (Suc ?i)"
      using tab(1) by (simp add: buckets_from_def table_list_def)
    moreover have notout: "\<not> it_index it + 1 \<ge> int (DICTHT_SIZE (ht_size_exp ?h))" using True i by linarith
    moreover define it' where "it' = it\<lparr>it_index := it_index it + 1, it_entry := tab ! ?i\<rparr>"
    have it': "it_entry it' = tab ! ?i" "it_table it' = it_table it" "nat (it_index it' + 1) = Suc ?i"
      "0 \<le> it_index it'" "it_safe it' = it_safe it" "it_fingerprint it' = it_fingerprint it"
      using i it unfolding it'_def it_ok_def by simp_all linarith
    moreover have "next_bucket d it = Some (Some it')"
      using tab notout by (simp add: next_bucket_def Let_def it'_def)
    moreover have "it_ok t d (it'\<lparr>it_entry := NULL\<rparr>)" using it it' by (simp add: it_ok_def)
    moreover have "chain_ok t (tab ! ?i)" by (rule table_ok_Some(5) [OF t tab])
    moreover have "buckets_left d it' < buckets_left d it" using True unfolding buckets_left_def it' by simp
    ultimately show ?thesis by (intro exI [of _ "Some it'"]) (simp only: option.case it')
  next
    case False
    then have out: "it_index it + 1 \<ge> int (DICTHT_SIZE (ht_size_exp ?h))" using i by linarith
    have e: "(case ht_table ?h of None \<Rightarrow> [] | Some tab \<Rightarrow> table_list (drop ?i tab)) = []"
      using False size by (auto simp: table_list_def split: option.splits)
    show ?thesis
    proof (cases "dictIsRehashing d \<and> it_table it = 0")
      case True
      then obtain tab where tab: "ht_table (ht1 d) = Some tab"
        using ok by (auto simp: dict_ok_def rehash_ok_def dictIsRehashing_def)
      have t1: "table_ok t (ht1 d)" using ok by (simp add: dict_ok_def)
      note s = table_ok_Some [OF t1 tab]
      then have "0 < length tab" by simp
      then have d: "tab = tab ! 0 # drop 1 tab" using Cons_nth_drop_Suc [of 0 tab] by simp
      have "buckets_from d (it_table it) ?i = table_list tab"
        using e True tab by (simp add: buckets_from_def ht_list_def)
      also have "\<dots> = chain_list (tab ! 0) @ buckets_from d 1 1"
        by (subst d) (use tab in \<open>simp add: buckets_from_def get_ht_def table_list_def\<close>)
      finally have "buckets_from d (it_table it) ?i = chain_list (tab ! 0) @ buckets_from d 1 1" .
      moreover have "next_bucket d it = Some (Some (it\<lparr>it_index := 0, it_table := 1, it_entry := tab ! 0\<rparr>))"
        using True out tab \<open>0 < length tab\<close> by (cases it) (simp add: next_bucket_def Let_def get_ht_def)
      moreover have "chain_ok t (tab ! 0)" by (rule s(5)) fact
      ultimately show ?thesis using True
        by (simp add: it_ok_def buckets_left_def get_ht_def)
    next
      case False
      then have "next_bucket d it = Some None" using out by (auto simp: next_bucket_def Let_def)
      moreover have "buckets_from d (it_table it) ?i = []" using False e by (auto simp: buckets_from_def)
      ultimately show ?thesis by simp
    qed
  qed
qed

lemma chain_head:
  assumes "chain_ok t he" "he \<noteq> NULL"
  shows "\<exists>k. dictGetKey he = Some k \<and> chain_list he = (k, dictGetVal he) # chain_list (dictGetNext he)"
  using assms by (cases he) auto

lemma dict_ok_same_tables:
  assumes "same_tables d d'"
  shows "dict_ok t key_id d' = dict_ok t key_id d"
proof -
  have e: "ht0 d' = ht0 d" "ht1 d' = ht1 d" "rehashidx d' = rehashidx d"
    using assms by (simp_all add: same_tables_def)
  show ?thesis unfolding dict_ok_def rehash_ok_def dict_entries_def e by (rule refl)
qed

lemma same_tables_trans: "same_tables d d' \<Longrightarrow> same_tables d' d'' \<Longrightarrow> same_tables d d''"
  by (simp add: same_tables_def)

text \<open>The bookkeeping of an iterator: a safe one that has started holds a pause of the rehashing, an
  unsafe one the fingerprint of the dict; \<open>p\<close> is the count of the other pauses.\<close>

definition started :: "('k, 'v) dictIterator \<Rightarrow> bool" where
  "started it \<longleftrightarrow> \<not> (it_index it = -1 \<and> it_table it = 0)"

definition book_ok :: "u64 \<Rightarrow> u64 \<Rightarrow> int \<Rightarrow> ('k, 'v) dict \<Rightarrow> ('k, 'v) dictIterator \<Rightarrow> bool" where
  "book_ok a0 a1 p d it \<longleftrightarrow>
     pauserehash d = p + (if it_safe it \<and> started it then 1 else 0) \<and>
     (\<not> it_safe it \<and> started it \<longrightarrow> it_fingerprint it = dictFingerprint a0 a1 d)"

lemma next_start_book:
  assumes "next_start a0 a1 d it = (d', it')" "book_ok a0 a1 p d it" "0 \<le> it_index it''"
    "it_safe it'' = it_safe it'" "it_fingerprint it'' = it_fingerprint it'"
  shows "book_ok a0 a1 p d' it''"
  using assms
  by (auto simp: next_start_def book_ok_def started_def dictPauseRehashing_def dictFingerprint_def split: if_splits)

definition next_spec :: "u64 \<Rightarrow> u64 \<Rightarrow> ('k, 'v) dictType \<Rightarrow> ('k, 'v) dict \<Rightarrow> ('k, 'v) dictIterator \<Rightarrow>
    ('k, 'v) dict \<times> ('k, 'v) dictIterator \<times> ('k, 'v) chain \<Rightarrow> bool" where
  "next_spec a0 a1 t d it r \<longleftrightarrow>
     (let (d', it', he) = r
      in same_tables d d' \<and> it_ok t d it' \<and> it_index it' \<noteq> -1 \<and> it_safe it' = it_safe it \<and>
         (\<forall>p. book_ok a0 a1 p d it \<longrightarrow> book_ok a0 a1 p d' it') \<and>
         (case remaining d it of
            [] \<Rightarrow> he = NULL
          | e # es \<Rightarrow> he \<noteq> NULL \<and> dictGetKey he = Some (fst e) \<and> dictGetVal he = snd e \<and>
                      remaining d it' = es))"

lemma next_spec_entry:
  assumes "same_tables d d'" "it_ok t d (it'\<lparr>it_entry := NULL\<rparr>)" "it_index it' \<noteq> -1" "it_safe it' = it_safe it"
    "chain_ok t (it_entry it')" "it_entry it' \<noteq> NULL"
    "remaining d it = chain_list (it_entry it') @ buckets_from d (it_table it') (nat (it_index it' + 1))"
    "\<And>p. book_ok a0 a1 p d it \<Longrightarrow> book_ok a0 a1 p d' it'"
  shows "next_spec a0 a1 t d it (d', it'\<lparr>it_nextEntry := dictGetNext (it_entry it')\<rparr>, it_entry it')"
proof -
  obtain k where k: "dictGetKey (it_entry it') = Some k"
    "chain_list (it_entry it') = (k, dictGetVal (it_entry it')) # chain_list (dictGetNext (it_entry it'))"
    using chain_head [OF assms(5,6)] by blast
  have "it_ok t d (it'\<lparr>it_nextEntry := dictGetNext (it_entry it')\<rparr>)" using assms(2,3) chain_ok_next [OF assms(5)] by (simp add: it_ok_def)
  moreover have "book_ok a0 a1 p d' (it'\<lparr>it_nextEntry := dictGetNext (it_entry it')\<rparr>)" if "book_ok a0 a1 p d it" for p
    using assms(8) [OF that] by (simp add: book_ok_def started_def)
  ultimately show ?thesis using assms(1-7) k unfolding next_spec_def by (simp add: remaining_def)
qed

lemma next_spec_same:
  assumes "same_tables d d'" "next_spec a0 a1 t d' it' q" "remaining d it = remaining d it'" "it_safe it = it_safe it'"
    "\<And>p. book_ok a0 a1 p d it \<Longrightarrow> book_ok a0 a1 p d' it'"
  shows "next_spec a0 a1 t d it q"
  using assms same_tables_trans [OF assms(1)]
  by (cases q) (auto simp: next_spec_def same_tablesD [OF assms(1)] split: list.splits)

lemma it_ok_entry: "it_entry it = NULL \<Longrightarrow> it_ok t d (it\<lparr>it_entry := NULL\<rparr>) \<Longrightarrow> it_ok t d it"
  by (simp add: it_ok_def)

lemma dictNext_bucket:
  assumes "dict_ok t key_id d" "it_ok t d it" "it_entry it = NULL"
  shows "\<exists>r. dictNext a0 a1 d it = Some r \<and> next_spec a0 a1 t d it r"
  using assms
proof (induction "buckets_left d it" arbitrary: d it rule: less_induct)
  case less
  obtain d1 it1 where st: "next_start a0 a1 d it = (d1, it1)" by (cases "next_start a0 a1 d it")
  note s = next_start_same [OF st]
  have it1: "it_ok t d it1" "buckets_left d it1 = buckets_left d it"
    using less.prems(2,3) s by (simp_all add: it_ok_def buckets_left_def)
  have rem: "remaining d it = buckets_from d (it_table it1) (nat (it_index it1 + 1))"
    using less.prems(3) s by (simp add: remaining_def)
  obtain r where r: "next_bucket d it1 = Some r"
    "case r of
        None \<Rightarrow> buckets_from d (it_table it1) (nat (it_index it1 + 1)) = []
      | Some it' \<Rightarrow> it_ok t d (it'\<lparr>it_entry := NULL\<rparr>) \<and> 0 \<le> it_index it' \<and> it_safe it' = it_safe it1 \<and>
          it_fingerprint it' = it_fingerprint it1 \<and> chain_ok t (it_entry it') \<and>
          buckets_from d (it_table it1) (nat (it_index it1 + 1)) =
            chain_list (it_entry it') @ buckets_from d (it_table it') (nat (it_index it' + 1)) \<and>
          buckets_left d it' < buckets_left d it1"
    using next_bucket_ok [OF less.prems(1) it1(1)] by blast
  have eq: "dictNext a0 a1 d it =
      (case r of
         None \<Rightarrow> Some (d1, it1\<lparr>it_index := it_index it1 + 1\<rparr>, NULL)
       | Some it \<Rightarrow> if it_entry it \<noteq> NULL
                   then Some (d1, it\<lparr>it_nextEntry := dictGetNext (it_entry it)\<rparr>, it_entry it)
                   else dictNext a0 a1 d1 it)"
    using less.prems(3) by (subst dictNext.simps) (simp add: st r(1) same_tablesD [OF s(1)])
  show ?case
  proof (cases r)
    case None
    then have "next_spec a0 a1 t d it (d1, it1\<lparr>it_index := it_index it1 + 1\<rparr>, NULL)"
      using r(2) rem s it1(1) next_start_book [OF st, where it'' = "it1\<lparr>it_index := it_index it1 + 1\<rparr>"] by (auto simp: next_spec_def it_ok_def)
    then show ?thesis using eq None by simp
  next
    case (Some it2)
    then have it2: "it_ok t d (it2\<lparr>it_entry := NULL\<rparr>)" "0 \<le> it_index it2" "it_safe it2 = it_safe it" "chain_ok t (it_entry it2)"
      "remaining d it = chain_list (it_entry it2) @ buckets_from d (it_table it2) (nat (it_index it2 + 1))"
      "buckets_left d it2 < buckets_left d it"
      using r(2) rem s it1(2) by auto
    have bk: "book_ok a0 a1 p d1 it2" if "book_ok a0 a1 p d it" for p
      using next_start_book [OF st that, of it2] r(2) Some by simp
    show ?thesis
    proof (cases "it_entry it2 = NULL")
      case True
      have "\<exists>q. dictNext a0 a1 d1 it2 = Some q \<and> next_spec a0 a1 t d1 it2 q"
        using it2 True less.prems(1) s(1) it_ok_entry [OF True it2(1)]
        by (intro less.hyps) (simp_all add: same_tablesD dict_ok_same_tables)
      then obtain q where q: "dictNext a0 a1 d1 it2 = Some q" "next_spec a0 a1 t d1 it2 q" by blast
      have "next_spec a0 a1 t d it q"
        by (rule next_spec_same [OF s(1) q(2)]) (use it2(3,5) True bk in \<open>simp_all add: remaining_def\<close>)
      then show ?thesis using eq Some True q(1) by simp
    next
      case False
      then show ?thesis using eq Some next_spec_entry [of d d1 t it2 it a0 a1] it2 s(1) bk by auto
    qed
  qed
qed

lemma dictNext_ok:
  assumes "dict_ok t key_id d" "it_ok t d it"
  shows "\<exists>r. dictNext a0 a1 d it = Some r \<and> next_spec a0 a1 t d it r"
proof (cases "it_entry it = NULL")
  case True
  then show ?thesis using dictNext_bucket assms by blast
next
  case False
  let ?it = "it\<lparr>it_entry := it_nextEntry it\<rparr>"
  have it: "it_ok t d (?it\<lparr>it_entry := NULL\<rparr>)" "chain_ok t (it_nextEntry it)" "it_index it \<noteq> -1"
    using assms(2) False by (simp_all add: it_ok_def)
  have eq: "dictNext a0 a1 d it =
     (if it_entry ?it \<noteq> NULL then Some (d, ?it\<lparr>it_nextEntry := dictGetNext (it_entry ?it)\<rparr>, it_entry ?it)
      else dictNext a0 a1 d ?it)"
    using False by (subst dictNext.simps) (simp add: Let_def)
  show ?thesis
  proof (cases "it_nextEntry it = NULL")
    case True
    then obtain r where r: "dictNext a0 a1 d ?it = Some r" "next_spec a0 a1 t d ?it r"
      using dictNext_bucket [OF assms(1), of ?it a0 a1] it(1) by auto
    have "remaining d it = remaining d ?it" using True False by (simp add: remaining_def)
    moreover have "book_ok a0 a1 p d ?it = book_ok a0 a1 p d it" for p by (simp add: book_ok_def started_def)
    ultimately show ?thesis using r eq True by (auto simp: next_spec_def)
  next
    case n: False
    have "next_spec a0 a1 t d it (d, ?it\<lparr>it_nextEntry := dictGetNext (it_entry ?it)\<rparr>, it_entry ?it)"
      using False n it by (intro next_spec_entry) (auto simp: same_tables_def remaining_def book_ok_def started_def)
    then show ?thesis using eq n by auto
  qed
qed

text \<open>A whole iteration: the entries that the calls of \<^verbatim>\<open>dictNext\<close> deliver until one returns \<^verbatim>\<open>NULL\<close>.\<close>

fun iterate ::
  "u64 \<Rightarrow> u64 \<Rightarrow> nat \<Rightarrow> ('k, 'v) dict \<Rightarrow> ('k, 'v) dictIterator \<Rightarrow>
     (('k, 'v) dict \<times> ('k, 'v) dictIterator \<times> ('k \<times> 'v option) list) option" where
  "iterate a0 a1 0 d it = None"
| "iterate a0 a1 (Suc n) d it =
     do {
       (d, it, he) \<leftarrow> dictNext a0 a1 d it;
       if he = NULL then Some (d, it, [])
       else do {
         key \<leftarrow> dictGetKey he;
         (d, it, es) \<leftarrow> iterate a0 a1 n d it;
         Some (d, it, (key, dictGetVal he) # es)
       }
     }"

lemma iterate_ok:
  assumes "dict_ok t key_id d" "it_ok t d it" "length (remaining d it) < n"
  shows "\<exists>d' it'. iterate a0 a1 n d it = Some (d', it', remaining d it) \<and> same_tables d d' \<and>
           it_index it' \<noteq> -1 \<and> it_safe it' = it_safe it \<and>
           (\<forall>p. book_ok a0 a1 p d it \<longrightarrow> book_ok a0 a1 p d' it')"
  using assms
proof (induction n arbitrary: d it)
  case (Suc n)
  obtain d1 it1 he where nx: "dictNext a0 a1 d it = Some (d1, it1, he)" "next_spec a0 a1 t d it (d1, it1, he)"
    using dictNext_ok [OF Suc.prems(1,2), of a0 a1] by auto
  show ?case
  proof (cases "remaining d it")
    case Nil
    then show ?thesis using nx by (simp add: next_spec_def)
  next
    case (Cons e es)
    then have s: "same_tables d d1" "it_ok t d it1" "it_index it1 \<noteq> -1" "it_safe it1 = it_safe it"
      "he \<noteq> NULL" "dictGetKey he = Some (fst e)" "dictGetVal he = snd e" "remaining d it1 = es"
      "\<forall>p. book_ok a0 a1 p d it \<longrightarrow> book_ok a0 a1 p d1 it1"
      using nx(2) by (simp_all add: next_spec_def)
    have "\<exists>d' it'. iterate a0 a1 n d1 it1 = Some (d', it', remaining d1 it1) \<and> same_tables d1 d' \<and>
           it_index it' \<noteq> -1 \<and> it_safe it' = it_safe it1 \<and>
           (\<forall>p. book_ok a0 a1 p d1 it1 \<longrightarrow> book_ok a0 a1 p d' it')"
      using Suc.prems Cons s by (intro Suc.IH) (simp_all add: dict_ok_same_tables same_tablesD)
    then show ?thesis using nx(1) s Cons same_tables_trans [OF s(1)] by (auto simp: same_tablesD)
  qed
qed simp

lemma remaining_init:
  assumes ok: "dict_ok t key_id d" and it: "it = dictInitIterator \<or> it = dictInitSafeIterator"
  shows "remaining d it = dict_entries d"
proof -
  have "buckets_from d 0 0 = ht_list (ht0 d) @ (if dictIsRehashing d then ht_list (ht1 d) else [])"
    by (simp add: buckets_from_def ht_list_def get_ht_def split: option.splits)
  moreover have "ht_list (ht1 d) = []" if "\<not> dictIsRehashing d"
    using ok that by (simp add: dict_ok_def rehash_ok_def dictIsRehashing_def ht_list_def)
  ultimately show ?thesis
    using it by (auto simp: remaining_def dict_entries_def dictInitSafeIterator_def dictInitIterator_def)
qed

lemma iteration_ok:
  assumes ok: "dict_ok t key_id d" and it: "it = dictInitIterator \<or> it = dictInitSafeIterator"
  shows "\<exists>d' it'. iterate a0 a1 (Suc (dictSize d)) d it = Some (d', it', dict_entries d) \<and>
           dictResetIterator a0 a1 d' it' = Some d"
proof -
  note r = remaining_init [OF assms]
  have "it_ok t d it" "book_ok a0 a1 (pauserehash d) d it"
    using it by (auto simp: it_ok_def book_ok_def started_def dictInitSafeIterator_def dictInitIterator_def)
  with iterate_ok [OF ok, of it "Suc (dictSize d)" a0 a1] obtain d' it' where i:
    "iterate a0 a1 (Suc (dictSize d)) d it = Some (d', it', dict_entries d)" "same_tables d d'"
    "it_index it' \<noteq> -1" "book_ok a0 a1 (pauserehash d) d' it'"
    using dict_ok_size [OF ok] r by auto
  have "dictResetIterator a0 a1 d' it' = Some d"
    using i(2-4) by (cases d; cases d')
      (auto simp: dictResetIterator_def book_ok_def started_def same_tables_def dictResumeRehashing_def)
  with i(1) show ?thesis by blast
qed

end
