(* ===== verification/Dict_Ops.thy ===== *)
theory Dict_Ops
  imports Dict_Traversal
begin

text \<open>
  Sequences of operations on a dict with values, against the same sequences on a map. The locale
  \<open>value_dict\<close> extends the contract of a dict type by what such a dict needs; its lemma
  \<open>run_dict_refines\<close> holds for every order of additions, replacements, deletions, lookups, expansions,
  resizes and rehash steps, and whatever the global resize policy is at each of them.
\<close>

datatype ('k, 'v) dict_op =
    DAdd 'k 'v
  | DReplace 'k 'v
  | DDelete 'k
  | DUnlink 'k
  | DFetch 'k
  | DExpand nat
  | DResize
  | DRehash nat
  | DEmpty

datatype 'v dict_answer = Done bool | Fetched "'v option" | Silent

text \<open>One operation of \<^verbatim>\<open>dict.c\<close>; \<open>DUnlink\<close> is the pair of calls that unlinks in two phases.\<close>

fun dict_step ::
  "('k, 'v) dictType \<Rightarrow> dictResizeEnable \<times> ('k, 'v) dict_op \<Rightarrow> ('k, 'v) dict \<Rightarrow>
     (('k, 'v) dict \<times> 'v dict_answer) option" where
  "dict_step t (can, DAdd k v) d = map_option (map_prod id Done) (dictAdd can t d k v)"
| "dict_step t (can, DReplace k v) d = map_option (map_prod id Done) (dictReplace can t d k v)"
| "dict_step t (can, DDelete k) d = map_option (map_prod id Done) (dictDelete can t d k)"
| "dict_step t (can, DUnlink k) d =
     do {
       (d, he) \<leftarrow> dictTwoPhaseUnlinkFind can t d k;
       d \<leftarrow> dictTwoPhaseUnlinkFree d he;
       Some (d, Done (he \<noteq> None))
     }"
| "dict_step t (can, DFetch k) d = map_option (map_prod id Fetched) (dictFetchValue can t d k)"
| "dict_step t (can, DExpand n) d = Some (fst (dictExpand d n), Silent)"
| "dict_step t (can, DResize) d = Some (fst (dictResize can d), Silent)"
| "dict_step t (can, DRehash n) d = map_option (\<lambda>(d, _). (d, Silent)) (dictRehash can t d n)"
| "dict_step t (can, DEmpty) d = map_option (\<lambda>(d, _). (d, Silent)) (dictEmpty d)"

fun run_dict ::
  "('k, 'v) dictType \<Rightarrow> (dictResizeEnable \<times> ('k, 'v) dict_op) list \<Rightarrow> ('k, 'v) dict \<Rightarrow>
     (('k, 'v) dict \<times> 'v dict_answer list) option" where
  "run_dict t [] d = Some (d, [])"
| "run_dict t (p # ps) d =
     do {
       (d, a) \<leftarrow> dict_step t p d;
       (d, as) \<leftarrow> run_dict t ps d;
       Some (d, a # as)
     }"

text \<open>The same operations on a map from the identities of the keys.\<close>

fun map_step :: "('k \<Rightarrow> 'i) \<Rightarrow> ('k, 'v) dict_op \<Rightarrow> ('i \<rightharpoonup> 'v) \<Rightarrow> ('i \<rightharpoonup> 'v) \<times> 'v dict_answer" where
  "map_step f (DAdd k v) m = (if m (f k) = None then m(f k \<mapsto> v) else m, Done (m (f k) = None))"
| "map_step f (DReplace k v) m = (m(f k \<mapsto> v), Done (m (f k) = None))"
| "map_step f (DDelete k) m = (m(f k := None), Done (m (f k) \<noteq> None))"
| "map_step f (DUnlink k) m = (m(f k := None), Done (m (f k) \<noteq> None))"
| "map_step f (DFetch k) m = (m, Fetched (m (f k)))"
| "map_step f DEmpty m = (Map.empty, Silent)"
| "map_step f (DExpand n) m = (m, Silent)"
| "map_step f DResize m = (m, Silent)"
| "map_step f (DRehash n) m = (m, Silent)"

fun run_map :: "('k \<Rightarrow> 'i) \<Rightarrow> ('k, 'v) dict_op list \<Rightarrow> ('i \<rightharpoonup> 'v) \<Rightarrow> ('i \<rightharpoonup> 'v) \<times> 'v dict_answer list" where
  "run_map f [] m = (m, [])"
| "run_map f (p # ps) m =
     (let (m', a) = map_step f p m; (m'', as) = run_map f ps m' in (m'', a # as))"

text \<open>A dict stands for a map: the values are all set.\<close>

definition dict_models :: "('k, 'v) dictType \<Rightarrow> ('k \<Rightarrow> 'i) \<Rightarrow> ('k, 'v) dict \<Rightarrow> ('i \<rightharpoonup> 'v) \<Rightarrow> bool" where
  "dict_models t key_id d m \<longleftrightarrow> dict_ok t key_id d \<and> (\<forall>i. dict_map key_id d i = map_option Some (m i))"

fun op_size :: "('k, 'v) dict_op \<Rightarrow> nat" where
  "op_size (DExpand n) = n"
| "op_size _ = 0"

locale value_dict = dict_contract t key_id
  for t :: "('k, 'v) dictType" and key_id :: "'k \<Rightarrow> 'i" +
  assumes has_values: "\<not> no_value t"
    and plain_values: "valDup t = None"
begin

lemma models_bag:
  assumes "dict_models t key_id d m" "dict_ok t key_id d'" "dict_bag d' = dict_bag d"
  shows "dict_models t key_id d' m" "length (dict_entries d') = length (dict_entries d)"
  using assms dict_map_bag [of t key_id d d'] bag_length [OF assms(3)] by (simp_all add: dict_models_def)

lemma fetch_models:
  assumes "dict_models t key_id d m"
  shows "\<exists>d'. dictFetchValue can t d k = Some (d', m (key_id k)) \<and> dict_models t key_id d' m \<and>
           length (dict_entries d') = length (dict_entries d)"
proof -
  have ok: "dict_ok t key_id d" and m: "\<And>i. dict_map key_id d i = map_option Some (m i)"
    using assms by (simp_all add: dict_models_def)
  obtain d' r where r: "dictFind can t d k = Some (d', r)" "dict_ok t key_id d'" "dict_bag d' = dict_bag d"
    "case r of
        None \<Rightarrow> dict_map key_id d (key_id k) = None
      | Some ref \<Rightarrow> \<exists>k' v. ref_points d' ref (k', v) \<and> key_id k' = key_id k \<and>
                     dict_map key_id d (key_id k) = Some v"
    using dictFind_ok [OF ok, of can k] by blast
  note md = models_bag [OF assms r(2,3)]
  show ?thesis
  proof (cases r)
    case None
    then show ?thesis using r m md by (simp add: dictFetchValue_def)
  next
    case (Some ref)
    then obtain k' v where v: "ref_points d' ref (k', v)" "dict_map key_id d (key_id k) = Some v"
      using r(4) by auto
    then obtain x where x: "m (key_id k) = Some x" "v = Some x" using m by auto
    obtain he where he: "entry_at d' ref = Some he" "he \<noteq> NULL" "hd (chain_list he) = (k', v)"
      using ref_points_entry_at [OF v(1)] by blast
    have "dictGetVal he = v" using he(2,3) x(2) by (cases he) auto
    then show ?thesis using r(1) Some he(1) x md by (simp add: dictFetchValue_def)
  qed
qed

lemma resize_models:
  assumes "dict_models t key_id d m" "n < 2 ^ 64"
  shows "dict_models t key_id (fst (dictExpand d n)) m"
    "length (dict_entries (fst (dictExpand d n))) = length (dict_entries d)"
proof -
  obtain d' r mf where e: "u_dictExpand d n True = (d', r, mf)" by (cases "u_dictExpand d n True")
  then have "dict_ok t key_id d'" "dict_bag d' = dict_bag d"
    using dictExpand_ok [of t key_id d n True] assms by (auto simp: dict_models_def)
  from models_bag [OF assms(1) this] e
  show "dict_models t key_id (fst (dictExpand d n)) m"
    "length (dict_entries (fst (dictExpand d n))) = length (dict_entries d)"
    by (simp_all add: dictExpand_def)
qed

lemma dict_step_refines:
  assumes m: "dict_models t key_id d m" and small: "length (dict_entries d) < 2 ^ 60" "op_size p < 2 ^ 64"
  shows "\<exists>d'. dict_step t (can, p) d = Some (d', snd (map_step key_id p m)) \<and>
           dict_models t key_id d' (fst (map_step key_id p m)) \<and>
           length (dict_entries d') \<le> Suc (length (dict_entries d))"
proof -
  have ok: "dict_ok t key_id d" and dm: "\<And>i. dict_map key_id d i = map_option Some (m i)"
    using m by (simp_all add: dict_models_def)
  show ?thesis
  proof (cases p)
    case (DAdd k v)
    then show ?thesis
      using dictAdd_ok [OF ok small(1), of can k v] dm has_values plain_values
      by (auto simp: dict_models_def new_value_def stored_value_def)
  next
    case (DReplace k v)
    have "dict_map key_id d (key_id k) \<noteq> Some None" using dm by simp
    from dictReplace_ok [OF ok small(1) has_values this, of can v] DReplace show ?thesis
      using dm plain_values by (auto simp: dict_models_def stored_value_def)
  next
    case (DDelete k)
    from dictGenericDelete_ok [OF ok, of can k] obtain d' r where
      "dictGenericDelete can t d k = Some (d', r)" "dict_ok t key_id d'"
      "dict_map key_id d' = (dict_map key_id d)(key_id k := None)"
      "length (dict_entries d') \<le> length (dict_entries d)" "(r = None) = (m (key_id k) = None)"
      using dm by (auto split: option.splits)
    then show ?thesis using DDelete dm by (auto simp: dictDelete_def dict_models_def)
  next
    case (DUnlink k)
    from two_phase_ok [OF ok, of can k] obtain d1 r d2 where r:
      "dictTwoPhaseUnlinkFind can t d k = Some (d1, r)" "dictTwoPhaseUnlinkFree d1 r = Some d2"
      "dict_ok t key_id d2" "r = None \<longleftrightarrow> dict_map key_id d (key_id k) = None"
      "dict_map key_id d2 = (dict_map key_id d)(key_id k := None)" 
      "length (dict_entries d2) \<le> length (dict_entries d)" by (elim exE conjE) (rule that; assumption)
    then show ?thesis using DUnlink dm by (auto simp: dict_models_def)
  next
    case (DFetch k)
    then show ?thesis using fetch_models [OF m, of can k] by auto
  next
    case (DExpand n)
    then show ?thesis using resize_models [OF m, of n] small(2) by auto
  next
    case DResize
    define n where "n = (if ht_used (ht0 d) < DICT_HT_INITIAL_SIZE then DICT_HT_INITIAL_SIZE else ht_used (ht0 d))"
    have "ht_used (ht0 d) \<le> length (dict_entries d)" using dict_ok_size [OF ok] by (simp add: dictSize_def)
    then have "n < 2 ^ 64" using small(1) by (simp add: n_def DICT_HT_INITIAL_SIZE_def)
    from resize_models [OF m this] DResize m show ?thesis by (auto simp: dictResize_def Let_def n_def)
  next
    case (DRehash n)
    then show ?thesis using dictRehash_ok [OF ok, of can n] models_bag [OF m] by fastforce
  next
    case DEmpty
    then show ?thesis using dictEmpty_ok [OF ok] by (simp add: dict_models_def dictCreate_ok)
  qed
qed

lemma run_dict_refines:
  assumes "dict_models t key_id d m" "length (dict_entries d) + length ps \<le> 2 ^ 60"
    "\<forall>p \<in> set ps. op_size (snd p) < 2 ^ 64"
  shows "\<exists>d'. run_dict t ps d = Some (d', snd (run_map key_id (map snd ps) m)) \<and>
           dict_models t key_id d' (fst (run_map key_id (map snd ps) m))"
  using assms
proof (induction ps arbitrary: d m)
  case (Cons p ps)
  obtain can q where p: "p = (can, q)" by (cases p)
  obtain d1 where d1: "dict_step t (can, q) d = Some (d1, snd (map_step key_id q m))"
    "dict_models t key_id d1 (fst (map_step key_id q m))"
    "length (dict_entries d1) \<le> Suc (length (dict_entries d))"
    using dict_step_refines [OF Cons.prems(1), of q can] Cons.prems(2,3) p by auto
  obtain d2 where "run_dict t ps d1 = Some (d2, snd (run_map key_id (map snd ps) (fst (map_step key_id q m))))"
    "dict_models t key_id d2 (fst (run_map key_id (map snd ps) (fst (map_step key_id q m))))"
    using Cons.IH [OF d1(2)] d1(3) Cons.prems(2,3) by auto
  then show ?case using d1(1) p by (auto simp: split_beta Let_def)
qed (simp add: dict_models_def)

lemma create_models: "dict_models t key_id dictCreate Map.empty"
  by (simp add: dict_models_def dictCreate_ok)

end

end
