(* ===== verification/Siphash.thy ===== *)
theory Siphash
  imports Redis_Prelude
begin

text \<open>
  The keyed hash function of \<^verbatim>\<open>siphash.c\<close> (SipHash with one compression and two finalisation
  rounds) and its case-insensitive variant, on 64-bit words. The eight-byte loads are the
  little-endian, unaligned ones of the supported processors.
\<close>

unbundle bit_operations_syntax

section \<open>The model\<close>

definition siptlw :: "int \<Rightarrow> int" where
  "siptlw c = (if 65 \<le> c \<and> c \<le> 90 then c + (97 - 65) else c)"

definition ROTL :: "u64 \<Rightarrow> nat \<Rightarrow> u64" where
  "ROTL x b = push_bit b x OR drop_bit (64 - b) x"

definition U8TO64_LE :: "byte list \<Rightarrow> nat \<Rightarrow> u64 option" where
  "U8TO64_LE b p = map_option (\<lambda>xs. word_of_int (le_uint xs)) (mem_read b p 8)"

text \<open>The byte \<^verbatim>\<open>(uint64_t)siptlw(p[i])\<close>.\<close>

definition sip_lower :: "byte \<Rightarrow> u64" where
  "sip_lower c = word_of_int (siptlw (uint c))"

definition U8TO64_LE_NOCASE :: "byte list \<Rightarrow> nat \<Rightarrow> u64 option" where
  "U8TO64_LE_NOCASE b p =
     map_option (\<lambda>xs.
       sip_lower (xs ! 0) OR push_bit 8 (sip_lower (xs ! 1)) OR
       push_bit 16 (sip_lower (xs ! 2)) OR push_bit 24 (sip_lower (xs ! 3)) OR
       push_bit 32 (sip_lower (xs ! 4)) OR push_bit 40 (sip_lower (xs ! 5)) OR
       push_bit 48 (sip_lower (xs ! 6)) OR push_bit 56 (sip_lower (xs ! 7))) (mem_read b p 8)"

type_synonym sip_state = "u64 \<times> u64 \<times> u64 \<times> u64"

definition SIPROUND :: "sip_state \<Rightarrow> sip_state" where
  "SIPROUND st =
     (let (v0, v1, v2, v3) = st;
          v0 = v0 + v1; v1 = ROTL v1 13; v1 = v1 XOR v0; v0 = ROTL v0 32;
          v2 = v2 + v3; v3 = ROTL v3 16; v3 = v3 XOR v2;
          v0 = v0 + v3; v3 = ROTL v3 21; v3 = v3 XOR v0;
          v2 = v2 + v1; v1 = ROTL v1 17; v1 = v1 XOR v2; v2 = ROTL v2 32
      in (v0, v1, v2, v3))"

definition sip_init :: "byte list \<Rightarrow> sip_state option" where
  "sip_init k =
     do {
       k0 \<leftarrow> U8TO64_LE k 0;
       k1 \<leftarrow> U8TO64_LE k 8;
       Some (0x736f6d6570736575 XOR k0, 0x646f72616e646f6d XOR k1,
             0x6c7967656e657261 XOR k0, 0x7465646279746573 XOR k1)
     }"

text \<open>The loop over the whole blocks; \<open>load\<close> is the macro that reads a block and \<open>n\<close> counts down the
  blocks up to \<^verbatim>\<open>end\<close>.\<close>

fun sip_loop :: "(byte list \<Rightarrow> nat \<Rightarrow> u64 option) \<Rightarrow> byte list \<Rightarrow> nat \<Rightarrow> nat \<Rightarrow> sip_state \<Rightarrow> sip_state option" where
  "sip_loop load b p 0 st = Some st"
| "sip_loop load b p (Suc n) (v0, v1, v2, v3) =
     do {
       m \<leftarrow> load b p;
       let (v0, v1, v2, v3) = SIPROUND (v0, v1, v2, v3 XOR m);
       sip_loop load b (p + 8) n (v0 XOR m, v1, v2, v3)
     }"

text \<open>One case of the \<^verbatim>\<open>switch (left)\<close>, taken when \<open>left\<close> is at least the label.\<close>

definition sip_case :: "(byte \<Rightarrow> u64) \<Rightarrow> byte list \<Rightarrow> nat \<Rightarrow> nat \<Rightarrow> nat \<Rightarrow> u64 \<Rightarrow> u64 option" where
  "sip_case conv b p left i acc =
     (if left > i then do { c \<leftarrow> mem_get b (p + i); Some (acc OR push_bit (8 * i) (conv c)) }
      else Some acc)"

definition sip_tail :: "(byte \<Rightarrow> u64) \<Rightarrow> byte list \<Rightarrow> nat \<Rightarrow> nat \<Rightarrow> u64 \<Rightarrow> u64 option" where
  "sip_tail conv b p left acc =
     do {
       acc \<leftarrow> sip_case conv b p left 6 acc;
       acc \<leftarrow> sip_case conv b p left 5 acc;
       acc \<leftarrow> sip_case conv b p left 4 acc;
       acc \<leftarrow> sip_case conv b p left 3 acc;
       acc \<leftarrow> sip_case conv b p left 2 acc;
       acc \<leftarrow> sip_case conv b p left 1 acc;
       sip_case conv b p left 0 acc
     }"

definition sip_final :: "u64 \<Rightarrow> sip_state \<Rightarrow> u64" where
  "sip_final b st =
     (let (v0, v1, v2, v3) = st;
          (v0, v1, v2, v3) = SIPROUND (v0, v1, v2, v3 XOR b);
          (v0, v1, v2, v3) = SIPROUND (SIPROUND (v0 XOR b, v1, v2 XOR 0xff, v3))
      in v0 XOR v1 XOR v2 XOR v3)"

definition siphash :: "byte list \<Rightarrow> nat \<Rightarrow> byte list \<Rightarrow> u64 option" where
  "siphash b inlen k =
     do {
       st \<leftarrow> sip_init k;
       let fin = inlen - inlen mod 8;
       st \<leftarrow> sip_loop U8TO64_LE b 0 (fin div 8) st;
       t \<leftarrow> sip_tail ucast b fin (inlen AND 7) (push_bit 56 (of_nat inlen));
       Some (sip_final t st)
     }"

definition siphash_nocase :: "byte list \<Rightarrow> nat \<Rightarrow> byte list \<Rightarrow> u64 option" where
  "siphash_nocase b inlen k =
     do {
       st \<leftarrow> sip_init k;
       let fin = inlen - inlen mod 8;
       st \<leftarrow> sip_loop U8TO64_LE_NOCASE b 0 (fin div 8) st;
       t \<leftarrow> sip_tail sip_lower b fin (inlen AND 7) (push_bit 56 (of_nat inlen));
       Some (sip_final t st)
     }"

section \<open>The case-insensitive loads\<close>

text \<open>The lower-case version of a byte.\<close>

definition lower :: "byte \<Rightarrow> byte" where
  "lower c = word_of_int (siptlw (uint c))"

lemma sip_lower_eq: "sip_lower c = ucast (lower c)"
proof -
  have b: "0 \<le> uint c" "uint c < 256" using uint_ge_0 [of c] uint_bounded [of c] by simp_all
  then have r: "0 \<le> siptlw (uint c)" "siptlw (uint c) < 256" by (auto simp: siptlw_def)
  then have "uint (lower c) = siptlw (uint c)"
    by (simp only: lower_def uint_word_of_int) simp
  moreover have "(ucast (lower c) :: u64) = word_of_int (uint (lower c))" by simp
  ultimately show ?thesis unfolding sip_lower_def by (simp only:)
qed

definition le_word :: "byte list \<Rightarrow> u64" where
  "le_word bs = word_of_int (le_uint bs)"

lemma le_word_Cons: "le_word (b # bs) = ucast b OR push_bit 8 (le_word bs)"
proof -
  have "(ucast b :: u64) OR push_bit 8 (le_word bs) = ucast b + push_bit 8 (le_word bs)"
    by (rule disjunctive_add [symmetric]) (auto simp: bit_simps dest!: bit_imp_le_length)
  also have "\<dots> = le_word (b # bs)"
    by (simp add: le_word_def push_bit_eq_mult)
  finally show ?thesis by simp
qed

lemma le_word_Nil [simp]: "le_word [] = 0"
  by (simp add: le_word_def)

lemma le_word_8:
  "le_word [a, b, c, d, e, f, g, h] =
     ucast a OR push_bit 8 (ucast b) OR push_bit 16 (ucast c) OR push_bit 24 (ucast d) OR
     push_bit 32 (ucast e) OR push_bit 40 (ucast f) OR push_bit 48 (ucast g) OR push_bit 56 (ucast h)"
  by (simp add: le_word_Cons push_bit_or ac_simps)

lemma length_8_cases:
  assumes "length xs = 8"
  obtains a b c d e f g h where "xs = [a, b, c, d, e, f, g, h]"
proof -
  have "length xs = Suc (Suc (Suc (Suc (Suc (Suc (Suc (Suc 0)))))))" using assms by simp
  then show thesis using that unfolding length_Suc_conv by blast
qed

lemma load_nocase: "U8TO64_LE_NOCASE b p = U8TO64_LE (map lower b) p"
proof (cases "p + 8 \<le> length b")
  case True
  then have "length (take 8 (drop p b)) = 8" by simp
  then obtain c d e f g h i j where xs: "take 8 (drop p b) = [c, d, e, f, g, h, i, j]"
    by (rule length_8_cases)
  have "take 8 (drop p (map lower b)) = map lower [c, d, e, f, g, h, i, j]"
    by (simp only: drop_map take_map xs)
  then show ?thesis using True xs
    by (simp add: U8TO64_LE_NOCASE_def U8TO64_LE_def mem_read_def sip_lower_eq flip: le_word_def le_word_8)
qed (simp add: U8TO64_LE_NOCASE_def U8TO64_LE_def mem_read_def)

lemma sip_loop_nocase: "sip_loop U8TO64_LE_NOCASE b p n st = sip_loop U8TO64_LE (map lower b) p n st"
proof -
  have "U8TO64_LE_NOCASE b = U8TO64_LE (map lower b)" by (rule ext) (rule load_nocase)
  then show ?thesis
    by (induction n arbitrary: p st) (auto simp: Let_def split: prod.splits)
qed

lemma sip_case_nocase: "sip_case sip_lower b p left i acc = sip_case ucast (map lower b) p left i acc"
  by (simp add: sip_case_def mem_get_def sip_lower_eq)

lemma sip_tail_nocase: "sip_tail sip_lower b p left acc = sip_tail ucast (map lower b) p left acc"
  by (simp add: sip_tail_def sip_case_nocase)

lemma siphash_nocase_eq: "siphash_nocase b inlen k = siphash (map lower b) inlen k"
  by (simp add: siphash_nocase_def siphash_def sip_loop_nocase sip_tail_nocase)

section \<open>The hash is defined\<close>

lemma U8TO64_LE_in [simp]: "p + 8 \<le> length b \<Longrightarrow> U8TO64_LE b p = Some (le_word (take 8 (drop p b)))"
  by (simp add: U8TO64_LE_def mem_read_def le_word_def)

lemma sip_loop_total: "p + 8 * n \<le> length b \<Longrightarrow> \<exists>st'. sip_loop U8TO64_LE b p n st = Some st'"
proof (induction n arbitrary: p st)
  case (Suc n)
  show ?case
    using Suc.prems Suc.IH [of "p + 8"] by (cases st) (auto simp: Let_def split: prod.splits)
qed (metis sip_loop.simps(1))

lemma sip_case_in:
  "p + left \<le> length b \<Longrightarrow>
     sip_case conv b p left i acc =
       Some (if left > i then acc OR push_bit (8 * i) (conv (b ! (p + i))) else acc)"
  by (simp add: sip_case_def)

lemma sip_tail_total: "p + left \<le> length b \<Longrightarrow> \<exists>acc'. sip_tail conv b p left acc = Some acc'"
  unfolding sip_tail_def by (simp only: sip_case_in bind.bind_lunit) blast

lemma siphash_total:
  assumes "inlen \<le> length b" "length k = 16"
  shows "\<exists>h. siphash b inlen k = Some h"
proof -
  obtain st where st: "sip_init k = Some st" using assms(2) by (simp add: sip_init_def)
  obtain st' where st': "sip_loop U8TO64_LE b 0 ((inlen - inlen mod 8) div 8) st = Some st'"
  proof -
    have "0 + 8 * ((inlen - inlen mod 8) div 8) \<le> length b"
      using diff_le_self [of inlen "inlen mod 8"] assms(1) by simp
    then show thesis using sip_loop_total that by blast
  qed
  have "inlen AND 7 = inlen mod 8" using take_bit_eq_mod [of 3 inlen] by (simp add: take_bit_eq_mask mask_eq_exp_minus_1)
  then obtain t where "sip_tail ucast b (inlen - inlen mod 8) (inlen AND 7) (push_bit 56 (of_nat inlen)) = Some t"
    using sip_tail_total [of "inlen - inlen mod 8" "inlen mod 8" b ucast] assms(1) by auto
  with st st' show ?thesis by (simp add: siphash_def)
qed

section \<open>Properties\<close>


end
