(* ===== verification/Util_Numbers.thy ===== *)
theory Util_Numbers
  imports Redis_Prelude
begin

text \<open>
  The conversions between machine integers and decimal strings of \<^verbatim>\<open>util.c\<close>, and its small buffer
  helpers. A destination buffer is a block of bytes with the offset of the pointer that the caller
  passes; a source string is a block with its length.
\<close>

section \<open>Decimal notation\<close>

text \<open>The reference: the decimal digits of a number, and the string of an integer.\<close>

fun dec :: "nat \<Rightarrow> nat list" where
  "dec n = (if n < 10 then [n] else dec (n div 10) @ [n mod 10])"

declare dec.simps [simp del]

definition digit :: "nat \<Rightarrow> byte" where
  "digit d = 48 + of_nat d"

definition dec_bytes :: "nat \<Rightarrow> byte list" where
  "dec_bytes n = map digit (dec n)"

definition int_bytes :: "int \<Rightarrow> byte list" where
  "int_bytes i = (if i < 0 then 45 # dec_bytes (nat (- i)) else dec_bytes (nat i))"

section \<open>The model\<close>

function digits10 :: "u64 \<Rightarrow> u32" where
  "digits10 v =
     (if v < 10 then 1
      else if v < 100 then 2
      else if v < 1000 then 3
      else if v < 1000000000000 then
        (if v < 100000000 then
           (if v < 1000000 then
              (if v < 10000 then 4 else 5 + of_bool (v \<ge> 100000))
            else 7 + of_bool (v \<ge> 10000000))
         else if v < 10000000000 then 9 + of_bool (v \<ge> 1000000000)
         else 11 + of_bool (v \<ge> 100000000000))
      else 12 + digits10 (v div 1000000000000))"
  by auto
termination
  by (relation "measure unat") (auto simp: word_less_nat_alt unat_div_distrib)

declare digits10.simps [simp del]

definition LLONG_MAX :: int where "LLONG_MAX = 2 ^ 63 - 1"
definition LLONG_MIN :: int where "LLONG_MIN = - (2 ^ 63)"
definition ULLONG_MAX :: u64 where "ULLONG_MAX = - 1"

definition sdigits10 :: "int \<Rightarrow> u32" where
  "sdigits10 v =
     (if v < 0 then
        (let uv = (if v \<noteq> LLONG_MIN then word_of_int (- v) else word_of_int LLONG_MAX + 1)
         in digits10 uv + 1)
      else digits10 (word_of_int v))"

text \<open>The table of the two-digit numbers.\<close>

definition digits :: "byte list" where
  "digits = bytes_of
     (''0001020304050607080910111213141516171819'' @
      ''2021222324252627282930313233343536373839'' @
      ''4041424344454647484950515253545556575859'' @
      ''6061626364656667686970717273747576777879'' @
      ''8081828384858687888990919293949596979899'') @ [0]"

text \<open>The loop that writes two digits at a time from the end, and the last one or two digits.\<close>

function ull2string_digits :: "byte list \<Rightarrow> nat \<Rightarrow> u32 \<Rightarrow> u64 \<Rightarrow> byte list option" where
  "ull2string_digits b dst next value =
     (if value \<ge> 100 then do {
        let i = 2 * unat (value mod 100);
        d1 \<leftarrow> mem_get digits (i + 1);
        b1 \<leftarrow> mem_put b (dst + unat next) d1;
        d0 \<leftarrow> mem_get digits i;
        b2 \<leftarrow> mem_put b1 (dst + unat (next - 1)) d0;
        ull2string_digits b2 dst (next - 2) (value div 100)
      }
      else if value < 10 then mem_put b (dst + unat next) (48 + ucast value)
      else do {
        let i = 2 * unat value;
        d1 \<leftarrow> mem_get digits (i + 1);
        b1 \<leftarrow> mem_put b (dst + unat next) d1;
        d0 \<leftarrow> mem_get digits i;
        mem_put b1 (dst + unat (next - 1)) d0
      })"
  by auto
termination
  by (relation "measure (\<lambda>(b, dst, next, value). unat value)")
    (auto simp: word_le_nat_alt unat_div_distrib)

declare ull2string_digits.simps [simp del]

text \<open>Both conversions return the number of characters, 0 when the buffer is too small.\<close>

definition ull2string :: "byte list \<Rightarrow> nat \<Rightarrow> nat \<Rightarrow> u64 \<Rightarrow> (byte list \<times> u32) option" where
  "ull2string b dst dstlen value =
     (let len = digits10 value
      in if unat len \<ge> dstlen then do {
           b' \<leftarrow> (if dstlen > 0 then mem_put b dst 0 else Some b);
           Some (b', 0)
         } else do {
           let next = len - 1;
           b0 \<leftarrow> mem_put b (dst + unat (next + 1)) 0;
           b1 \<leftarrow> ull2string_digits b0 dst next value;
           Some (b1, len)
         })"

definition ll2string :: "byte list \<Rightarrow> nat \<Rightarrow> nat \<Rightarrow> int \<Rightarrow> (byte list \<times> u32) option" where
  "ll2string b dst dstlen svalue =
     (if svalue < 0 then
        (let value = (if svalue \<noteq> LLONG_MIN then word_of_int (- svalue)
                      else word_of_int LLONG_MAX + 1)
         in if dstlen < 2 then do {
              b' \<leftarrow> (if dstlen > 0 then mem_put b dst 0 else Some b);
              Some (b', 0)
            } else do {
              b0 \<leftarrow> mem_put b dst 45;
              (b1, len) \<leftarrow> ull2string b0 (dst + 1) (dstlen - 1) value;
              if len = 0 then Some (b1, 0) else Some (b1, len + 1)
            })
      else do {
        (b1, len) \<leftarrow> ull2string b dst dstlen (word_of_int svalue);
        if len = 0 then Some (b1, 0) else Some (b1, len)
      })"

definition LONG_STR_SIZE :: nat where "LONG_STR_SIZE = 21"

text \<open>The loop over the digits after the first: \<open>Some None\<close> is the return on overflow, otherwise the
  number of bytes used and the value.\<close>

function string2ll_loop :: "byte list \<Rightarrow> nat \<Rightarrow> nat \<Rightarrow> u64 \<Rightarrow> (nat \<times> u64) option option" where
  "string2ll_loop s slen plen v =
     (if plen < slen then do {
        c \<leftarrow> mem_get s plen;
        if 48 \<le> c \<and> c \<le> 57 then
          (if v > ULLONG_MAX div 10 then Some None
           else let v = v * 10
                in if v > ULLONG_MAX - ucast (c - 48) then Some None
                   else string2ll_loop s slen (plen + 1) (v + ucast (c - 48)))
        else Some (Some (plen, v))
      } else Some (Some (plen, v)))"
  by auto
termination
  by (relation "measure (\<lambda>(s, slen, plen, v). slen - plen)") auto

declare string2ll_loop.simps [simp del]

text \<open>\<open>Some None\<close> is the return value 0, \<open>Some (Some n)\<close> the return value 1 with the number stored.\<close>

definition string2ll :: "byte list \<Rightarrow> nat \<Rightarrow> int option option" where
  "string2ll s slen =
     (if slen = 0 \<or> slen \<ge> LONG_STR_SIZE then Some None
      else do {
        c \<leftarrow> mem_get s 0;
        if slen = 1 \<and> c = 48 then Some (Some 0)
        else do {
          let negative = (c = 45);
          let plen = (if negative then 1 else 0);
          if plen = slen then Some None
          else do {
            c \<leftarrow> mem_get s plen;
            if 49 \<le> c \<and> c \<le> 57 then do {
              r \<leftarrow> string2ll_loop s slen (plen + 1) (ucast (c - 48));
              (case r of
                 None \<Rightarrow> Some None
               | Some (plen, v) \<Rightarrow>
                   if plen < slen then Some None
                   else if negative then
                     (if v > word_of_int (- (LLONG_MIN + 1)) + 1 then Some None
                      else Some (Some (sint (- v))))
                   else
                     (if v > word_of_int LLONG_MAX then Some None
                      else Some (Some (sint v))))
            } else Some None
          }
        }
      })"

definition LONG_MAX :: int where "LONG_MAX = 2 ^ 63 - 1"
definition LONG_MIN :: int where "LONG_MIN = - (2 ^ 63)"

definition string2l :: "byte list \<Rightarrow> nat \<Rightarrow> int option option" where
  "string2l s slen =
     do {
       r \<leftarrow> string2ll s slen;
       (case r of
          None \<Rightarrow> Some None
        | Some llval \<Rightarrow>
            if llval < LONG_MIN \<or> llval > LONG_MAX then Some None else Some (Some llval))
     }"

fun mempbrk_inner :: "byte \<Rightarrow> byte list \<Rightarrow> nat \<Rightarrow> nat \<Rightarrow> bool option" where
  "mempbrk_inner c chars n 0 = Some False"
| "mempbrk_inner c chars n (Suc k) =
     do { x \<leftarrow> mem_get chars n; if c = x then Some True else mempbrk_inner c chars (Suc n) k }"

text \<open>The offset of the byte found, \<open>Some None\<close> for \<^verbatim>\<open>NULL\<close>; \<open>j\<close> counts up and the last argument
  down.\<close>

fun mempbrk_loop :: "byte list \<Rightarrow> byte list \<Rightarrow> nat \<Rightarrow> nat \<Rightarrow> nat \<Rightarrow> nat option option" where
  "mempbrk_loop s chars charslen j 0 = Some None"
| "mempbrk_loop s chars charslen j (Suc k) =
     do {
       c \<leftarrow> mem_get s j;
       hit \<leftarrow> mempbrk_inner c chars 0 charslen;
       if hit then Some (Some j) else mempbrk_loop s chars charslen (Suc j) k
     }"

definition mempbrk :: "byte list \<Rightarrow> nat \<Rightarrow> byte list \<Rightarrow> nat \<Rightarrow> nat option option" where
  "mempbrk s len chars charslen = mempbrk_loop s chars charslen 0 len"

fun memmapchars_inner :: "byte \<Rightarrow> byte list \<Rightarrow> byte list \<Rightarrow> nat \<Rightarrow> nat \<Rightarrow> byte option" where
  "memmapchars_inner c frm to i 0 = Some c"
| "memmapchars_inner c frm to i (Suc k) =
     do {
       x \<leftarrow> mem_get frm i;
       if c = x then mem_get to i else memmapchars_inner c frm to (Suc i) k
     }"

fun memmapchars_loop :: "byte list \<Rightarrow> byte list \<Rightarrow> byte list \<Rightarrow> nat \<Rightarrow> nat \<Rightarrow> nat \<Rightarrow> byte list option" where
  "memmapchars_loop s frm to setlen j 0 = Some s"
| "memmapchars_loop s frm to setlen j (Suc k) =
     do {
       c \<leftarrow> mem_get s j;
       c' \<leftarrow> memmapchars_inner c frm to 0 setlen;
       s' \<leftarrow> mem_put s j c';
       memmapchars_loop s' frm to setlen (Suc j) k
     }"

definition memmapchars :: "byte list \<Rightarrow> nat \<Rightarrow> byte list \<Rightarrow> byte list \<Rightarrow> nat \<Rightarrow> byte list option" where
  "memmapchars s len frm to setlen = memmapchars_loop s frm to setlen 0 len"

section \<open>Decimal notation: counting, writing and reading digits\<close>

lemma dec_small [simp]: "n < 10 \<Longrightarrow> dec n = [n]"
  by (simp add: dec.simps)

lemma dec_large: "10 \<le> n \<Longrightarrow> dec n = dec (n div 10) @ [n mod 10]"
  by (subst dec.simps) simp

lemma dec_nonempty [simp]: "dec n \<noteq> []"
  by (subst dec.simps) simp

lemma dec_lt_10: "d \<in> set (dec n) \<Longrightarrow> d < 10"
  by (induction n rule: dec.induct) (subst (asm) (2) dec.simps, auto split: if_splits)

lemma length_dec_bounds: "n < 10 ^ length (dec n) \<and> (10 \<le> n \<longrightarrow> 10 ^ (length (dec n) - 1) \<le> n)"
proof (induction n rule: dec.induct)
  case (1 n)
  show ?case
  proof (cases "n < 10")
    case False
    then have IH: "n div 10 < 10 ^ length (dec (n div 10))"
      "10 \<le> n div 10 \<longrightarrow> 10 ^ (length (dec (n div 10)) - 1) \<le> n div 10"
      using 1 by auto
    have "10 ^ (length (dec (n div 10)) - 1) \<le> n div 10"
      using IH(2) False by (cases "n div 10 < 10") auto
    then have "10 * 10 ^ (length (dec (n div 10)) - 1) \<le> n" by linarith
    moreover have "10 * 10 ^ (length (dec (n div 10)) - 1) = (10::nat) ^ length (dec (n div 10))"
      by (metis Suc_diff_1 dec_nonempty length_greater_0_conv power_Suc)
    ultimately show ?thesis using IH(1) False by (auto simp: dec_large)
  qed simp
qed

lemma length_dec_eqI:
  assumes "n < 10 ^ k" "10 ^ (k - 1) \<le> n" "0 < k"
  shows "length (dec n) = k"
proof (cases "n < 10")
  case True
  then have "(10::nat) ^ (k - 1) < 10 ^ 1" using assms(2) by simp
  then have "k - 1 < 1" by (rule power_less_imp_less_exp [rotated]) simp
  with assms(3) True show ?thesis by simp
next
  case False
  let ?l = "length (dec n)"
  have b: "n < 10 ^ ?l" "10 ^ (?l - 1) \<le> n" using length_dec_bounds [of n] False by auto
  have "(10::nat) ^ (k - 1) < 10 ^ ?l" using assms(2) b(1) by linarith
  then have 1: "k - 1 < ?l" by (rule power_less_imp_less_exp [rotated]) simp
  have "(10::nat) ^ (?l - 1) < 10 ^ k" using assms(1) b(2) by linarith
  then have 2: "?l - 1 < k" by (rule power_less_imp_less_exp [rotated]) simp
  have "?l > 0" by simp
  with 1 2 assms(3) show ?thesis by linarith
qed

lemma length_dec_le: "length (dec n) \<le> k" if "n < 10 ^ k" "0 < k"
proof (cases "n < 10")
  case False
  have "(10::nat) ^ (length (dec n) - 1) < 10 ^ k"
    using length_dec_bounds [of n] False that(1) by linarith
  then have "length (dec n) - 1 < k" by (rule power_less_imp_less_exp [rotated]) simp
  then show ?thesis by linarith
qed (use that in simp)

lemma length_dec_div:
  assumes "10 ^ k \<le> n"
  shows "length (dec n) = k + length (dec (n div 10 ^ k))"
  using assms
proof (induction k arbitrary: n)
  case (Suc k)
  have "10 \<le> n" using Suc.prems by (metis le_trans mult.commute mult_le_mono1 one_le_numeral one_le_power power_Suc nat_mult_1)
  moreover have "10 ^ k \<le> n div 10" using Suc.prems by (simp add: less_eq_div_iff_mult_less_eq mult.commute)
  moreover have "n div 10 div 10 ^ k = n div 10 ^ Suc k" by (simp add: div_mult2_eq)
  ultimately show ?case using Suc.IH [of "n div 10"] by (simp add: dec_large)
qed simp

lemma digits10_rec:
  assumes "1000000000000 \<le> unat (v :: u64)"
  shows "length (dec (unat v)) = 12 + length (dec (unat (v div 1000000000000)))"
  using length_dec_div [of 12 "unat v"] assms by (simp add: unat_div_distrib)

lemma digits10_length: "unat (digits10 v) = length (dec (unat v))"
proof (induction v rule: digits10.induct)
  case (1 v)
  have len: "length (dec (unat v)) = k"
    if "unat v < 10 ^ k" "10 ^ (k - 1) \<le> unat v" "0 < k" for k
    using length_dec_eqI [OF that] .
  consider "unat v < 10" | "10 \<le> unat v" "unat v < 1000000000000" | "1000000000000 \<le> unat v"
    by linarith
  then show ?case
  proof cases
    case 2
    then show ?thesis
      by (subst digits10.simps)
        (auto simp: word_less_nat_alt word_le_nat_alt len [of 2] len [of 3] len [of 4] len [of 5]
          len [of 6] len [of 7] len [of 8] len [of 9] len [of 10] len [of 11] len [of 12])
  next
    case 3
    have small: "length (dec (unat (v div 1000000000000))) \<le> 8"
    proof -
      have "unat v < 2 ^ 64" using unsigned_less [of v] by simp
      then have "unat (v div 1000000000000) < 10 ^ 8" by (simp add: unat_div_distrib)
      then show ?thesis by (rule length_dec_le) simp
    qed
    have "unat (12 + digits10 (v div 1000000000000)) = 12 + unat (digits10 (v div 1000000000000))"
      using 1 3 small by (subst unat_add_lem [THEN iffD1]) (auto simp: word_less_nat_alt)
    then show ?thesis
      using 1 3 by (subst digits10.simps) (auto simp: word_less_nat_alt digits10_rec)
  qed (simp add: digits10.simps word_less_nat_alt)
qed

section \<open>Writing numbers\<close>

lemma length_dec_bytes [simp]: "length (dec_bytes n) = length (dec n)"
  by (simp add: dec_bytes_def)

lemma dec_bytes_nonempty [simp]: "dec_bytes n \<noteq> []"
  by (simp add: dec_bytes_def)

lemma concat_pairs_nth:
  "k < length xs \<Longrightarrow>
     concat (map (\<lambda>k. [f k, g k]) xs) ! (2 * k) = f (xs ! k) \<and>
     concat (map (\<lambda>k. [f k, g k]) xs) ! Suc (2 * k) = g (xs ! k)"
  by (induction xs arbitrary: k) (auto simp: nth_Cons split: nat.splits)

lemma length_concat_pairs: "length (concat (map (\<lambda>k. [f k, g k]) xs)) = 2 * length xs"
  by (induction xs) auto

lemma digits_concat:
  "digits = concat (map (\<lambda>k. [digit (k div 10), digit (k mod 10)]) [0..<100]) @ [0]"
  by (simp add: digits_def digit_def upt_rec)

lemma digits_table:
  assumes "k < 100"
  shows "digits ! (2 * k) = digit (k div 10)" "digits ! Suc (2 * k) = digit (k mod 10)"
proof -
  define ks :: "nat list" where "ks = [0..<100]"
  have "k < length ks" "ks ! k = k"
    unfolding ks_def using nth_upt [of 0 k 100] length_upt [of 0 100] assms by auto
  then show "digits ! (2 * k) = digit (k div 10)" "digits ! Suc (2 * k) = digit (k mod 10)"
    using concat_pairs_nth [of k ks "\<lambda>k. digit (k div 10)" "\<lambda>k. digit (k mod 10)"]
      length_concat_pairs [of "\<lambda>k. digit (k div 10)" "\<lambda>k. digit (k mod 10)" ks]
    unfolding digits_concat ks_def [symmetric] by (simp_all add: nth_append)
qed

lemma length_digits [simp]: "length digits = 201"
  by (simp add: digits_def)

lemma dec_two: "10 \<le> n \<Longrightarrow> n < 100 \<Longrightarrow> dec n = [n div 10, n mod 10]"
  by (simp add: dec_large)

lemma dec_100:
  assumes "100 \<le> n"
  shows "dec n = dec (n div 100) @ [n mod 100 div 10, n mod 100 mod 10]"
proof -
  have "10 \<le> n" "10 \<le> n div 10" using assms by linarith+
  then have "dec n = dec (n div 10 div 10) @ [n div 10 mod 10, n mod 10]"
    by (metis append.assoc append_Cons append_Nil dec_large)
  moreover have "n mod 100 = 10 * (n div 10 mod 10) + n mod 10"
    using mod_mult2_eq [of n 10 10] by simp
  then have "n mod 100 div 10 = n div 10 mod 10" "n mod 100 mod 10 = n mod 10" by simp_all
  ultimately show ?thesis by (simp add: div_mult2_eq [symmetric])
qed

lemma list_update_two:
  assumes "Suc n < length b"
  shows "b[Suc n := y, n := x] = take n b @ x # y # drop (Suc (Suc n)) b"
proof -
  define p q where "p = take n b" and "q = drop (Suc (Suc n)) b"
  have "b = p @ b ! n # b ! Suc n # q"
    using assms by (simp add: p_def q_def Cons_nth_drop_Suc)
  moreover have "length p = n" using assms by (simp add: p_def)
  ultimately have "b[Suc n := y, n := x] = p @ x # y # q"
    by (metis append_Cons append_Nil length_append_singleton list_update_length append_assoc)
  then show ?thesis by (simp add: p_def q_def)
qed

lemma ull2string_digits_ok:
  assumes "unat nxt + 1 = length (dec (unat v))" and "dst + unat nxt < length b"
  shows "ull2string_digits b dst nxt v =
           Some (take dst b @ dec_bytes (unat v) @ drop (dst + unat nxt + 1) b)"
  using assms
proof (induction b dst nxt v rule: ull2string_digits.induct)
  case (1 b dst nxt v)
  have v: "unat (v mod 100) = unat v mod 100" "unat (v div 100) = unat v div 100"
    by (simp_all add: unat_div_distrib unat_mod_distrib)
  consider "unat v < 10" | "10 \<le> unat v" "unat v < 100" | "100 \<le> unat v" by linarith
  then show ?case
  proof cases
    case 1
    have "unat nxt = 0" using "1.prems"(1) 1 by simp
    moreover have "48 + ucast v = digit (unat v)"
      by (simp add: digit_def of_nat_unat)
    ultimately show ?thesis
      using 1 "1.prems"(2)
      by (simp add: ull2string_digits.simps word_le_nat_alt word_less_nat_alt dec_bytes_def
          upd_conv_take_nth_drop)
  next
    case 2
    have n1: "unat nxt = 1" using "1.prems"(1) 2 by (simp add: dec_two)
    then have "nxt = 1" by (metis unat_1 word_unat_eq_iff)
    then have n0: "unat (nxt - 1) = 0" by simp
    show ?thesis
      using 2 "1.prems"(2) n0 n1 digits_table [of "unat v"] list_update_two [where n = dst and b = b]
      by (subst ull2string_digits.simps)
        (simp add: word_le_nat_alt word_less_nat_alt dec_bytes_def dec_two)
  next
    case 3
    let ?n = "unat nxt - 1"
    have len: "unat nxt + 1 = length (dec (unat v div 100)) + 2"
      using "1.prems"(1) 3 by (simp add: dec_100)
    moreover have "0 < length (dec (unat v div 100))" by simp
    ultimately have n2: "2 \<le> unat nxt" by linarith
    have n1: "unat (nxt - 1) = unat nxt - 1" "unat (nxt - 2) = unat nxt - 2"
      using n2 by (simp_all add: unat_sub word_le_nat_alt)
    define b2 where "b2 = b[dst + unat nxt := digits ! Suc (2 * (unat v mod 100)),
                             dst + unat (nxt - 1) := digits ! (2 * (unat v mod 100))]"
    have nx: "dst + unat nxt = Suc (dst + unat (nxt - 1))" using n1 n2 by simp
    have "Suc (dst + unat (nxt - 1)) < length b" using nx "1.prems"(2) by simp
    from list_update_two [OF this]
    have b2: "b2 = take (dst + unat (nxt - 1)) b @ digit (unat v mod 100 div 10) #
                    digit (unat v mod 100 mod 10) # drop (Suc (dst + unat nxt)) b"
      by (simp add: b2_def nx digits_table)
    have "ull2string_digits b dst nxt v = ull2string_digits b2 dst (nxt - 2) (v div 100)"
      using 3 "1.prems"(2) n1 n2 
      by (subst ull2string_digits.simps) (simp add: word_le_nat_alt v b2_def Let_def)
    also have "\<dots> = Some (take dst b2 @ dec_bytes (unat (v div 100)) @ drop (dst + unat (nxt - 2) + 1) b2)"
    proof (rule "1.IH")
      show "100 \<le> v" using 3 by (simp add: word_le_nat_alt)
    qed (use 3 len n1 n2 "1.prems" in \<open>auto simp: word_le_nat_alt v b2_def\<close>)
    also have "\<dots> = Some (take dst b @ dec_bytes (unat v) @ drop (dst + unat nxt + 1) b)"
      using 3 n1 n2 "1.prems"(2) by (simp add: b2 v dec_bytes_def dec_100)
    finally show ?thesis .
  qed
qed

lemma dec_bytes_length_u64: "length (dec (unat (v::u64))) \<le> 20"
proof -
  have "unat v < 2 ^ 64" using unsigned_less [of v] by simp
  then have "unat v < 10 ^ 20" by simp
  then show ?thesis by (rule length_dec_le) simp
qed

text \<open>What a conversion to a string leaves in the buffer: the text and its terminator, or an empty
  string when it does not fit.\<close>

definition string_written :: "byte list \<Rightarrow> nat \<Rightarrow> nat \<Rightarrow> byte list \<Rightarrow> byte list \<times> nat" where
  "string_written b dst dstlen str =
     (if length str < dstlen then (take dst b @ str @ [0] @ drop (dst + length str + 1) b, length str)
      else if 0 < dstlen then (b[dst := 0], 0) else (b, 0))"

lemma ull2string_ok:
  assumes "dst + dstlen \<le> length b"
  shows "ull2string b dst dstlen value =
           Some (map_prod id of_nat (string_written b dst dstlen (dec_bytes (unat value))))"
proof (cases "length (dec (unat value)) < dstlen")
  case True
  let ?n = "length (dec (unat value))"
  have n: "unat (digits10 value) = ?n" by (rule digits10_length)
  have "0 < ?n" by simp
  then have pos: "1 \<le> digits10 value" by (simp add: word_le_nat_alt n Suc_le_eq)
  have nx: "unat (digits10 value - 1) = ?n - 1" using unat_sub [OF pos] by (simp add: n)
  have "ull2string_digits (b[dst + ?n := 0]) dst (digits10 value - 1) value =
          Some (take dst b @ dec_bytes (unat value) @ drop (dst + ?n) (b[dst + ?n := 0]))"
    using ull2string_digits_ok [of "digits10 value - 1" "value" dst "b[dst + ?n := 0]"] True assms nx \<open>0 < ?n\<close>
    by simp
  moreover have "drop (dst + ?n) (b[dst + ?n := 0]) = 0 # drop (dst + ?n + 1) b"
    using True assms by (simp add: upd_conv_take_nth_drop)
  moreover have "of_nat ?n = digits10 value" by (simp add: n [symmetric])
  ultimately show ?thesis
    using True assms by (simp add: ull2string_def string_written_def n Let_def)
next
  case False
  then show ?thesis using assms
    by (auto simp: ull2string_def string_written_def digits10_length)
qed


lemma uint64_abs:
  assumes "is_int64 v" "v < 0"
  shows "unat (if v \<noteq> LLONG_MIN then word_of_int (- v) else word_of_int LLONG_MAX + 1 :: u64) = nat (- v)"
proof -
  have "uint (word_of_int (- v) :: u64) = - v"
    using assms by (simp only: uint_word_of_int fits_def) simp
  moreover have "(word_of_int LLONG_MAX + 1 :: u64) = word_of_int (- LLONG_MIN)"
    by (simp add: LLONG_MAX_def LLONG_MIN_def)
  ultimately show ?thesis by (auto simp flip: nat_uint_eq)
qed

lemma unat_int64:
  assumes "is_int64 v" "0 \<le> v"
  shows "unat (word_of_int v :: u64) = nat v"
  using assms by (simp add: fits_def uint_word_of_int flip: nat_uint_eq)

lemma ll2string_ok:
  assumes "dst + dstlen \<le> length b" "is_int64 v"
  shows "\<exists>b'. ll2string b dst dstlen v =
           Some (b', of_nat (if length (int_bytes v) < dstlen then length (int_bytes v) else 0)) \<and>
           (length (int_bytes v) < dstlen \<longrightarrow>
              b' = take dst b @ int_bytes v @ [0] @ drop (dst + length (int_bytes v) + 1) b)"
proof (cases "v < 0")
  case True
  have wr: "(b[dst := 45])[Suc dst := x] = b[dst := 45, Suc dst := x]" for x by simp
  show ?thesis
  proof (cases "dstlen < 2")
    case True
    with \<open>v < 0\<close> assms show ?thesis
      by (auto simp: ll2string_def int_bytes_def)
  next
    case False
    let ?u = "if v \<noteq> LLONG_MIN then word_of_int (- v) else word_of_int LLONG_MAX + 1 :: u64"
    let ?n = "length (dec (nat (- v)))"
    have u: "unat ?u = nat (- v)" by (rule uint64_abs) (use assms True in auto)
    have "?n \<le> 20" using dec_bytes_length_u64 [of ?u] u by simp
    moreover have "0 < ?n" by simp
    ultimately have n0: "(of_nat ?n :: u32) \<noteq> 0" by (simp add: of_nat_eq_0_iff unat_of_nat word_unat_eq_iff)
    have "ull2string (b[dst := 45]) (Suc dst) (dstlen - 1) ?u =
            Some (map_prod id of_nat (string_written (b[dst := 45]) (Suc dst) (dstlen - 1) (dec_bytes (nat (- v)))))"
      using ull2string_ok [of "Suc dst" "dstlen - 1" "b[dst := 45]" ?u] False assms(1) u by simp
    with False True assms(1) n0 show ?thesis
      by (auto simp: ll2string_def int_bytes_def string_written_def Let_def upd_conv_take_nth_drop add.commute)
  qed
next
  case False
  let ?n = "length (dec (nat v))"
  have u: "unat (word_of_int v :: u64) = nat v" by (rule unat_int64) (use assms False in auto)
  have "?n \<le> 20" using dec_bytes_length_u64 [of "word_of_int v"] u by simp
  moreover have "0 < ?n" by simp
  ultimately have n0: "(of_nat ?n :: u32) \<noteq> 0" by (simp add: of_nat_eq_0_iff unat_of_nat word_unat_eq_iff)
  from ull2string_ok [OF assms(1), of "word_of_int v"] u False n0 show ?thesis
    by (auto simp: ll2string_def int_bytes_def string_written_def)
qed

section \<open>Reading numbers\<close>

definition is_digit :: "byte \<Rightarrow> bool" where
  "is_digit c \<longleftrightarrow> 48 \<le> c \<and> c \<le> 57"

definition dec_val :: "nat \<Rightarrow> byte list \<Rightarrow> nat" where
  "dec_val = foldl (\<lambda>a c. 10 * a + (unat c - 48))"

lemma dec_val_simps [simp]:
  "dec_val a [] = a"
  "dec_val a (c # cs) = dec_val (10 * a + (unat c - 48)) cs"
  "dec_val a (cs @ [c]) = 10 * dec_val a cs + (unat c - 48)"
  by (simp_all add: dec_val_def)

lemma dec_val_ge: "a \<le> dec_val a cs"
proof (induction cs arbitrary: a)
  case (Cons c cs)
  show ?case using Cons [of "10 * a + (unat c - 48)"] by simp
qed simp

lemma unat_digit: "d < 10 \<Longrightarrow> unat (digit d) = 48 + d"
  by (simp add: digit_def unat_word_ariths unat_of_nat)

lemma is_digit_digit: "d < 10 \<Longrightarrow> is_digit (digit d)"
  by (simp add: is_digit_def word_le_nat_alt unat_digit)

lemma digit_unat: "is_digit c \<Longrightarrow> digit (unat c - 48) = c"
  by (rule word_unat_eq_iff [THEN iffD2]) (auto simp: is_digit_def word_le_nat_alt unat_digit)

lemma is_digit_bound: "is_digit c \<Longrightarrow> unat c - 48 < 10"
  by (auto simp: is_digit_def word_le_nat_alt)

lemma dec_bytes_digits: "c \<in> set (dec_bytes n) \<Longrightarrow> is_digit c"
  by (auto simp: dec_bytes_def intro: is_digit_digit dec_lt_10)

lemma dec_bytes_small: "n < 10 \<Longrightarrow> dec_bytes n = [digit n]"
  by (simp add: dec_bytes_def)

lemma dec_bytes_large: "10 \<le> n \<Longrightarrow> dec_bytes n = dec_bytes (n div 10) @ [digit (n mod 10)]"
  by (simp add: dec_bytes_def dec_large)

lemma dec_val_dec_bytes [simp]: "dec_val 0 (dec_bytes n) = n"
proof (induction n rule: dec.induct)
  case (1 n)
  then show ?case
    by (cases "n < 10") (simp_all add: dec_bytes_small dec_bytes_large unat_digit)
qed

definition canonical :: "byte list \<Rightarrow> bool" where
  "canonical bs \<longleftrightarrow> bs \<noteq> [] \<and> (\<forall>c \<in> set bs. is_digit c) \<and> hd bs \<noteq> 48"

lemma dec_bytes_dec_val:
  "canonical bs \<Longrightarrow> dec_bytes (dec_val 0 bs) = bs \<and> 0 < dec_val 0 bs"
proof (induction bs rule: rev_induct)
  case (snoc c cs)
  have c: "is_digit c" "unat c - 48 < 10"
    using snoc.prems is_digit_bound by (auto simp: canonical_def)
  show ?case
  proof (cases "cs = []")
    case True
    moreover have "c \<noteq> 48" using snoc.prems True by (simp add: canonical_def)
    then have "unat c \<noteq> unat (48 :: byte)" by (simp only: word_unat_eq_iff not_False_eq_True)
    ultimately show ?thesis using c by (auto simp: dec_bytes_small digit_unat is_digit_def word_le_nat_alt)
  next
    case False
    then have "canonical cs" using snoc.prems by (simp add: canonical_def)
    with snoc.IH have IH: "dec_bytes (dec_val 0 cs) = cs" "0 < dec_val 0 cs" by auto
    then show ?thesis using c by (simp add: dec_bytes_large digit_unat)
  qed
qed (simp add: canonical_def)

lemma dec_bytes_canonical:
  assumes "0 < n"
  shows "canonical (dec_bytes n)"
proof -
  have "hd (dec_bytes n) \<noteq> 48"
    using assms
  proof (induction n rule: dec.induct)
    case (1 n)
    show ?case
    proof (cases "n < 10")
      case True
      then have "unat (digit n) \<noteq> unat (48 :: byte)" using "1.prems" by (simp add: unat_digit)
      with True show ?thesis by (auto simp: dec_bytes_small)
    next
      case False
      then show ?thesis using 1 by (simp add: dec_bytes_large)
    qed
  qed
  then show ?thesis by (simp add: canonical_def dec_bytes_digits)
qed

lemma unat_ucast_byte_u64 [simp]: "unat (ucast (c :: byte) :: u64) = unat c"
proof -
  have "unat c < 2 ^ 8" using unsigned_less [of c] by simp
  then show ?thesis by (simp add: unsigned_ucast_eq take_bit_nat_eq_self)
qed

lemma string2ll_step:
  fixes v :: u64
  assumes "is_digit c"
  shows "v > ULLONG_MAX div 10 \<or> v * 10 > ULLONG_MAX - ucast (c - 48) \<longleftrightarrow>
           \<not> 10 * unat v + (unat c - 48) < 2 ^ 64"
    and "10 * unat v + (unat c - 48) < 2 ^ 64 \<Longrightarrow>
           unat (v * 10 + ucast (c - 48)) = 10 * unat v + (unat c - 48)"
proof -
  let ?d = "ucast (c - 48) :: u64"
  have "48 \<le> c" using assms by (simp add: is_digit_def)
  then have d: "unat ?d = unat c - 48" by (simp add: unat_sub)
  have dlt: "unat c - 48 < 10" using assms by (rule is_digit_bound)
  have m: "unat (ULLONG_MAX div 10) = (2 ^ 64 - 1) div 10" "unat (ULLONG_MAX - ?d) = 2 ^ 64 - 1 - (unat c - 48)"
    subgoal by (simp add: ULLONG_MAX_def unat_div_distrib)
    subgoal
      using dlt d by (subst unat_sub) (simp_all add: ULLONG_MAX_def unsigned_minus_1_eq_mask mask_eq_exp_minus_1)
    done
  show "v > ULLONG_MAX div 10 \<or> v * 10 > ULLONG_MAX - ?d \<longleftrightarrow>
           \<not> 10 * unat v + (unat c - 48) < 2 ^ 64"
  proof (cases "unat v > (2 ^ 64 - 1) div 10")
    case True
    then show ?thesis using m by (simp add: word_less_nat_alt)
  next
    case False
    then have "unat (v * 10) = unat v * 10" by (simp add: unat_word_ariths)
    then show ?thesis using m False dlt by (simp add: word_less_nat_alt) linarith
  qed
  show "10 * unat v + (unat c - 48) < 2 ^ 64 \<Longrightarrow>
           unat (v * 10 + ?d) = 10 * unat v + (unat c - 48)"
    using d by (simp add: unat_word_ariths mult.commute)
qed


lemma string2ll_loop_digits:
  assumes "plen \<le> length s" "\<forall>c \<in> set (drop plen s). is_digit c"
  shows "string2ll_loop s (length s) plen v =
           Some (if dec_val (unat v) (drop plen s) < 2 ^ 64
                 then Some (length s, of_nat (dec_val (unat v) (drop plen s))) else None)"
  using assms
proof (induction s "length s" plen v rule: string2ll_loop.induct)
  case (1 s plen v)
  show ?case
  proof (cases "plen < length s")
    case True
    let ?c = "s ! plen"
    have dr: "drop plen s = ?c # drop (Suc plen) s" using True by (simp add: Cons_nth_drop_Suc)
    have dig: "is_digit ?c" "\<forall>c \<in> set (drop (Suc plen) s). is_digit c" using "1.prems"(2) dr by simp_all
    note st = string2ll_step [OF dig(1), of v]
    have lp: "string2ll_loop s (length s) plen v =
       (if v > ULLONG_MAX div 10 \<or> v * 10 > ULLONG_MAX - ucast (?c - 48) then Some None
        else string2ll_loop s (length s) (Suc plen) (v * 10 + ucast (?c - 48)))"
      using True dig(1) by (subst string2ll_loop.simps) (simp add: is_digit_def Let_def)
    show ?thesis
    proof (cases "10 * unat v + (unat ?c - 48) < 2 ^ 64")
      case True2: True
      have "string2ll_loop s (length s) (plen + 1) (v * 10 + ucast (?c - 48)) =
        Some (if dec_val (unat (v * 10 + ucast (?c - 48))) (drop (plen + 1) s) < 2 ^ 64
              then Some (length s, of_nat (dec_val (unat (v * 10 + ucast (?c - 48))) (drop (plen + 1) s)))
              else None)"
        by (rule "1.hyps" [OF True, of ?c]) (use True True2 dig st in \<open>auto simp: is_digit_def\<close>)
      then show ?thesis using lp st True2 by (simp add: dr)
    next
      case False
      then have "\<not> dec_val (unat v) (drop plen s) < 2 ^ 64"
        using dec_val_ge [of "10 * unat v + (unat ?c - 48)" "drop (Suc plen) s"] by (simp add: dr)
      then show ?thesis using lp st(1) False by simp
    qed
  next
    case False
    moreover have "unat v < 2 ^ 64" using unsigned_less [of v] by simp
    ultimately show ?thesis using "1.prems" by (subst string2ll_loop.simps) simp
  qed
qed

lemma string2ll_loop_reject:
  assumes "plen \<le> length s" "\<not> (\<forall>c \<in> set (drop plen s). is_digit c)"
  shows "\<exists>r. string2ll_loop s (length s) plen v = Some r \<and> (\<forall>p w. r = Some (p, w) \<longrightarrow> p < length s)"
  using assms
proof (induction s "length s" plen v rule: string2ll_loop.induct)
  case (1 s plen v)
  have lt: "plen < length s" using "1.prems" by (cases "plen = length s") auto
  let ?c = "s ! plen"
  have dr: "drop plen s = ?c # drop (Suc plen) s" using lt by (simp add: Cons_nth_drop_Suc)
  show ?case
  proof (cases "is_digit ?c")
    case True
    then have bad: "\<not> (\<forall>c \<in> set (drop (plen + 1) s). is_digit c)" using "1.prems"(2) dr by simp
    show ?thesis
    proof (cases "v > ULLONG_MAX div 10 \<or> v * 10 > ULLONG_MAX - ucast (?c - 48)")
      case False
      have "\<exists>r. string2ll_loop s (length s) (plen + 1) (v * 10 + ucast (?c - 48)) = Some r \<and>
              (\<forall>p w. r = Some (p, w) \<longrightarrow> p < length s)"
        by (rule "1.hyps" [OF lt, of ?c]) (use lt True False bad in \<open>auto simp: is_digit_def\<close>)
      then show ?thesis
        using lt True False by (subst string2ll_loop.simps) (simp add: is_digit_def Let_def)
    qed (use lt True in \<open>subst string2ll_loop.simps, auto simp: is_digit_def Let_def\<close>)
  next
    case False
    then have "\<not> (48 \<le> ?c \<and> ?c \<le> 57)" by (simp add: is_digit_def)
    then have "string2ll_loop s (length s) plen v = Some (Some (plen, v))"
      using lt by (subst string2ll_loop.simps) (simp del: de_Morgan_conj)
    then show ?thesis using lt by simp
  qed
qed


lemma length_int_bytes:
  assumes "is_int64 n"
  shows "length (int_bytes n) < LONG_STR_SIZE"
proof -
  have "length (dec (nat (- n))) \<le> 19" "length (dec (nat n)) \<le> 19"
    using assms by (auto intro!: length_dec_le simp: fits_def)
  then show ?thesis by (auto simp: int_bytes_def LONG_STR_SIZE_def)
qed

lemma sint_u64:
  assumes "D \<le> 2 ^ 63"
  shows "sint (- of_nat D :: u64) = - int D" and "D < 2 ^ 63 \<Longrightarrow> sint (of_nat D :: u64) = int D"
proof -
  have k: "sint (word_of_int k :: u64) = k" if "- (2 ^ 63) \<le> k" "k < 2 ^ 63" for k :: int
    using signed_take_bit_int_eq_self [of 63 k] that by (simp add: signed_of_int)
  show "sint (- of_nat D :: u64) = - int D" using k [of "- int D"] assms by simp
  show "D < 2 ^ 63 \<Longrightarrow> sint (of_nat D :: u64) = int D" using k [of "int D"] by simp
qed

lemma unat_of_nat_u64: "D < 2 ^ 64 \<Longrightarrow> unat (of_nat D :: u64) = D"
  by (simp add: unat_of_nat)

lemma string2ll_number:
  assumes "s = (if neg then 45 # bs else bs)" and "\<not> neg \<Longrightarrow> bs \<noteq> [] \<and> hd bs \<noteq> 45"
    and "length s < LONG_STR_SIZE" and "s \<noteq> [48]"
  shows "string2ll s (length s) =
           Some (if canonical bs \<and> int (dec_val 0 bs) < 2 ^ 63 + of_bool neg
                 then Some (if neg then - int (dec_val 0 bs) else int (dec_val 0 bs)) else None)"
proof -
  let ?p = "if neg then 1 else 0 :: nat"
  have hd: "mem_get s 0 = Some (s ! 0)" "s \<noteq> []" "s ! 0 = 45 \<longleftrightarrow> neg"
    using assms(1,2) by (auto simp: hd_conv_nth split: if_splits)
  have n48: "\<not> (length s = 1 \<and> s ! 0 = 48)" using assms(4) by (cases s) auto
  show ?thesis
  proof (cases bs)
    case Nil
    then show ?thesis using assms hd by (auto simp: string2ll_def canonical_def LONG_STR_SIZE_def)
  next
    case (Cons c cs)
    have len: "?p < length s" "s ! ?p = c" "drop (?p + 1) s = cs" using assms(1) Cons by auto
    have unf: "string2ll s (length s) =
       (if 49 \<le> c \<and> c \<le> 57 then do {
              r \<leftarrow> string2ll_loop s (length s) (?p + 1) (ucast (c - 48));
              (case r of
                 None \<Rightarrow> Some None
               | Some (plen, v) \<Rightarrow>
                   if plen < length s then Some None
                   else if neg then
                     (if v > word_of_int (- (LLONG_MIN + 1)) + 1 then Some None
                      else Some (Some (sint (- v))))
                   else
                     (if v > word_of_int LLONG_MAX then Some None
                      else Some (Some (sint v))))
            } else Some None)"
      using assms(3) hd n48 len by (auto simp: string2ll_def Let_def)
    show ?thesis
    proof (cases "49 \<le> c \<and> c \<le> 57")
      case False
      then have "\<not> canonical bs"
        by (auto simp: canonical_def Cons is_digit_def word_le_nat_alt word_unat_eq_iff)
      with False show ?thesis by (auto simp: unf)
    next
      case True
      then have c: "is_digit c" "c \<noteq> 48" "unat (c - 48) = unat c - 48"
        by (auto simp: is_digit_def word_le_nat_alt unat_sub)
      show ?thesis
      proof (cases "\<forall>c \<in> set cs. is_digit c")
        case dig: True
        define D where "D = dec_val 0 bs"
        have "canonical bs" using c dig by (simp add: canonical_def Cons)
        moreover have "string2ll_loop s (length s) (?p + 1) (ucast (c - 48)) =
            Some (if D < 2 ^ 64 then Some (length s, of_nat D) else None)"
          using string2ll_loop_digits [of "?p + 1" s "ucast (c - 48)"] len dig c(3)
          by (simp add: D_def Cons)
        moreover have "(word_of_int (- (LLONG_MIN + 1)) + 1 < (of_nat D :: u64)) = (2 ^ 63 < D)"
          "(word_of_int LLONG_MAX < (of_nat D :: u64)) = (2 ^ 63 \<le> D)" if "D < 2 ^ 64"
          using unat_of_nat_u64 [OF that]
          by (simp_all add: LLONG_MIN_def LLONG_MAX_def word_less_nat_alt Suc_le_eq [symmetric] del: unsigned_of_nat)
        ultimately show ?thesis
          using True sint_u64 [of D] by (auto simp: unf simp flip: D_def)
      next
        case bad: False
        then have "\<not> canonical bs" by (auto simp: canonical_def Cons)
        moreover obtain r where "string2ll_loop s (length s) (?p + 1) (ucast (c - 48)) = Some r"
          "\<forall>p w. r = Some (p, w) \<longrightarrow> p < length s"
          using string2ll_loop_reject [of "?p + 1" s "ucast (c - 48)"] len bad by auto
        ultimately show ?thesis using True by (auto simp: unf split: option.splits)
      qed
    qed
  qed
qed


lemma int_bytes_cases:
  assumes "is_int64 n"
  shows "int_bytes n = [48] \<and> n = 0 \<or>
         (\<exists>bs. canonical bs \<and> int_bytes n = (if n < 0 then 45 # bs else bs) \<and>
               int (dec_val 0 bs) = \<bar>n\<bar>)"
proof (cases "n = 0")
  case True
  then show ?thesis by (simp add: int_bytes_def dec_bytes_def digit_def)
next
  case False
  then have "canonical (dec_bytes (nat \<bar>n\<bar>))" by (intro dec_bytes_canonical) simp
  then show ?thesis using False
    by (intro disjI2 exI [of _ "dec_bytes (nat \<bar>n\<bar>)"]) (auto simp: int_bytes_def)
qed

lemma canonical_hd: "canonical bs \<Longrightarrow> bs \<noteq> [] \<and> hd bs \<noteq> 45 \<and> bs \<noteq> [48]"
  by (cases bs) (auto simp: canonical_def is_digit_def word_le_nat_alt)

lemma int_bytes_canonical:
  assumes "canonical bs"
  shows "int_bytes (int (dec_val 0 bs)) = bs" "int_bytes (- int (dec_val 0 bs)) = 45 # bs"
  using dec_bytes_dec_val [OF assms] by (simp_all add: int_bytes_def)

lemma string2ll_int_bytes:
  assumes "is_int64 n"
  shows "string2ll (int_bytes n) (length (int_bytes n)) = Some (Some n)"
  using int_bytes_cases [OF assms]
proof (elim disjE exE conjE)
  fix bs assume bs: "canonical bs" "int_bytes n = (if n < 0 then 45 # bs else bs)" "int (dec_val 0 bs) = \<bar>n\<bar>"
  have "int_bytes n \<noteq> [48]" using bs canonical_hd [OF bs(1)] by auto
  then show ?thesis
    using string2ll_number [OF bs(2)] canonical_hd [OF bs(1)] length_int_bytes [OF assms] bs(1,3) assms
    by (auto simp: fits_def)
qed (simp add: string2ll_def LONG_STR_SIZE_def)

lemma int_bytes_inj: "is_int64 n \<Longrightarrow> is_int64 m \<Longrightarrow> int_bytes n = int_bytes m \<Longrightarrow> n = m"
  by (metis option.inject string2ll_int_bytes)

lemma string2ll_exact:
  "\<exists>r. string2ll s (length s) = Some r \<and> (\<forall>n. r = Some n \<longleftrightarrow> is_int64 n \<and> s = int_bytes n)"
proof (cases "s = [] \<or> LONG_STR_SIZE \<le> length s")
  case True
  then have "string2ll s (length s) = Some None" by (auto simp: string2ll_def)
  moreover have "s \<noteq> int_bytes n" if "is_int64 n" for n
    using True length_int_bytes [OF that] by (auto simp: int_bytes_def dest: sym)
  ultimately show ?thesis by blast
next
  case False
  show ?thesis
  proof (cases "s = [48]")
    case True
    have "s = int_bytes 0" using True by (simp add: int_bytes_def dec_bytes_def digit_def)
    then have "s = int_bytes n \<longleftrightarrow> n = 0" if "is_int64 n" for n
      using int_bytes_inj [OF that, of 0] by (auto simp: fits_def)
    moreover have "string2ll s (length s) = Some (Some 0)"
      using True by (simp add: string2ll_def LONG_STR_SIZE_def)
    moreover have "is_int64 0" by (simp add: fits_def)
    ultimately show ?thesis by auto
  next
    case n48: False
    define neg where "neg = (hd s = 45)"
    define bs where "bs = (if neg then tl s else s)"
    have s: "s = (if neg then 45 # bs else bs)" "\<not> neg \<Longrightarrow> bs \<noteq> [] \<and> hd bs \<noteq> 45"
      using False by (auto simp: neg_def bs_def neq_Nil_conv)
    define ok where "ok = (canonical bs \<and> int (dec_val 0 bs) < 2 ^ 63 + of_bool neg)"
    define m where "m = (if neg then - int (dec_val 0 bs) else int (dec_val 0 bs))"
    have r: "string2ll s (length s) = Some (if ok then Some m else None)"
      using string2ll_number [OF s] False n48 by (simp add: ok_def m_def)
    moreover have "is_int64 m \<and> s = int_bytes m" if ok
      using that s(1) int_bytes_canonical [of bs] by (auto simp: ok_def m_def fits_def)
    moreover have "ok \<and> n = m" if "is_int64 n" "s = int_bytes n" for n
      using string2ll_int_bytes [OF that(1)] r that(2) by (auto split: if_splits)
    ultimately show ?thesis by (intro exI [of _ "if ok then Some m else None"]) auto
  qed
qed


lemma sdigits10_length:
  assumes "is_int64 v"
  shows "unat (sdigits10 v) = length (int_bytes v)"
proof (cases "v < 0")
  case True
  let ?u = "if v \<noteq> LLONG_MIN then word_of_int (- v) else word_of_int LLONG_MAX + 1 :: u64"
  have u: "unat ?u = nat (- v)" using assms True by (rule uint64_abs)
  have "unat (digits10 ?u) \<le> 20" by (simp only: digits10_length dec_bytes_length_u64)
  then have "unat (digits10 ?u + 1) = unat (digits10 ?u) + 1" by (simp add: unat_word_ariths)
  then show ?thesis using True u by (simp add: sdigits10_def int_bytes_def digits10_length Let_def)
next
  case False
  then show ?thesis
    using unat_int64 [OF assms] by (simp add: sdigits10_def int_bytes_def digits10_length)
qed

section \<open>Buffers\<close>

lemma mempbrk_inner_ok:
  "n + k \<le> length chars \<Longrightarrow> mempbrk_inner c chars n k = Some (c \<in> set (take k (drop n chars)))"
proof (induction k arbitrary: n)
  case (Suc k)
  then have "drop n chars = chars ! n # drop (Suc n) chars" by (simp add: Cons_nth_drop_Suc)
  with Suc show ?case by auto
qed simp

lemma mempbrk_loop_ok:
  assumes "j + k \<le> length s" "charslen \<le> length chars"
  shows "mempbrk_loop s chars charslen j k =
           Some (if \<exists>i < k. s ! (j + i) \<in> set (take charslen chars)
                 then Some (j + (LEAST i. s ! (j + i) \<in> set (take charslen chars))) else None)"
  using assms
proof (induction k arbitrary: j)
  case (Suc k)
  let ?P = "\<lambda>i. s ! (j + i) \<in> set (take charslen chars)"
  have inner: "mempbrk_inner (s ! j) chars 0 charslen = Some (?P 0)"
    using mempbrk_inner_ok [of 0 charslen chars "s ! j"] Suc.prems by simp
  show ?case
  proof (cases "?P 0")
    case True
    then have "(LEAST i. ?P i) = 0" by (intro Least_equality) auto
    with True inner Suc.prems show ?thesis by (auto intro!: exI [of _ 0])
  next
    case False
    have ex: "(\<exists>i < Suc k. ?P i) \<longleftrightarrow> (\<exists>i < k. s ! (Suc j + i) \<in> set (take charslen chars))"
      using False by (auto simp: less_Suc_eq_0_disj)
    have "(LEAST i. ?P i) = Suc (LEAST i. ?P (Suc i))" if "\<exists>i < k. s ! (Suc j + i) \<in> set (take charslen chars)"
      using that False Least_Suc [of ?P "Suc i" for i] by auto
    with ex False inner Suc.IH [of "Suc j"] Suc.prems show ?thesis by auto
  qed
qed simp

fun subst_char :: "(byte \<times> byte) list \<Rightarrow> byte \<Rightarrow> byte" where
  "subst_char ps c = (case map_of ps c of None \<Rightarrow> c | Some d \<Rightarrow> d)"

lemma memmapchars_inner_ok:
  "i + k \<le> length frm \<Longrightarrow> i + k \<le> length to \<Longrightarrow>
     memmapchars_inner c frm to i k =
       Some (subst_char (zip (take k (drop i frm)) (take k (drop i to))) c)"
proof (induction k arbitrary: i)
  case (Suc k)
  then have "drop i frm = frm ! i # drop (Suc i) frm" "drop i to = to ! i # drop (Suc i) to"
    by (simp_all add: Cons_nth_drop_Suc)
  with Suc show ?case by simp
qed simp

lemma memmapchars_loop_ok:
  assumes "length xs = j" "length ys = k" "setlen \<le> length frm" "setlen \<le> length to"
  shows "memmapchars_loop (xs @ ys @ zs) frm to setlen j k =
           Some (xs @ map (subst_char (zip (take setlen frm) (take setlen to))) ys @ zs)"
  using assms
proof (induction k arbitrary: xs ys j)
  case (Suc k)
  then obtain y ys' where ys: "ys = y # ys'" by (cases ys) auto
  have "memmapchars_inner y frm to 0 setlen = Some (subst_char (zip (take setlen frm) (take setlen to)) y)"
    using memmapchars_inner_ok [of 0 setlen frm to y] Suc.prems by simp
  then show ?case
    using Suc.IH [of "xs @ [subst_char (zip (take setlen frm) (take setlen to)) y]" "Suc j" ys'] Suc.prems ys
    by (simp add: list_update_append nth_append del: subst_char.simps)
qed simp

section \<open>Properties\<close>

text \<open>C18. \<^verbatim>\<open>string2ll\<close> reads only the given bytes and accepts exactly the canonical decimal
  representations of the 64-bit signed integers: it returns 1 with the value \<open>n\<close> if and only if
  the string is the one and only decimal string of \<open>n\<close>.\<close>

theorem string2ll_accepts_exactly:
  "\<exists>r. string2ll s (length s) = Some r \<and> (\<forall>n. r = Some n \<longleftrightarrow> is_int64 n \<and> s = int_bytes n)"
  by (rule string2ll_exact)

text \<open>C19. Round trip: with the buffer of \<^verbatim>\<open>LONG_STR_SIZE\<close> bytes that the callers reserve, \<^verbatim>\<open>ll2string\<close>
  stays in the buffer, changes nothing outside it, returns the length \<^verbatim>\<open>sdigits10\<close> computes, and
  \<^verbatim>\<open>string2ll\<close> reads the same integer back.\<close>

theorem ll2string_string2ll:
  assumes "is_int64 v" "LONG_STR_SIZE \<le> dstlen" "dst + dstlen \<le> length b"
  shows "\<exists>b'. ll2string b dst dstlen v = Some (b', sdigits10 v) \<and>
           length b' = length b \<and> take dst b' = take dst b \<and>
           drop (dst + dstlen) b' = drop (dst + dstlen) b \<and>
           (let n = unat (sdigits10 v)
            in b' ! (dst + n) = 0 \<and> string2ll (take n (drop dst b')) n = Some (Some v))"
proof -
  let ?n = "length (int_bytes v)"
  have lt: "?n < dstlen" using length_int_bytes [OF assms(1)] assms(2) by simp
  have n: "of_nat ?n = sdigits10 v" "unat (sdigits10 v) = ?n"
    using sdigits10_length [OF assms(1)] by (simp_all add: word_unat_eq_iff flip: sdigits10_length [OF assms(1)])
  obtain b' where b': "ll2string b dst dstlen v = Some (b', sdigits10 v)"
    "b' = take dst b @ int_bytes v @ [0] @ drop (dst + ?n + 1) b"
    using ll2string_ok [OF assms(3,1)] lt n(1) by auto
  have "take ?n (drop dst b') = int_bytes v" "b' ! (dst + ?n) = 0"
    using assms(3) lt by (simp_all add: b'(2) nth_append)
  moreover have "length b' = length b" "take dst b' = take dst b"
    "drop (dst + dstlen) b' = drop (dst + dstlen) b"
    using assms(3) lt by (simp_all add: b'(2) drop_Cons' add.commute)
  ultimately show ?thesis
    using b'(1) n(2) string2ll_int_bytes [OF assms(1)] by (simp add: Let_def)
qed

theorem ll2string_string2ll_witness:
  "\<exists>b'. ll2string (replicate 24 7) 2 21 (-120) = Some (b', sdigits10 (-120)) \<and>
        string2ll (take 4 (drop 2 b')) 4 = Some (Some (-120))"
proof -
  have "unat (sdigits10 (-120)) = 4"
    using sdigits10_length [of "-120"] by (simp add: fits_def int_bytes_def dec_bytes_def dec_large)
  then show ?thesis
    using ll2string_string2ll [of "-120" 21 2 "replicate 24 7"] by (auto simp: fits_def LONG_STR_SIZE_def)
qed

text \<open>C20. \<^verbatim>\<open>memmapchars\<close> replaces, in the first \<open>len\<close> bytes and nowhere else, every byte of the \<open>from\<close> set by
  the byte at the same position of the \<open>to\<close> set, the first occurrence deciding, without mapping a
  byte twice.\<close>

theorem memmapchars_maps:
  assumes "len \<le> length s" "setlen \<le> length frm" "setlen \<le> length to"
  shows "memmapchars s len frm to setlen =
           Some (map (\<lambda>c. case map_of (zip (take setlen frm) (take setlen to)) c of None \<Rightarrow> c | Some d \<Rightarrow> d)
                   (take len s) @ drop len s)"
  using memmapchars_loop_ok [of "[]" 0 "take len s" len setlen frm to "drop len s"] assms
  by (simp add: memmapchars_def)

theorem memmapchars_maps_witness:
  "memmapchars (bytes_of ''hello'') 4 (bytes_of ''he'') (bytes_of ''ex'') 2 = Some (bytes_of ''exllo'')"
  using memmapchars_maps [of 4 "bytes_of ''hello''" 2 "bytes_of ''he''" "bytes_of ''ex''"] by simp

end
