(* ===== verification/Dict_Types.thy ===== *)
theory Dict_Types
  imports Dict_Ops Siphash Util_Numbers
begin

text \<open>
  The dict types of \<^verbatim>\<open>server.c\<close>: their hash and comparison callbacks over strings and string objects,
  and the proofs that they satisfy the contract \<open>dict_contract\<close> the dict relies on. Keys are SDS strings
  of less than 2 GiB: the comparison callbacks keep a length in an \<^verbatim>\<open>int\<close>. The 16-byte seed of the hash
  is an argument. Destructors are not modelled.
\<close>

section \<open>Strings\<close>

typedef sds = "{s :: byte list. length s < 2 ^ 31}" morphisms sds_bytes sds_of
  by (rule exI [of _ "[]"]) simp

definition sdslen :: "sds \<Rightarrow> nat" where
  "sdslen s = length (sds_bytes s)"

text \<open>The allocation behind the pointer: the string and its terminator.\<close>

definition terminated :: "byte list \<Rightarrow> byte list" where
  "terminated s = s @ [0]"

definition strlen :: "byte list \<Rightarrow> nat" where
  "strlen m = length (takeWhile (\<lambda>c. c \<noteq> 0) m)"

text \<open>\<^verbatim>\<open>memcmp(a,b,n) == 0\<close> and \<^verbatim>\<open>strcasecmp(a,b) == 0\<close> of the C library, in the C locale.\<close>

definition memcmp_eq :: "byte list \<Rightarrow> byte list \<Rightarrow> nat \<Rightarrow> bool option" where
  "memcmp_eq a b n = (if n \<le> length a \<and> n \<le> length b then Some (take n a = take n b) else None)"

definition strcasecmp_eq :: "byte list \<Rightarrow> byte list \<Rightarrow> bool" where
  "strcasecmp_eq a b \<longleftrightarrow>
     map lower (takeWhile (\<lambda>c. c \<noteq> 0) a) = map lower (takeWhile (\<lambda>c. c \<noteq> 0) b)"

section \<open>Hash and comparison callbacks\<close>

text \<open>A length is converted to \<^verbatim>\<open>int\<close> when it is stored and to \<^verbatim>\<open>size_t\<close> when it is passed to \<^verbatim>\<open>memcmp\<close>.\<close>

definition compare_lengths :: "byte list \<Rightarrow> byte list \<Rightarrow> nat \<Rightarrow> nat \<Rightarrow> bool option" where
  "compare_lengths m1 m2 len1 len2 =
     (let l1 = sint (of_nat len1 :: u32); l2 = sint (of_nat len2 :: u32)
      in if l1 \<noteq> l2 then Some False else memcmp_eq m1 m2 (unat (word_of_int l1 :: u64)))"

definition dictSdsKeyCompare :: "byte list \<Rightarrow> byte list \<Rightarrow> bool option" where
  "dictSdsKeyCompare key1 key2 =
     compare_lengths (terminated key1) (terminated key2) (length key1) (length key2)"

definition dictSdsKeyCaseCompare :: "byte list \<Rightarrow> byte list \<Rightarrow> bool" where
  "dictSdsKeyCaseCompare key1 key2 = strcasecmp_eq (terminated key1) (terminated key2)"

definition dictCStrKeyCompare :: "byte list \<Rightarrow> byte list \<Rightarrow> bool option" where
  "dictCStrKeyCompare key1 key2 =
     compare_lengths (terminated key1) (terminated key2) (strlen (terminated key1)) (strlen (terminated key2))"

definition dictCStrKeyCaseCompare :: "byte list \<Rightarrow> byte list \<Rightarrow> bool" where
  "dictCStrKeyCaseCompare key1 key2 = strcasecmp_eq (terminated key1) (terminated key2)"

definition dictGenHashFunction :: "byte list \<Rightarrow> byte list \<Rightarrow> nat \<Rightarrow> u64 option" where
  "dictGenHashFunction seed key len = siphash key len seed"

definition dictGenCaseHashFunction :: "byte list \<Rightarrow> byte list \<Rightarrow> nat \<Rightarrow> u64 option" where
  "dictGenCaseHashFunction seed buf len = siphash_nocase buf len seed"

definition dictSdsHash :: "byte list \<Rightarrow> byte list \<Rightarrow> u64 option" where
  "dictSdsHash seed key = dictGenHashFunction seed (terminated key) (length key)"

definition dictSdsCaseHash :: "byte list \<Rightarrow> byte list \<Rightarrow> u64 option" where
  "dictSdsCaseHash seed key = dictGenCaseHashFunction seed (terminated key) (length key)"

definition dictCStrHash :: "byte list \<Rightarrow> byte list \<Rightarrow> u64 option" where
  "dictCStrHash seed key = dictGenHashFunction seed (terminated key) (strlen (terminated key))"

definition dictCStrCaseHash :: "byte list \<Rightarrow> byte list \<Rightarrow> u64 option" where
  "dictCStrCaseHash seed key = dictGenCaseHashFunction seed (terminated key) (strlen (terminated key))"

text \<open>A string object as a key: an integer in the pointer, or a string. An object of static reference
  count is a string, so that decoding it makes no difference.\<close>

datatype str_obj = Obj_Int u64 | Obj_Sds sds

definition getDecodedObject :: "str_obj \<Rightarrow> byte list option" where
  "getDecodedObject ob =
     (case ob of
        Obj_Sds s \<Rightarrow> Some (sds_bytes s)
      | Obj_Int n \<Rightarrow> do {
          (buf, _) \<leftarrow> ll2string (replicate 32 0) 0 32 (sint n);
          Some (take (strlen buf) buf)
        })"

definition dictEncObjKeyCompare :: "str_obj \<Rightarrow> str_obj \<Rightarrow> bool option" where
  "dictEncObjKeyCompare o1 o2 =
     (case (o1, o2) of
        (Obj_Int n1, Obj_Int n2) \<Rightarrow> Some (n1 = n2)
      | _ \<Rightarrow> do {
          s1 \<leftarrow> getDecodedObject o1;
          s2 \<leftarrow> getDecodedObject o2;
          dictSdsKeyCompare s1 s2
        })"

definition dictEncObjHash :: "byte list \<Rightarrow> str_obj \<Rightarrow> u64 option" where
  "dictEncObjHash seed ob =
     (case ob of
        Obj_Sds s \<Rightarrow> dictGenHashFunction seed (terminated (sds_bytes s)) (sdslen s)
      | Obj_Int n \<Rightarrow> do {
          (buf, len) \<leftarrow> ll2string (replicate 32 0) 0 32 (sint n);
          dictGenHashFunction seed buf (unat len)
        })"

text \<open>\<open>over\<close> is \<^verbatim>\<open>overMaxmemoryAfterAlloc\<close>. The load factor is a number of entries over a power of two,
  which a \<^verbatim>\<open>double\<close> represents exactly, so that the comparison with 1.618 is one of integers.\<close>

definition dictExpandAllowed :: "(nat \<Rightarrow> bool) \<Rightarrow> nat \<Rightarrow> nat \<Rightarrow> nat \<Rightarrow> bool" where
  "dictExpandAllowed over moreMem used sz =
     (if used * 1000 \<le> 1618 * sz then \<not> over moreMem else True)"

section \<open>The dict types\<close>

text \<open>A callback as a field of a dict type: it never fails, as shown below.\<close>

definition hash_field :: "('k \<Rightarrow> u64 option) \<Rightarrow> 'k \<Rightarrow> u64" where
  "hash_field f k = (case f k of Some h \<Rightarrow> h | None \<Rightarrow> 0)"

definition cmp_field :: "('k \<Rightarrow> 'k \<Rightarrow> bool option) \<Rightarrow> 'k \<Rightarrow> 'k \<Rightarrow> bool" where
  "cmp_field f k1 k2 = (f k1 k2 = Some True)"

text \<open>SDS pointers are odd: the string follows a header of an odd number of bytes.\<close>

definition setDictType :: "byte list \<Rightarrow> (sds, unit) dictType" where
  "setDictType seed =
     \<lparr>hashFunction = hash_field (\<lambda>k. dictSdsHash seed (sds_bytes k)), keyDup = None, valDup = None,
      keyCompare = Some (cmp_field (\<lambda>k1 k2. dictSdsKeyCompare (sds_bytes k1) (sds_bytes k2))),
      expandAllowed = None, no_value = True, keys_are_odd = True, ptr_odd = (\<lambda>_. True)\<rparr>"

definition zsetDictType :: "byte list \<Rightarrow> (sds, 'v) dictType" where
  "zsetDictType seed =
     \<lparr>hashFunction = hash_field (\<lambda>k. dictSdsHash seed (sds_bytes k)), keyDup = None, valDup = None,
      keyCompare = Some (cmp_field (\<lambda>k1 k2. dictSdsKeyCompare (sds_bytes k1) (sds_bytes k2))),
      expandAllowed = None, no_value = False, keys_are_odd = False, ptr_odd = (\<lambda>_. True)\<rparr>"

definition dbDictType :: "(nat \<Rightarrow> bool) \<Rightarrow> byte list \<Rightarrow> (sds, 'v) dictType" where
  "dbDictType over seed =
     \<lparr>hashFunction = hash_field (\<lambda>k. dictSdsHash seed (sds_bytes k)), keyDup = None, valDup = None,
      keyCompare = Some (cmp_field (\<lambda>k1 k2. dictSdsKeyCompare (sds_bytes k1) (sds_bytes k2))),
      expandAllowed = Some (dictExpandAllowed over), no_value = False, keys_are_odd = False,
      ptr_odd = (\<lambda>_. True)\<rparr>"

definition dbExpiresDictType :: "(nat \<Rightarrow> bool) \<Rightarrow> byte list \<Rightarrow> (sds, 'v) dictType" where
  "dbExpiresDictType over seed =
     \<lparr>hashFunction = hash_field (\<lambda>k. dictSdsHash seed (sds_bytes k)), keyDup = None, valDup = None,
      keyCompare = Some (cmp_field (\<lambda>k1 k2. dictSdsKeyCompare (sds_bytes k1) (sds_bytes k2))),
      expandAllowed = Some (dictExpandAllowed over), no_value = False, keys_are_odd = False,
      ptr_odd = (\<lambda>_. True)\<rparr>"

definition hashDictType :: "byte list \<Rightarrow> (sds, 'v) dictType" where
  "hashDictType seed =
     \<lparr>hashFunction = hash_field (\<lambda>k. dictSdsHash seed (sds_bytes k)), keyDup = None, valDup = None,
      keyCompare = Some (cmp_field (\<lambda>k1 k2. dictSdsKeyCompare (sds_bytes k1) (sds_bytes k2))),
      expandAllowed = None, no_value = False, keys_are_odd = False, ptr_odd = (\<lambda>_. True)\<rparr>"

definition commandTableDictType :: "byte list \<Rightarrow> (sds, 'v) dictType" where
  "commandTableDictType seed =
     \<lparr>hashFunction = hash_field (\<lambda>k. dictSdsCaseHash seed (sds_bytes k)), keyDup = None, valDup = None,
      keyCompare = Some (\<lambda>k1 k2. dictSdsKeyCaseCompare (sds_bytes k1) (sds_bytes k2)),
      expandAllowed = None, no_value = False, keys_are_odd = False, ptr_odd = (\<lambda>_. True)\<rparr>"

definition stringSetDictType :: "byte list \<Rightarrow> (sds, 'v) dictType" where
  "stringSetDictType seed =
     \<lparr>hashFunction = hash_field (\<lambda>k. dictCStrCaseHash seed (sds_bytes k)), keyDup = None, valDup = None,
      keyCompare = Some (\<lambda>k1 k2. dictCStrKeyCaseCompare (sds_bytes k1) (sds_bytes k2)),
      expandAllowed = None, no_value = False, keys_are_odd = False, ptr_odd = (\<lambda>_. True)\<rparr>"

definition objectKeyPointerValueDictType :: "byte list \<Rightarrow> (str_obj, 'v) dictType" where
  "objectKeyPointerValueDictType seed =
     \<lparr>hashFunction = hash_field (dictEncObjHash seed), keyDup = None, valDup = None,
      keyCompare = Some (cmp_field dictEncObjKeyCompare), expandAllowed = None, no_value = False,
      keys_are_odd = False, ptr_odd = (\<lambda>_. False)\<rparr>"

lemmas dict_type_defs = setDictType_def zsetDictType_def dbDictType_def dbExpiresDictType_def hashDictType_def
  commandTableDictType_def stringSetDictType_def objectKeyPointerValueDictType_def

section \<open>The callbacks\<close>

lemma length_sds [simp]: "length (sds_bytes s) < 2147483648"
  using sds_bytes [of s] by simp

lemma sds_eq_iff: "sds_bytes s1 = sds_bytes s2 \<longleftrightarrow> s1 = s2"
  by (simp add: sds_bytes_inject)

lemma int_length:
  assumes "n < 2 ^ 31"
  shows "sint (of_nat n :: u32) = int n"
proof -
  have "sint (of_nat n :: u32) = signed_take_bit 31 (int n)" by (simp add: signed_of_nat)
  also have "\<dots> = int n" by (rule signed_take_bit_int_eq_self) (use assms in auto)
  finally show ?thesis .
qed

lemma compare_lengths_ok:
  assumes "len1 < 2 ^ 31" "len2 < 2 ^ 31" "len1 \<le> length m1" "len2 \<le> length m2"
  shows "compare_lengths m1 m2 len1 len2 = Some (take len1 m1 = take len2 m2)"
proof -
  have "unat (word_of_int (int len1) :: u64) = len1" using assms(1) by (simp add: unat_of_nat take_bit_nat_eq_self)
  moreover have "take len1 m1 \<noteq> take len2 m2" if "len1 \<noteq> len2"
  proof
    assume "take len1 m1 = take len2 m2"
    then have "length (take len1 m1) = length (take len2 m2)" by (rule arg_cong)
    then show False using that assms(3,4) by simp
  qed
  ultimately show ?thesis
    using assms by (auto simp: compare_lengths_def int_length memcmp_eq_def)
qed

lemma sdsKeyCompare_ok:
  "length s1 < 2 ^ 31 \<Longrightarrow> length s2 < 2 ^ 31 \<Longrightarrow> dictSdsKeyCompare s1 s2 = Some (s1 = s2)"
  by (simp add: dictSdsKeyCompare_def compare_lengths_ok terminated_def)

lemma sds_cmp_field [simp]:
  "cmp_field (\<lambda>k1 k2. dictSdsKeyCompare (sds_bytes k1) (sds_bytes k2)) k1 k2 \<longleftrightarrow> k1 = k2"
  by (simp add: cmp_field_def sdsKeyCompare_ok sds_eq_iff)

lemma dictSdsHash_total: "length seed = 16 \<Longrightarrow> \<exists>h. dictSdsHash seed s = Some h"
  unfolding dictSdsHash_def dictGenHashFunction_def by (rule siphash_total) (simp_all add: terminated_def)

text \<open>The hash depends on the bytes up to the length only.\<close>

lemma sip_loop_take:
  assumes "p + 8 * n \<le> len" "len \<le> length b"
  shows "sip_loop U8TO64_LE (take len b) p n st = sip_loop U8TO64_LE b p n st"
  using assms(1)
proof (induction n arbitrary: p st)
  case (Suc n)
  have "take 8 (drop p (take len b)) = take 8 (drop p b)" using Suc.prems by (simp add: drop_take min_def)
  then have "U8TO64_LE (take len b) p = U8TO64_LE b p"
    using Suc.prems assms(2) by simp
  then show ?case using Suc by (cases st) (simp add: Let_def split: prod.splits)
qed simp

lemma sip_tail_take:
  assumes "p + left \<le> len" "len \<le> length b"
  shows "sip_tail conv (take len b) p left acc = sip_tail conv b p left acc"
proof -
  have "sip_case conv (take len b) p left i acc = sip_case conv b p left i acc" for i acc
    using assms by (simp add: sip_case_in)
  then show ?thesis by (simp add: sip_tail_def)
qed

lemma siphash_take:
  assumes "len \<le> length b"
  shows "siphash b len seed = siphash (take len b) len seed"
proof -
  have m: "len AND 7 = len mod 8" using take_bit_eq_mod [of 3 len] by (simp add: take_bit_eq_mask mask_eq_exp_minus_1)
  have "0 + 8 * ((len - len mod 8) div 8) \<le> len" using diff_le_self [of len "len mod 8"] by simp
  from sip_loop_take [OF this assms] sip_tail_take [of "len - len mod 8" "len mod 8" len b] assms show ?thesis
    by (simp add: siphash_def m)
qed

lemma siphash_cong:
  assumes "len \<le> length b" "len \<le> length b'" "take len b = take len b'"
  shows "siphash b len seed = siphash b' len seed"
  using siphash_take [OF assms(1)] siphash_take [OF assms(2)] assms(3) by simp

lemma takeWhile_terminated: "takeWhile (\<lambda>c. c \<noteq> 0) (terminated s) = takeWhile (\<lambda>c. c \<noteq> 0) s"
  unfolding terminated_def by (induction s) auto

lemma strlen_terminated: "strlen (terminated s) \<le> length s"
  by (simp add: strlen_def takeWhile_terminated length_takeWhile_le)

lemma take_strlen: "take (strlen m) m = takeWhile (\<lambda>c. c \<noteq> 0) m"
  unfolding strlen_def by (rule takeWhile_eq_take [symmetric])

text \<open>The identity of a key that is compared without regard to case up to its first terminator.\<close>

definition cstr_id :: "sds \<Rightarrow> byte list" where
  "cstr_id s = map lower (takeWhile (\<lambda>c. c \<noteq> 0) (sds_bytes s))"

lemma cstr_hash:
  "dictCStrCaseHash seed (sds_bytes s) = siphash (cstr_id s) (length (cstr_id s)) seed"
proof -
  let ?m = "terminated (sds_bytes s)"
  have "dictCStrCaseHash seed (sds_bytes s) = siphash (map lower ?m) (strlen ?m) seed"
    by (simp add: dictCStrCaseHash_def dictGenCaseHashFunction_def siphash_nocase_eq)
  also have "\<dots> = siphash (take (strlen ?m) (map lower ?m)) (strlen ?m) seed"
    by (rule siphash_take) (use strlen_terminated [of "sds_bytes s"] in \<open>simp add: terminated_def\<close>)
  also have "take (strlen ?m) (map lower ?m) = cstr_id s"
    by (simp add: take_map take_strlen takeWhile_terminated cstr_id_def)
  also have "strlen ?m = length (cstr_id s)" by (simp add: strlen_def takeWhile_terminated cstr_id_def)
  finally show ?thesis .
qed

text \<open>The identity of a string object is its decoded string, whatever the encoding.\<close>

definition enc_id :: "str_obj \<Rightarrow> byte list" where
  "enc_id ob = (case ob of Obj_Sds s \<Rightarrow> sds_bytes s | Obj_Int n \<Rightarrow> int_bytes (sint n))"

lemma is_int64_sint [simp]: "is_int64 (sint (n :: u64))"
  using sint_ge [of n] sint_lt [of n] by (simp add: fits_def)

lemma ll2string_obj:
  "\<exists>rest. ll2string (replicate 32 0) 0 32 (sint (n :: u64)) =
     Some (int_bytes (sint n) @ 0 # rest, of_nat (length (int_bytes (sint n))))"
proof -
  have l: "length (int_bytes (sint n)) < 32"
    using length_int_bytes [OF is_int64_sint, of n] by (simp add: LONG_STR_SIZE_def)
  show ?thesis
    using ll2string_ok [of 0 32 "replicate 32 0" "sint n"] l by auto
qed

lemma int_bytes_no_zero: "0 \<notin> set (int_bytes i)"
proof -
  have "0 \<notin> set (dec_bytes n)" for n using dec_bytes_digits [of 0 n] by (auto simp: is_digit_def)
  then show ?thesis by (simp add: int_bytes_def)
qed

lemma getDecodedObject_ok: "getDecodedObject ob = Some (enc_id ob)"
proof (cases ob)
  case (Obj_Int n)
  obtain rest where r: "ll2string (replicate 32 0) 0 32 (sint n) =
     Some (int_bytes (sint n) @ 0 # rest, of_nat (length (int_bytes (sint n))))"
    using ll2string_obj by blast
  have "takeWhile (\<lambda>c. c \<noteq> 0) (int_bytes (sint n) @ 0 # rest) = int_bytes (sint n)"
    using int_bytes_no_zero [of "sint n"] by (subst takeWhile_append2) auto
  then show ?thesis using Obj_Int r by (simp add: getDecodedObject_def take_strlen enc_id_def)
qed (simp add: getDecodedObject_def enc_id_def)

lemma length_enc_id: "length (enc_id ob) < 2 ^ 31"
proof (cases ob)
  case (Obj_Int n)
  then show ?thesis using length_int_bytes [OF is_int64_sint, of n] by (simp add: enc_id_def LONG_STR_SIZE_def)
qed (simp add: enc_id_def)

lemma encObjKeyCompare_ok: "dictEncObjKeyCompare o1 o2 = Some (enc_id o1 = enc_id o2)"
proof (cases "\<exists>n1 n2. o1 = Obj_Int n1 \<and> o2 = Obj_Int n2")
  case True
  then obtain n1 n2 where n: "o1 = Obj_Int n1" "o2 = Obj_Int n2" by blast
  have "n1 = n2 \<longleftrightarrow> int_bytes (sint n1) = int_bytes (sint n2)"
    using int_bytes_inj [OF is_int64_sint is_int64_sint, of n1 n2] signed_word_eqI [of n1 n2] by auto
  then show ?thesis by (simp add: n dictEncObjKeyCompare_def enc_id_def)
next
  case False
  then show ?thesis
    using sdsKeyCompare_ok [OF length_enc_id length_enc_id, of o1 o2]
    by (cases o1; cases o2) (simp_all add: dictEncObjKeyCompare_def getDecodedObject_ok)
qed

lemma encObjHash_ok: "dictEncObjHash seed ob = siphash (enc_id ob) (length (enc_id ob)) seed"
proof (cases ob)
  case (Obj_Int n)
  obtain rest where r: "ll2string (replicate 32 0) 0 32 (sint n) =
     Some (int_bytes (sint n) @ 0 # rest, of_nat (length (int_bytes (sint n))))"
    using ll2string_obj by blast
  have "length (int_bytes (sint n)) < 2 ^ 32"
    using length_int_bytes [OF is_int64_sint, of n] by (simp add: LONG_STR_SIZE_def)
  then have "unat (of_nat (length (int_bytes (sint n))) :: u32) = length (int_bytes (sint n))"
    by (simp add: unat_of_nat take_bit_nat_eq_self)
  then show ?thesis using Obj_Int r
    by (auto simp: dictEncObjHash_def dictGenHashFunction_def enc_id_def intro!: siphash_cong)
next
  case (Obj_Sds s)
  then show ?thesis
    by (auto simp: dictEncObjHash_def dictGenHashFunction_def enc_id_def sdslen_def terminated_def
        intro!: siphash_cong)
qed

section \<open>The contract holds\<close>

interpretation setDict: dict_contract "setDictType seed" id for seed
  by unfold_locales (auto simp: setDictType_def same_key_def dictCompareKeys_def)

interpretation zsetDict: value_dict "zsetDictType seed" id for seed
  by unfold_locales (auto simp: zsetDictType_def same_key_def dictCompareKeys_def)

interpretation dbDict: value_dict "dbDictType over seed" id for over seed
  by unfold_locales (auto simp: dbDictType_def same_key_def dictCompareKeys_def)

interpretation dbExpiresDict: value_dict "dbExpiresDictType over seed" id for over seed
  by unfold_locales (auto simp: dbExpiresDictType_def same_key_def dictCompareKeys_def)

interpretation hashDict: value_dict "hashDictType seed" id for seed
  by unfold_locales (auto simp: hashDictType_def same_key_def dictCompareKeys_def)

interpretation stringSetDict: value_dict "stringSetDictType seed" cstr_id for seed
  by unfold_locales (auto simp: stringSetDictType_def same_key_def dictCompareKeys_def
      dictCStrKeyCaseCompare_def strcasecmp_eq_def takeWhile_terminated hash_field_def cstr_hash
      simp flip: cstr_id_def)

interpretation objectDict: value_dict "objectKeyPointerValueDictType seed" enc_id for seed
  by unfold_locales (auto simp: objectKeyPointerValueDictType_def same_key_def dictCompareKeys_def
      cmp_field_def encObjKeyCompare_ok hash_field_def encObjHash_ok)

section \<open>Concrete hashes\<close>

text \<open>The hashes of two command names, by evaluation of the rounds.\<close>

lemma sip_init_zero: "sip_init (replicate 16 0) =
    Some (0x736f6d6570736575, 0x646f72616e646f6d, 0x6c7967656e657261, 0x7465646279746573)"
  by (simp add: sip_init_def U8TO64_LE_def mem_read_def numeral_eq_Suc)

lemma sip_tail_one: "sip_tail sip_lower (terminated [103]) 0 1 0x100000000000000 = Some 0x0100000000000067"
  by (simp add: sip_tail_def sip_case_def mem_get_def terminated_def sip_lower_def siptlw_def)
lemma sip_tail_two: "sip_tail sip_lower (terminated [103, 0]) 0 2 0x200000000000000 = Some 0x0200000000000067"
  by (simp add: sip_tail_def sip_case_def mem_get_def terminated_def sip_lower_def siptlw_def)

lemma sip_rounds_a:
  "SIPROUND (0x736f6d6570736575, 0x646f72616e646f6d, 0x6c7967656e657261, 0x7565646279746514) =
     (0x649487965aac81d6, 0xff651ba6cbca3cc1, 0x3b144fe41b71bdd2, 0x32e4de2218bc3640)"
  "SIPROUND (0x659487965aac81b1, 0xff651ba6cbca3cc1, 0x3b144fe41b71bd2d, 0x32e4de2218bc3640) =
     (0xda51f52c676764c6, 0xc10e6b979521fa11, 0x961c750b3586a84a, 0xd11b89456511fa0)"
  "SIPROUND (0xda51f52c676764c6, 0xc10e6b979521fa11, 0x961c750b3586a84a, 0xd11b89456511fa0) =
     (0x1843daa62fd82bbe, 0xdd8f4791824f82c5, 0x4fa32ee0f940c007, 0x6191545f70bb5cf1)"
  by (simp_all add: SIPROUND_def ROTL_def Let_def)

lemma sip_rounds_b:
  "SIPROUND (0x736f6d6570736575, 0x646f72616e646f6d, 0x6c7967656e657261, 0x7665646279746514) =
     (0x659487965aac80d6, 0xf8651ba6cbca3cc1, 0x3b144fe41c71bdd2, 0x33e4de2278bc5740)"
  "SIPROUND (0x679487965aac80b1, 0xf8651ba6cbca3cc1, 0x3b144fe41c71bd2d, 0x33e4de2278bc5740) =
     (0xd752142d2267cac6, 0x9f0e6b97f3e16ff1, 0xf71c96eb6b86a84a, 0xa59e9d351d1ac)"
  "SIPROUND (0xd752142d2267cac6, 0x9f0e6b97f3e16ff1, 0xf71c96eb6b86a84a, 0xa59e9d351d1ac) =
     (0xc5185e3c65d4f9c1, 0xb14b05e06822f569, 0x7a8f834cb239728e, 0xb585b0b35a412025)"
  by (simp_all add: SIPROUND_def ROTL_def Let_def)

lemma and_two: "Suc (Suc 0) AND 7 = 2"
  by (simp flip: numeral_2_eq_2)

lemma case_hash_values:
  "dictSdsCaseHash (replicate 16 0) [103] = Some 0xebfee788246c358d"
  "dictSdsCaseHash (replicate 16 0) [103, 0] = Some 0xbb596823e58e5e03"
  using sip_tail_one sip_tail_two and_two
  by (simp_all add: dictSdsCaseHash_def dictGenCaseHashFunction_def siphash_nocase_def sip_init_zero
        sip_final_def sip_rounds_a sip_rounds_b)
section \<open>Properties\<close>

text \<open>C5. Refinement: any sequence of additions, replacements, deletions, two-phase unlinks, lookups,
  expansions, resizes, rehash steps and clears on a dict of the type of Redis hashes, started empty
  and run under any resize policies, gives exactly the answers and the final content of a map from
  strings to values; no access is out of bounds and no assertion fails.\<close>

theorem hash_dict_refines_map:
  assumes "length ps \<le> 2 ^ 60" "\<forall>p \<in> set ps. op_size (snd p) < 2 ^ 64"
  shows "\<exists>d. run_dict (hashDictType seed) ps dictCreate = Some (d, snd (run_map id (map snd ps) Map.empty)) \<and>
           dict_models (hashDictType seed) id d (fst (run_map id (map snd ps) Map.empty))"
  using hashDict.run_dict_refines [OF hashDict.create_models, of ps seed] assms
  by (simp add: dictCreate_ok)

theorem hash_dict_refines_map_witness:
  "\<exists>d. run_dict (hashDictType (replicate 16 0))
         [(DICT_RESIZE_ENABLE, DAdd (sds_of [97]) 1), (DICT_RESIZE_AVOID, DReplace (sds_of [97]) (2 :: nat)),
          (DICT_RESIZE_FORBID, DExpand 1000), (DICT_RESIZE_ENABLE, DFetch (sds_of [97])),
          (DICT_RESIZE_ENABLE, DDelete (sds_of [97])), (DICT_RESIZE_ENABLE, DFetch (sds_of [97]))] dictCreate =
       Some (d, [Done True, Done False, Silent, Fetched (Some 2), Done True, Fetched None]) \<and>
       dict_models (hashDictType (replicate 16 0)) id d Map.empty"
  using hash_dict_refines_map [of
      "[(DICT_RESIZE_ENABLE, DAdd (sds_of [97]) 1), (DICT_RESIZE_AVOID, DReplace (sds_of [97]) (2 :: nat)),
        (DICT_RESIZE_FORBID, DExpand 1000), (DICT_RESIZE_ENABLE, DFetch (sds_of [97])),
        (DICT_RESIZE_ENABLE, DDelete (sds_of [97])), (DICT_RESIZE_ENABLE, DFetch (sds_of [97]))]"
      "replicate 16 0"]
  by simp

text \<open>C13. A full scan: when the cursor of \<^verbatim>\<open>dictScan\<close> is started at 0 and fed back, with the keyspace
  resized, rehashed and changed in any way between the calls, the scan returns to the cursor 0 within
  as many calls as the largest table has buckets, delivers only entries that were in the dict, and
  delivers every key that is present all the time.\<close>

theorem dictScan_complete:
  fixes ds :: "(sds, 'v) dict list"
  assumes "\<forall>d \<in> set ds. dict_ok (dbDictType over seed) id d \<and> scan_exp d \<le> E" "E \<le> 64" "2 ^ E \<le> length ds"
    "\<forall>d \<in> set ds. dict_map id d k \<noteq> None"
  shows "\<exists>es. scan_run ds 0 = Some (0, es) \<and> set es \<subseteq> (\<Union>d \<in> set ds. set (dict_entries d)) \<and>
           k \<in> fst ` set es"
proof -
  obtain es where es: "scan_run ds 0 = Some (0, es)" "set es \<subseteq> (\<Union>d \<in> set ds. set (dict_entries d))"
    using scan_run_ends [OF assms(1-3)] by blast
  have "ds \<noteq> []" using assms(3) by auto
  with dbDict.scan_run_visits [of ds over seed k 0 es] assms(1,4) es(1) have "k \<in> fst ` set es"
    by (auto simp: image_iff)
  with es show ?thesis by blast
qed

text \<open>A dict with one entry in a table of four buckets.\<close>

definition one_entry :: "(sds, 'v) dictType \<Rightarrow> sds \<Rightarrow> 'v \<Rightarrow> (sds, 'v) dict" where
  "one_entry t k v =
     \<lparr>ht0 = \<lparr>ht_table = Some ((replicate 4 NULL)[bucket_index (hashFunction t k) 2 := ENormal k (Some v) NULL]),
             ht_used = 1, ht_size_exp = 2\<rparr>,
      ht1 = empty_ht, rehashidx = -1, pauserehash = 0\<rparr>"

lemma one_entry_list:
  "table_list ((replicate 4 NULL)[bucket_index h 2 := ENormal k (Some v) NULL]) = [(k, Some v)]"
proof -
  have "bucket_index h 2 < 4" using bucket_index_less [of 2 h] by simp
  then have "bucket_index h 2 \<in> {0, 1, 2, 3}" by auto
  then show ?thesis by (auto simp: table_list_def numeral_eq_Suc)
qed

lemma one_entry_ok:
  assumes "\<not> no_value t"
  shows "dict_ok t id (one_entry t k v)" "dict_entries (one_entry t k v) = [(k, Some v)]" "scan_exp (one_entry t k v) = 2"
proof -
  let ?i = "bucket_index (hashFunction t k) 2"
  have "?i < 4" using bucket_index_less [of 2 "hashFunction t k"] by simp
  then have "(replicate 4 NULL)[?i := ENormal k (Some v) NULL] ! j =
      (if j = ?i then ENormal k (Some v) NULL else NULL)" if "j < 4" for j
    using that by (auto simp: nth_list_update)
  then have "table_ok t (ht0 (one_entry t k v))"
    using assms one_entry_list [of "hashFunction t k" k v]
    by (auto simp: table_ok_def one_entry_def in_bucket_def)
  moreover show "dict_entries (one_entry t k v) = [(k, Some v)]"
    using one_entry_list [of "hashFunction t k" k v] by (simp add: one_entry_def dict_entries_def ht_list_def empty_ht_def)
  ultimately show "dict_ok t id (one_entry t k v)"
    by (simp add: dict_ok_def) (simp add: one_entry_def table_ok_def empty_ht_def rehash_ok_def)
  show "scan_exp (one_entry t k v) = 2"
    by (simp add: scan_exp_def one_entry_def empty_ht_def dictIsRehashing_def)
qed

theorem dictScan_complete_witness:
  "\<exists>es. scan_run (replicate 4 (one_entry (dbDictType (\<lambda>_. False) (replicate 16 0)) (sds_of [97]) (7 :: nat))) 0 =
          Some (0, es) \<and> set es \<subseteq> {(sds_of [97], Some 7)} \<and> sds_of [97] \<in> fst ` set es"
proof -
  let ?t = "dbDictType (\<lambda>_. False) (replicate 16 0) :: (sds, nat) dictType"
  have nv: "\<not> no_value ?t" by (simp add: dbDictType_def)
  note o = one_entry_ok [OF nv, of "sds_of [97]" 7]
  have "dict_map id (one_entry ?t (sds_of [97]) 7) (sds_of [97]) \<noteq> None" using o(2) by (simp add: dict_map_def)
  from dictScan_complete [of "replicate 4 (one_entry ?t (sds_of [97]) 7)" "\<lambda>_. False" "replicate 16 0" 2 "sds_of [97]"]
    o this show ?thesis by simp
qed

text \<open>C14. An incremental rehash ends: when it is allowed, one call of \<^verbatim>\<open>dictRehash\<close> with a single step per
  bucket of the first table, and one more, finish the rehash from any state, and the content of the
  dict is the same.\<close>

theorem rehash_ends:
  assumes "dict_models (hashDictType seed) id d m"
  shows "\<exists>d'. rehash_calls (hashDictType seed) (Suc (DICTHT_SIZE (ht_size_exp (ht0 d)))) d = Some d' \<and>
           \<not> dictIsRehashing d' \<and> dict_models (hashDictType seed) id d' m"
proof -
  have "dict_ok (hashDictType seed) id d" using assms by (simp add: dict_models_def)
  from hashDict.rehash_calls_end [OF this, of "Suc (DICTHT_SIZE (ht_size_exp (ht0 d)))"]
  obtain d' where d': "rehash_calls (hashDictType seed) (Suc (DICTHT_SIZE (ht_size_exp (ht0 d)))) d = Some d'"
    "dict_ok (hashDictType seed) id d'" "\<not> dictIsRehashing d'" "dict_bag d' = dict_bag d" by auto
  then show ?thesis using hashDict.models_bag(1) [OF assms d'(2,4)] by blast
qed

theorem rehash_ends_witness:
  "\<exists>d'. rehash_calls (hashDictType (replicate 16 0)) 5
          (fst (dictExpand (one_entry (hashDictType (replicate 16 0)) (sds_of [97]) (7 :: nat)) 100)) = Some d' \<and>
        \<not> dictIsRehashing d' \<and>
        dict_models (hashDictType (replicate 16 0)) id d' [sds_of [97] \<mapsto> 7]"
proof -
  let ?t = "hashDictType (replicate 16 0) :: (sds, nat) dictType"
  let ?d = "one_entry ?t (sds_of [97]) 7"
  have nv: "\<not> no_value ?t" by (simp add: hashDictType_def)
  note o = one_entry_ok [OF nv, of "sds_of [97]" 7]
  have "dict_models ?t id ?d [sds_of [97] \<mapsto> 7]" using o by (simp add: dict_models_def dict_map_def)
  then have m: "dict_models ?t id (fst (dictExpand ?d 100)) [sds_of [97] \<mapsto> 7]"
    by (rule hashDict.resize_models(1)) simp
  have "ht_size_exp (ht0 (fst (dictExpand ?d 100))) = 2"
    by (simp add: dictExpand_def u_dictExpand_def one_entry_def Let_def split_beta)
  then show ?thesis using rehash_ends [OF m] by simp
qed

text \<open>C15. Iteration: a safe or an unsafe iterator over a set delivers exactly the entries of the dict, each
  once, whether or not a rehash is going on, then returns \<^verbatim>\<open>NULL\<close>; releasing it passes the fingerprint
  check and leaves the dict as it was, with no pause of the rehashing left over.\<close>

theorem iterator_delivers_all:
  assumes "dict_ok (setDictType seed) id d" "it = dictInitIterator \<or> it = dictInitSafeIterator"
  shows "\<exists>d' it'. iterate a0 a1 (Suc (dictSize d)) d it = Some (d', it', dict_entries d) \<and>
           distinct (dict_entries d) \<and> dictResetIterator a0 a1 d' it' = Some d"
proof -
  have "distinct (map (id \<circ> fst) (dict_entries d))" using assms(1) by (simp add: dict_ok_def)
  then have "distinct (dict_entries d)" by (simp add: distinct_map)
  with iteration_ok [OF assms, of a0 a1] show ?thesis by blast
qed

theorem iterator_delivers_all_witness:
  "\<exists>d' it'. iterate 0 0 1 (dictCreate :: (sds, unit) dict) dictInitSafeIterator = Some (d', it', []) \<and>
     distinct ([] :: (sds \<times> unit option) list) \<and> dictResetIterator 0 0 d' it' = Some dictCreate"
proof -
  have "dictSize (dictCreate :: (sds, unit) dict) = 0"
    by (simp add: dictSize_def dictCreate_def u_dictInit_def u_dictReset_def set_ht_def empty_ht_def)
  with iterator_delivers_all [of "replicate 16 0" dictCreate dictInitSafeIterator 0 0] show ?thesis
    by (simp add: dictCreate_ok)
qed

text \<open>C16. Clearing a dict frees every entry exactly once and leaves a dict as new.\<close>

theorem dictEmpty_frees_each_once:
  assumes "dict_ok (dbDictType over seed) id d"
  shows "dictEmpty d = Some (dictCreate, dict_entries d) \<and> dictRelease d = Some (dict_entries d) \<and>
           distinct (map fst (dict_entries d))"
  using dictEmpty_ok [OF assms] dictRelease_ok [OF assms] assms by (simp add: dict_ok_def)

theorem dictEmpty_frees_each_once_witness:
  "dictEmpty (one_entry (dbDictType (\<lambda>_. True) (replicate 16 0)) (sds_of [97]) (7 :: nat)) =
     Some (dictCreate, [(sds_of [97], Some 7)])"
proof -
  let ?t = "dbDictType (\<lambda>_. True) (replicate 16 0) :: (sds, nat) dictType"
  have nv: "\<not> no_value ?t" by (simp add: dbDictType_def)
  note o = one_entry_ok [OF nv, of "sds_of [97]" 7]
  from dictEmpty_frees_each_once [OF o(1)] o(2) show ?thesis by simp
qed

text \<open>C17. String objects as keys: whatever the encodings of two objects, the comparison of \<^verbatim>\<open>server.c\<close> tells
  whether their decoded strings are equal, and then their hashes are equal; both callbacks are defined.\<close>

theorem encoded_objects_hash_alike:
  assumes "length seed = 16"
  shows "dictEncObjKeyCompare o1 o2 = Some (enc_id o1 = enc_id o2) \<and>
    (\<exists>h1 h2. dictEncObjHash seed o1 = Some h1 \<and> dictEncObjHash seed o2 = Some h2 \<and>
       (enc_id o1 = enc_id o2 \<longrightarrow> h1 = h2))"
proof -
  obtain h1 h2 where "dictEncObjHash seed o1 = Some h1" "dictEncObjHash seed o2 = Some h2"
    using siphash_total [OF order_refl assms, of "enc_id o1"] siphash_total [OF order_refl assms, of "enc_id o2"]
    by (auto simp: encObjHash_ok)
  then show ?thesis by (auto simp: encObjKeyCompare_ok encObjHash_ok)
qed

theorem encoded_objects_hash_alike_witness:
  "dictEncObjKeyCompare (Obj_Int 7) (Obj_Sds (sds_of [55])) = Some True \<and>
   (\<exists>h. dictEncObjHash (replicate 16 0) (Obj_Int 7) = Some h \<and>
        dictEncObjHash (replicate 16 0) (Obj_Sds (sds_of [55])) = Some h)"
proof -
  have "enc_id (Obj_Int 7) = enc_id (Obj_Sds (sds_of [55]))"
    by (simp add: enc_id_def int_bytes_def dec_bytes_def digit_def sds_of_inverse)
  with encoded_objects_hash_alike [of "replicate 16 0" "Obj_Int 7" "Obj_Sds (sds_of [55])"] show ?thesis by auto
qed

text \<open>C23. A string of 2 GiB overflows the \<^verbatim>\<open>int\<close> that \<^verbatim>\<open>dictSdsKeyCompare\<close> keeps its length in: the comparison
  of two copies of it passes a negative length to \<^verbatim>\<open>memcmp\<close> and reads out of bounds.\<close>

theorem dictSdsKeyCompare_overflow:
  "dictSdsKeyCompare (replicate (2 ^ 31) c) (replicate (2 ^ 31) c) = None"
proof -
  have "sint (of_nat (2 ^ 31) :: u32) = - (2 ^ 31)" by simp
  moreover have "unat (word_of_int (- (2 ^ 31)) :: u64) = 2 ^ 64 - 2 ^ 31"
    by (simp add: unat_eq_nat_uint uint_word_of_int)
  ultimately show ?thesis
    unfolding dictSdsKeyCompare_def compare_lengths_def memcmp_eq_def terminated_def
    by (simp only: length_append length_replicate list.size Let_def) simp
qed


end
