(* ===== verification/Listpack.thy ===== *)
theory Listpack
  imports Util_Numbers
begin

text \<open>
  The listpack of \<^verbatim>\<open>listpack.c\<close>: a sequence of strings and integers in one block of memory, with a
  header of six bytes, one entry after the other, each followed by its own length so that it can be
  skipped backwards, and an end byte. This theory holds the model; the invariant and the refinement to
  a list of values are in \<open>Listpack_Proofs\<close>.

  A listpack is the block of bytes of its allocation, which may be longer than the listpack; a pointer
  into it is an offset, \<^verbatim>\<open>NULL\<close> is \<^const>\<open>None\<close>. The bytes that a reallocation adds have no specified
  value and are 0 here. An access outside the block and a failed \<^verbatim>\<open>assert\<close> give \<^const>\<open>None\<close>. Allocation
  does not fail: the allocator of the server aborts instead.
\<close>

unbundle bit_operations_syntax

section \<open>Encodings\<close>

definition LP_HDR_SIZE :: nat where [simp]: "LP_HDR_SIZE = 6"
definition LP_HDR_NUMELE_UNKNOWN :: nat where [simp]: "LP_HDR_NUMELE_UNKNOWN = 65535"
definition LP_INTBUF_SIZE :: nat where [simp]: "LP_INTBUF_SIZE = 21"
definition LP_EOF :: byte where [simp]: "LP_EOF = 0xFF"

definition LP_ENCODING_IS_7BIT_UINT :: "byte \<Rightarrow> bool" where
  "LP_ENCODING_IS_7BIT_UINT b \<longleftrightarrow> b AND 0x80 = 0"

definition LP_ENCODING_IS_6BIT_STR :: "byte \<Rightarrow> bool" where
  "LP_ENCODING_IS_6BIT_STR b \<longleftrightarrow> b AND 0xC0 = 0x80"

definition LP_ENCODING_IS_13BIT_INT :: "byte \<Rightarrow> bool" where
  "LP_ENCODING_IS_13BIT_INT b \<longleftrightarrow> b AND 0xE0 = 0xC0"

definition LP_ENCODING_IS_12BIT_STR :: "byte \<Rightarrow> bool" where
  "LP_ENCODING_IS_12BIT_STR b \<longleftrightarrow> b AND 0xF0 = 0xE0"

definition LP_ENCODING_IS_16BIT_INT :: "byte \<Rightarrow> bool" where
  "LP_ENCODING_IS_16BIT_INT b \<longleftrightarrow> b AND 0xFF = 0xF1"

definition LP_ENCODING_IS_24BIT_INT :: "byte \<Rightarrow> bool" where
  "LP_ENCODING_IS_24BIT_INT b \<longleftrightarrow> b AND 0xFF = 0xF2"

definition LP_ENCODING_IS_32BIT_INT :: "byte \<Rightarrow> bool" where
  "LP_ENCODING_IS_32BIT_INT b \<longleftrightarrow> b AND 0xFF = 0xF3"

definition LP_ENCODING_IS_64BIT_INT :: "byte \<Rightarrow> bool" where
  "LP_ENCODING_IS_64BIT_INT b \<longleftrightarrow> b AND 0xFF = 0xF4"

definition LP_ENCODING_IS_32BIT_STR :: "byte \<Rightarrow> bool" where
  "LP_ENCODING_IS_32BIT_STR b \<longleftrightarrow> b AND 0xFF = 0xF0"

text \<open>An unsigned little-endian number of \<open>n\<close> bytes at an offset.\<close>

definition get_le :: "byte list \<Rightarrow> nat \<Rightarrow> nat \<Rightarrow> nat option" where
  "get_le lp p n = map_option (\<lambda>bs. nat (le_uint bs)) (mem_read lp p n)"

definition LP_ENCODING_6BIT_STR_LEN :: "byte list \<Rightarrow> nat \<Rightarrow> nat option" where
  "LP_ENCODING_6BIT_STR_LEN lp p = map_option (\<lambda>b. unat (b AND 0x3F)) (mem_get lp p)"

definition LP_ENCODING_12BIT_STR_LEN :: "byte list \<Rightarrow> nat \<Rightarrow> nat option" where
  "LP_ENCODING_12BIT_STR_LEN lp p =
     do {
       b0 \<leftarrow> mem_get lp p;
       b1 \<leftarrow> mem_get lp (p + 1);
       Some (push_bit 8 (unat (b0 AND 0xF)) OR unat b1)
     }"

definition LP_ENCODING_32BIT_STR_LEN :: "byte list \<Rightarrow> nat \<Rightarrow> nat option" where
  "LP_ENCODING_32BIT_STR_LEN lp p = get_le lp (p + 1) 4"

definition lpGetTotalBytes :: "byte list \<Rightarrow> nat option" where
  "lpGetTotalBytes lp = get_le lp 0 4"

definition lpGetNumElements :: "byte list \<Rightarrow> nat option" where
  "lpGetNumElements lp = get_le lp 4 2"

definition lpSetTotalBytes :: "byte list \<Rightarrow> int \<Rightarrow> byte list option" where
  "lpSetTotalBytes lp v = mem_write lp 0 (le_bytes 4 v)"

definition lpSetNumElements :: "byte list \<Rightarrow> int \<Rightarrow> byte list option" where
  "lpSetNumElements lp v = mem_write lp 4 (le_bytes 2 v)"

definition LISTPACK_MAX_SAFETY_SIZE :: nat where "LISTPACK_MAX_SAFETY_SIZE = 2 ^ 30"

definition lpSafeToAdd :: "byte list option \<Rightarrow> nat \<Rightarrow> bool option" where
  "lpSafeToAdd lp add =
     do {
       len \<leftarrow> (case lp of None \<Rightarrow> Some 0 | Some l \<Rightarrow> lpGetTotalBytes l);
       Some (\<not> (len + add) mod 2 ^ 64 > LISTPACK_MAX_SAFETY_SIZE)
     }"

text \<open>\<open>Some None\<close>: the string is not an integer. The loop over the digits is that of \<^verbatim>\<open>string2ll\<close>.\<close>

definition lpStringToInt64 :: "byte list \<Rightarrow> nat \<Rightarrow> int option option" where
  "lpStringToInt64 s slen =
     (if slen = 0 \<or> slen \<ge> LONG_STR_SIZE then Some None
      else do {
        c0 \<leftarrow> mem_get s 0;
        if slen = 1 \<and> c0 = 48 then Some (Some 0)
        else do {
          let negative = (c0 = 45);
          let plen = (if negative then 1 else 0);
          if plen = slen then Some None
          else do {
            c \<leftarrow> mem_get s plen;
            if 49 \<le> c \<and> c \<le> 57 then do {
              r \<leftarrow> string2ll_loop s slen (plen + 1) (ucast (c - 48));
              (case r of
                 None \<Rightarrow> Some None
               | Some (plen, v) \<Rightarrow>
                   if plen < slen then Some None
                   else if negative then
                     (if v > word_of_int (- (LLONG_MIN + 1)) + 1 then Some None
                      else Some (Some (sint (- v))))
                   else if v > word_of_int LLONG_MAX then Some None
                   else Some (Some (sint v)))
            } else Some None
          }
        }
      })"

definition lpNew :: "nat \<Rightarrow> byte list option" where
  "lpNew capacity =
     do {
       let lp = replicate (if capacity > LP_HDR_SIZE + 1 then capacity else LP_HDR_SIZE + 1) 0;
       lp \<leftarrow> lpSetTotalBytes lp (int LP_HDR_SIZE + 1);
       lp \<leftarrow> lpSetNumElements lp 0;
       mem_put lp LP_HDR_SIZE LP_EOF
     }"

definition lpShrinkToFit :: "byte list \<Rightarrow> byte list option" where
  "lpShrinkToFit lp =
     do {
       sz \<leftarrow> lpGetTotalBytes lp;
       Some (if sz < length lp then take sz lp else lp)
     }"

text \<open>The bytes of the encoded integer; \<^verbatim>\<open>*enclen\<close> is their number.\<close>

definition lpEncodeIntegerGetType :: "int \<Rightarrow> byte list" where
  "lpEncodeIntegerGetType v =
     (if v \<ge> 0 \<and> v \<le> 127 then [word_of_int v]
      else if v \<ge> -4096 \<and> v \<le> 4095 then
        let v = (if v < 0 then 2 ^ 13 + v else v)
        in [word_of_int (drop_bit 8 v) OR 0xC0, word_of_int (v AND 0xff)]
      else if v \<ge> -32768 \<and> v \<le> 32767 then
        let v = (if v < 0 then 2 ^ 16 + v else v) in 0xF1 # le_bytes 2 v
      else if v \<ge> -8388608 \<and> v \<le> 8388607 then
        let v = (if v < 0 then 2 ^ 24 + v else v) in 0xF2 # le_bytes 3 v
      else if v \<ge> -2147483648 \<and> v \<le> 2147483647 then
        let v = (if v < 0 then 2 ^ 32 + v else v) in 0xF3 # le_bytes 4 v
      else 0xF4 # le_bytes 8 v)"

text \<open>The encoded integer when the string is one (\<^verbatim>\<open>LP_ENCODING_INT\<close>), and the length of the encoding.\<close>

definition lpEncodeGetType :: "byte list \<Rightarrow> (byte list option \<times> nat) option" where
  "lpEncodeGetType ele =
     (let sz = length ele
      in do {
        r \<leftarrow> lpStringToInt64 ele sz;
        Some (case r of
                Some v \<Rightarrow> (Some (lpEncodeIntegerGetType v), length (lpEncodeIntegerGetType v))
              | None \<Rightarrow> (None, if sz < 64 then 1 + sz else if sz < 4096 then 2 + sz else 5 + sz))
      })"

text \<open>The bytes of the backward length; with a null buffer only their number is used.\<close>

definition lpEncodeBacklen :: "nat \<Rightarrow> byte list" where
  "lpEncodeBacklen l =
     (if l \<le> 127 then [of_nat l]
      else if l < 16383 then
        [of_nat (drop_bit 7 l), of_nat (l AND 127) OR 128]
      else if l < 2097151 then
        [of_nat (drop_bit 14 l), of_nat (drop_bit 7 l AND 127) OR 128, of_nat (l AND 127) OR 128]
      else if l < 268435455 then
        [of_nat (drop_bit 21 l), of_nat (drop_bit 14 l AND 127) OR 128,
         of_nat (drop_bit 7 l AND 127) OR 128, of_nat (l AND 127) OR 128]
      else
        [of_nat (drop_bit 28 l), of_nat (drop_bit 21 l AND 127) OR 128,
         of_nat (drop_bit 14 l AND 127) OR 128, of_nat (drop_bit 7 l AND 127) OR 128,
         of_nat (l AND 127) OR 128])"

definition backlen_size :: "nat \<Rightarrow> nat" where
  "backlen_size l = length (lpEncodeBacklen l)"

definition UINT64_MAX :: nat where "UINT64_MAX = 2 ^ 64 - 1"

function decode_backlen :: "byte list \<Rightarrow> nat \<Rightarrow> nat \<Rightarrow> nat \<Rightarrow> nat option" where
  "decode_backlen lp p val shift =
     do {
       b \<leftarrow> mem_get lp p;
       let val = val OR push_bit shift (unat (b AND 127));
       if b AND 128 = 0 then Some val
       else if shift + 7 > 28 then Some UINT64_MAX
       else if p = 0 then None
       else decode_backlen lp (p - 1) val (shift + 7)
     }"
  by auto
termination
  by (relation "measure (\<lambda>(lp, p, val, shift). 28 - shift)") auto

declare decode_backlen.simps [simp del]

definition lpDecodeBacklen :: "byte list \<Rightarrow> nat \<Rightarrow> nat option" where
  "lpDecodeBacklen lp p = decode_backlen lp p 0 0"

definition lpEncodeString :: "byte list \<Rightarrow> byte list" where
  "lpEncodeString s =
     (let len = length s
      in if len < 64 then (of_nat len OR 0x80) # s
         else if len < 4096 then (of_nat (drop_bit 8 len) OR 0xE0) # of_nat (len AND 0xff) # s
         else 0xF0 # le_bytes 4 (int len) @ s)"

section \<open>Skipping and validation\<close>

definition lpCurrentEncodedSizeUnsafe :: "byte list \<Rightarrow> nat \<Rightarrow> nat option" where
  "lpCurrentEncodedSizeUnsafe lp p =
     do {
       b \<leftarrow> mem_get lp p;
       if LP_ENCODING_IS_7BIT_UINT b then Some 1
       else if LP_ENCODING_IS_6BIT_STR b then
         map_option (\<lambda>n. 1 + n) (LP_ENCODING_6BIT_STR_LEN lp p)
       else if LP_ENCODING_IS_13BIT_INT b then Some 2
       else if LP_ENCODING_IS_16BIT_INT b then Some 3
       else if LP_ENCODING_IS_24BIT_INT b then Some 4
       else if LP_ENCODING_IS_32BIT_INT b then Some 5
       else if LP_ENCODING_IS_64BIT_INT b then Some 9
       else if LP_ENCODING_IS_12BIT_STR b then
         map_option (\<lambda>n. 2 + n) (LP_ENCODING_12BIT_STR_LEN lp p)
       else if LP_ENCODING_IS_32BIT_STR b then
         map_option (\<lambda>n. (5 + n) mod 2 ^ 32) (LP_ENCODING_32BIT_STR_LEN lp p)
       else if b = LP_EOF then Some 1
       else Some 0
     }"

definition lpCurrentEncodedSizeBytes :: "byte list \<Rightarrow> nat \<Rightarrow> nat option" where
  "lpCurrentEncodedSizeBytes lp p =
     do {
       b \<leftarrow> mem_get lp p;
       Some (if LP_ENCODING_IS_7BIT_UINT b then 1
             else if LP_ENCODING_IS_6BIT_STR b then 1
             else if LP_ENCODING_IS_13BIT_INT b then 1
             else if LP_ENCODING_IS_16BIT_INT b then 1
             else if LP_ENCODING_IS_24BIT_INT b then 1
             else if LP_ENCODING_IS_32BIT_INT b then 1
             else if LP_ENCODING_IS_64BIT_INT b then 1
             else if LP_ENCODING_IS_12BIT_STR b then 2
             else if LP_ENCODING_IS_32BIT_STR b then 5
             else if b = LP_EOF then 1
             else 0)
     }"

definition lpSkip :: "byte list \<Rightarrow> nat \<Rightarrow> nat option" where
  "lpSkip lp p =
     do {
       entrylen \<leftarrow> lpCurrentEncodedSizeUnsafe lp p;
       Some (p + (entrylen + backlen_size entrylen))
     }"

definition lpBytes :: "byte list \<Rightarrow> nat option" where
  "lpBytes lp = lpGetTotalBytes lp"

definition out_of_range :: "nat \<Rightarrow> nat \<Rightarrow> bool" where
  "out_of_range lpbytes p \<longleftrightarrow> p < LP_HDR_SIZE \<or> p + 1 > lpbytes"

text \<open>\<open>Some None\<close>: the entry is not valid; otherwise the new value of \<^verbatim>\<open>*pp\<close>.\<close>

definition lpValidateNext :: "byte list \<Rightarrow> nat \<Rightarrow> nat \<Rightarrow> nat option option option" where
  "lpValidateNext lp p lpbytes =
     (if out_of_range lpbytes p then Some None
      else do {
        b \<leftarrow> mem_get lp p;
        if b = LP_EOF then Some (Some None)
        else do {
          lenbytes \<leftarrow> lpCurrentEncodedSizeBytes lp p;
          if lenbytes = 0 then Some None
          else if out_of_range lpbytes (p + lenbytes) then Some None
          else do {
            entrylen \<leftarrow> lpCurrentEncodedSizeUnsafe lp p;
            let encodedBacklen = backlen_size entrylen;
            let entrylen = entrylen + encodedBacklen;
            if out_of_range lpbytes (p + entrylen) then Some None
            else do {
              let p = p + entrylen;
              prevlen \<leftarrow> lpDecodeBacklen lp (p - 1);
              if (prevlen + encodedBacklen) mod 2 ^ 64 \<noteq> entrylen then Some None
              else Some (Some (Some p))
            }
          }
        }
      })"

definition lpAssertValidEntry :: "byte list \<Rightarrow> nat \<Rightarrow> nat \<Rightarrow> unit option" where
  "lpAssertValidEntry lp lpbytes p =
     do { r \<leftarrow> lpValidateNext lp p lpbytes; if r = None then None else Some () }"

section \<open>Moving in a listpack\<close>

definition lpNext :: "byte list \<Rightarrow> nat \<Rightarrow> nat option option" where
  "lpNext lp p =
     do {
       p \<leftarrow> lpSkip lp p;
       b \<leftarrow> mem_get lp p;
       if b = LP_EOF then Some None
       else do {
         bytes \<leftarrow> lpBytes lp;
         _ \<leftarrow> lpAssertValidEntry lp bytes p;
         Some (Some p)
       }
     }"

text \<open>A pointer before the first entry fails the assertion that follows.\<close>

definition lpPrev :: "byte list \<Rightarrow> nat \<Rightarrow> nat option option" where
  "lpPrev lp p =
     (if p = LP_HDR_SIZE then Some None
      else do {
        let p = p - 1;
        prevlen \<leftarrow> lpDecodeBacklen lp p;
        let prevlen = (prevlen + backlen_size prevlen) mod 2 ^ 64;
        if p < prevlen - 1 then None
        else do {
          let p = p - (prevlen - 1);
          bytes \<leftarrow> lpBytes lp;
          _ \<leftarrow> lpAssertValidEntry lp bytes p;
          Some (Some p)
        }
      })"

definition lpFirst :: "byte list \<Rightarrow> nat option option" where
  "lpFirst lp =
     do {
       let p = LP_HDR_SIZE;
       b \<leftarrow> mem_get lp p;
       if b = LP_EOF then Some None
       else do {
         bytes \<leftarrow> lpBytes lp;
         _ \<leftarrow> lpAssertValidEntry lp bytes p;
         Some (Some p)
       }
     }"

definition lpLast :: "byte list \<Rightarrow> nat option option" where
  "lpLast lp = do { total \<leftarrow> lpGetTotalBytes lp; lpPrev lp (total - 1) }"

partial_function (option) count_entries :: "byte list \<Rightarrow> nat option \<Rightarrow> nat \<Rightarrow> nat option" where
  "count_entries lp p count =
     (case p of
        None \<Rightarrow> Some count
      | Some q \<Rightarrow> do { p' \<leftarrow> lpNext lp q; count_entries lp p' (count + 1) })"

text \<open>\<^verbatim>\<open>lpLength\<close> may store the count in the header: the listpack and the count.\<close>

definition lpLength :: "byte list \<Rightarrow> (byte list \<times> nat) option" where
  "lpLength lp =
     do {
       numele \<leftarrow> lpGetNumElements lp;
       if numele \<noteq> LP_HDR_NUMELE_UNKNOWN then Some (lp, numele)
       else do {
         p \<leftarrow> lpFirst lp;
         count \<leftarrow> count_entries lp p 0;
         lp \<leftarrow> (if count < LP_HDR_NUMELE_UNKNOWN then lpSetNumElements lp (int count) else Some lp);
         Some (lp, count)
       }
     }"

fun seek_forward :: "byte list \<Rightarrow> nat option \<Rightarrow> nat \<Rightarrow> nat option option" where
  "seek_forward lp ele 0 = Some ele"
| "seek_forward lp None (Suc n) = Some None"
| "seek_forward lp (Some p) (Suc n) = do { ele \<leftarrow> lpNext lp p; seek_forward lp ele n }"

fun seek_backward :: "byte list \<Rightarrow> nat option \<Rightarrow> nat \<Rightarrow> nat option option" where
  "seek_backward lp ele 0 = Some ele"
| "seek_backward lp None (Suc n) = Some None"
| "seek_backward lp (Some p) (Suc n) = do { ele \<leftarrow> lpPrev lp p; seek_backward lp ele n }"

definition lpSeek :: "byte list \<Rightarrow> int \<Rightarrow> nat option option" where
  "lpSeek lp index =
     do {
       numele \<leftarrow> lpGetNumElements lp;
       if numele \<noteq> LP_HDR_NUMELE_UNKNOWN then do {
         let index = (if index < 0 then int numele + index else index);
         if index < 0 then Some None
         else if index \<ge> int numele then Some None
         else if index > int (numele div 2) then do {
           let index = index - int numele;
           ele \<leftarrow> lpLast lp;
           seek_backward lp ele (nat (- 1 - index))
         } else do { ele \<leftarrow> lpFirst lp; seek_forward lp ele (nat index) }
       } else if index < 0 then do { ele \<leftarrow> lpLast lp; seek_backward lp ele (nat (- 1 - index)) }
       else do { ele \<leftarrow> lpFirst lp; seek_forward lp ele (nat index) }
     }"

section \<open>Reading elements\<close>

text \<open>What \<^verbatim>\<open>lpGet\<close> returns without a buffer: a string inside the listpack, as an offset and a length, or an
  integer.\<close>

datatype lp_got = Got_Str nat nat | Got_Int int

text \<open>The conversion of the unsigned value to a signed one.\<close>

definition to_int64 :: "u64 \<Rightarrow> u64 \<Rightarrow> u64 \<Rightarrow> int" where
  "to_int64 uval negstart negmax =
     (if uval \<ge> negstart then - sint (negmax - uval) - 1 else sint uval)"

text \<open>The result and \<^verbatim>\<open>*entry_size\<close>, which is not set for an unknown encoding.\<close>

definition lpGetWithSize :: "byte list \<Rightarrow> nat \<Rightarrow> (lp_got \<times> nat option) option" where
  "lpGetWithSize lp p =
     do {
       b \<leftarrow> mem_get lp p;
       if LP_ENCODING_IS_7BIT_UINT b then
         Some (Got_Int (to_int64 (ucast (b AND 0x7f)) (of_nat UINT64_MAX) 0), Some 2)
       else if LP_ENCODING_IS_6BIT_STR b then do {
         count \<leftarrow> LP_ENCODING_6BIT_STR_LEN lp p;
         Some (Got_Str (p + 1) count, Some (1 + count + backlen_size (count + 1)))
       }
       else if LP_ENCODING_IS_13BIT_INT b then do {
         b1 \<leftarrow> mem_get lp (p + 1);
         Some (Got_Int (to_int64 (push_bit 8 (ucast (b AND 0x1f)) OR ucast b1) (2 ^ 12) 8191), Some 3)
       }
       else if LP_ENCODING_IS_16BIT_INT b then do {
         u \<leftarrow> get_le lp (p + 1) 2;
         Some (Got_Int (to_int64 (of_nat u) (2 ^ 15) 0xFFFF), Some 4)
       }
       else if LP_ENCODING_IS_24BIT_INT b then do {
         u \<leftarrow> get_le lp (p + 1) 3;
         Some (Got_Int (to_int64 (of_nat u) (2 ^ 23) 0xFFFFFF), Some 5)
       }
       else if LP_ENCODING_IS_32BIT_INT b then do {
         u \<leftarrow> get_le lp (p + 1) 4;
         Some (Got_Int (to_int64 (of_nat u) (2 ^ 31) 0xFFFFFFFF), Some 6)
       }
       else if LP_ENCODING_IS_64BIT_INT b then do {
         u \<leftarrow> get_le lp (p + 1) 8;
         Some (Got_Int (to_int64 (of_nat u) (2 ^ 63) (of_nat UINT64_MAX)), Some 10)
       }
       else if LP_ENCODING_IS_12BIT_STR b then do {
         count \<leftarrow> LP_ENCODING_12BIT_STR_LEN lp p;
         Some (Got_Str (p + 2) count, Some (2 + count + backlen_size (count + 2)))
       }
       else if LP_ENCODING_IS_32BIT_STR b then do {
         count \<leftarrow> LP_ENCODING_32BIT_STR_LEN lp p;
         Some (Got_Str (p + 5) count, Some (5 + count + backlen_size (count + 5)))
       }
       else Some (Got_Int (to_int64 (12345678900000000 + ucast b) (of_nat UINT64_MAX) 0), None)
     }"

definition lpGet :: "byte list \<Rightarrow> nat \<Rightarrow> lp_got option" where
  "lpGet lp p = map_option fst (lpGetWithSize lp p)"

definition lpGetValue :: "byte list \<Rightarrow> nat \<Rightarrow> lp_got option" where
  "lpGetValue lp p = lpGet lp p"

text \<open>\<^verbatim>\<open>lpGet\<close> with a buffer for integers: the string the caller can read.\<close>

definition lpGet_intbuf :: "byte list \<Rightarrow> nat \<Rightarrow> byte list option" where
  "lpGet_intbuf lp p =
     do {
       r \<leftarrow> lpGet lp p;
       (case r of
          Got_Str off count \<Rightarrow> mem_read lp off count
        | Got_Int val \<Rightarrow> do {
            (intbuf, count) \<leftarrow> ll2string (replicate LP_INTBUF_SIZE 0) 0 LP_INTBUF_SIZE val;
            mem_read intbuf 0 (unat count)
          })
     }"

text \<open>The cached outcome of \<^verbatim>\<open>lpStringToInt64\<close> in \<^verbatim>\<open>lpFind\<close>: \<open>None\<close> while \<^verbatim>\<open>vencoding\<close> is 0, \<open>Some None\<close> when
  it is \<^verbatim>\<open>UCHAR_MAX\<close>.\<close>

definition find_vencoding :: "byte list \<Rightarrow> int option option \<Rightarrow> int option option" where
  "find_vencoding s venc =
     (case venc of
        Some v \<Rightarrow> Some v
      | None \<Rightarrow> if length s \<ge> 32 \<or> length s = 0 then Some None else lpStringToInt64 s (length s))"

text \<open>The checks after a move of \<^verbatim>\<open>p\<close> in \<^verbatim>\<open>lpFind\<close>: whether the end is reached.\<close>

definition find_check :: "byte list \<Rightarrow> nat \<Rightarrow> nat \<Rightarrow> bool option" where
  "find_check lp lp_bytes p =
     do {
       _ \<leftarrow> (if p + 8 \<ge> lp_bytes then lpAssertValidEntry lp lp_bytes p
             else if p \<ge> LP_HDR_SIZE \<and> p < lp_bytes then Some () else None);
       b \<leftarrow> mem_get lp p;
       Some (b = LP_EOF)
     }"

partial_function (option) find_loop ::
  "byte list \<Rightarrow> nat \<Rightarrow> byte list \<Rightarrow> nat \<Rightarrow> nat \<Rightarrow> nat \<Rightarrow> int option option \<Rightarrow> nat \<Rightarrow> nat option option" where
  "find_loop lp lp_bytes s skip p skipcnt venc entry_size =
     (if skipcnt = 0 then do {
        (value, esz) \<leftarrow> lpGetWithSize lp p;
        let entry_size = (case esz of Some n \<Rightarrow> n | None \<Rightarrow> entry_size);
        (found, venc) \<leftarrow> (case value of
             Got_Str off ll \<Rightarrow>
               if \<not> (p \<ge> LP_HDR_SIZE \<and> p + entry_size < lp_bytes) then None
               else if length s = ll then do { bs \<leftarrow> mem_read lp off ll; Some (bs = s, venc) }
               else Some (False, venc)
           | Got_Int ll \<Rightarrow> do {
               v \<leftarrow> find_vencoding s venc;
               Some (v = Some ll, Some v)
             });
        if found then Some (Some p)
        else do {
          let p = p + entry_size;
          eof \<leftarrow> find_check lp lp_bytes p;
          if eof then Some None else find_loop lp lp_bytes s skip p skip venc entry_size
        }
      } else do {
        p \<leftarrow> lpSkip lp p;
        eof \<leftarrow> find_check lp lp_bytes p;
        if eof then Some None else find_loop lp lp_bytes s skip p (skipcnt - 1) venc entry_size
      })"

definition lpFind :: "byte list \<Rightarrow> nat \<Rightarrow> byte list \<Rightarrow> nat \<Rightarrow> nat option option" where
  "lpFind lp p s skip = do { lp_bytes \<leftarrow> lpBytes lp; find_loop lp lp_bytes s skip p 0 None 123456789 }"

definition lpCompare :: "byte list \<Rightarrow> nat \<Rightarrow> byte list \<Rightarrow> bool option" where
  "lpCompare lp p s =
     do {
       b \<leftarrow> mem_get lp p;
       if b = LP_EOF then Some False
       else do {
         value \<leftarrow> lpGet lp p;
         (case value of
            Got_Str off sz \<Rightarrow>
              if length s = sz then do { bs \<leftarrow> mem_read lp off sz; Some (bs = s) } else Some False
          | Got_Int sz \<Rightarrow> do {
              r \<leftarrow> lpStringToInt64 s (length s);
              Some (case r of Some sval \<Rightarrow> sz = sval | None \<Rightarrow> False)
            })
       }
     }"

section \<open>Insertion and deletion\<close>

datatype lp_where = LP_BEFORE | LP_AFTER | LP_REPLACE

text \<open>The element to store: a string (\<^verbatim>\<open>elestr\<close>), an encoded integer (\<^verbatim>\<open>eleint\<close>), or none, which deletes.\<close>

datatype lp_elem = Ele_Str "byte list" | Ele_Int "byte list" | Ele_Delete

definition UINT32_MAX :: nat where "UINT32_MAX = 2 ^ 32 - 1"

text \<open>\<^verbatim>\<open>lp_realloc\<close> to a larger size.\<close>

definition lp_grow :: "byte list \<Rightarrow> nat \<Rightarrow> byte list" where
  "lp_grow lp n = lp @ replicate (n - length lp) 0"

text \<open>The bytes of the header after an insertion or a deletion.\<close>

definition update_count :: "byte list \<Rightarrow> int \<Rightarrow> byte list option" where
  "update_count lp diff =
     do {
       num_elements \<leftarrow> lpGetNumElements lp;
       if num_elements \<noteq> LP_HDR_NUMELE_UNKNOWN then lpSetNumElements lp (int num_elements + diff)
       else Some lp
     }"

text \<open>\<open>Some None\<close>: \<^verbatim>\<open>NULL\<close>, the listpack would be too large. Otherwise the listpack and \<^verbatim>\<open>*newp\<close>.\<close>

definition lpInsert ::
  "byte list \<Rightarrow> lp_elem \<Rightarrow> nat \<Rightarrow> lp_where \<Rightarrow> (byte list \<times> nat option) option option" where
  "lpInsert lp ele p wher =
     do {
       let delete = (ele = Ele_Delete);
       let wher = (if delete then LP_REPLACE else wher);
       (p, wher) \<leftarrow>
         (if wher = LP_AFTER then do {
            p \<leftarrow> lpSkip lp p;
            total \<leftarrow> lpGetTotalBytes lp;
            if p \<ge> LP_HDR_SIZE \<and> p < total then Some (p, LP_BEFORE) else None
          } else Some (p, wher));
       let poff = p;
       (intenc, enclen) \<leftarrow>
         (case ele of
            Ele_Str elestr \<Rightarrow> lpEncodeGetType elestr
          | Ele_Int eleint \<Rightarrow> Some (Some eleint, length eleint)
          | Ele_Delete \<Rightarrow> Some (None, 0));
       let backlen = (if \<not> delete then lpEncodeBacklen enclen else []);
       old_listpack_bytes \<leftarrow> lpGetTotalBytes lp;
       replaced_len \<leftarrow>
         (if wher = LP_REPLACE then do {
            n \<leftarrow> lpCurrentEncodedSizeUnsafe lp p;
            let n = (n + backlen_size n) mod 2 ^ 32;
            if p \<ge> LP_HDR_SIZE \<and> p + n < old_listpack_bytes then Some n else None
          } else Some 0);
       let new_listpack_bytes = old_listpack_bytes + enclen + length backlen - replaced_len;
       if new_listpack_bytes > UINT32_MAX then Some None
       else do {
         let lp = (if new_listpack_bytes > old_listpack_bytes \<and> new_listpack_bytes > length lp
                   then lp_grow lp new_listpack_bytes else lp);
         let dst = poff;
         lp \<leftarrow> (if wher = LP_BEFORE
                then mem_move lp (dst + enclen + length backlen) dst (old_listpack_bytes - poff)
                else mem_move lp (dst + enclen + length backlen) (dst + replaced_len)
                       (old_listpack_bytes - poff - replaced_len));
         let lp = (if new_listpack_bytes < old_listpack_bytes then take new_listpack_bytes lp else lp);
         newp \<leftarrow> (if delete then do { b \<leftarrow> mem_get lp dst; Some (if b = LP_EOF then None else Some dst) }
                  else Some (Some dst));
         lp \<leftarrow> (if delete then Some lp
                else do {
                  lp \<leftarrow> (case intenc of
                          Some e \<Rightarrow> mem_write lp dst e
                        | None \<Rightarrow> (case ele of
                                    Ele_Str elestr \<Rightarrow> mem_write lp dst (lpEncodeString elestr)
                                  | _ \<Rightarrow> None));
                  mem_write lp (dst + enclen) backlen
                });
         lp \<leftarrow> (if wher \<noteq> LP_REPLACE \<or> delete
                then update_count lp (if \<not> delete then 1 else -1) else Some lp);
         lp \<leftarrow> lpSetTotalBytes lp (int new_listpack_bytes);
         Some (Some (lp, newp))
       }
     }"

definition lpInsertString ::
  "byte list \<Rightarrow> byte list \<Rightarrow> nat \<Rightarrow> lp_where \<Rightarrow> (byte list \<times> nat option) option option" where
  "lpInsertString lp s p wher = lpInsert lp (Ele_Str s) p wher"

definition lpInsertInteger ::
  "byte list \<Rightarrow> int \<Rightarrow> nat \<Rightarrow> lp_where \<Rightarrow> (byte list \<times> nat option) option option" where
  "lpInsertInteger lp lval p wher = lpInsert lp (Ele_Int (lpEncodeIntegerGetType lval)) p wher"

definition lpAppend :: "byte list \<Rightarrow> byte list \<Rightarrow> byte list option option" where
  "lpAppend lp ele =
     do {
       listpack_bytes \<leftarrow> lpGetTotalBytes lp;
       let eofptr = listpack_bytes - 1;
       map_option (map_option fst) (lpInsert lp (Ele_Str ele) eofptr LP_BEFORE)
     }"

definition lpAppendInteger :: "byte list \<Rightarrow> int \<Rightarrow> byte list option option" where
  "lpAppendInteger lp lval =
     do {
       listpack_bytes \<leftarrow> lpGetTotalBytes lp;
       let eofptr = listpack_bytes - 1;
       map_option (map_option fst) (lpInsertInteger lp lval eofptr LP_BEFORE)
     }"

definition lpPrepend :: "byte list \<Rightarrow> byte list \<Rightarrow> byte list option option" where
  "lpPrepend lp s =
     do {
       p \<leftarrow> lpFirst lp;
       (case p of
          None \<Rightarrow> lpAppend lp s
        | Some p \<Rightarrow> map_option (map_option fst) (lpInsert lp (Ele_Str s) p LP_BEFORE))
     }"

definition lpPrependInteger :: "byte list \<Rightarrow> int \<Rightarrow> byte list option option" where
  "lpPrependInteger lp lval =
     do {
       p \<leftarrow> lpFirst lp;
       (case p of
          None \<Rightarrow> lpAppendInteger lp lval
        | Some p \<Rightarrow> map_option (map_option fst) (lpInsertInteger lp lval p LP_BEFORE))
     }"

definition lpReplace :: "byte list \<Rightarrow> nat \<Rightarrow> byte list \<Rightarrow> (byte list \<times> nat option) option option" where
  "lpReplace lp p s = lpInsert lp (Ele_Str s) p LP_REPLACE"

definition lpReplaceInteger :: "byte list \<Rightarrow> nat \<Rightarrow> int \<Rightarrow> (byte list \<times> nat option) option option" where
  "lpReplaceInteger lp p lval = lpInsertInteger lp lval p LP_REPLACE"

definition lpDelete :: "byte list \<Rightarrow> nat \<Rightarrow> (byte list \<times> nat option) option option" where
  "lpDelete lp p = lpInsert lp Ele_Delete p LP_REPLACE"

text \<open>The loop of \<^verbatim>\<open>lpDeleteRangeWithEntry\<close>: the tail and the number of entries passed.\<close>

fun range_tail :: "byte list \<Rightarrow> nat \<Rightarrow> nat \<Rightarrow> nat \<Rightarrow> nat \<Rightarrow> (nat \<times> nat) option" where
  "range_tail lp bytes 0 tail deleted = Some (tail, deleted)"
| "range_tail lp bytes (Suc num) tail deleted =
     do {
       tail \<leftarrow> lpSkip lp tail;
       b \<leftarrow> mem_get lp tail;
       if b = LP_EOF then Some (tail, deleted + 1)
       else do {
         _ \<leftarrow> lpAssertValidEntry lp bytes tail;
         range_tail lp bytes num tail (deleted + 1)
       }
     }"

definition lpDeleteRangeWithEntry :: "byte list \<Rightarrow> nat \<Rightarrow> nat \<Rightarrow> (byte list \<times> nat option) option" where
  "lpDeleteRangeWithEntry lp p num =
     (if num = 0 then Some (lp, Some p)
      else do {
        bytes \<leftarrow> lpBytes lp;
        let eofptr = bytes - 1;
        let first = p;
        (tail, deleted) \<leftarrow> range_tail lp bytes num first 0;
        let poff = first;
        lp \<leftarrow> (if tail > eofptr + 1 then None else mem_move lp first tail (eofptr + 1 - tail));
        lp \<leftarrow> lpSetTotalBytes lp (int bytes - (int tail - int first));
        lp \<leftarrow> update_count lp (- int deleted);
        lp \<leftarrow> lpShrinkToFit lp;
        b \<leftarrow> mem_get lp poff;
        Some (lp, if b = LP_EOF then None else Some poff)
      })"

definition lpDeleteRange :: "byte list \<Rightarrow> int \<Rightarrow> nat \<Rightarrow> byte list option" where
  "lpDeleteRange lp index num =
     do {
       numele \<leftarrow> lpGetNumElements lp;
       if num = 0 then Some lp
       else do {
         p \<leftarrow> lpSeek lp index;
         (case p of
            None \<Rightarrow> Some lp
          | Some p \<Rightarrow> do {
              let index = (if numele \<noteq> LP_HDR_NUMELE_UNKNOWN \<and> index < 0 then int numele + index else index);
              if numele \<noteq> LP_HDR_NUMELE_UNKNOWN \<and> nat (int numele - index) \<le> num then do {
                lp \<leftarrow> mem_put lp p LP_EOF;
                lp \<leftarrow> lpSetTotalBytes lp (int p + 1);
                lp \<leftarrow> lpSetNumElements lp index;
                lpShrinkToFit lp
              } else map_option fst (lpDeleteRangeWithEntry lp p num)
            })
       }
     }"

text \<open>The loop of \<^verbatim>\<open>lpBatchDelete\<close> over the pointers: the listpack and \<^verbatim>\<open>dst\<close>.\<close>

fun batch_loop :: "byte list \<Rightarrow> nat \<Rightarrow> nat list \<Rightarrow> nat \<Rightarrow> (byte list \<times> nat) option" where
  "batch_loop lp lp_end [] dst = Some (lp, dst)"
| "batch_loop lp lp_end (skip # ps) dst =
     do {
       b \<leftarrow> mem_get lp skip;
       if b = LP_EOF then None
       else do {
         keep_start \<leftarrow> lpSkip lp skip;
         let keep_end = (case ps of [] \<Rightarrow> lp_end | q # _ \<Rightarrow> q);
         if ps \<noteq> [] \<and> keep_start = keep_end then batch_loop lp lp_end ps dst
         else if \<not> keep_end > keep_start then None
         else do {
           let bytes_to_keep = keep_end - keep_start;
           lp \<leftarrow> mem_move lp dst keep_start bytes_to_keep;
           batch_loop lp lp_end ps (dst + bytes_to_keep)
         }
       }
     }"

definition lpBatchDelete :: "byte list \<Rightarrow> nat list \<Rightarrow> byte list option" where
  "lpBatchDelete lp ps =
     (case ps of
        [] \<Rightarrow> Some lp
      | dst # _ \<Rightarrow> do {
          total_bytes \<leftarrow> lpGetTotalBytes lp;
          let lp_end = total_bytes;
          b \<leftarrow> mem_get lp (lp_end - 1);
          if b \<noteq> LP_EOF then None
          else do {
            (lp, dst) \<leftarrow> batch_loop lp lp_end ps dst;
            let deleted_bytes = lp_end - dst;
            let total_bytes = total_bytes - deleted_bytes;
            b \<leftarrow> mem_get lp (total_bytes - 1);
            if b \<noteq> LP_EOF then None
            else do {
              lp \<leftarrow> lpSetTotalBytes lp (int total_bytes);
              lp \<leftarrow> update_count lp (- int (length ps));
              lpShrinkToFit lp
            }
          }
        })"

text \<open>\<^verbatim>\<open>lpMerge\<close> of two different listpacks: the merged listpack. The other one is freed.\<close>

definition lpMerge :: "byte list \<Rightarrow> byte list \<Rightarrow> byte list option" where
  "lpMerge first second =
     do {
       first_bytes \<leftarrow> lpBytes first;
       (first, first_len) \<leftarrow> lpLength first;
       second_bytes \<leftarrow> lpBytes second;
       (second, second_len) \<leftarrow> lpLength second;
       let append = (first_bytes \<ge> second_bytes);
       let (target, target_bytes, source, source_bytes) =
         (if append then (first, first_bytes, second, second_bytes)
          else (second, second_bytes, first, first_bytes));
       let lpbytes = first_bytes + second_bytes - LP_HDR_SIZE - 1;
       if \<not> lpbytes < UINT32_MAX then None
       else do {
         let lplength = first_len + second_len;
         let lplength = (if lplength < 65535 then lplength else 65535);
         let target = (if lpbytes \<le> length target then take lpbytes target else lp_grow target lpbytes);
         target \<leftarrow>
           (if append then do {
              bs \<leftarrow> mem_read source LP_HDR_SIZE (source_bytes - LP_HDR_SIZE);
              mem_write target (target_bytes - 1) bs
            } else do {
              target \<leftarrow> mem_move target (source_bytes - 1) LP_HDR_SIZE (target_bytes - LP_HDR_SIZE);
              bs \<leftarrow> mem_read source 0 (source_bytes - 1);
              mem_write target 0 bs
            });
         target \<leftarrow> lpSetNumElements target (int lplength);
         lpSetTotalBytes target (int lpbytes)
       }
     }"

definition lpDup :: "byte list \<Rightarrow> byte list option" where
  "lpDup lp = do { lpbytes \<leftarrow> lpBytes lp; mem_read lp 0 lpbytes }"

definition lpEstimateBytesRepeatedInteger :: "int \<Rightarrow> nat \<Rightarrow> nat" where
  "lpEstimateBytesRepeatedInteger lval rep =
     (let enclen = length (lpEncodeIntegerGetType lval); backlen = backlen_size enclen
      in LP_HDR_SIZE + (enclen + backlen) * rep + 1)"

section \<open>Integrity\<close>

definition lpValidateFirst :: "byte list \<Rightarrow> nat option option" where
  "lpValidateFirst lp =
     do {
       b \<leftarrow> mem_get lp LP_HDR_SIZE;
       Some (if b = LP_EOF then None else Some LP_HDR_SIZE)
     }"

text \<open>The loop of the deep check; \<open>cb\<close> is the callback with its user data as a state. \<open>Some None\<close>: the check
  failed. Otherwise the last pointer and the count.\<close>

partial_function (option) validate_entries ::
  "('s \<Rightarrow> nat \<Rightarrow> nat \<Rightarrow> 's \<times> bool) option \<Rightarrow> byte list \<Rightarrow> nat \<Rightarrow> nat \<Rightarrow> 's \<Rightarrow> nat option \<Rightarrow> nat \<Rightarrow>
     (nat option \<times> nat) option option" where
  "validate_entries cb lp bytes numele st p count =
     (case p of
        None \<Rightarrow> Some (Some (p, count))
      | Some q \<Rightarrow> do {
          b \<leftarrow> mem_get lp q;
          if b = LP_EOF then Some (Some (p, count))
          else do {
            r \<leftarrow> lpValidateNext lp q bytes;
            (case r of
               None \<Rightarrow> Some None
             | Some p' \<Rightarrow>
                 let (st, ok) = (case cb of None \<Rightarrow> (st, True) | Some f \<Rightarrow> f st q numele)
                 in if \<not> ok then Some None
                    else validate_entries cb lp bytes numele st p' (count + 1))
          }
        })"

definition lpValidateIntegrity ::
  "('s \<Rightarrow> nat \<Rightarrow> nat \<Rightarrow> 's \<times> bool) option \<Rightarrow> 's \<Rightarrow> byte list \<Rightarrow> nat \<Rightarrow> bool \<Rightarrow> bool option" where
  "lpValidateIntegrity cb st lp sz deep =
     (if sz < LP_HDR_SIZE + 1 then Some False
      else do {
        bytes \<leftarrow> lpGetTotalBytes lp;
        if bytes \<noteq> sz then Some False
        else do {
          b \<leftarrow> mem_get lp (sz - 1);
          if b \<noteq> LP_EOF then Some False
          else if \<not> deep then Some True
          else do {
            numele \<leftarrow> lpGetNumElements lp;
            r \<leftarrow> validate_entries cb lp bytes numele st (Some LP_HDR_SIZE) 0;
            (case r of
               None \<Rightarrow> Some False
             | Some (p, count) \<Rightarrow>
                 Some (p = Some (sz - 1) \<and> \<not> (numele \<noteq> LP_HDR_NUMELE_UNKNOWN \<and> numele \<noteq> count)))
          }
        }
      })"

section \<open>Random elements\<close>

text \<open>\<open>r\<close> is the value of \<^verbatim>\<open>rand()\<close>; the key and, when asked for, the value.\<close>

definition lpRandomPair :: "byte list \<Rightarrow> nat \<Rightarrow> nat \<Rightarrow> bool \<Rightarrow> (lp_got \<times> lp_got option) option" where
  "lpRandomPair lp total_count r want_val =
     (if total_count = 0 then None
      else do {
        p \<leftarrow> lpSeek lp (int ((r mod total_count) * 2));
        p \<leftarrow> p;
        key \<leftarrow> lpGetValue lp p;
        if \<not> want_val then Some (key, None)
        else do {
          p \<leftarrow> lpNext lp p;
          p \<leftarrow> p;
          val \<leftarrow> lpGetValue lp p;
          Some (key, Some val)
        }
      })"

text \<open>The loop of \<^verbatim>\<open>lpRandomEntries\<close> over the picks, sorted by index: the entries by their order.\<close>

fun pick_entries :: "byte list \<Rightarrow> (nat \<times> nat) list \<Rightarrow> nat option \<Rightarrow> nat \<Rightarrow> (nat \<times> lp_got) list option" where
  "pick_entries lp [] p j = Some []"
| "pick_entries lp ((index, order) # picks) p j =
     do {
       p \<leftarrow> seek_forward lp p (index - j);
       q \<leftarrow> p;
       v \<leftarrow> lpGetValue lp q;
       rest \<leftarrow> pick_entries lp picks p (max j index);
       Some ((order, v) # rest)
     }"

text \<open>\<open>rs\<close> are the values of \<^verbatim>\<open>rand()\<close>, one per entry wanted; the result is the array \<^verbatim>\<open>entries\<close>.\<close>

definition lpRandomEntries :: "byte list \<Rightarrow> nat list \<Rightarrow> (byte list \<times> (nat \<times> lp_got) list) option" where
  "lpRandomEntries lp rs =
     do {
       (lp, total_size) \<leftarrow> lpLength lp;
       if total_size = 0 then None
       else do {
         let picks = sort_key fst (zip (map (\<lambda>r. r mod total_size) rs) [0..<length rs]);
         p \<leftarrow> lpFirst lp;
         es \<leftarrow> pick_entries lp picks p 0;
         Some (lp, es)
       }
     }"

text \<open>\<open>pick i available\<close> is the outcome of the comparison of the random number with the threshold at index
  \<open>i\<close>. \<open>Some None\<close>: no element was picked.\<close>

partial_function (option) next_random ::
  "(nat \<Rightarrow> nat \<Rightarrow> bool) \<Rightarrow> byte list \<Rightarrow> nat \<Rightarrow> bool \<Rightarrow> nat option \<Rightarrow> nat \<Rightarrow> (nat \<times> nat) option option" where
  "next_random pick lp total_size even_only p i =
     (if \<not> i < total_size then Some None
      else (case p of
        None \<Rightarrow> Some None
      | Some q \<Rightarrow>
          if even_only \<and> i mod 2 \<noteq> 0 then do {
            p \<leftarrow> lpNext lp q;
            next_random pick lp total_size even_only p (i + 1)
          } else
            let available = (if even_only then (total_size - i) div 2 else total_size - i)
            in if pick i available then Some (Some (q, i))
               else do {
                 p \<leftarrow> lpNext lp q;
                 next_random pick lp total_size even_only p (i + 1)
               }))"

definition lpNextRandom ::
  "(nat \<Rightarrow> nat \<Rightarrow> bool) \<Rightarrow> byte list \<Rightarrow> nat \<Rightarrow> nat \<Rightarrow> bool \<Rightarrow> (byte list \<times> (nat \<times> nat) option) option" where
  "lpNextRandom pick lp p index even_only =
     do {
       (lp, total_size) \<leftarrow> lpLength lp;
       r \<leftarrow> next_random pick lp total_size even_only (Some p) index;
       Some (lp, r)
     }"

end
