(* ===== verification/Listpack_Proofs.thy ===== *)
theory Listpack_Proofs
  imports Listpack
begin

text \<open>
  Correctness of the listpack code: the encodings of lengths, integers and strings read back as what was
  written; a block represents a list of entries (\<open>lp_rep\<close>); the traversals, lookups and updates of
  \<^verbatim>\<open>listpack.c\<close> act on that list.
\<close>

section \<open>Bytes\<close>

lemma unat_byte: "unat (b :: byte) < 256"
proof -
  have "unat b < 2 ^ LENGTH(8)" by (rule unsigned_less)
  then show ?thesis by simp
qed

lemma byte_high:
  assumes "k \<le> 8"
  shows "unat (b AND NOT (mask k) :: byte) = unat b div 2 ^ k * 2 ^ k"
proof -
  have "b AND NOT (mask k) = push_bit k (drop_bit k b)"
    by (rule bit_word_eqI) (auto simp: bit_simps)
  moreover have "unat b div 2 ^ k * 2 ^ k < 2 ^ 8"
    by (rule le_less_trans [OF div_times_less_eq_dividend]) (use unat_byte [of b] in simp)
  moreover have "take_bit LENGTH(8) (unat b) = unat b" using unat_byte [of b] by (intro take_bit_nat_eq_self) simp
  ultimately show ?thesis
    by (simp only: unsigned_push_bit_eq unsigned_drop_bit_eq)
      (simp add: push_bit_eq_mult drop_bit_eq_div take_bit_nat_eq_self)
qed

lemma byte_low: "unat (b AND mask k :: byte) = unat b mod 2 ^ k"
proof -
  have "b AND mask k = take_bit k b" by (simp add: take_bit_eq_mask)
  then show ?thesis by (simp only: unsigned_take_bit_eq) (simp add: take_bit_nat_def)
qed

lemma byte_eq: "(b :: byte) = c \<longleftrightarrow> unat b = unat c"
  by (rule word_unat_eq_iff)

lemma enc_classes:
  "LP_ENCODING_IS_7BIT_UINT b \<longleftrightarrow> unat b < 128"
  "LP_ENCODING_IS_6BIT_STR b \<longleftrightarrow> 128 \<le> unat b \<and> unat b < 192"
  "LP_ENCODING_IS_13BIT_INT b \<longleftrightarrow> 192 \<le> unat b \<and> unat b < 224"
  "LP_ENCODING_IS_12BIT_STR b \<longleftrightarrow> 224 \<le> unat b \<and> unat b < 240"
  "LP_ENCODING_IS_32BIT_STR b \<longleftrightarrow> unat b = 240"
  "LP_ENCODING_IS_16BIT_INT b \<longleftrightarrow> unat b = 241"
  "LP_ENCODING_IS_24BIT_INT b \<longleftrightarrow> unat b = 242"
  "LP_ENCODING_IS_32BIT_INT b \<longleftrightarrow> unat b = 243"
  "LP_ENCODING_IS_64BIT_INT b \<longleftrightarrow> unat b = 244"
proof -
  have m: "(0x80 :: byte) = NOT (mask 7)" "(0xC0 :: byte) = NOT (mask 6)" "(0xE0 :: byte) = NOT (mask 5)"
    "(0xF0 :: byte) = NOT (mask 4)" "(0xFF :: byte) = NOT (mask 0)"
    by (simp_all add: mask_eq_exp_minus_1)
  note b = unat_byte [of b]
  have h: "unat (b AND 0x80) = unat b div 128 * 128" "unat (b AND 0xC0) = unat b div 64 * 64"
    "unat (b AND 0xE0) = unat b div 32 * 32" "unat (b AND 0xF0) = unat b div 16 * 16" "unat (b AND 0xFF) = unat b"
    using byte_high [of 7 b] byte_high [of 6 b] byte_high [of 5 b] byte_high [of 4 b] byte_high [of 0 b]
    unfolding m by simp_all
  show "LP_ENCODING_IS_7BIT_UINT b \<longleftrightarrow> unat b < 128"
    unfolding LP_ENCODING_IS_7BIT_UINT_def byte_eq h by simp arith
  show "LP_ENCODING_IS_6BIT_STR b \<longleftrightarrow> 128 \<le> unat b \<and> unat b < 192"
    unfolding LP_ENCODING_IS_6BIT_STR_def byte_eq h by simp arith
  show "LP_ENCODING_IS_13BIT_INT b \<longleftrightarrow> 192 \<le> unat b \<and> unat b < 224"
    unfolding LP_ENCODING_IS_13BIT_INT_def byte_eq h by simp arith
  show "LP_ENCODING_IS_12BIT_STR b \<longleftrightarrow> 224 \<le> unat b \<and> unat b < 240"
    unfolding LP_ENCODING_IS_12BIT_STR_def byte_eq h by simp arith
  show "LP_ENCODING_IS_32BIT_STR b \<longleftrightarrow> unat b = 240" "LP_ENCODING_IS_16BIT_INT b \<longleftrightarrow> unat b = 241"
    "LP_ENCODING_IS_24BIT_INT b \<longleftrightarrow> unat b = 242" "LP_ENCODING_IS_32BIT_INT b \<longleftrightarrow> unat b = 243"
    "LP_ENCODING_IS_64BIT_INT b \<longleftrightarrow> unat b = 244"
    unfolding LP_ENCODING_IS_32BIT_STR_def LP_ENCODING_IS_16BIT_INT_def LP_ENCODING_IS_24BIT_INT_def
      LP_ENCODING_IS_32BIT_INT_def LP_ENCODING_IS_64BIT_INT_def byte_eq h by simp_all
qed

section \<open>The backward length\<close>

lemma lpStringToInt64_eq: "lpStringToInt64 s slen = string2ll s slen"
  by (simp add: lpStringToInt64_def string2ll_def)

lemma decode_local:
  assumes "decode_backlen seg i val shift = Some r"
  shows "decode_backlen (xs @ seg @ ys) (length xs + i) val shift = Some r"
  using assms
proof (induction seg i val shift rule: decode_backlen.induct)
  case (1 seg i val shift)
  obtain b where b: "mem_get seg i = Some b"
    using "1.prems" by (subst (asm) decode_backlen.simps) (auto split: bind_splits)
  then have g: "mem_get (xs @ seg @ ys) (length xs + i) = Some b"
    by (auto simp: mem_get_def nth_append split: if_splits)
  show ?case
    using "1.prems" b g "1.IH" [OF b refl]
    by (subst decode_backlen.simps, subst (asm) decode_backlen.simps)
      (auto simp: Let_def split: if_splits)
qed

text \<open>The seven bits of the digit \<open>k\<close> of a length, and the bytes that carry them.\<close>

lemma and_127: "(n :: nat) AND 127 = n mod 128"
  using take_bit_eq_mask [of 7 n] by (simp add: take_bit_eq_mod mask_eq_exp_minus_1)

lemma cont_byte:
  assumes "n < 128"
  shows "unat ((of_nat n OR 128 :: byte) AND 127) = n" "(of_nat n OR 128 :: byte) AND 128 \<noteq> 0"
proof -
  have "list_all (\<lambda>n. unat ((of_nat n OR 128 :: byte) AND 127) = n \<and> (of_nat n OR 128 :: byte) AND 128 \<noteq> 0) [0..<128]"
    by code_simp
  with assms show "unat ((of_nat n OR 128 :: byte) AND 127) = n" "(of_nat n OR 128 :: byte) AND 128 \<noteq> 0"
    by (auto simp: list_all_iff)
qed

lemma last_byte:
  assumes "n < 128"
  shows "unat ((of_nat n :: byte) AND 127) = n" "(of_nat n :: byte) AND 128 = 0"
proof -
  have "list_all (\<lambda>n. unat ((of_nat n :: byte) AND 127) = n \<and> (of_nat n :: byte) AND 128 = 0) [0..<128]"
    by code_simp
  with assms show "unat ((of_nat n :: byte) AND 127) = n" "(of_nat n :: byte) AND 128 = 0"
    by (auto simp: list_all_iff)
qed

lemma or_shift:
  assumes "val < 2 ^ shift"
  shows "(val :: nat) OR push_bit shift n = val + n * 2 ^ shift"
proof -
  have "val OR push_bit shift n = val + push_bit shift n"
  proof (rule disjunctive_add [symmetric])
    fix k
    have "take_bit shift val = val" using assms by (rule take_bit_nat_eq_self)
    then have "bit val k \<Longrightarrow> k < shift" using bit_take_bit_iff [of shift val k] by simp
    then show "\<not> bit val k \<or> \<not> bit (push_bit shift n) k" by (auto simp: bit_simps)
  qed
  then show ?thesis by (simp add: push_bit_eq_mult)
qed

lemma decode_cont:
  assumes "Suc i < length seg" "seg ! Suc i = of_nat n OR 128" "n < 128" "shift \<le> 21" "val < 2 ^ shift"
  shows "decode_backlen seg (Suc i) val shift = decode_backlen seg i (val + n * 2 ^ shift) (shift + 7)"
  using assms cont_byte [OF assms(3)] or_shift [OF assms(5), of n]
  by (subst decode_backlen.simps) (simp add: Let_def)

lemma decode_last:
  assumes "i < length seg" "seg ! i = of_nat n" "n < 128" "val < 2 ^ shift"
  shows "decode_backlen seg i val shift = Some (val + n * 2 ^ shift)"
  using assms last_byte [OF assms(3)] or_shift [OF assms(4), of n]
  by (subst decode_backlen.simps) (simp add: Let_def)

lemma digits_of_length:
  "(l :: nat) = l mod 128 + l div 128 * 128"
  "l = l mod 128 + l div 128 mod 128 * 128 + l div 16384 * 16384"
  "l = l mod 128 + l div 128 mod 128 * 128 + l div 16384 mod 128 * 16384 + l div 2097152 * 2097152"
  "l = l mod 128 + l div 128 mod 128 * 128 + l div 16384 mod 128 * 16384 + l div 2097152 mod 128 * 2097152 +
     l div 268435456 * 268435456"
proof -
  have d: "l div 16384 = l div 128 div 128" "l div 2097152 = l div 128 div 128 div 128"
    "l div 268435456 = l div 128 div 128 div 128 div 128"
    by (simp_all flip: div_mult2_eq)
  note m = div_mult_mod_eq [of l 128] div_mult_mod_eq [of "l div 128" 128]
    div_mult_mod_eq [of "l div 128 div 128" 128] div_mult_mod_eq [of "l div 128 div 128 div 128" 128]
  show "l = l mod 128 + l div 128 * 128" by simp
  show "l = l mod 128 + l div 128 mod 128 * 128 + l div 16384 * 16384" unfolding d using m by linarith
  show "l = l mod 128 + l div 128 mod 128 * 128 + l div 16384 mod 128 * 16384 + l div 2097152 * 2097152"
    unfolding d using m by linarith
  show "l = l mod 128 + l div 128 mod 128 * 128 + l div 16384 mod 128 * 16384 + l div 2097152 mod 128 * 2097152 +
     l div 268435456 * 268435456" unfolding d using m by linarith
qed

lemma decode_encode:
  assumes "l < 2 ^ 35"
  shows "decode_backlen (lpEncodeBacklen l) (backlen_size l - 1) 0 0 = Some l"
proof -
  have e: "l mod 128 < 128" "l div 128 mod 128 < 128" "l div 16384 mod 128 < 128" "l div 2097152 mod 128 < 128" by simp_all
  note simps = lpEncodeBacklen_def backlen_size_def and_127 drop_bit_eq_div
  consider "l \<le> 127" | "127 < l" "l < 16383" | "16383 \<le> l" "l < 2097151" | "2097151 \<le> l" "l < 268435455"
    | "268435455 \<le> l" by linarith
  then show ?thesis
  proof cases
    case 1
    then show ?thesis using decode_last [of 0 "lpEncodeBacklen l" l 0 0] by (simp add: simps)
  next
    case 2
    let ?seg = "[of_nat (l div 128), of_nat (l mod 128) OR 128] :: byte list"
    have "decode_backlen ?seg (Suc 0) 0 0 = decode_backlen ?seg 0 (0 + l mod 128 * 2 ^ 0) (0 + 7)"
      by (rule decode_cont) simp_all
    also have "\<dots> = Some (0 + l mod 128 * 2 ^ 0 + l div 128 * 2 ^ (0 + 7))"
      using 2 by (intro decode_last) auto
    finally show ?thesis using 2 digits_of_length(1) [of l] by (simp add: simps)
  next
    case 3
    let ?seg = "[of_nat (l div 16384), of_nat (l div 128 mod 128) OR 128, of_nat (l mod 128) OR 128] :: byte list"
    have "decode_backlen ?seg (Suc (Suc 0)) 0 0 = decode_backlen ?seg (Suc 0) (0 + l mod 128 * 2 ^ 0) (0 + 7)"
      by (rule decode_cont) simp_all
    also have "\<dots> = decode_backlen ?seg 0 (0 + l mod 128 * 2 ^ 0 + l div 128 mod 128 * 2 ^ (0 + 7)) (0 + 7 + 7)"
      by (rule decode_cont) simp_all
    also have "\<dots> = Some (0 + l mod 128 * 2 ^ 0 + l div 128 mod 128 * 2 ^ (0 + 7) + l div 16384 * 2 ^ (0 + 7 + 7))"
      using 3 e by (intro decode_last) auto
    finally show ?thesis using 3 digits_of_length(2) [of l] by (simp add: simps)
  next
    case 4
    let ?seg = "[of_nat (l div 2097152), of_nat (l div 16384 mod 128) OR 128, of_nat (l div 128 mod 128) OR 128,
      of_nat (l mod 128) OR 128] :: byte list"
    have "decode_backlen ?seg (Suc (Suc (Suc 0))) 0 0 = decode_backlen ?seg (Suc (Suc 0)) (0 + l mod 128 * 2 ^ 0) (0 + 7)"
      by (rule decode_cont) simp_all
    also have "\<dots> = decode_backlen ?seg (Suc 0) (0 + l mod 128 * 2 ^ 0 + l div 128 mod 128 * 2 ^ (0 + 7)) (0 + 7 + 7)"
      by (rule decode_cont) simp_all
    also have "\<dots> = decode_backlen ?seg 0 (0 + l mod 128 * 2 ^ 0 + l div 128 mod 128 * 2 ^ (0 + 7) +
        l div 16384 mod 128 * 2 ^ (0 + 7 + 7)) (0 + 7 + 7 + 7)"
      using e by (intro decode_cont) auto
    also have "\<dots> = Some (0 + l mod 128 * 2 ^ 0 + l div 128 mod 128 * 2 ^ (0 + 7) +
        l div 16384 mod 128 * 2 ^ (0 + 7 + 7) + l div 2097152 * 2 ^ (0 + 7 + 7 + 7))"
      using 4 e by (intro decode_last) auto
    finally show ?thesis using 4 digits_of_length(3) [of l] by (simp add: simps)
  next
    case 5
    let ?seg = "[of_nat (l div 268435456), of_nat (l div 2097152 mod 128) OR 128, of_nat (l div 16384 mod 128) OR 128,
      of_nat (l div 128 mod 128) OR 128, of_nat (l mod 128) OR 128] :: byte list"
    have "decode_backlen ?seg (Suc (Suc (Suc (Suc 0)))) 0 0 =
        decode_backlen ?seg (Suc (Suc (Suc 0))) (0 + l mod 128 * 2 ^ 0) (0 + 7)"
      by (rule decode_cont) simp_all
    also have "\<dots> = decode_backlen ?seg (Suc (Suc 0)) (0 + l mod 128 * 2 ^ 0 + l div 128 mod 128 * 2 ^ (0 + 7)) (0 + 7 + 7)"
      by (rule decode_cont) simp_all
    also have "\<dots> = decode_backlen ?seg (Suc 0) (0 + l mod 128 * 2 ^ 0 + l div 128 mod 128 * 2 ^ (0 + 7) +
        l div 16384 mod 128 * 2 ^ (0 + 7 + 7)) (0 + 7 + 7 + 7)"
      using e by (intro decode_cont) auto
    also have "\<dots> = decode_backlen ?seg 0 (0 + l mod 128 * 2 ^ 0 + l div 128 mod 128 * 2 ^ (0 + 7) +
        l div 16384 mod 128 * 2 ^ (0 + 7 + 7) + l div 2097152 mod 128 * 2 ^ (0 + 7 + 7 + 7)) (0 + 7 + 7 + 7 + 7)"
      using e by (intro decode_cont) auto
    also have "\<dots> = Some (0 + l mod 128 * 2 ^ 0 + l div 128 mod 128 * 2 ^ (0 + 7) +
        l div 16384 mod 128 * 2 ^ (0 + 7 + 7) + l div 2097152 mod 128 * 2 ^ (0 + 7 + 7 + 7) +
        l div 268435456 * 2 ^ (0 + 7 + 7 + 7 + 7))"
      using 5 e assms by (intro decode_last) auto
    finally show ?thesis using 5 digits_of_length(4) [of l] by (simp add: simps)
  qed
qed

section \<open>Entries\<close>

text \<open>What an entry holds, and the string a reader sees.\<close>

datatype lp_val = VInt int | VStr "byte list"

fun val_bytes :: "lp_val \<Rightarrow> byte list" where
  "val_bytes (VInt v) = int_bytes v"
| "val_bytes (VStr s) = s"

text \<open>A block of bytes is a valid entry when its length is the one its first bytes announce, followed by a
  backward length that reads as the same number; the encoding need not be the shortest.\<close>

definition seg_ok :: "byte list \<Rightarrow> bool" where
  "seg_ok seg \<longleftrightarrow>
     (case (lpCurrentEncodedSizeUnsafe seg 0, lpCurrentEncodedSizeBytes seg 0) of
        (Some n, Some m) \<Rightarrow>
          hd seg \<noteq> LP_EOF \<and> 0 < m \<and> m \<le> n \<and> length seg = n + backlen_size n \<and>
          lpDecodeBacklen seg (length seg - 1) = Some n
      | _ \<Rightarrow> False)"

definition seg_val :: "byte list \<Rightarrow> lp_val" where
  "seg_val seg =
     (case lpGet seg 0 of
        Some (Got_Str off count) \<Rightarrow> VStr (take count (drop off seg))
      | Some (Got_Int v) \<Rightarrow> VInt v
      | None \<Rightarrow> VStr [])"

lemma backlen_size_bounds: "0 < backlen_size n" "backlen_size n \<le> 5"
  by (simp_all add: backlen_size_def lpEncodeBacklen_def)

text \<open>Reading an entry does not depend on where it lies.\<close>

lemma mem_get_local: "mem_get seg i = Some b \<Longrightarrow> mem_get (xs @ seg @ ys) (length xs + i) = Some b"
  by (auto simp: mem_get_def nth_append split: if_splits)

lemma mem_read_local: "mem_read seg i n = Some bs \<Longrightarrow> mem_read (xs @ seg @ ys) (length xs + i) n = Some bs"
  by (auto simp: mem_read_def split: if_splits)

lemma get_le_local: "get_le seg i n = Some v \<Longrightarrow> get_le (xs @ seg @ ys) (length xs + i) n = Some v"
  using mem_read_local [of seg i n _ xs ys] by (auto simp: get_le_def)

lemma str_len_local:
  "LP_ENCODING_6BIT_STR_LEN seg 0 = Some n \<Longrightarrow> LP_ENCODING_6BIT_STR_LEN (xs @ seg @ ys) (length xs) = Some n"
  "LP_ENCODING_12BIT_STR_LEN seg 0 = Some n \<Longrightarrow> LP_ENCODING_12BIT_STR_LEN (xs @ seg @ ys) (length xs) = Some n"
  "LP_ENCODING_32BIT_STR_LEN seg 0 = Some n \<Longrightarrow> LP_ENCODING_32BIT_STR_LEN (xs @ seg @ ys) (length xs) = Some n"
  using mem_get_local [of seg 0 _ xs ys] mem_get_local [of seg 1 _ xs ys] get_le_local [of seg 1 4 _ xs ys]
  by (auto simp: LP_ENCODING_6BIT_STR_LEN_def LP_ENCODING_12BIT_STR_LEN_def LP_ENCODING_32BIT_STR_LEN_def
      split: bind_splits)

lemma size_local:
  assumes "lpCurrentEncodedSizeUnsafe seg 0 = Some n"
  shows "lpCurrentEncodedSizeUnsafe (xs @ seg @ ys) (length xs) = Some n"
proof -
  obtain b where b: "mem_get seg 0 = Some b"
    using assms by (auto simp: lpCurrentEncodedSizeUnsafe_def split: bind_splits)
  note g = mem_get_local [OF b, of xs ys, simplified]
  show ?thesis using assms b g str_len_local [of seg _ xs ys]
    by (auto simp: lpCurrentEncodedSizeUnsafe_def split: if_splits)
qed

lemma size_bytes_local:
  assumes "lpCurrentEncodedSizeBytes seg 0 = Some n"
  shows "lpCurrentEncodedSizeBytes (xs @ seg @ ys) (length xs) = Some n"
proof -
  obtain b where b: "mem_get seg 0 = Some b"
    using assms by (auto simp: lpCurrentEncodedSizeBytes_def split: bind_splits)
  note g = mem_get_local [OF b, of xs ys, simplified]
  show ?thesis using assms b g by (simp add: lpCurrentEncodedSizeBytes_def)
qed

fun got_shift :: "nat \<Rightarrow> lp_got \<Rightarrow> lp_got" where
  "got_shift k (Got_Str off n) = Got_Str (k + off) n"
| "got_shift k (Got_Int v) = Got_Int v"

lemma get_local:
  assumes "lpGetWithSize seg 0 = Some (g, e)"
  shows "lpGetWithSize (xs @ seg @ ys) (length xs) = Some (got_shift (length xs) g, e)"
proof -
  obtain b where b: "mem_get seg 0 = Some b"
    using assms by (auto simp: lpGetWithSize_def split: bind_splits)
  note g = mem_get_local [OF b, of xs ys, simplified]
  show ?thesis using assms b g
    mem_get_local [of seg 1 _ xs ys] get_le_local [of seg 1 _ _ xs ys] str_len_local [of seg _ xs ys]
    unfolding lpGetWithSize_def b g bind.bind_lunit
    by (auto split: if_splits bind_splits)
qed

lemma low_bits: "unat (b AND 0x3F :: byte) = unat b mod 64" "unat (b AND 0xF :: byte) = unat b mod 16"
  "unat (b AND 0x1F :: byte) = unat b mod 32" "unat (b AND 0x7F :: byte) = unat b mod 128"
  using byte_low [of b 6] byte_low [of b 4] byte_low [of b 5] byte_low [of b 7] by (simp_all add: mask_eq_exp_minus_1)

lemma or_byte: "push_bit 8 n OR unat (c :: byte) = 256 * n + unat c"
  using or_shift [of "unat c" 8 n] unat_byte [of c] by (simp add: or.commute)

lemma get_le_bound:
  assumes "get_le lp p n = Some v"
  shows "v < 256 ^ n"
proof -
  obtain bs where bs: "mem_read lp p n = Some bs" "v = nat (le_uint bs)" using assms by (auto simp: get_le_def)
  then have "length bs = n" by (auto simp: mem_read_def split: if_splits)
  then have "le_uint bs < int (256 ^ n)" using le_uint_bound [of bs] by simp
  then show ?thesis unfolding bs(2) using nat_less_iff [OF le_uint_nonneg, of bs "256 ^ n"] by blast
qed

lemma str_len_bound:
  "LP_ENCODING_6BIT_STR_LEN lp p = Some n \<Longrightarrow> n < 64"
  "LP_ENCODING_12BIT_STR_LEN lp p = Some n \<Longrightarrow> n < 4096"
  "LP_ENCODING_32BIT_STR_LEN lp p = Some n \<Longrightarrow> n < 2 ^ 32"
proof -
  show "LP_ENCODING_6BIT_STR_LEN lp p = Some n \<Longrightarrow> n < 64"
    by (auto simp: LP_ENCODING_6BIT_STR_LEN_def low_bits)
  have "256 * (unat b mod 16) + unat c < 4096" for b c :: byte using unat_byte [of c] by simp
  then show "LP_ENCODING_12BIT_STR_LEN lp p = Some n \<Longrightarrow> n < 4096"
    by (auto simp: LP_ENCODING_12BIT_STR_LEN_def low_bits or_byte split: bind_splits)
  show "LP_ENCODING_32BIT_STR_LEN lp p = Some n \<Longrightarrow> n < 2 ^ 32"
    using get_le_bound [of lp "p + 1" 4 n] by (simp add: LP_ENCODING_32BIT_STR_LEN_def)
qed

lemma size_bound: "lpCurrentEncodedSizeUnsafe lp p = Some n \<Longrightarrow> n < 2 ^ 32"
  by (auto simp: lpCurrentEncodedSizeUnsafe_def split: bind_splits if_splits dest!: str_len_bound)

lemma seg_okE:
  assumes "seg_ok seg"
  obtains n m where "lpCurrentEncodedSizeUnsafe seg 0 = Some n" "lpCurrentEncodedSizeBytes seg 0 = Some m"
    "hd seg \<noteq> LP_EOF" "0 < m" "m \<le> n" "length seg = n + backlen_size n"
    "lpDecodeBacklen seg (length seg - 1) = Some n" "n < 2 ^ 32" "seg \<noteq> []"
proof -
  obtain n m where nm: "lpCurrentEncodedSizeUnsafe seg 0 = Some n" "lpCurrentEncodedSizeBytes seg 0 = Some m"
    using assms by (auto simp: seg_ok_def split: option.splits)
  moreover have "n < 2 ^ 32" using size_bound nm(1) by blast
  moreover have "seg \<noteq> []" using nm(1) by (auto simp: lpCurrentEncodedSizeUnsafe_def mem_get_def)
  ultimately show thesis using that assms by (auto simp: seg_ok_def)
qed

section \<open>The invariant\<close>

text \<open>\<open>lp_rep lp segs\<close>: the block holds a listpack with the entries \<open>segs\<close>. The count in the header is exact
  unless it is the value that stands for an unknown one; bytes of the allocation may follow the end.\<close>

definition lp_total :: "byte list list \<Rightarrow> nat" where
  "lp_total segs = 7 + length (concat segs)"

definition lp_header :: "nat \<Rightarrow> nat \<Rightarrow> byte list" where
  "lp_header tot num = le_bytes 4 (int tot) @ le_bytes 2 (int num)"

definition num_ok :: "nat \<Rightarrow> byte list list \<Rightarrow> bool" where
  "num_ok num segs \<longleftrightarrow> num < 65536 \<and> (num \<noteq> 65535 \<longrightarrow> num = length segs)"

definition lp_rep :: "byte list \<Rightarrow> byte list list \<Rightarrow> bool" where
  "lp_rep lp segs \<longleftrightarrow>
     (\<exists>num slack. lp = lp_header (lp_total segs) num @ concat segs @ [LP_EOF] @ slack \<and> num_ok num segs) \<and>
     lp_total segs < 2 ^ 32 \<and> (\<forall>s \<in> set segs. seg_ok s)"

text \<open>The offset of the entry with a given index; the index after the last one is the end byte.\<close>

definition lp_off :: "byte list list \<Rightarrow> nat \<Rightarrow> nat" where
  "lp_off segs i = 6 + length (concat (take i segs))"

lemma length_lp_header [simp]: "length (lp_header tot num) = 6"
  by (simp add: lp_header_def)

lemma lp_repE:
  assumes "lp_rep lp segs"
  obtains num slack where "lp = lp_header (lp_total segs) num @ concat segs @ [LP_EOF] @ slack" "num_ok num segs"
    "lp_total segs < 2 ^ 32" "\<forall>s \<in> set segs. seg_ok s"
  using assms by (auto simp: lp_rep_def)

lemma get_le_header:
  assumes "length xs = p" "v < 256 ^ n"
  shows "get_le (xs @ le_bytes n (int v) @ ys) p n = Some v"
proof -
  have "mem_read (xs @ le_bytes n (int v) @ ys) p n = Some (le_bytes n (int v))"
    using assms(1) by (simp add: mem_read_def)
  moreover have "nat (le_uint (le_bytes n (int v))) = v"
    using assms(2) by (simp add: byte_simps nat_mod_distrib nat_power_eq)
  ultimately show ?thesis by (simp add: get_le_def)
qed

lemma header_total: "tot < 2 ^ 32 \<Longrightarrow> lpGetTotalBytes (lp_header tot num @ rest) = Some tot"
  using get_le_header [of "[]" 0 tot 4 "le_bytes 2 (int num) @ rest"]
  by (simp add: lpGetTotalBytes_def lp_header_def)

lemma header_num: "num < 65536 \<Longrightarrow> lpGetNumElements (lp_header tot num @ rest) = Some num"
  using get_le_header [of "le_bytes 4 (int tot)" 4 num 2 rest]
  by (simp add: lpGetNumElements_def lp_header_def)

lemma rep_total: "lp_rep lp segs \<Longrightarrow> lpGetTotalBytes lp = Some (lp_total segs)"
  by (elim lp_repE) (simp add: header_total)

lemma rep_bytes: "lp_rep lp segs \<Longrightarrow> lpBytes lp = Some (lp_total segs)"
  by (simp add: lpBytes_def rep_total)

lemma rep_num:
  assumes "lp_rep lp segs"
  shows "\<exists>num. lpGetNumElements lp = Some num \<and> num_ok num segs"
  using assms by (elim lp_repE) (auto simp: header_num num_ok_def)

lemma lp_off_0 [simp]: "lp_off segs 0 = 6"
  by (simp add: lp_off_def)

lemma lp_off_end: "length segs \<le> i \<Longrightarrow> lp_off segs i = lp_total segs - 1"
  by (simp add: lp_off_def lp_total_def)

lemma lp_off_Suc: "i < length segs \<Longrightarrow> lp_off segs (Suc i) = lp_off segs i + length (segs ! i)"
  by (simp add: lp_off_def take_Suc_conv_app_nth)

lemma lp_off_ge: "6 \<le> lp_off segs i"
  by (simp add: lp_off_def)

lemma lp_off_less: "lp_off segs i < lp_total segs"
proof -
  have "length (concat (take i segs)) \<le> length (concat segs)"
    by (metis append_take_drop_id concat_append length_append le_add1)
  then show ?thesis by (simp add: lp_off_def lp_total_def)
qed

text \<open>The block around an entry and around the end byte.\<close>

lemma rep_split:
  assumes "lp_rep lp segs" "i < length segs"
  obtains xs ys where "lp = xs @ segs ! i @ ys" "length xs = lp_off segs i"
proof -
  obtain num slack where lp: "lp = lp_header (lp_total segs) num @ concat segs @ [LP_EOF] @ slack"
    using assms(1) by (rule lp_repE)
  have "concat segs = concat (take i segs) @ segs ! i @ concat (drop (Suc i) segs)"
    by (metis assms(2) concat.simps(2) concat_append id_take_nth_drop)
  then have "lp = (lp_header (lp_total segs) num @ concat (take i segs)) @ segs ! i @
      (concat (drop (Suc i) segs) @ [LP_EOF] @ slack)" using lp by simp
  then show thesis by (rule that) (simp add: lp_off_def)
qed

lemma rep_seg_ok: "lp_rep lp segs \<Longrightarrow> i < length segs \<Longrightarrow> seg_ok (segs ! i)"
  by (auto simp: lp_rep_def)

lemma rep_end:
  assumes "lp_rep lp segs" "length segs \<le> i"
  shows "mem_get lp (lp_off segs i) = Some LP_EOF"
proof -
  obtain num slack where lp: "lp = lp_header (lp_total segs) num @ concat segs @ [LP_EOF] @ slack"
    using assms(1) by (rule lp_repE)
  then have "lp = (lp_header (lp_total segs) num @ concat segs) @ [LP_EOF] @ slack" by simp
  moreover have "mem_get (xs @ [LP_EOF] @ ys) (length xs) = Some LP_EOF" for xs ys
    by (simp add: mem_get_def)
  moreover have "length (lp_header (lp_total segs) num @ concat segs) = lp_off segs i"
    using assms(2) by (simp add: lp_off_def)
  ultimately show ?thesis by metis
qed

lemma rep_first_byte:
  assumes "lp_rep lp segs" "i < length segs"
  shows "\<exists>b. mem_get lp (lp_off segs i) = Some b \<and> b \<noteq> LP_EOF"
proof -
  obtain xs ys where s: "lp = xs @ segs ! i @ ys" "length xs = lp_off segs i" using rep_split [OF assms] .
  have ok: "seg_ok (segs ! i)" using rep_seg_ok [OF assms] .
  then obtain b bs where "segs ! i = b # bs" "b \<noteq> LP_EOF"
    by (elim seg_okE) (cases "segs ! i", auto)
  then show ?thesis using s by (auto simp: mem_get_def nth_append)
qed

text \<open>Whether the byte at an offset is the end.\<close>

lemma rep_byte:
  assumes "lp_rep lp segs"
  obtains b where "mem_get lp (lp_off segs i) = Some b" "(b = LP_EOF) = (length segs \<le> i)"
  using rep_first_byte [OF assms, of i] rep_end [OF assms, of i] by (cases "i < length segs") auto

section \<open>Moving\<close>

lemma rep_skip:
  assumes "lp_rep lp segs" "i < length segs"
  shows "lpSkip lp (lp_off segs i) = Some (lp_off segs (Suc i))"
proof -
  obtain xs ys where s: "lp = xs @ segs ! i @ ys" "length xs = lp_off segs i" using rep_split [OF assms] .
  obtain n where n: "lpCurrentEncodedSizeUnsafe (segs ! i) 0 = Some n" "length (segs ! i) = n + backlen_size n"
    using rep_seg_ok [OF assms] by (rule seg_okE)
  show ?thesis
    using size_local [OF n(1), of xs ys] n(2) s lp_off_Suc [OF assms(2)]
    by (simp add: lpSkip_def)
qed

lemma rep_decode:
  assumes "lp_rep lp segs" "i < length segs"
  shows "lpDecodeBacklen lp (lp_off segs (Suc i) - 1) = lpDecodeBacklen (segs ! i) (length (segs ! i) - 1)"
proof -
  obtain xs ys where s: "lp = xs @ segs ! i @ ys" "length xs = lp_off segs i" using rep_split [OF assms] .
  obtain n where n: "lpDecodeBacklen (segs ! i) (length (segs ! i) - 1) = Some n" "segs ! i \<noteq> []"
    using rep_seg_ok [OF assms] by (rule seg_okE)
  have "0 < length (segs ! i)" using n(2) by simp
  then have "length xs + (length (segs ! i) - 1) = lp_off segs (Suc i) - 1"
    using s(2) lp_off_Suc [OF assms(2)] by linarith
  then show ?thesis
    using decode_local [of "segs ! i" "length (segs ! i) - 1" 0 0 n xs ys] n s(1)
    by (simp add: lpDecodeBacklen_def)
qed

lemma rep_validate:
  assumes "lp_rep lp segs" "i < length segs"
  shows "lpValidateNext lp (lp_off segs i) (lp_total segs) = Some (Some (Some (lp_off segs (Suc i))))"
proof -
  obtain xs ys where s: "lp = xs @ segs ! i @ ys" "length xs = lp_off segs i" using rep_split [OF assms] .
  obtain n m where n: "lpCurrentEncodedSizeUnsafe (segs ! i) 0 = Some n" "lpCurrentEncodedSizeBytes (segs ! i) 0 = Some m"
    "0 < m" "m \<le> n" "length (segs ! i) = n + backlen_size n"
    "lpDecodeBacklen (segs ! i) (length (segs ! i) - 1) = Some n" "n < 2 ^ 32"
    using rep_seg_ok [OF assms] by (rule seg_okE)
  obtain b where b: "mem_get lp (lp_off segs i) = Some b" "b \<noteq> LP_EOF" using rep_first_byte [OF assms] by blast
  have sz: "lpCurrentEncodedSizeUnsafe lp (lp_off segs i) = Some n" "lpCurrentEncodedSizeBytes lp (lp_off segs i) = Some m"
    using size_local [OF n(1), of xs ys] size_bytes_local [OF n(2), of xs ys] s by simp_all
  have off: "lp_off segs (Suc i) = lp_off segs i + (n + backlen_size n)" using lp_off_Suc [OF assms(2)] n(5) by simp
  have r: "\<not> out_of_range (lp_total segs) (lp_off segs i)" "\<not> out_of_range (lp_total segs) (lp_off segs i + m)"
    "\<not> out_of_range (lp_total segs) (lp_off segs (Suc i))"
    using lp_off_ge [of segs i] lp_off_less [of segs "Suc i"] off n(4) backlen_size_bounds(1) [of n]
    by (auto simp: out_of_range_def)
  have "lpDecodeBacklen lp (lp_off segs (Suc i) - 1) = Some n" using rep_decode [OF assms] n(6) by simp
  moreover have "(n + backlen_size n) mod 2 ^ 64 = n + backlen_size n"
    using n(7) backlen_size_bounds(2) [of n] by simp
  ultimately show ?thesis
    using b sz n(3) r unfolding off lpValidateNext_def by (simp add: Let_def)
qed

lemma rep_validate_end:
  assumes "lp_rep lp segs" "length segs \<le> i"
  shows "lpValidateNext lp (lp_off segs i) (lp_total segs) = Some (Some None)"
  using rep_end [OF assms] lp_off_ge [of segs i] lp_off_less [of segs i]
  by (simp add: lpValidateNext_def out_of_range_def)

lemma rep_assert:
  assumes "lp_rep lp segs"
  shows "lpAssertValidEntry lp (lp_total segs) (lp_off segs i) = Some ()"
  using rep_validate [OF assms, of i] rep_validate_end [OF assms, of i]
  by (cases "i < length segs") (simp_all add: lpAssertValidEntry_def)

lemma rep_next:
  assumes "lp_rep lp segs" "i < length segs"
  shows "lpNext lp (lp_off segs i) = Some (if Suc i < length segs then Some (lp_off segs (Suc i)) else None)"
proof -
  obtain b where "mem_get lp (lp_off segs (Suc i)) = Some b" "(b = LP_EOF) = (length segs \<le> Suc i)"
    using rep_byte [OF assms(1)] .
  then show ?thesis
    using rep_skip [OF assms] rep_bytes [OF assms(1)] rep_assert [OF assms(1), of "Suc i"] by (auto simp: lpNext_def)
qed

lemma rep_first:
  assumes "lp_rep lp segs"
  shows "lpFirst lp = Some (if segs = [] then None else Some 6)"
proof -
  obtain b where "mem_get lp 6 = Some b" "(b = LP_EOF) = (segs = [])"
    using rep_byte [OF assms, of 0] by auto
  then show ?thesis using rep_bytes [OF assms] rep_assert [OF assms, of 0] by (auto simp: lpFirst_def)
qed

lemma rep_prev:
  assumes "lp_rep lp segs" "i \<le> length segs"
  shows "lpPrev lp (lp_off segs i) = Some (if i = 0 then None else Some (lp_off segs (i - 1)))"
proof (cases i)
  case (Suc j)
  then have j: "j < length segs" using assms(2) by simp
  obtain n where n: "length (segs ! j) = n + backlen_size n"
    "lpDecodeBacklen (segs ! j) (length (segs ! j) - 1) = Some n" "n < 2 ^ 32"
    using rep_seg_ok [OF assms(1) j] by (rule seg_okE)
  have off: "lp_off segs (Suc j) = lp_off segs j + (n + backlen_size n)" using lp_off_Suc [OF j] n(1) by simp
  have "(n + backlen_size n) mod 2 ^ 64 = n + backlen_size n"
    using n(3) backlen_size_bounds(2) [of n] by simp
  moreover have "lp_off segs (Suc j) - 1 - (n + backlen_size n - 1) = lp_off segs j"
    "\<not> lp_off segs (Suc j) - 1 < n + backlen_size n - 1"
    using off backlen_size_bounds(1) [of n] by linarith+
  moreover have "lp_off segs (Suc j) \<noteq> 6" using off lp_off_ge [of segs j] backlen_size_bounds(1) [of n] by linarith
  ultimately show ?thesis
    using Suc rep_decode [OF assms(1) j] n(2) rep_bytes [OF assms(1)] rep_assert [OF assms(1), of j]
    by (simp add: lpPrev_def Let_def)
qed (simp add: lpPrev_def)

lemma rep_last:
  assumes "lp_rep lp segs"
  shows "lpLast lp = Some (if segs = [] then None else Some (lp_off segs (length segs - 1)))"
  using rep_total [OF assms] rep_prev [OF assms, of "length segs"] lp_off_end [of segs "length segs"]
  by (simp add: lpLast_def)

lemma rep_count:
  assumes "lp_rep lp segs" "i \<le> length segs"
  shows "count_entries lp (if i < length segs then Some (lp_off segs i) else None) c = Some (c + (length segs - i))"
  using assms(2)
proof (induction "length segs - i" arbitrary: i c)
  case 0
  then show ?case by (subst count_entries.simps) simp
next
  case (Suc n)
  then have i: "i < length segs" "n = length segs - Suc i" by simp_all
  then show ?case
    using Suc.hyps(1) [of "Suc i" "c + 1"] rep_next [OF assms(1) i(1)]
    by (subst count_entries.simps) simp
qed

lemma rep_seek_forward:
  assumes "lp_rep lp segs" "i \<le> length segs"
  shows "seek_forward lp (if i < length segs then Some (lp_off segs i) else None) k =
           Some (if i + k < length segs then Some (lp_off segs (i + k)) else None)"
  using assms(2)
proof (induction k arbitrary: i)
  case (Suc k)
  then show ?case
    using rep_next [OF assms(1), of i] Suc.IH [of "Suc i"] by (cases "i < length segs") auto
qed simp

lemma rep_seek_backward:
  assumes "lp_rep lp segs" "i < length segs"
  shows "seek_backward lp (Some (lp_off segs i)) k = Some (if k \<le> i then Some (lp_off segs (i - k)) else None)"
  using assms(2)
proof (induction k arbitrary: i)
  case (Suc k)
  then show ?case
    using rep_prev [OF assms(1), of i] Suc.IH [of "i - 1"] by (cases "i = 0") (cases k, auto)
qed simp

section \<open>What the encoders write\<close>

lemma to_int64_ok:
  assumes "0 < k" "k \<le> 64" "u < 2 ^ k"
  shows "to_int64 (of_nat u) (2 ^ (k - 1)) (of_nat (2 ^ k - 1)) = to_signed k (int u)"
proof -
  have k: "(2 :: nat) ^ k = 2 * 2 ^ (k - 1)" "(2 :: int) ^ k = 2 * 2 ^ (k - 1)" using assms(1) by (cases k; simp)+
  have k1: "(2 :: nat) ^ (k - 1) \<le> 2 ^ 63" using assms(2) by (intro power_increasing) auto
  have k2: "(2 :: nat) ^ (k - 1) < 2 ^ 64" by (rule le_less_trans [OF k1]) simp
  have u: "u < 2 ^ 64" using assms(3) k1 k by simp
  have cmp: "(of_nat u :: u64) \<ge> 2 ^ (k - 1) \<longleftrightarrow> 2 ^ (k - 1) \<le> u"
  proof -
    have "(2 ^ (k - 1) :: u64) = of_nat (2 ^ (k - 1))" by simp
    then show ?thesis using unat_of_nat_u64 [OF u] unat_of_nat_u64 [OF k2] by (metis word_le_nat_alt)
  qed
  show ?thesis
  proof (cases "2 ^ (k - 1) \<le> u")
    case True
    have "(of_nat (2 ^ k - 1) - of_nat u :: u64) = of_nat (2 ^ k - 1 - u)" using assms(3) by (simp add: of_nat_diff)
    moreover have "sint (of_nat (2 ^ k - 1 - u) :: u64) = int (2 ^ k - 1 - u)"
      using True k k1 assms(3) sint_u64 [of "2 ^ k - 1 - u"] by simp
    moreover have "- int (2 ^ k - 1 - u) - 1 = int u - 2 ^ k" using assms(3) by (simp add: of_nat_diff)
    moreover have "\<not> int u < 2 ^ (k - 1)" using True by (simp add: not_less flip: of_nat_power)
    ultimately show ?thesis using cmp True by (simp add: to_int64_def to_signed_def)
  next
    case False
    then have "sint (of_nat u :: u64) = int u" using k1 sint_u64 [of u] by simp
    moreover have "int u < 2 ^ (k - 1)" using False by (simp add: not_le flip: of_nat_power)
    ultimately show ?thesis using cmp False by (simp add: to_int64_def to_signed_def)
  qed
qed

lemma to_int64_mod:
  assumes "0 < k" "k \<le> 64" "- (2 ^ (k - 1)) \<le> v" "v < 2 ^ (k - 1)"
  shows "to_int64 (of_nat (nat (v mod 2 ^ k))) (2 ^ (k - 1)) (of_nat (2 ^ k - 1)) = v"
proof -
  have "nat (v mod 2 ^ k) < 2 ^ k" by (simp add: nat_less_iff)
  then show ?thesis using to_int64_ok [OF assms(1,2), of "nat (v mod 2 ^ k)"] to_signed_mod [OF assms(1,3,4)] by simp
qed

lemma tag_bytes:
  "n < 32 \<Longrightarrow> unat (of_nat n OR 0xC0 :: byte) = 192 + n" "n < 64 \<Longrightarrow> unat (of_nat n OR 0x80 :: byte) = 128 + n"
  "n < 16 \<Longrightarrow> unat (of_nat n OR 0xE0 :: byte) = 224 + n"
proof -
  have "list_all (\<lambda>n. unat (of_nat n OR 0xC0 :: byte) = 192 + n) [0..<32]"
    "list_all (\<lambda>n. unat (of_nat n OR 0x80 :: byte) = 128 + n) [0..<64]"
    "list_all (\<lambda>n. unat (of_nat n OR 0xE0 :: byte) = 224 + n) [0..<16]" by code_simp+
  then show "n < 32 \<Longrightarrow> unat (of_nat n OR 0xC0 :: byte) = 192 + n" "n < 64 \<Longrightarrow> unat (of_nat n OR 0x80 :: byte) = 128 + n"
    "n < 16 \<Longrightarrow> unat (of_nat n OR 0xE0 :: byte) = 224 + n" by (auto simp: list_all_iff)
qed

lemma unat_of_nat_byte: "n < 256 \<Longrightarrow> unat (of_nat n :: byte) = n"
  by (simp add: unat_of_nat)

lemma and_255: "(n :: nat) AND 255 = n mod 256" "(v :: int) AND 255 = v mod 256"
  using take_bit_eq_mask [of 8 n] take_bit_eq_mask [of 8 v] by (simp_all add: take_bit_eq_mod mask_eq_exp_minus_1)

text \<open>The classes of the first byte, as a bundle for the readers.\<close>

lemmas read_entry = lpCurrentEncodedSizeUnsafe_def lpCurrentEncodedSizeBytes_def lpGetWithSize_def enc_classes

lemma get_le_Cons: "get_le (b # le_bytes n v @ ys) (Suc 0) n = Some (nat (v mod 256 ^ n))"
  by (simp add: get_le_def mem_read_def byte_simps)

lemma wide_int_read:
  assumes "(t, k) \<in> {(0xF1, 2), (0xF2, 3), (0xF3, 4), (0xF4, 8)}" "fits k v"
  shows "lpCurrentEncodedSizeUnsafe ((t :: byte) # le_bytes k v @ ys) 0 = Some (Suc k)"
    "lpCurrentEncodedSizeBytes (t # le_bytes k v @ ys) 0 = Some 1"
    "lpGetWithSize (t # le_bytes k v @ ys) 0 = Some (Got_Int v, Some (k + 2))"
proof -
  have v: "to_int64 (of_nat (nat (v mod 2 ^ (8 * k)))) (2 ^ (8 * k - 1)) (of_nat (2 ^ (8 * k) - 1)) = v"
    using assms by (intro to_int64_mod) (auto simp: fits_def)
  have g: "get_le (t # le_bytes k v @ ys) 1 k = Some (nat (v mod 2 ^ (8 * k)))"
    using get_le_Cons [of t k v ys] by (simp add: pow256)
  show "lpCurrentEncodedSizeUnsafe (t # le_bytes k v @ ys) 0 = Some (Suc k)"
    "lpCurrentEncodedSizeBytes (t # le_bytes k v @ ys) 0 = Some 1"
    using assms(1) by (auto simp: read_entry)
  show "lpGetWithSize (t # le_bytes k v @ ys) 0 = Some (Got_Int v, Some (k + 2))"
    using assms(1) g v unfolding lpGetWithSize_def UINT64_MAX_def by (elim insertE) (simp_all add: enc_classes)
qed

lemma le_bytes_wrap: "le_bytes n (if v < 0 then 256 ^ n + v else v) = le_bytes n v"
  using le_bytes_mod [of n v] le_bytes_mod [of n "256 ^ n + v"] by simp

lemma encode_int_cases:
  assumes "is_int64 v"
  obtains "0 \<le> v" "v \<le> 127" "lpEncodeIntegerGetType v = [word_of_int v]"
  | u where "-4096 \<le> v" "v \<le> 4095" "u = nat (v mod 2 ^ 13)"
      "lpEncodeIntegerGetType v = [of_nat (u div 256) OR 0xC0, of_nat (u mod 256)]"
  | t k where "(t, k) \<in> {(0xF1, 2), (0xF2, 3), (0xF3, 4), (0xF4, 8)}" "fits k v" "lpEncodeIntegerGetType v = t # le_bytes k v"
proof -
  note w = le_bytes_wrap [of 2 v] le_bytes_wrap [of 3 v] le_bytes_wrap [of 4 v]
  consider "0 \<le> v" "v \<le> 127" | "-4096 \<le> v" "v \<le> 4095" "\<not> (0 \<le> v \<and> v \<le> 127)" | "\<not> (-4096 \<le> v \<and> v \<le> 4095)"
    by linarith
  then show thesis
  proof cases
    case 1
    then show ?thesis by (intro that(1)) (simp_all add: lpEncodeIntegerGetType_def)
  next
    case 2
    have m: "(if v < 0 then 2 ^ 13 + v else v) = int (nat (v mod 2 ^ 13))"
    proof (cases "v < 0")
      case True
      have "v mod 2 ^ 13 = (2 ^ 13 + v) mod 2 ^ 13" by simp
      also have "\<dots> = 2 ^ 13 + v" using 2 True by (intro mod_pos_pos_trivial) auto
      finally show ?thesis using True 2 by simp
    next
      case False
      then show ?thesis using 2 mod_pos_pos_trivial [of v "2 ^ 13"] by simp
    qed
    define u where "u = nat (v mod 2 ^ 13)"
    have "lpEncodeIntegerGetType v = (let v = int u in [word_of_int (drop_bit 8 v) OR 0xC0, word_of_int (v AND 0xff)])"
      using 2 m unfolding u_def lpEncodeIntegerGetType_def by (simp only: if_False if_True simp_thms)
    also have "\<dots> = [of_nat (u div 256) OR 0xC0, of_nat (u mod 256)]"
      using of_nat_div [of u 256, symmetric, where 'a = int] of_nat_mod [of u 256, symmetric, where 'a = int]
      by (simp add: Let_def drop_bit_eq_div and_255)
    finally show ?thesis using 2 by (intro that(2)) (auto simp: u_def)
  next
    case 3
    then consider "fits 2 v" | "fits 3 v" "\<not> fits 2 v" | "fits 4 v" "\<not> fits 3 v" "\<not> fits 2 v" | "\<not> fits 4 v" "\<not> fits 3 v" "\<not> fits 2 v"
      by blast
    then show ?thesis
    proof cases
      case 1
      then show ?thesis using 3 w by (intro that(3) [of "0xF1" 2]) (auto simp: lpEncodeIntegerGetType_def fits_def)
    next
      case 2
      then show ?thesis using 3 w by (intro that(3) [of "0xF2" 3]) (auto simp: lpEncodeIntegerGetType_def fits_def)
    next
      case 3
      then show ?thesis using w by (intro that(3) [of "0xF3" 4]) (auto simp: lpEncodeIntegerGetType_def fits_def)
    next
      case 4
      then show ?thesis using assms by (intro that(3) [of "0xF4" 8]) (auto simp: lpEncodeIntegerGetType_def fits_def)
    qed
  qed
qed

lemma small_int_read:
  assumes "0 \<le> v" "v \<le> 127"
  shows "lpCurrentEncodedSizeUnsafe (word_of_int v # ys) 0 = Some 1"
    "lpCurrentEncodedSizeBytes (word_of_int v # ys) 0 = Some 1"
    "lpGetWithSize (word_of_int v # ys) 0 = Some (Got_Int v, Some 2)"
proof -
  define n where "n = nat v"
  have n: "v = int n" "n < 128" using assms by (simp_all add: n_def)
  then have b: "(word_of_int v :: byte) = of_nat n" "unat (of_nat n :: byte) = n" using unat_of_nat_byte by simp_all
  have "(ucast (of_nat n AND 0x7F :: byte) :: u64) = of_nat n"
    using last_byte(1) [OF n(2)] unat_of_nat_u64 [of n] n(2) unat_ucast_byte_u64 [of "of_nat n AND 0x7F"]
    by (simp only: word_unat_eq_iff) simp
  moreover have "to_int64 (of_nat n) (of_nat UINT64_MAX) 0 = int n"
    using n(2) unat_of_nat_u64 [of n] sint_u64(2) [of n]
    by (simp add: to_int64_def UINT64_MAX_def word_le_nat_alt)
  ultimately show "lpGetWithSize (word_of_int v # ys) 0 = Some (Got_Int v, Some 2)"
    unfolding b(1) lpGetWithSize_def using n b(2) by (simp add: enc_classes)
  show "lpCurrentEncodedSizeUnsafe (word_of_int v # ys) 0 = Some 1" "lpCurrentEncodedSizeBytes (word_of_int v # ys) 0 = Some 1"
    unfolding b(1) using n(2) b(2) by (simp_all add: read_entry)
qed

lemma mid_int_read:
  assumes "-4096 \<le> v" "v \<le> 4095" "u = nat (v mod 2 ^ 13)"
  shows "lpCurrentEncodedSizeUnsafe ((of_nat (u div 256) OR 0xC0) # of_nat (u mod 256) # ys) 0 = Some 2"
    "lpCurrentEncodedSizeBytes ((of_nat (u div 256) OR 0xC0) # of_nat (u mod 256) # ys) 0 = Some 1"
    "lpGetWithSize ((of_nat (u div 256) OR 0xC0) # of_nat (u mod 256) # ys) 0 = Some (Got_Int v, Some 3)"
proof -
  let ?b = "of_nat (u div 256) OR 0xC0 :: byte"
  have u: "u < 2 ^ 13" unfolding assms(3) by (simp add: nat_less_iff)
  then have d: "u div 256 < 32" by simp
  note b = tag_bytes(1) [OF d]
  have t: "(192 + u div 256) mod 32 = u div 256" using d mod_mult_self2 [of "u div 256" 32 6] by (simp add: add.commute)
  have lo: "(ucast (?b AND 0x1F) :: u64) = of_nat (u div 256)"
    using d b t low_bits(3) [of ?b] unat_of_nat_u64 [of "u div 256"] unat_ucast_byte_u64 [of "?b AND 0x1F"]
    by (simp only: word_unat_eq_iff) simp
  have hi: "(ucast (of_nat (u mod 256) :: byte) :: u64) = of_nat (u mod 256)"
    using unat_of_nat_byte [of "u mod 256"] unat_of_nat_u64 [of "u mod 256"] unat_ucast_byte_u64 [of "of_nat (u mod 256)"]
    by (simp only: word_unat_eq_iff) simp
  have "push_bit 8 (of_nat (u div 256)) OR of_nat (u mod 256) = (of_nat u :: u64)"
  proof -
    have "push_bit 8 (u div 256) OR (u mod 256) = u" using or_shift [of "u mod 256" 8 "u div 256"]
      by (simp add: or.commute)
    then have "of_nat (push_bit 8 (u div 256) OR (u mod 256)) = (of_nat u :: u64)" by simp
    then show ?thesis by (simp only: of_nat_or_eq of_nat_push_bit)
  qed
  moreover have "to_int64 (of_nat u) (2 ^ 12) 8191 = v"
    using to_int64_mod [of 13 v] assms by simp
  ultimately show "lpGetWithSize (?b # of_nat (u mod 256) # ys) 0 = Some (Got_Int v, Some 3)"
    unfolding lpGetWithSize_def using b d lo hi by (simp add: enc_classes)
  show "lpCurrentEncodedSizeUnsafe (?b # of_nat (u mod 256) # ys) 0 = Some 2"
    "lpCurrentEncodedSizeBytes (?b # of_nat (u mod 256) # ys) 0 = Some 1"
    using b d by (simp_all add: read_entry)
qed

lemma string_read:
  assumes "length s < 2 ^ 32 - 5"
  obtains k where "length (lpEncodeString s) = k + length s" "k \<in> {1, 2, 5}" "drop k (lpEncodeString s) = s"
    "\<forall>ys. lpCurrentEncodedSizeUnsafe (lpEncodeString s @ ys) 0 = Some (k + length s)"
    "\<forall>ys. lpCurrentEncodedSizeBytes (lpEncodeString s @ ys) 0 = Some k"
    "\<forall>ys. lpGetWithSize (lpEncodeString s @ ys) 0 =
       Some (Got_Str k (length s), Some (k + length s + backlen_size (length s + k)))"
    "hd (lpEncodeString s) \<noteq> LP_EOF"
proof -
  consider "length s < 64" | "64 \<le> length s" "length s < 4096" | "4096 \<le> length s" by linarith
  then show thesis
  proof cases
    case 1
    note b = tag_bytes(2) [OF 1]
    have e: "lpEncodeString s = (of_nat (length s) OR 0x80) # s" using 1 by (simp add: lpEncodeString_def)
    have l: "(128 + length s) mod 64 = length s" using 1 mod_mult_self2 [of "length s" 64 2] by (simp add: add.commute)
    have len: "LP_ENCODING_6BIT_STR_LEN (lpEncodeString s @ ys) 0 = Some (length s)" for ys
      using b l by (simp add: LP_ENCODING_6BIT_STR_LEN_def e low_bits)
    have cl: "mem_get (lpEncodeString s @ ys) 0 = Some (of_nat (length s) OR 0x80)" for ys by (simp add: e)
    show ?thesis
    proof (rule that [of 1])
      show "hd (lpEncodeString s) \<noteq> LP_EOF" using b 1 by (auto simp: e byte_eq)
    qed (use 1 b in \<open>simp_all add: e\<close>, (simp_all add: read_entry len [unfolded e, simplified] Let_def))
  next
    case 2
    let ?n = "length s"
    have d: "?n div 256 < 16" using 2 by simp
    note b = tag_bytes(3) [OF d]
    have e: "lpEncodeString s = (of_nat (?n div 256) OR 0xE0) # of_nat (?n mod 256) # s"
      using 2 by (simp add: lpEncodeString_def drop_bit_eq_div and_255 Let_def)
    have l: "(224 + ?n div 256) mod 16 = ?n div 256" using d mod_mult_self2 [of "?n div 256" 16 14] by (simp add: add.commute)
    have len: "LP_ENCODING_12BIT_STR_LEN (lpEncodeString s @ ys) 0 = Some ?n" for ys
      using b l unat_of_nat_byte [of "?n mod 256"] by (simp add: LP_ENCODING_12BIT_STR_LEN_def e low_bits or_byte)
    show ?thesis
    proof (rule that [of 2])
      show "hd (lpEncodeString s) \<noteq> LP_EOF" using b d by (auto simp: e byte_eq)
    qed (use 2 b d in \<open>simp_all add: e\<close>, (simp_all add: read_entry len [unfolded e, simplified] Let_def))
  next
    case 3
    let ?n = "length s"
    have e: "lpEncodeString s = 0xF0 # le_bytes 4 (int ?n) @ s" using 3 by (simp add: lpEncodeString_def)
    have len: "LP_ENCODING_32BIT_STR_LEN (lpEncodeString s @ ys) 0 = Some ?n" for ys
      using assms get_le_Cons [of "0xF0" 4 "int ?n" "s @ ys"] by (simp add: LP_ENCODING_32BIT_STR_LEN_def e)
    show ?thesis
    proof (rule that [of 5])
      show "hd (lpEncodeString s) \<noteq> LP_EOF" by (auto simp: e byte_eq)
    qed (use 3 assms in \<open>simp_all add: e\<close>, (simp_all add: read_entry len [unfolded e, simplified] Let_def))
  qed
qed

text \<open>An entry: the encoded element and its length.\<close>

definition entry :: "byte list \<Rightarrow> byte list" where
  "entry e = e @ lpEncodeBacklen (length e)"

definition int_enc :: "int \<Rightarrow> byte list" where
  "int_enc v = entry (lpEncodeIntegerGetType v)"

text \<open>The entry for a string: a decimal integer is stored as one.\<close>

definition str_enc :: "byte list \<Rightarrow> byte list" where
  "str_enc s =
     (case string2ll s (length s) of Some (Some v) \<Rightarrow> int_enc v | _ \<Rightarrow> entry (lpEncodeString s))"

lemma length_backlen [simp]: "length (lpEncodeBacklen n) = backlen_size n"
  by (simp add: backlen_size_def)

lemma entry_ok:
  assumes "\<And>ys. lpCurrentEncodedSizeUnsafe (e @ ys) 0 = Some (length e)" "\<And>ys. lpCurrentEncodedSizeBytes (e @ ys) 0 = Some m"
    "0 < m" "m \<le> length e" "hd e \<noteq> LP_EOF"
  shows "seg_ok (entry e)"
proof -
  have n: "length e < 2 ^ 35" using size_bound [OF assms(1) [of "[]"]] by simp
  have "length e + backlen_size (length e) - 1 = length e + (backlen_size (length e) - 1)"
    using backlen_size_bounds(1) [of "length e"] by linarith
  then have "lpDecodeBacklen (entry e) (length (entry e) - 1) = Some (length e)"
    using decode_local [OF decode_encode [OF n], of e "[]"] by (simp add: lpDecodeBacklen_def entry_def)
  moreover have "e \<noteq> []" using assms(3,4) by auto
  ultimately show ?thesis
    using assms unfolding seg_ok_def entry_def by simp
qed

lemma int_enc_ok:
  assumes "is_int64 v"
  shows "seg_ok (int_enc v)" "seg_val (int_enc v) = VInt v"
proof -
  let ?e = "lpEncodeIntegerGetType v"
  have r: "lpCurrentEncodedSizeUnsafe (?e @ ys) 0 = Some (length ?e) \<and> lpCurrentEncodedSizeBytes (?e @ ys) 0 = Some 1 \<and>
      1 \<le> length ?e \<and> hd ?e \<noteq> LP_EOF \<and> (\<exists>k. lpGetWithSize (?e @ ys) 0 = Some (Got_Int v, k))" for ys
    using assms
  proof (cases rule: encode_int_cases)
    case 1
    have "hd ?e \<noteq> LP_EOF" using 1 unat_of_nat_byte [of "nat v"] by (simp add: byte_eq)
    then show ?thesis using 1 small_int_read [OF 1(1,2)] by simp
  next
    case (2 u)
    have "u div 256 < 32" unfolding 2(3) by (simp add: nat_less_iff div_less_iff_less_mult less_mult_imp_div_less)
    then have "hd ?e \<noteq> LP_EOF" using 2(4) tag_bytes(1) [of "u div 256"] by (auto simp: byte_eq)
    then show ?thesis using 2(4) mid_int_read [OF 2(1-3), of ys] by simp
  next
    case (3 t k)
    have "hd ?e \<noteq> LP_EOF" using 3(1,3) by auto
    then show ?thesis using 3(3) wide_int_read [OF 3(1,2), of ys] by simp
  qed
  show "seg_ok (int_enc v)" unfolding int_enc_def using r by (intro entry_ok) blast+
  show "seg_val (int_enc v) = VInt v"
    using r [of "lpEncodeBacklen (length ?e)"] by (auto simp: seg_val_def lpGet_def int_enc_def entry_def)
qed

lemma str_raw_ok:
  assumes "length s < 2 ^ 32 - 5"
  shows "seg_ok (entry (lpEncodeString s))" "seg_val (entry (lpEncodeString s)) = VStr s"
proof -
  obtain k where k: "length (lpEncodeString s) = k + length s" "k \<in> {1, 2, 5}" "drop k (lpEncodeString s) = s"
    "\<forall>ys. lpCurrentEncodedSizeUnsafe (lpEncodeString s @ ys) 0 = Some (k + length s)"
    "\<forall>ys. lpCurrentEncodedSizeBytes (lpEncodeString s @ ys) 0 = Some k"
    "\<forall>ys. lpGetWithSize (lpEncodeString s @ ys) 0 =
       Some (Got_Str k (length s), Some (k + length s + backlen_size (length s + k)))"
    "hd (lpEncodeString s) \<noteq> LP_EOF"
    using string_read [OF assms] .
  show "seg_ok (entry (lpEncodeString s))" using k(1,2,4,5,7) by (intro entry_ok [of _ k]) auto
  show "seg_val (entry (lpEncodeString s)) = VStr s"
    using k(1,3,6) by (simp add: seg_val_def lpGet_def entry_def)
qed

lemma str_enc_ok:
  assumes "length s < 2 ^ 32 - 5"
  shows "seg_ok (str_enc s)" "val_bytes (seg_val (str_enc s)) = s"
proof -
  obtain r where r: "string2ll s (length s) = Some r" "\<And>n. r = Some n \<Longrightarrow> is_int64 n \<and> s = int_bytes n"
    using string2ll_exact [of s] by auto
  show "seg_ok (str_enc s)" "val_bytes (seg_val (str_enc s)) = s"
    using r int_enc_ok str_raw_ok [OF assms] by (auto simp: str_enc_def split: option.splits)
qed

section \<open>Reading\<close>

lemma is_int64_to_int64: "is_int64 (to_int64 u a b)"
proof -
  have "- (2 ^ 63) \<le> sint w \<and> sint w < 2 ^ 63" for w :: u64
    using sint_ge [of w] sint_lt [of w] by simp
  from this [of u] this [of "b - u"] show ?thesis by (simp add: to_int64_def fits_def)
qed

lemma get_le_in: "p + n \<le> length lp \<Longrightarrow> \<exists>u. get_le lp p n = Some u"
  by (simp add: get_le_def mem_read_def)

text \<open>A valid entry can be read; its size is the one \<^verbatim>\<open>lpGetWithSize\<close> reports.\<close>

lemma seg_get:
  assumes "seg_ok seg"
  obtains v where "lpGetWithSize seg 0 = Some (Got_Int v, Some (length seg))" "is_int64 v" "seg_val seg = VInt v"
  | k n where "lpGetWithSize seg 0 = Some (Got_Str k n, Some (length seg))" "k + n \<le> length seg" "0 < k"
      "seg_val seg = VStr (take n (drop k seg))"
proof -
  obtain n m where nm: "lpCurrentEncodedSizeUnsafe seg 0 = Some n" "lpCurrentEncodedSizeBytes seg 0 = Some m"
    "hd seg \<noteq> LP_EOF" "0 < m" "m \<le> n" "length seg = n + backlen_size n" "seg \<noteq> []"
    using assms by (rule seg_okE)
  obtain b where b: "mem_get seg 0 = Some b" using nm(7) by simp
  have bl: "backlen_size 1 = 1" "backlen_size 2 = 1" "backlen_size 3 = 1" "backlen_size 4 = 1" "backlen_size 5 = 1"
    "backlen_size 9 = 1" by (simp_all add: backlen_size_def lpEncodeBacklen_def)
  note goal = that
  have int: thesis if "lpGetWithSize seg 0 = Some (Got_Int (to_int64 u a c), Some (length seg))" for u a c
    using that(1) by (intro goal(1) [of "to_int64 u a c"] is_int64_to_int64) (simp_all add: seg_val_def lpGet_def)
  have str: thesis if "lpGetWithSize seg 0 = Some (Got_Str k l, Some (length seg))" "k + l = n" "0 < k" for k l
    using that nm(6) by (intro goal(2) [of k l]) (simp_all add: seg_val_def lpGet_def)
  consider (a) "unat b < 128" | (b) "128 \<le> unat b" "unat b < 192" | (c) "192 \<le> unat b" "unat b < 224"
    | (d) "224 \<le> unat b" "unat b < 240" | (e) "unat b = 240" | (f) "unat b \<in> {241, 242, 243, 244}"
    | (h) "unat b \<ge> 245" by fastforce
  then show thesis
  proof cases
    case a
    then show ?thesis using nm b bl by (intro int) (auto simp: read_entry)
  next
    case b: b
    then obtain l where "LP_ENCODING_6BIT_STR_LEN seg 0 = Some l" "n = 1 + l"
      using nm(1) \<open>mem_get seg 0 = Some b\<close> by (auto simp: read_entry)
    then show ?thesis using b nm(6) \<open>mem_get seg 0 = Some b\<close> by (intro str [of 1 l]) (simp_all add: read_entry)
  next
    case c
    have "1 < length seg" using c nm(1,6) b bl by (simp add: read_entry)
    then show ?thesis using c nm(1,6) b bl by (intro int) (auto simp: read_entry)
  next
    case d
    then obtain l where "LP_ENCODING_12BIT_STR_LEN seg 0 = Some l" "n = 2 + l"
      using nm(1) b by (auto simp: read_entry)
    then show ?thesis using d nm(6) b by (intro str [of 2 l]) (simp_all add: read_entry)
  next
    case e
    then obtain l where l: "LP_ENCODING_32BIT_STR_LEN seg 0 = Some l" "n = (5 + l) mod 2 ^ 32" "m = 5"
      using nm(1,2) b by (auto simp: read_entry)
    have "l < 2 ^ 32" using str_len_bound(3) [OF l(1)] .
    then have "n = 5 + l" using l(2,3) nm(5) by (cases "5 + l < 2 ^ 32") (simp_all add: mod_if split: if_splits)
    then show ?thesis using e nm(6) b l(1) by (intro str [of 5 l]) (simp_all add: read_entry add.commute)
  next
    case f
    then consider "unat b = 241" | "unat b = 242" | "unat b = 243" | "unat b = 244" by auto
    then show ?thesis
    proof cases
      case 1
      then have l: "length seg = 4" using nm(1,6) b bl by (simp add: read_entry)
      obtain u where "get_le seg (Suc 0) 2 = Some u" using get_le_in [of "Suc 0" 2 seg] l by auto
      then show ?thesis using 1 b l by (intro int) (simp add: read_entry)
    next
      case 2
      then have l: "length seg = 5" using nm(1,6) b bl by (simp add: read_entry)
      obtain u where "get_le seg (Suc 0) 3 = Some u" using get_le_in [of "Suc 0" 3 seg] l by auto
      then show ?thesis using 2 b l by (intro int) (simp add: read_entry)
    next
      case 3
      then have l: "length seg = 6" using nm(1,6) b bl by (simp add: read_entry)
      obtain u where "get_le seg (Suc 0) 4 = Some u" using get_le_in [of "Suc 0" 4 seg] l by auto
      then show ?thesis using 3 b l by (intro int) (simp add: read_entry)
    next
      case 4
      then have l: "length seg = 10" using nm(1,6) b bl by (simp add: read_entry)
      obtain u where "get_le seg (Suc 0) 8 = Some u" using get_le_in [of "Suc 0" 8 seg] l by auto
      then show ?thesis using 4 b l by (intro int) (simp add: read_entry)
    qed
  next
    case h
    then have "m = 0" using nm(2) b nm(3) nm(7) by (auto simp: read_entry hd_conv_nth byte_eq)
    then show ?thesis using nm(4) by simp
  qed
qed

text \<open>The strings a listpack stands for.\<close>

definition lp_strings :: "byte list list \<Rightarrow> byte list list" where
  "lp_strings segs = map (\<lambda>seg. val_bytes (seg_val seg)) segs"

lemma length_lp_strings [simp]: "length (lp_strings segs) = length segs"
  by (simp add: lp_strings_def)

lemma lp_strings_nth: "i < length segs \<Longrightarrow> lp_strings segs ! i = val_bytes (seg_val (segs ! i))"
  by (simp add: lp_strings_def)

lemma lp_rep_get:
  assumes "lp_rep lp segs" "i < length segs"
  obtains v where "lpGetWithSize lp (lp_off segs i) = Some (Got_Int v, Some (length (segs ! i)))" "is_int64 v"
      "seg_val (segs ! i) = VInt v"
  | k n s where "lpGetWithSize lp (lp_off segs i) = Some (Got_Str (lp_off segs i + k) n, Some (length (segs ! i)))" "0 < k"
      "seg_val (segs ! i) = VStr s" "length s = n" "mem_read lp (lp_off segs i + k) n = Some s"
proof -
  obtain xs ys where s: "lp = xs @ segs ! i @ ys" "length xs = lp_off segs i" using rep_split [OF assms] .
  show thesis using rep_seg_ok [OF assms]
  proof (cases rule: seg_get)
    case (1 v)
    then show ?thesis using get_local [OF 1(1), of xs ys] s by (intro that(1)) simp_all
  next
    case (2 k n)
    have "mem_read (segs ! i) k n = Some (take n (drop k (segs ! i)))" using 2(2) by (simp add: mem_read_def)
    from mem_read_local [OF this, of xs ys] show ?thesis
      using get_local [OF 2(1), of xs ys] s 2(2-4) by (intro that(2)) simp_all
  qed
qed

lemma ll2string_buffer:
  assumes "is_int64 v"
  shows "\<exists>b. ll2string (replicate LP_INTBUF_SIZE 0) 0 LP_INTBUF_SIZE v = Some (b, of_nat (length (int_bytes v))) \<and>
     mem_read b 0 (length (int_bytes v)) = Some (int_bytes v) \<and> length (int_bytes v) \<le> 20"
proof -
  have l: "length (int_bytes v) \<le> 20" using length_int_bytes [OF assms] by (simp add: LONG_STR_SIZE_def)
  obtain b where "ll2string (replicate LP_INTBUF_SIZE 0) 0 LP_INTBUF_SIZE v = Some (b, of_nat (length (int_bytes v)))"
    "b = int_bytes v @ [0] @ drop (length (int_bytes v) + 1) (replicate LP_INTBUF_SIZE 0)"
    using ll2string_ok [of 0 LP_INTBUF_SIZE "replicate LP_INTBUF_SIZE 0" v] assms l by auto
  then show ?thesis using l by (auto simp: mem_read_def)
qed

lemma rep_get_intbuf:
  assumes "lp_rep lp segs" "i < length segs"
  shows "lpGet_intbuf lp (lp_off segs i) = Some (lp_strings segs ! i)"
  using assms
proof (cases rule: lp_rep_get)
  case (1 v)
  have "unat (of_nat n :: u32) = n" if "n \<le> 20" for n using that by (simp add: unat_of_nat)
  then show ?thesis using 1 ll2string_buffer [OF 1(2)] assms(2)
    by (auto simp: lpGet_intbuf_def lpGet_def lp_strings_nth)
next
  case (2 k n s)
  then show ?thesis using assms(2) by (simp add: lpGet_intbuf_def lpGet_def lp_strings_nth)
qed

lemma string2ll_eq_int:
  assumes "is_int64 v"
  shows "\<exists>r. string2ll s (length s) = Some r \<and> (r = Some v) = (int_bytes v = s)"
proof -
  obtain r where "string2ll s (length s) = Some r" "\<forall>n. r = Some n \<longleftrightarrow> is_int64 n \<and> s = int_bytes n"
    using string2ll_exact by blast
  then show ?thesis using assms by auto
qed

lemma rep_compare:
  assumes "lp_rep lp segs" "i < length segs"
  shows "lpCompare lp (lp_off segs i) s = Some (lp_strings segs ! i = s)"
proof -
  obtain b where b: "mem_get lp (lp_off segs i) = Some b" "b \<noteq> LP_EOF" using rep_first_byte [OF assms] by blast
  show ?thesis using assms
  proof (cases rule: lp_rep_get)
    case (1 v)
    obtain r where "string2ll s (length s) = Some r" "(r = Some v) = (int_bytes v = s)"
      using string2ll_eq_int [OF 1(2)] by blast
    then show ?thesis using 1 b assms(2)
      by (auto simp: lpCompare_def lpGet_def lp_strings_nth lpStringToInt64_eq split: option.splits)
  next
    case (2 k n t)
    then show ?thesis using b assms(2) by (auto simp: lpCompare_def lpGet_def lp_strings_nth)
  qed
qed

lemma rep_compare_end:
  assumes "lp_rep lp segs"
  shows "lpCompare lp (lp_off segs (length segs)) s = Some False"
  using rep_end [OF assms] by (simp add: lpCompare_def)

section \<open>Counting and seeking\<close>

lemma rep_first_index:
  assumes "lp_rep lp segs"
  shows "lpFirst lp = Some (if 0 < length segs then Some (lp_off segs 0) else None)"
  using rep_first [OF assms] by simp

lemma set_num:
  assumes "lp_rep lp segs" "num_ok num segs"
  shows "\<exists>lp'. lpSetNumElements lp (int num) = Some lp' \<and> lp_rep lp' segs \<and> lpGetNumElements lp' = Some num \<and>
    length lp' = length lp"
proof -
  obtain num0 slack where lp: "lp = lp_header (lp_total segs) num0 @ concat segs @ [LP_EOF] @ slack"
    "lp_total segs < 2 ^ 32" "\<forall>s \<in> set segs. seg_ok s" using assms(1) by (rule lp_repE)
  let ?lp = "lp_header (lp_total segs) num @ concat segs @ [LP_EOF] @ slack"
  have "lpSetNumElements lp (int num) = Some ?lp"
    by (simp add: lpSetNumElements_def lp mem_write_def lp_header_def)
  moreover have "lp_rep ?lp segs" using assms(2) lp(2,3) unfolding lp_rep_def by blast
  ultimately show ?thesis using header_num [of num] assms(2) by (auto simp: num_ok_def lp(1))
qed

lemma rep_length:
  assumes "lp_rep lp segs"
  shows "\<exists>lp'. lpLength lp = Some (lp', length segs) \<and> lp_rep lp' segs \<and> length lp' = length lp"
proof -
  obtain num where num: "lpGetNumElements lp = Some num" "num_ok num segs" using rep_num [OF assms] by blast
  show ?thesis
  proof (cases "num = 65535")
    case True
    have c: "count_entries lp (if 0 < length segs then Some (lp_off segs 0) else None) 0 = Some (length segs)"
      using rep_count [OF assms, of 0 0] by simp
    show ?thesis
    proof (cases "length segs < 65535")
      case small: True
      then have "num_ok (length segs) segs" by (simp add: num_ok_def)
      from set_num [OF assms this] obtain lp' where "lpSetNumElements lp (int (length segs)) = Some lp'"
        "lp_rep lp' segs" "length lp' = length lp" by blast
      then show ?thesis using num(1) True small c rep_first_index [OF assms] by (auto simp: lpLength_def)
    next
      case False
      then show ?thesis using num(1) True c rep_first_index [OF assms] assms by (auto simp: lpLength_def)
    qed
  next
    case False
    then show ?thesis using num assms by (auto simp: lpLength_def num_ok_def)
  qed
qed

lemma rep_seek_last:
  assumes "lp_rep lp segs"
  shows "do { ele \<leftarrow> lpLast lp; seek_backward lp ele k } =
    Some (if k < length segs then Some (lp_off segs (length segs - 1 - k)) else None)"
proof (cases "segs = []")
  case True
  then show ?thesis using rep_last [OF assms] by (cases k) simp_all
next
  case False
  then have "k < length segs \<longleftrightarrow> k \<le> length segs - 1" by (cases segs) auto
  then show ?thesis using False rep_last [OF assms] rep_seek_backward [OF assms, of "length segs - 1" k] by auto
qed

text \<open>The entry a signed index denotes.\<close>

definition index_of :: "nat \<Rightarrow> int \<Rightarrow> nat option" where
  "index_of n i =
     (if 0 \<le> i \<and> i < int n then Some (nat i) else if i < 0 \<and> - int n \<le> i then Some (nat (int n + i)) else None)"

lemma rep_seek_first:
  assumes "lp_rep lp segs"
  shows "do { ele \<leftarrow> lpFirst lp; seek_forward lp ele k } = Some (if k < length segs then Some (lp_off segs k) else None)"
  using rep_first_index [OF assms] rep_seek_forward [OF assms, of 0 k] by simp

lemma rep_seek:
  assumes "lp_rep lp segs"
  shows "lpSeek lp i = Some (map_option (lp_off segs) (index_of (length segs) i))"
proof -
  obtain num where num: "lpGetNumElements lp = Some num" "num_ok num segs" using rep_num [OF assms] by blast
  have s: "lpSeek lp i = (if num \<noteq> 65535 then do {
         let index = (if i < 0 then int num + i else i);
         if index < 0 then Some None
         else if index \<ge> int num then Some None
         else if index > int (num div 2) then do { ele \<leftarrow> lpLast lp; seek_backward lp ele (nat (- 1 - (index - int num))) }
         else do { ele \<leftarrow> lpFirst lp; seek_forward lp ele (nat index) }
       } else if i < 0 then do { ele \<leftarrow> lpLast lp; seek_backward lp ele (nat (- 1 - i)) }
       else do { ele \<leftarrow> lpFirst lp; seek_forward lp ele (nat i) })"
    using num(1) by (simp add: lpSeek_def Let_def)
  have bk: "Some (if k < length segs then Some (lp_off segs (length segs - 1 - k)) else None) =
      Some (map_option (lp_off segs) (index_of (length segs) j))" if "k = nat (- 1 - j)" "j < 0" for k j
  proof (cases "k < length segs")
    case True
    then have "length segs - 1 - k = nat (int (length segs) + j)" "- int (length segs) \<le> j" using that by linarith+
    then show ?thesis using True that(2) by (simp add: index_of_def)
  next
    case False
    then have "\<not> - int (length segs) \<le> j" using that by linarith
    then show ?thesis using False that(2) by (simp add: index_of_def)
  qed
  have fr: "Some (if nat j < length segs then Some (lp_off segs (nat j)) else None) =
      Some (map_option (lp_off segs) (index_of (length segs) j))" if "0 \<le> j" for j
    using that by (auto simp: index_of_def)
  have wrp: "index_of n (j - int n) = index_of n j" if "0 \<le> j" "j < int n" for n j
    using that by (auto simp: index_of_def)
  have neg: "index_of n (int n + j) = index_of n j" if "j < 0" "0 \<le> int n + j" for n j
    using that by (auto simp: index_of_def)
  show ?thesis
  proof (cases "num = 65535")
    case True
    then show ?thesis unfolding s rep_seek_last [OF assms] rep_seek_first [OF assms]
      using bk [of "nat (- 1 - i)" i] fr [of i] by (cases "i < 0") simp_all
  next
    case False
    then have n: "num = length segs" using num(2) by (simp add: num_ok_def)
    define j where "j = (if i < 0 then int num + i else i)"
    have out: "index_of (length segs) i = None" if "j < 0 \<or> j \<ge> int num"
      using that n by (auto simp: j_def index_of_def)
    have ij: "index_of (length segs) j = index_of (length segs) i" if "\<not> j < 0"
      using that n neg [of i num] by (auto simp: j_def)
    have "lpSeek lp i = (if j < 0 then Some None else if j \<ge> int num then Some None
         else if j > int (num div 2)
           then Some (map_option (lp_off segs) (index_of (length segs) (j - int num)))
         else Some (map_option (lp_off segs) (index_of (length segs) j)))"
      using False bk [of "nat (- 1 - (j - int num))" "j - int num"] fr [of j]
      unfolding s rep_seek_last [OF assms] rep_seek_first [OF assms] by (simp add: Let_def flip: j_def)
    then show ?thesis using out ij wrp [of j num] n by auto
  qed
qed

section \<open>Searching\<close>

lemma rep_find_check:
  assumes "lp_rep lp segs"
  shows "find_check lp (lp_total segs) (lp_off segs i) = Some (length segs \<le> i)"
proof -
  obtain b where "mem_get lp (lp_off segs i) = Some b" "(b = LP_EOF) = (length segs \<le> i)" using rep_byte [OF assms] .
  then show ?thesis
    using rep_assert [OF assms, of i] lp_off_ge [of segs i] lp_off_less [of segs i] by (simp add: find_check_def)
qed

text \<open>The cached conversion of the wanted string.\<close>

definition venc_ok :: "byte list \<Rightarrow> int option option \<Rightarrow> bool" where
  "venc_ok s venc \<longleftrightarrow> (case venc of None \<Rightarrow> True | Some r \<Rightarrow> string2ll s (length s) = Some r)"

lemma find_vencoding_ok:
  assumes "venc_ok s venc"
  shows "find_vencoding s venc = string2ll s (length s)"
proof -
  have "string2ll s (length s) = Some None" if "length s \<ge> 32 \<or> length s = 0"
    using that by (auto simp: string2ll_def LONG_STR_SIZE_def)
  then show ?thesis using assms by (auto simp: find_vencoding_def venc_ok_def lpStringToInt64_eq split: option.splits)
qed

text \<open>One comparison of the loop.\<close>

lemma rep_find_compare:
  assumes "lp_rep lp segs" "i < length segs" "venc_ok s venc"
  shows "\<exists>got. lpGetWithSize lp (lp_off segs i) = Some (got, Some (length (segs ! i))) \<and>
    (\<exists>venc'. venc_ok s venc' \<and>
     (case got of
        Got_Str off ll \<Rightarrow>
          if \<not> (lp_off segs i \<ge> LP_HDR_SIZE \<and> lp_off segs i + length (segs ! i) < lp_total segs) then None
          else if length s = ll then do { bs \<leftarrow> mem_read lp off ll; Some (bs = s, venc) }
          else Some (False, venc)
      | Got_Int ll \<Rightarrow> do { v \<leftarrow> find_vencoding s venc; Some (v = Some ll, Some v) }) =
     Some (lp_strings segs ! i = s, venc'))"
  using assms(1,2)
proof (cases rule: lp_rep_get)
  case (1 v)
  obtain r where r: "string2ll s (length s) = Some r" "(r = Some v) = (int_bytes v = s)"
    using string2ll_eq_int [OF 1(2)] by blast
  show ?thesis using 1 r assms(2) find_vencoding_ok [OF assms(3)]
    by (intro exI [of _ "Got_Int v"] conjI exI [of _ "Some r"]) (simp_all add: venc_ok_def lp_strings_nth)
next
  case (2 k n t)
  have "lp_off segs i + length (segs ! i) < lp_total segs"
    using lp_off_Suc [OF assms(2)] lp_off_less [of segs "Suc i"] by simp
  then show ?thesis using 2 assms(2,3) lp_off_ge [of segs i]
    by (intro exI [of _ "Got_Str (lp_off segs i + k) n"] conjI exI [of _ venc]) (auto simp: lp_strings_nth)
qed

text \<open>The indexes that are compared: every \<open>skip + 1\<close>st from \<open>i + skipcnt\<close> on.\<close>

definition find_index :: "byte list list \<Rightarrow> byte list \<Rightarrow> nat \<Rightarrow> nat \<Rightarrow> nat option" where
  "find_index xs s skip i = List.find (\<lambda>j. Suc skip dvd j - i \<and> xs ! j = s) [i..<length xs]"

lemma find_index_eq: "xs ! i = s \<Longrightarrow> i < length xs \<Longrightarrow> find_index xs s skip i = Some i"
  by (simp add: find_index_def upt_conv_Cons)

lemma find_index_end: "length xs \<le> i \<Longrightarrow> find_index xs s skip i = None"
  by (simp add: find_index_def)

lemma find_upt_skip:
  assumes "i \<le> k" "\<And>j. i \<le> j \<Longrightarrow> j < k \<Longrightarrow> \<not> P j"
  shows "List.find P [i..<n] = List.find P [k..<n]"
  using assms
proof (induction "k - i" arbitrary: i)
  case (Suc d)
  then have "i < k" by simp
  show ?case
  proof (cases "i < n")
    case True
    then have "List.find P [i..<n] = List.find P [Suc i..<n]" using Suc.prems(2) [of i] \<open>i < k\<close>
      by (simp add: upt_conv_Cons)
    then show ?thesis using Suc.hyps(1) [of "Suc i"] Suc.hyps(2) Suc.prems \<open>i < k\<close> by simp
  next
    case False
    then show ?thesis using \<open>i < k\<close> by simp
  qed
qed simp

lemma find_cong: "(\<And>x. x \<in> set xs \<Longrightarrow> P x = Q x) \<Longrightarrow> List.find P xs = List.find Q xs"
  by (induction xs) auto

lemma find_index_step:
  assumes "xs ! i \<noteq> s"
  shows "find_index xs s skip i = find_index xs s skip (i + Suc skip)"
proof -
  have "\<not> (Suc skip dvd j - i \<and> xs ! j = s)" if "i \<le> j" "j < i + Suc skip" for j
    using that assms by (cases "j = i") (auto dest!: dvd_imp_le)
  then have "find_index xs s skip i = List.find (\<lambda>j. Suc skip dvd j - i \<and> xs ! j = s) [i + Suc skip..<length xs]"
    unfolding find_index_def by (intro find_upt_skip) auto
  also have "\<dots> = find_index xs s skip (i + Suc skip)"
    unfolding find_index_def
  proof (rule find_cong)
    fix j assume "j \<in> set [i + Suc skip..<length xs]"
    then have "i + Suc skip \<le> j" by simp
    then have "j - i = (j - (i + Suc skip)) + Suc skip" by linarith
    then have "Suc skip dvd j - i \<longleftrightarrow> Suc skip dvd j - (i + Suc skip)" by (simp only: dvd_add_triv_right_iff)
    then show "(Suc skip dvd j - i \<and> xs ! j = s) = (Suc skip dvd j - (i + Suc skip) \<and> xs ! j = s)" by simp
  qed
  finally show ?thesis .
qed

lemma rep_find_loop:
  assumes "lp_rep lp segs" "i < length segs" "venc_ok s venc"
  shows "find_loop lp (lp_total segs) s skip (lp_off segs i) c venc sz =
    Some (map_option (lp_off segs) (find_index (lp_strings segs) s skip (i + c)))"
  using assms(2,3)
proof (induction "length segs - i" arbitrary: i c venc sz rule: less_induct)
  case less
  note off = lp_off_Suc [OF less.prems(1)]
  have fc: "find_check lp (lp_total segs) (lp_off segs (Suc i)) = Some (length segs \<le> Suc i)"
    by (rule rep_find_check [OF assms(1)])
  show ?case
  proof (cases "c = 0")
    case True
    obtain got venc' where g: "lpGetWithSize lp (lp_off segs i) = Some (got, Some (length (segs ! i)))" "venc_ok s venc'"
      "(case got of
        Got_Str off ll \<Rightarrow>
          if \<not> (lp_off segs i \<ge> LP_HDR_SIZE \<and> lp_off segs i + length (segs ! i) < lp_total segs) then None
          else if length s = ll then do { bs \<leftarrow> mem_read lp off ll; Some (bs = s, venc) }
          else Some (False, venc)
      | Got_Int ll \<Rightarrow> do { v \<leftarrow> find_vencoding s venc; Some (v = Some ll, Some v) }) =
       Some (lp_strings segs ! i = s, venc')"
      using rep_find_compare [OF assms(1) less.prems] by (elim exE conjE) (rule that; assumption)
    have unf: "find_loop lp (lp_total segs) s skip (lp_off segs i) c venc sz =
        (if lp_strings segs ! i = s then Some (Some (lp_off segs i))
         else if length segs \<le> Suc i then Some None
         else find_loop lp (lp_total segs) s skip (lp_off segs (Suc i)) skip venc' (length (segs ! i)))"
      by (subst find_loop.simps)
        (simp only: True g(1) refl if_True bind.bind_lunit prod.case Let_def option.case g(3), simp add: fc flip: off)
    show ?thesis
    proof (cases "lp_strings segs ! i = s")
      case eq: True
      then show ?thesis using True less.prems(1) unf find_index_eq [OF eq] by simp
    next
      case ne: False
      have step: "find_index (lp_strings segs) s skip (i + c) = find_index (lp_strings segs) s skip (Suc i + skip)"
        using True find_index_step [OF ne, of skip] by simp
      show ?thesis
      proof (cases "Suc i < length segs")
        case True
        then show ?thesis using less.hyps [OF _ True g(2), of skip "length (segs ! i)"] unf ne step by simp
      next
        case False
        then show ?thesis using unf ne step by (simp add: find_index_end)
      qed
    qed
  next
    case False
    have unf: "find_loop lp (lp_total segs) s skip (lp_off segs i) c venc sz =
        (if length segs \<le> Suc i then Some None
         else find_loop lp (lp_total segs) s skip (lp_off segs (Suc i)) (c - 1) venc sz)"
      using False rep_skip [OF assms(1) less.prems(1)] fc by (subst find_loop.simps) simp
    show ?thesis
    proof (cases "Suc i < length segs")
      case True
      then show ?thesis using less.hyps [OF _ True less.prems(2), of "c - 1" sz] unf False by simp
    next
      case last: False
      then show ?thesis using unf False by (simp add: find_index_end)
    qed
  qed
qed

lemma rep_find:
  assumes "lp_rep lp segs" "i < length segs"
  shows "lpFind lp (lp_off segs i) s skip = Some (map_option (lp_off segs) (find_index (lp_strings segs) s skip i))"
  using rep_find_loop [OF assms, of s None skip 0] rep_bytes [OF assms(1)] by (simp add: lpFind_def venc_ok_def)

end
