(* ===== verification/Listpack_Update.thy ===== *)
theory Listpack_Update
  imports Listpack_Proofs
begin

text \<open>
  The updates of \<^verbatim>\<open>listpack.c\<close>: insertion, replacement and deletion at a position, ranges, batches and merges,
  each as an operation on the list of entries, with the sizes that make an insertion fail.
\<close>

section \<open>Insertion\<close>

lemma mem_write_twice:
  "p + length xs + length ys \<le> length b \<Longrightarrow>
     do { b \<leftarrow> mem_write b p xs; mem_write b (p + length xs) ys } = mem_write b p (xs @ ys)"
  by (cases xs) (auto simp: mem_write_def min_def add.commute add.left_commute)

lemma splice_ok:
  assumes "lp = H @ R @ T @ S" "length H = p" "new = p + length E + length T" "old = p + length R + length T"
    "lp1 = (if new > old \<and> new > length lp then lp_grow lp new else lp)"
  obtains X Y S' where "mem_move lp1 (p + length E) (p + length R) (length T) = Some X"
    "Y = (if new < old then take new X else X)" "new \<le> length Y" "mem_write Y p E = Some (H @ E @ T @ S')"
proof -
  obtain S1 where lp1: "lp1 = H @ R @ T @ S1" "new \<le> length lp1"
  proof (cases "new > old \<and> new > length lp")
    case True
    then show thesis using assms(1,5) by (intro that [of "S @ replicate (new - length lp) 0"]) (simp_all add: lp_grow_def)
  next
    case False
    then show thesis using assms by (intro that [of S]) auto
  qed
  define X where "X = take (p + length E) lp1 @ T @ drop new lp1"
  define Y where "Y = (if new < old then take new X else X)"
  have "mem_read lp1 (p + length R) (length T) = Some T"
    using lp1(1) assms(2) by (simp add: mem_read_def)
  then have X: "mem_move lp1 (p + length E) (p + length R) (length T) = Some X"
    using lp1(2) assms(3) by (simp add: mem_move_def mem_write_def X_def)
  define S' where "S' = (if new < old then [] else drop new lp1)"
  have Y: "Y = take (p + length E) lp1 @ T @ S'"
    using lp1(2) assms(3) by (cases T) (auto simp: Y_def X_def S'_def min_def)
  have len: "length (take (p + length E) lp1) = p + length E" using lp1(2) assms(3) by simp
  have "take p Y = H" using Y len lp1(1) assms(2) by simp
  moreover have "drop (p + length E) Y = T @ S'" using Y len by simp
  moreover have "new \<le> length Y" using Y len assms(3) by simp
  ultimately show thesis using X Y_def assms(3) by (intro that [of X Y S']) (simp_all add: mem_write_def)
qed

lemma header_set_num: "lpSetNumElements (lp_header tot num @ rest) (int num') = Some (lp_header tot num' @ rest)"
  by (simp add: lpSetNumElements_def mem_write_def lp_header_def)

lemma header_update_count:
  assumes "num < 65536" "num \<noteq> 65535 \<longrightarrow> int num + d = int num'" "num = 65535 \<longrightarrow> num' = 65535"
  shows "update_count (lp_header tot num @ rest) d = Some (lp_header tot num' @ rest)"
  using assms by (cases "num = 65535") (simp_all add: update_count_def header_num header_set_num)

lemma header_set_total: "lpSetTotalBytes (lp_header tot num @ rest) (int tot') = Some (lp_header tot' num @ rest)"
  by (simp add: lpSetTotalBytes_def mem_write_def lp_header_def)

lemma lp_total_append: "lp_total (xs @ ys) = 7 + length (concat xs) + length (concat ys)"
  by (simp add: lp_total_def)

text \<open>The bytes of the element, and the encoding \<^verbatim>\<open>lpInsert\<close> chooses.\<close>

fun elem_enc :: "lp_elem \<Rightarrow> byte list" where
  "elem_enc (Ele_Str s) = str_enc s"
| "elem_enc (Ele_Int e) = entry e"
| "elem_enc Ele_Delete = []"

text \<open>\<^verbatim>\<open>lpEncodeGetType\<close> announces the length that is written.\<close>

lemma encode_get_type:
  obtains e intenc where "lpEncodeGetType s = Some (intenc, length e)" "str_enc s = entry e"
    "intenc = Some e \<or> intenc = None \<and> e = lpEncodeString s"
proof -
  obtain r where r: "string2ll s (length s) = Some r" using string2ll_exact by blast
  show thesis
  proof (cases r)
    case None
    then show ?thesis using r
      by (intro that [of None "lpEncodeString s"])
        (simp_all add: lpEncodeGetType_def lpStringToInt64_eq str_enc_def lpEncodeString_def Let_def)
  next
    case (Some v)
    then show ?thesis using r
      by (intro that [of "Some (lpEncodeIntegerGetType v)" "lpEncodeIntegerGetType v"])
        (simp_all add: lpEncodeGetType_def lpStringToInt64_eq str_enc_def int_enc_def Let_def)
  qed
qed

text \<open>The tail of \<^verbatim>\<open>lpInsert\<close> once the element is encoded as \<open>e\<close>.\<close>

lemma elem_split:
  assumes "ele \<noteq> Ele_Delete"
  obtains e intenc where "elem_enc ele = entry e"
    "(case ele of Ele_Str elestr \<Rightarrow> lpEncodeGetType elestr | Ele_Int eleint \<Rightarrow> Some (Some eleint, length eleint)
       | Ele_Delete \<Rightarrow> Some (None, 0)) = Some (intenc, length e)"
    "\<forall>lp dst. (case intenc of Some e \<Rightarrow> mem_write lp dst e
        | None \<Rightarrow> (case ele of Ele_Str elestr \<Rightarrow> mem_write lp dst (lpEncodeString elestr) | _ \<Rightarrow> None)) = mem_write lp dst e"
proof (cases ele)
  case (Ele_Str s)
  obtain e intenc where e: "lpEncodeGetType s = Some (intenc, length e)" "str_enc s = entry e"
    "intenc = Some e \<or> intenc = None \<and> e = lpEncodeString s" using encode_get_type .
  then show thesis using Ele_Str by (intro that [of e intenc]) auto
next
  case (Ele_Int e)
  then show thesis by (intro that [of e "Some e"]) auto
qed (use assms in simp)

lemma num_ok_splice:
  assumes "num_ok num (pre @ old @ post)" "length old \<le> 1" "length new \<le> 1" "d = int (length new) - int (length old)"
  obtains num' where "num_ok num' (pre @ new @ post)" "num \<noteq> 65535 \<longrightarrow> int num + d = int num'" "num = 65535 \<longrightarrow> num' = 65535"
proof (cases "num = 65535")
  case True
  then show thesis by (intro that [of 65535]) (simp_all add: num_ok_def)
next
  case False
  then show thesis using assms by (intro that [of "length (pre @ new @ post)"]) (auto simp: num_ok_def)
qed

lemma insert_core:
  assumes "lp_rep lp (pre @ old @ post)" "length old \<le> 1" "length new \<le> 1" "\<forall>s \<in> set new. seg_ok s"
    "lp_total (pre @ new @ post) < 2 ^ 32"
    "tot = lp_total (pre @ old @ post)" "tot' = lp_total (pre @ new @ post)" "p = lp_off (pre @ old @ post) (length pre)"
    "lp1 = (if tot' > tot \<and> tot' > length lp then lp_grow lp tot' else lp)"
  obtains X Y Z lp' where
    "mem_move lp1 (p + length (concat new)) (p + length (concat old)) (tot - p - length (concat old)) = Some X"
    "Y = (if tot' < tot then take tot' X else X)" "tot' \<le> length Y" "mem_write Y p (concat new) = Some Z"
    "update_count Z (int (length new) - int (length old)) \<bind> (\<lambda>lp. lpSetTotalBytes lp (int tot')) = Some lp'"
    "lp_rep lp' (pre @ new @ post)"
    "length new = length old \<longrightarrow> lpSetTotalBytes Z (int tot') = Some lp'"
    "\<forall>q \<ge> 6. mem_get Z q = mem_get lp' q"
proof -
  obtain num slack where lp: "lp = lp_header tot num @ concat (pre @ old @ post) @ [LP_EOF] @ slack"
    "num_ok num (pre @ old @ post)" "\<forall>s \<in> set (pre @ old @ post). seg_ok s"
    using assms(1) unfolding assms(6) by (rule lp_repE)
  let ?T = "concat post @ [LP_EOF]"
  have p: "p = 6 + length (concat pre)" using assms(8) by (simp add: lp_off_def)
  have l: "lp = (lp_header tot num @ concat pre) @ concat old @ ?T @ slack" using lp(1) by simp
  have tot: "tot = p + length (concat old) + length ?T" "tot' = p + length (concat new) + length ?T"
    using assms(6,7) p by (simp_all add: lp_total_def)
  obtain X Y S' where s: "mem_move lp1 (p + length (concat new)) (p + length (concat old)) (length ?T) = Some X"
    "Y = (if tot' < tot then take tot' X else X)" "tot' \<le> length Y"
    "mem_write Y p (concat new) = Some ((lp_header tot num @ concat pre) @ concat new @ ?T @ S')"
    using splice_ok [OF l _ tot(2,1) assms(9)] p by auto
  obtain num' where n: "num_ok num' (pre @ new @ post)" "num \<noteq> 65535 \<longrightarrow> int num + (int (length new) - int (length old)) = int num'"
    "num = 65535 \<longrightarrow> num' = 65535" using num_ok_splice [OF lp(2) assms(2,3) refl] .
  let ?rest = "concat pre @ concat new @ ?T @ S'"
  have u: "update_count (lp_header tot num @ ?rest) (int (length new) - int (length old)) = Some (lp_header tot num' @ ?rest)"
    using lp(2) n(2,3) by (intro header_update_count) (auto simp: num_ok_def)
  have "lp_rep (lp_header tot' num' @ ?rest) (pre @ new @ post)"
    unfolding lp_rep_def using n(1) assms(4,5) lp(3) by (auto simp: assms(7) [symmetric] intro!: exI [of _ num'])
  moreover have "lpSetTotalBytes (lp_header tot num @ ?rest) (int tot') = Some (lp_header tot' num' @ ?rest)"
    if "length new = length old"
  proof -
    have "num' = num" using n(2,3) that by (cases "num = 65535") auto
    then show ?thesis by (simp only: header_set_total)
  qed
  moreover have "mem_write Y p (concat new) = Some (lp_header tot num @ ?rest)" using s(4) by simp
  moreover have "tot - p - length (concat old) = length ?T" using tot(1) by simp
  moreover have "update_count (lp_header tot num @ ?rest) (int (length new) - int (length old)) \<bind>
      (\<lambda>lp. lpSetTotalBytes lp (int tot')) = Some (lp_header tot' num' @ ?rest)"
    by (simp only: u bind.bind_lunit header_set_total)
  moreover have "\<forall>q \<ge> 6. mem_get (lp_header tot num @ ?rest) q = mem_get (lp_header tot' num' @ ?rest) q"
    by (simp add: mem_get_def nth_append)
  ultimately show thesis using s(1-3) by (intro that [of X Y "lp_header tot num @ ?rest" "lp_header tot' num' @ ?rest"]) simp_all
qed

text \<open>What \<^verbatim>\<open>lpInsert\<close> returns: a failure when the listpack would not fit in 32 bits, otherwise the new listpack
  and the offset.\<close>

definition insert_result :: "(byte list \<times> nat option) option option \<Rightarrow> byte list list \<Rightarrow> nat option \<Rightarrow> bool" where
  "insert_result r segs newp \<longleftrightarrow>
     (if lp_total segs < 2 ^ 32 then (\<exists>lp. r = Some (Some (lp, newp)) \<and> lp_rep lp segs) else r = Some None)"

definition elem_ok :: "lp_elem \<Rightarrow> bool" where
  "elem_ok ele \<longleftrightarrow>
     (case ele of Ele_Str s \<Rightarrow> True | Ele_Int e \<Rightarrow> (\<exists>v. is_int64 v \<and> e = lpEncodeIntegerGetType v) | Ele_Delete \<Rightarrow> False)"

lemma length_str_enc: "length s < length (str_enc s) + 21"
proof -
  obtain r where r: "string2ll s (length s) = Some r" "\<And>n. r = Some n \<Longrightarrow> is_int64 n \<and> s = int_bytes n"
    using string2ll_exact [of s] by auto
  show ?thesis
  proof (cases r)
    case None
    then show ?thesis using r by (auto simp: str_enc_def entry_def lpEncodeString_def Let_def)
  next
    case (Some v)
    then show ?thesis using r(2) [of v] length_int_bytes [of v] by (simp add: LONG_STR_SIZE_def)
  qed
qed

lemma elem_enc_ok:
  assumes "elem_ok ele" "length (elem_enc ele) < 2 ^ 32"
  shows "seg_ok (elem_enc ele)"
proof (cases ele)
  case (Ele_Str s)
  show ?thesis
  proof (cases "length s < 2 ^ 32 - 5")
    case True
    then show ?thesis using Ele_Str str_enc_ok(1) by simp
  next
    case False
    obtain r where r: "string2ll s (length s) = Some r" using string2ll_exact by blast
    moreover have "string2ll s (length s) = Some None" using False by (simp add: string2ll_def LONG_STR_SIZE_def)
    ultimately have "str_enc s = entry (lpEncodeString s)" by (simp add: str_enc_def)
    then have "2 ^ 32 \<le> length (str_enc s)" using False by (simp add: entry_def lpEncodeString_def Let_def)
    then show ?thesis using assms(2) Ele_Str by simp
  qed
qed (use assms int_enc_ok in \<open>auto simp: elem_ok_def int_enc_def\<close>)

lemma elem_ok_enc: "elem_ok ele \<Longrightarrow> ele \<noteq> Ele_Delete"
  by (auto simp: elem_ok_def)

lemma lp_total_member: "s \<in> set segs \<Longrightarrow> length s < lp_total segs"
  unfolding lp_total_def using in_set_conv_decomp [of s segs] by auto

text \<open>The end of \<^verbatim>\<open>lpInsert\<close> for an element encoded as \<open>e\<close>, which takes the place of \<open>old\<close>: no entry, or the
  replaced one.\<close>

definition insert_tail :: "byte list \<Rightarrow> nat \<Rightarrow> nat \<Rightarrow> nat \<Rightarrow> nat \<Rightarrow> byte list \<Rightarrow> bool \<Rightarrow> (byte list \<times> nat option) option option" where
  "insert_tail lp tot tot' p r e add =
     (let bl = lpEncodeBacklen (length e);
          lp1 = (if tot' > tot \<and> tot' > length lp then lp_grow lp tot' else lp)
      in if tot' > UINT32_MAX then Some None
      else do {
         lp \<leftarrow> mem_move lp1 (p + length e + length bl) (p + r) (tot - p - r);
         let lp = (if tot' < tot then take tot' lp else lp);
         lp \<leftarrow> do { lp \<leftarrow> mem_write lp p e; mem_write lp (p + length e) bl };
         lp \<leftarrow> (if add then update_count lp 1 else Some lp);
         lp \<leftarrow> lpSetTotalBytes lp (int tot');
         Some (Some (lp, Some p))
       })"

lemma insert_tail_ok:
  assumes "lp_rep lp (pre @ old @ post)" "length old \<le> 1" "elem_ok ele" "elem_enc ele = entry e"
    "tot = lp_total (pre @ old @ post)" "tot' = lp_total (pre @ [elem_enc ele] @ post)" "p = lp_off (pre @ old @ post) (length pre)"
  shows "insert_result (insert_tail lp tot tot' p (length (concat old)) e (old = [])) (pre @ [elem_enc ele] @ post) (Some p)"
proof (cases "tot' < 2 ^ 32")
  case False
  then show ?thesis by (simp add: insert_result_def insert_tail_def UINT32_MAX_def assms(6))
next
  case True
  let ?E = "elem_enc ele"
  define bl where "bl = lpEncodeBacklen (length e)"
  have E: "?E = e @ bl" using assms(4) by (simp add: entry_def bl_def)
  define lp1 where "lp1 = (if tot' > tot \<and> tot' > length lp then lp_grow lp tot' else lp)"
  have "length ?E < 2 ^ 32" using lp_total_member [of ?E "pre @ [?E] @ post"] True assms(6) by simp
  then have ok: "\<forall>s \<in> set [?E]. seg_ok s" using elem_enc_ok [OF assms(3)] by simp
  have one: "length [?E] \<le> 1" by simp
  obtain X Y Z lp' where s:
    "mem_move lp1 (p + length (concat [?E])) (p + length (concat old)) (tot - p - length (concat old)) = Some X"
    "Y = (if tot' < tot then take tot' X else X)" "tot' \<le> length Y" "mem_write Y p (concat [?E]) = Some Z"
    "update_count Z (int (length [?E]) - int (length old)) \<bind> (\<lambda>lp. lpSetTotalBytes lp (int tot')) = Some lp'"
    "lp_rep lp' (pre @ [?E] @ post)" "length [?E] = length old \<longrightarrow> lpSetTotalBytes Z (int tot') = Some lp'"
    using insert_core [OF assms(1,2) one ok True [unfolded assms(6)] assms(5,6,7) lp1_def] by metis
  have "p + length ?E \<le> tot'" using assms(6,7) by (simp add: lp_total_def lp_off_def)
  then have w: "do { lp \<leftarrow> mem_write Y p e; mem_write lp (p + length e) bl } = Some Z"
    using s(3,4) E by (subst mem_write_twice) simp_all
  have u: "do { lp \<leftarrow> (if old = [] then update_count Z 1 else Some Z); lpSetTotalBytes lp (int tot') } = Some lp'"
    using s(5,7) assms(2) by (cases old) simp_all
  have "insert_tail lp tot tot' p (length (concat old)) e (old = []) =
      do { Z \<leftarrow> do { lp \<leftarrow> mem_write Y p e; mem_write lp (p + length e) bl };
           lp \<leftarrow> do { lp \<leftarrow> (if old = [] then update_count Z 1 else Some Z); lpSetTotalBytes lp (int tot') };
           Some (Some (lp, Some p)) }"
    using s(1,2) True E by (simp add: insert_tail_def Let_def UINT32_MAX_def add.assoc flip: bl_def lp1_def)
  then show ?thesis using s(6) True unfolding w bind.bind_lunit u by (simp add: insert_result_def assms(6))
qed

lemma lp_total_take_drop: "lp_total (take i segs @ xs @ drop i segs) = lp_total segs + length (concat xs)"
proof -
  have "length (concat segs) = length (concat (take i segs)) + length (concat (drop i segs))"
    by (metis append_take_drop_id concat_append length_append)
  then show ?thesis by (simp add: lp_total_def)
qed

lemma lp_insert_before_unfold:
  assumes "lpGetTotalBytes lp = Some tot" "ele \<noteq> Ele_Delete" "elem_enc ele = entry e"
    "(case ele of Ele_Str elestr \<Rightarrow> lpEncodeGetType elestr | Ele_Int eleint \<Rightarrow> Some (Some eleint, length eleint)
       | Ele_Delete \<Rightarrow> Some (None, 0)) = Some (intenc, length e)"
    "\<forall>lp dst. (case intenc of Some e \<Rightarrow> mem_write lp dst e
        | None \<Rightarrow> (case ele of Ele_Str elestr \<Rightarrow> mem_write lp dst (lpEncodeString elestr) | _ \<Rightarrow> None)) = mem_write lp dst e"
  shows "lpInsert lp ele p LP_BEFORE = insert_tail lp tot (tot + length (elem_enc ele)) p 0 e True"
    "lpSkip lp p = Some q \<Longrightarrow> LP_HDR_SIZE \<le> q \<Longrightarrow> q < tot \<Longrightarrow>
       lpInsert lp ele p LP_AFTER = insert_tail lp tot (tot + length (elem_enc ele)) q 0 e True"
    "lpCurrentEncodedSizeUnsafe lp p = Some n \<Longrightarrow> r = n + backlen_size n \<Longrightarrow> r < 2 ^ 32 \<Longrightarrow> LP_HDR_SIZE \<le> p \<Longrightarrow> p + r < tot \<Longrightarrow>
       lpInsert lp ele p LP_REPLACE = insert_tail lp tot (tot + length (elem_enc ele) - r) p r e False"
  subgoal unfolding lpInsert_def insert_tail_def using assms(2)
    by (simp add: assms(1,3,4) assms(5) [rule_format] entry_def Let_def add.assoc)
  subgoal unfolding lpInsert_def insert_tail_def using assms(2)
    by (simp add: assms(1,3,4) assms(5) [rule_format] entry_def Let_def add.assoc)
  subgoal unfolding lpInsert_def insert_tail_def using assms(2)
    by (simp add: assms(1,3,4) assms(5) [rule_format] entry_def Let_def add.assoc cong: if_cong)
  done

text \<open>The positions of \<^verbatim>\<open>lpInsert\<close>.\<close>

lemma rep_insert_before:
  assumes "lp_rep lp segs" "i \<le> length segs" "elem_ok ele"
  shows "insert_result (lpInsert lp ele (lp_off segs i) LP_BEFORE) (take i segs @ [elem_enc ele] @ drop i segs)
           (Some (lp_off segs i))" (is ?before)
    "0 < i \<Longrightarrow> insert_result (lpInsert lp ele (lp_off segs (i - 1)) LP_AFTER) (take i segs @ [elem_enc ele] @ drop i segs)
           (Some (lp_off segs i))"
proof -
  note nd = elem_ok_enc [OF assms(3)]
  obtain e intenc where e: "elem_enc ele = entry e"
    "(case ele of Ele_Str elestr \<Rightarrow> lpEncodeGetType elestr | Ele_Int eleint \<Rightarrow> Some (Some eleint, length eleint)
       | Ele_Delete \<Rightarrow> Some (None, 0)) = Some (intenc, length e)"
    "\<forall>lp dst. (case intenc of Some e \<Rightarrow> mem_write lp dst e
        | None \<Rightarrow> (case ele of Ele_Str elestr \<Rightarrow> mem_write lp dst (lpEncodeString elestr) | _ \<Rightarrow> None)) = mem_write lp dst e"
    using elem_split [OF nd] .
  have r: "lp_rep lp (take i segs @ [] @ drop i segs)" using assms(1) by simp
  note unf = lp_insert_before_unfold [OF rep_total [OF assms(1)] nd e]
  have t: "insert_result (insert_tail lp (lp_total segs) (lp_total segs + length (elem_enc ele)) (lp_off segs i) 0 e True)
      (take i segs @ [elem_enc ele] @ drop i segs) (Some (lp_off segs i))"
    using insert_tail_ok [OF r _ assms(3) e(1) refl refl refl] lp_total_take_drop [of i segs "[elem_enc ele]"] assms(2)
    by (simp add: min_absorb2)
  show ?before using unf(1) t by simp
  show "insert_result (lpInsert lp ele (lp_off segs (i - 1)) LP_AFTER) (take i segs @ [elem_enc ele] @ drop i segs)
           (Some (lp_off segs i))" if "0 < i"
    using unf(2) [of "lp_off segs (i - 1)" "lp_off segs i"] t rep_skip [OF assms(1), of "i - 1"] lp_off_ge [of segs i]
      lp_off_less [of segs i] that assms(2) by simp
qed

text \<open>An entry as the part of the block that is replaced.\<close>

lemma rep_replaced:
  assumes "lp_rep lp segs" "i < length segs"
  obtains n where "lpCurrentEncodedSizeUnsafe lp (lp_off segs i) = Some n" "length (segs ! i) = n + backlen_size n"
    "length (segs ! i) < 2 ^ 32" "lp_off segs i + length (segs ! i) < lp_total segs"
    "segs = take i segs @ [segs ! i] @ drop (Suc i) segs"
proof -
  obtain xs ys where s: "lp = xs @ segs ! i @ ys" "length xs = lp_off segs i" using rep_split [OF assms] .
  obtain n where n: "lpCurrentEncodedSizeUnsafe (segs ! i) 0 = Some n" "length (segs ! i) = n + backlen_size n"
    using rep_seg_ok [OF assms] by (rule seg_okE)
  have "lp_off segs i + length (segs ! i) < lp_total segs"
    using lp_off_Suc [OF assms(2)] lp_off_less [of segs "Suc i"] by simp
  moreover have "lp_total segs < 2 ^ 32" using assms(1) by (simp add: lp_rep_def)
  ultimately show thesis
    using size_local [OF n(1), of xs ys] n(2) s id_take_nth_drop [OF assms(2)] by (intro that [of n]) simp_all
qed

lemma rep_replace:
  assumes "lp_rep lp segs" "i < length segs" "elem_ok ele"
  shows "insert_result (lpInsert lp ele (lp_off segs i) LP_REPLACE) (segs[i := elem_enc ele]) (Some (lp_off segs i))"
proof -
  note nd = elem_ok_enc [OF assms(3)]
  obtain e intenc where e: "elem_enc ele = entry e"
    "(case ele of Ele_Str elestr \<Rightarrow> lpEncodeGetType elestr | Ele_Int eleint \<Rightarrow> Some (Some eleint, length eleint)
       | Ele_Delete \<Rightarrow> Some (None, 0)) = Some (intenc, length e)"
    "\<forall>lp dst. (case intenc of Some e \<Rightarrow> mem_write lp dst e
        | None \<Rightarrow> (case ele of Ele_Str elestr \<Rightarrow> mem_write lp dst (lpEncodeString elestr) | _ \<Rightarrow> None)) = mem_write lp dst e"
    using elem_split [OF nd] .
  obtain n where n: "lpCurrentEncodedSizeUnsafe lp (lp_off segs i) = Some n" "length (segs ! i) = n + backlen_size n"
    "length (segs ! i) < 2 ^ 32" "lp_off segs i + length (segs ! i) < lp_total segs"
    "segs = take i segs @ [segs ! i] @ drop (Suc i) segs" using rep_replaced [OF assms(1,2)] .
  have r: "lp_rep lp (take i segs @ [segs ! i] @ drop (Suc i) segs)" using assms(1) n(5) by simp
  have new: "segs[i := elem_enc ele] = take i segs @ [elem_enc ele] @ drop (Suc i) segs"
    using upd_conv_take_nth_drop [OF assms(2)] by simp
  have tot: "lp_total segs + length (elem_enc ele) - length (segs ! i) = lp_total (segs[i := elem_enc ele])"
    unfolding new by (subst n(5)) (simp add: lp_total_def)
  show ?thesis
    using lp_insert_before_unfold(3) [OF rep_total [OF assms(1)] nd e n(1,2,3) _ n(4)] lp_off_ge [of segs i] tot
      insert_tail_ok [OF r _ assms(3) e(1) refl refl refl] n(5) [symmetric] assms(2)
    by (simp add: new min_def)
qed

lemma rep_delete:
  assumes "lp_rep lp segs" "i < length segs"
  shows "\<exists>lp'. lpDelete lp (lp_off segs i) = Some (Some (lp', if Suc i < length segs then Some (lp_off segs i) else None)) \<and>
    lp_rep lp' (take i segs @ drop (Suc i) segs)"
proof -
  let ?p = "lp_off segs i" and ?segs = "take i segs @ [] @ drop (Suc i) segs"
  obtain n where n: "lpCurrentEncodedSizeUnsafe lp (lp_off segs i) = Some n" "length (segs ! i) = n + backlen_size n"
    "length (segs ! i) < 2 ^ 32" "lp_off segs i + length (segs ! i) < lp_total segs"
    "segs = take i segs @ [segs ! i] @ drop (Suc i) segs" using rep_replaced [OF assms(1,2)] .
  have r: "lp_rep lp (take i segs @ [segs ! i] @ drop (Suc i) segs)" using assms(1) n(5) by simp
  define tot where "tot = lp_total segs"
  define tot' where "tot' = lp_total ?segs"
  have tot: "tot = tot' + length (segs ! i)" unfolding tot_def tot'_def by (subst n(5)) (simp add: lp_total_def)
  have lt: "tot' < tot" using tot n(2) backlen_size_bounds(1) [of n] by simp
  have "tot' < 2 ^ 32" using assms(1) lt unfolding tot_def lp_rep_def by linarith
  then have small: "lp_total ?segs < 2 ^ 32" by (simp add: tot'_def)
  have p: "?p = lp_off (take i segs @ [segs ! i] @ drop (Suc i) segs) (length (take i segs))"
    using n(5) assms(2) by (simp add: min_def)
  have t: "tot = lp_total (take i segs @ [segs ! i] @ drop (Suc i) segs)" using n(5) by (simp add: tot_def)
  have l: "lp = (if tot' > tot \<and> tot' > length lp then lp_grow lp tot' else lp)" using lt by simp
  obtain X Y Z lp' where s:
    "mem_move lp (?p + length (concat ([] :: byte list list))) (?p + length (concat [segs ! i])) (tot - ?p - length (concat [segs ! i])) = Some X"
    "Y = (if tot' < tot then take tot' X else X)" "tot' \<le> length Y" "mem_write Y ?p (concat []) = Some Z"
    "update_count Z (int (length ([] :: byte list list)) - int (length [segs ! i])) \<bind> (\<lambda>lp. lpSetTotalBytes lp (int tot')) = Some lp'"
    "lp_rep lp' ?segs" "\<forall>q \<ge> 6. mem_get Z q = mem_get lp' q"
    by (rule insert_core [OF r _ _ _ small t tot'_def p l]) (auto intro: that)
  have "?p < tot'" using n(4) tot by (simp flip: tot_def)
  then have Z: "Z = Y" using s(3,4) by (simp add: mem_write_def)
  have off: "lp_off ?segs i = ?p" using assms(2) by (simp add: lp_off_def)
  obtain b where b: "mem_get lp' ?p = Some b" "(b = LP_EOF) = (length ?segs \<le> i)"
    using rep_byte [OF s(6), of i] unfolding off .
  have g: "mem_get Y ?p = Some b" using s(7) b(1) lp_off_ge [of segs i] Z by simp
  have "lpDelete lp ?p = do {
      lp \<leftarrow> update_count Y (- 1) \<bind> (\<lambda>lp. lpSetTotalBytes lp (int tot'));
      Some (Some (lp, if b = LP_EOF then None else Some ?p)) }"
    using n(1-4) s(1,2) rep_total [OF assms(1)] lt tot g lp_off_ge [of segs i] \<open>tot' < 2 ^ 32\<close>
    by (simp add: lpDelete_def lpInsert_def UINT32_MAX_def Let_def flip: tot_def)
  moreover have u: "update_count Y (- 1) \<bind> (\<lambda>lp. lpSetTotalBytes lp (int tot')) = Some lp'" using s(5) Z by simp
  ultimately have "lpDelete lp ?p = Some (Some (lp', if b = LP_EOF then None else Some ?p))" by (simp only: u bind.bind_lunit)
  then show ?thesis using s(6) b(2) assms(2) by auto
qed

section \<open>Whole listpacks\<close>

lemma lp_rep_intro:
  assumes "num_ok num segs" "lp_total segs < 2 ^ 32" "\<forall>s \<in> set segs. seg_ok s" "tot = lp_total segs"
  shows "lp_rep (lp_header tot num @ concat segs @ [LP_EOF] @ slack) segs"
  using assms unfolding lp_rep_def by blast

lemma lpNew_ok: "\<exists>lp. lpNew capacity = Some lp \<and> lp_rep lp [] \<and> length lp = max capacity 7"
proof -
  define n where "n = (if capacity > 7 then capacity else 7) - 7"
  have n: "(if capacity > LP_HDR_SIZE + 1 then capacity else LP_HDR_SIZE + 1) = 7 + n" by (simp add: n_def)
  let ?lp = "lp_header 7 0 @ concat [] @ [LP_EOF] @ replicate n 0"
  have "lpNew capacity = Some ?lp"
    unfolding lpNew_def n
    by (simp add: lpSetTotalBytes_def lpSetNumElements_def mem_write_def mem_put_def lp_header_def replicate_add
        eval_nat_numeral list_update_append)
  moreover have "lp_rep ?lp []" by (rule lp_rep_intro) (simp_all add: num_ok_def lp_total_def)
  ultimately show ?thesis by (auto simp: n_def)
qed

lemma rep_length_ge: "lp_rep lp segs \<Longrightarrow> lp_total segs \<le> length lp"
  by (elim lp_repE) (simp add: lp_total_def)

lemma rep_take:
  assumes "lp_rep lp segs" "lp_total segs \<le> n"
  shows "lp_rep (take n lp) segs"
proof -
  obtain num slack where lp: "lp = lp_header (lp_total segs) num @ concat segs @ [LP_EOF] @ slack"
    "num_ok num segs" "lp_total segs < 2 ^ 32" "\<forall>s \<in> set segs. seg_ok s" using assms(1) by (rule lp_repE)
  have "take n lp = lp_header (lp_total segs) num @ concat segs @ [LP_EOF] @ take (n - lp_total segs) slack"
    using assms(2) by (simp add: lp(1) lp_total_def take_Cons')
  then show ?thesis using lp_rep_intro [OF lp(2-4) refl] by simp
qed

lemma rep_dup:
  assumes "lp_rep lp segs"
  shows "\<exists>lp'. lpDup lp = Some lp' \<and> lp_rep lp' segs \<and> length lp' = lp_total segs"
  using rep_take [OF assms order_refl] rep_bytes [OF assms] rep_length_ge [OF assms]
  by (simp add: lpDup_def mem_read_def)

lemma rep_shrink:
  assumes "lp_rep lp segs"
  shows "lpShrinkToFit lp = Some (take (lp_total segs) lp)" "lp_rep (take (lp_total segs) lp) segs"
  using rep_take [OF assms order_refl] rep_total [OF assms] rep_length_ge [OF assms] by (simp_all add: lpShrinkToFit_def)

section \<open>Both ends\<close>

definition result_is :: "byte list option option \<Rightarrow> byte list list \<Rightarrow> bool" where
  "result_is r segs \<longleftrightarrow> (if lp_total segs < 2 ^ 32 then (\<exists>lp. r = Some (Some lp) \<and> lp_rep lp segs) else r = Some None)"

lemma insert_result_fst: "insert_result r segs p \<Longrightarrow> result_is (map_option (map_option fst) r) segs"
  by (auto simp: insert_result_def result_is_def split: if_splits)

lemma elem_ok_simps [simp]: "elem_ok (Ele_Str s)" "is_int64 v \<Longrightarrow> elem_ok (Ele_Int (lpEncodeIntegerGetType v))"
  by (auto simp: elem_ok_def)

lemma rep_append_elem:
  assumes "lp_rep lp segs" "elem_ok ele"
  shows "result_is (map_option (map_option fst) (lpInsert lp ele (lp_total segs - 1) LP_BEFORE)) (segs @ [elem_enc ele])"
  using insert_result_fst [OF rep_insert_before(1) [OF assms(1) order_refl assms(2)]] lp_off_end [of segs "length segs"] by simp

lemma rep_append: "lp_rep lp segs \<Longrightarrow> result_is (lpAppend lp s) (segs @ [str_enc s])"
  using rep_append_elem [of lp segs "Ele_Str s"] rep_total [of lp segs] by (simp add: lpAppend_def)

lemma rep_append_int: "lp_rep lp segs \<Longrightarrow> is_int64 v \<Longrightarrow> result_is (lpAppendInteger lp v) (segs @ [int_enc v])"
  using rep_append_elem [of lp segs "Ele_Int (lpEncodeIntegerGetType v)"] rep_total [of lp segs]
  by (simp add: lpAppendInteger_def lpInsertInteger_def int_enc_def)

lemma rep_prepend_elem:
  assumes "lp_rep lp segs" "elem_ok ele"
  shows "result_is (map_option (map_option fst) (lpInsert lp ele 6 LP_BEFORE)) (elem_enc ele # segs)"
  using insert_result_fst [OF rep_insert_before(1) [OF assms(1) _ assms(2), of 0]] by simp

lemma rep_prepend:
  assumes "lp_rep lp segs"
  shows "result_is (lpPrepend lp s) (str_enc s # segs)"
  using rep_prepend_elem [OF assms, of "Ele_Str s"] rep_append [OF assms, of s] rep_first [OF assms]
  by (cases segs) (simp_all add: lpPrepend_def)

lemma rep_prepend_int:
  assumes "lp_rep lp segs" "is_int64 v"
  shows "result_is (lpPrependInteger lp v) (int_enc v # segs)"
  using rep_prepend_elem [OF assms(1), of "Ele_Int (lpEncodeIntegerGetType v)"] rep_append_int [OF assms]
    rep_first [OF assms(1)] assms(2)
  by (cases segs) (simp_all add: lpPrependInteger_def lpInsertInteger_def int_enc_def)

section \<open>Ranges\<close>

lemma rep_range_tail:
  assumes "lp_rep lp segs" "i < length segs"
  shows "range_tail lp (lp_total segs) (Suc num) (lp_off segs i) d =
    Some (lp_off segs (min (i + Suc num) (length segs)), d + min (Suc num) (length segs - i))"
  using assms(2)
proof (induction num arbitrary: i d)
  case 0
  obtain b where "mem_get lp (lp_off segs (Suc i)) = Some b" "(b = LP_EOF) = (length segs \<le> Suc i)"
    using rep_byte [OF assms(1)] .
  then show ?case using 0 rep_skip [OF assms(1) 0] rep_assert [OF assms(1), of "Suc i"] by (auto simp: min_def)
next
  case (Suc num)
  obtain b where b: "mem_get lp (lp_off segs (Suc i)) = Some b" "(b = LP_EOF) = (length segs \<le> Suc i)"
    using rep_byte [OF assms(1)] .
  have "range_tail lp (lp_total segs) (Suc (Suc num)) (lp_off segs i) d =
      (if length segs \<le> Suc i then Some (lp_off segs (Suc i), d + 1)
       else range_tail lp (lp_total segs) (Suc num) (lp_off segs (Suc i)) (d + 1))"
    using b rep_skip [OF assms(1) Suc.prems] rep_assert [OF assms(1), of "Suc i"]
    by (subst range_tail.simps) (simp del: range_tail.simps)
  moreover have "length segs - i = Suc (length segs - Suc i)" using Suc.prems by simp
  ultimately show ?case using Suc.IH [of "Suc i" "d + 1"] Suc.prems
    by (cases "length segs \<le> Suc i") (simp_all add: min_def le_Suc_eq del: range_tail.simps)
qed

lemma mem_move_gap:
  "mem_move (A @ J @ M @ T) (length A) (length A + length J) (length M) = Some (A @ M @ drop (length M) (J @ M) @ T)"
  by (simp add: mem_move_def mem_read_def mem_write_def)

lemma mem_move_gapI:
  "lp = A @ J @ M @ T \<Longrightarrow> src = length A + length J \<Longrightarrow>
     mem_move lp (length A) src (length M) = Some (A @ M @ drop (length M) (J @ M) @ T)"
  using mem_move_gap by simp

lemma rep_delete_range_entry:
  assumes "lp_rep lp segs" "i < length segs" "0 < num"
  shows "\<exists>lp'. lpDeleteRangeWithEntry lp (lp_off segs i) num =
      Some (lp', if i + num < length segs then Some (lp_off segs i) else None) \<and>
    lp_rep lp' (take i segs @ drop (i + num) segs)"
proof -
  let ?k = "min (i + num) (length segs)" and ?d = "min num (length segs - i)" and ?new = "take i segs @ drop (i + num) segs"
  let ?R = "concat (take ?d (drop i segs))" and ?T = "concat (drop (i + num) segs) @ [LP_EOF]"
  define tot where "tot = lp_total segs"
  obtain n where n: "num = Suc n" using assms(3) by (cases num) auto
  obtain num0 slack where lp: "lp = lp_header tot num0 @ concat segs @ [LP_EOF] @ slack"
    "num_ok num0 segs" "lp_total segs < 2 ^ 32" "\<forall>s \<in> set segs. seg_ok s"
    using assms(1) unfolding tot_def by (rule lp_repE)
  have segs: "segs = take i segs @ take ?d (drop i segs) @ drop (i + num) segs"
    using append_take_drop_id [of num "drop i segs"] append_take_drop_id [of i segs]
    by (simp add: min_def add.commute)
  have c: "concat segs = concat (take i segs) @ ?R @ concat (drop (i + num) segs)"
    by (subst segs) (simp only: concat_append)
  have off: "lp_off segs ?k = lp_off segs i + length ?R"
  proof -
    have "take ?k segs = take i segs @ take ?d (drop i segs)" using assms(2) by (simp add: min_def take_add)
    then show ?thesis by (simp add: lp_off_def)
  qed
  let ?A = "lp_header tot num0 @ concat (take i segs)"
  have l: "lp = ?A @ ?R @ ?T @ slack" using lp(1) c by simp
  have A: "length ?A = lp_off segs i" by (simp add: lp_off_def)
  have tot: "tot = lp_off segs ?k + length ?T" using c off by (simp add: tot_def lp_total_def lp_off_def)
  define tot' where "tot' = lp_off segs i + length ?T"
  obtain rest where mv: "mem_move lp (lp_off segs i) (lp_off segs ?k) (length ?T) = Some (lp_header tot num0 @ concat ?new @ [LP_EOF] @ rest)"
    using mem_move_gap [of ?A ?R ?T slack] unfolding A off l by auto
  have t': "tot' = lp_total ?new" by (simp add: tot'_def lp_total_def lp_off_def)
  have st: "lpSetTotalBytes (lp_header tot num0 @ concat ?new @ [LP_EOF] @ rest) (int tot - (int (lp_off segs ?k) - int (lp_off segs i))) =
      Some (lp_header tot' num0 @ concat ?new @ [LP_EOF] @ rest)"
  proof -
    have "int tot - (int (lp_off segs ?k) - int (lp_off segs i)) = int tot'" using tot by (simp add: tot'_def)
    then show ?thesis by (simp only: header_set_total)
  qed
  define num' where "num' = (if num0 = 65535 then 65535 else length ?new)"
  have uc: "update_count (lp_header tot' num0 @ concat ?new @ [LP_EOF] @ rest) (- int ?d) =
      Some (lp_header tot' num' @ concat ?new @ [LP_EOF] @ rest)"
    using lp(2) assms(2) by (intro header_update_count) (auto simp: num_ok_def num'_def)
  have "lp_total ?new \<le> lp_total segs" using tot off unfolding t' [symmetric] tot_def [symmetric] tot'_def by simp
  then have r: "lp_rep (lp_header tot' num' @ concat ?new @ [LP_EOF] @ rest) ?new"
    using lp(2-4) t' by (intro lp_rep_intro) (auto simp: num_ok_def num'_def dest: in_set_takeD in_set_dropD)
  note sh = rep_shrink [OF r]
  have off': "lp_off ?new i = lp_off segs i" using assms(2) by (simp add: lp_off_def)
  obtain b where b: "mem_get (take (lp_total ?new) (lp_header tot' num' @ concat ?new @ [LP_EOF] @ rest)) (lp_off segs i) = Some b"
    "(b = LP_EOF) = (length ?new \<le> i)" using rep_byte [OF sh(2), of i] unfolding off' .
  have e: "tot - 1 + 1 - lp_off segs ?k = length ?T" "\<not> lp_off segs ?k > tot - 1 + 1" using tot by simp_all
  have rt: "range_tail lp tot num (lp_off segs i) 0 = Some (lp_off segs ?k, ?d)"
    unfolding tot_def n using rep_range_tail [OF assms(1,2), of n 0] by simp
  have rb: "lpBytes lp = Some tot" using rep_bytes [OF assms(1)] by (simp add: tot_def)
  have "lpDeleteRangeWithEntry lp (lp_off segs i) num =
      Some (take (lp_total ?new) (lp_header tot' num' @ concat ?new @ [LP_EOF] @ rest), if b = LP_EOF then None else Some (lp_off segs i))"
    unfolding lpDeleteRangeWithEntry_def rb rt bind.bind_lunit Let_def prod.case e
    using assms(3) by (simp only: e(2) mv st uc sh(1) b(1) bind.bind_lunit if_False neq0_conv [THEN iffD2])
  then show ?thesis using sh(2) b(2) assms(2) by auto
qed

lemma rep_truncate:
  assumes "lp_rep lp segs" "j < length segs" "num_ok j (take j segs)"
  shows "\<exists>lp'. do { lp \<leftarrow> mem_put lp (lp_off segs j) LP_EOF; lp \<leftarrow> lpSetTotalBytes lp (int (lp_off segs j) + 1);
      lp \<leftarrow> lpSetNumElements lp (int j); lpShrinkToFit lp } = Some lp' \<and> lp_rep lp' (take j segs)"
proof -
  obtain num slack where lp: "lp = lp_header (lp_total segs) num @ concat segs @ [LP_EOF] @ slack"
    "lp_total segs < 2 ^ 32" "\<forall>s \<in> set segs. seg_ok s"
    using assms(1) by (rule lp_repE)
  let ?A = "concat (take j segs)"
  have c: "concat segs = ?A @ concat (drop j segs)" by (metis append_take_drop_id concat_append)
  obtain xs ys where s: "lp = xs @ segs ! j @ ys" "length xs = lp_off segs j" using rep_split [OF assms(1,2)] .
  have lt: "lp_off segs j < length lp" using lp_off_less [of segs j] rep_length_ge [OF assms(1)] by linarith
  have "take (lp_off segs j) lp = lp_header (lp_total segs) num @ ?A"
    unfolding lp(1) c by (simp add: lp_off_def)
  then have p: "mem_put lp (lp_off segs j) LP_EOF =
      Some (lp_header (lp_total segs) num @ ?A @ [LP_EOF] @ drop (Suc (lp_off segs j)) lp)"
    using lt by (simp add: mem_put_def upd_conv_take_nth_drop)
  have t: "int (lp_off segs j) + 1 = int (lp_total (take j segs))" by (simp add: lp_off_def lp_total_def)
  have "lp_total (take j segs) < 2 ^ 32" using t lp_off_less [of segs j] lp(2) by linarith
  then have r: "lp_rep (lp_header (lp_total (take j segs)) j @ ?A @ [LP_EOF] @ drop (Suc (lp_off segs j)) lp) (take j segs)"
    using assms(3) lp(3) by (intro lp_rep_intro) (auto dest: in_set_takeD)
  show ?thesis unfolding p t bind.bind_lunit header_set_total header_set_num using rep_shrink [OF r] by blast
qed

lemma index_of_bound: "index_of n i = Some j \<Longrightarrow> j < n"
  by (auto simp: index_of_def split: if_splits)

lemma rep_delete_range:
  assumes "lp_rep lp segs"
  shows "\<exists>lp'. lpDeleteRange lp i num = Some lp' \<and>
    lp_rep lp' (case index_of (length segs) i of None \<Rightarrow> segs | Some j \<Rightarrow> take j segs @ drop (j + num) segs)"
proof -
  obtain n where n: "lpGetNumElements lp = Some n" "num_ok n segs" using rep_num [OF assms] by blast
  show ?thesis
  proof (cases "index_of (length segs) i")
    case None
    then show ?thesis using n(1) rep_seek [OF assms, of i] assms by (auto simp: lpDeleteRange_def)
  next
    case (Some j)
    have j: "j < length segs" using index_of_bound [OF Some] .
    show ?thesis
    proof (cases "num = 0")
      case True
      then show ?thesis using n(1) Some assms by (auto simp: lpDeleteRange_def)
    next
      case False
      define idx where "idx = (if n \<noteq> 65535 \<and> i < 0 then int n + i else i)"
      have unf: "lpDeleteRange lp i num =
          (if n \<noteq> 65535 \<and> nat (int n - idx) \<le> num
           then do { lp \<leftarrow> mem_put lp (lp_off segs j) LP_EOF; lp \<leftarrow> lpSetTotalBytes lp (int (lp_off segs j) + 1);
                     lp \<leftarrow> lpSetNumElements lp idx; lpShrinkToFit lp }
           else map_option fst (lpDeleteRangeWithEntry lp (lp_off segs j) num))"
        using False n(1) rep_seek [OF assms, of i] Some by (simp add: lpDeleteRange_def Let_def idx_def)
      show ?thesis
      proof (cases "n \<noteq> 65535 \<and> nat (int n - idx) \<le> num")
        case True
        then have len: "n = length segs" "n < 65535" using n(2) by (auto simp: num_ok_def)
        then have idx: "idx = int j" using True Some by (auto simp: idx_def index_of_def split: if_splits)
        have "num_ok j (take j segs)" using j len by (simp add: num_ok_def)
        from rep_truncate [OF assms j this] show ?thesis
          using unf True Some idx len by (simp only: if_True idx) auto
      next
        case False
        then show ?thesis using unf rep_delete_range_entry [OF assms j, of num] \<open>num \<noteq> 0\<close> Some by auto
      qed
    qed
  qed
qed

section \<open>Batches\<close>

text \<open>The entries whose index is not in the list, and those of the part from a given index on.\<close>

definition keep_from :: "byte list list \<Rightarrow> nat \<Rightarrow> nat list \<Rightarrow> byte list list" where
  "keep_from segs i js = map (\<lambda>k. segs ! k) (filter (\<lambda>k. k \<notin> set js) [i..<length segs])"

lemma skip_local:
  assumes "seg_ok seg"
  shows "lpSkip (xs @ seg @ ys) (length xs) = Some (length xs + length seg)"
proof -
  obtain n where "lpCurrentEncodedSizeUnsafe seg 0 = Some n" "length seg = n + backlen_size n"
    using assms by (rule seg_okE)
  then show ?thesis using size_local [of seg n xs ys] by (simp add: lpSkip_def)
qed

lemma seg_first_byte:
  assumes "seg_ok seg"
  shows "\<exists>b. mem_get (xs @ seg @ ys) (length xs) = Some b \<and> b \<noteq> LP_EOF"
proof -
  have "hd seg \<noteq> LP_EOF" "seg \<noteq> []" using assms by (auto elim: seg_okE)
  then show ?thesis by (cases seg) (auto simp: mem_get_def nth_append)
qed

lemma drop_split:
  assumes "i < j" "j \<le> length segs"
  shows "drop i segs = segs ! i # map (\<lambda>k. segs ! k) [Suc i..<j] @ drop j segs"
proof -
  have "drop (Suc i) segs = take (j - Suc i) (drop (Suc i) segs) @ drop j segs"
    using assms(1) by (metis Suc_leI append_take_drop_id drop_drop le_add_diff_inverse2)
  moreover have "take (j - Suc i) (drop (Suc i) segs) = map (\<lambda>k. segs ! k) [Suc i..<j]"
    using assms by (intro nth_equalityI) (auto simp: min_def split: if_splits)
  ultimately show ?thesis using Cons_nth_drop_Suc [of i segs] assms by simp
qed

lemma keep_from_gap:
  assumes "i < j" "sorted_wrt (<) (j # js)" "j < length segs"
  shows "keep_from segs i (i # j # js) = map (\<lambda>k. segs ! k) [Suc i..<j] @ keep_from segs j (j # js)"
proof -
  have "[i..<length segs] = i # [Suc i..<j] @ [j..<length segs]"
    using assms(1,3) upt_add_eq_append [of "Suc i" j "length segs - j"] by (simp add: upt_conv_Cons)
  moreover have "filter (\<lambda>k. k \<notin> set (i # j # js)) [Suc i..<j] = [Suc i..<j]"
    using assms(1,2) by (intro filter_True) auto
  moreover have "filter (\<lambda>k. k \<notin> set (i # j # js)) [j..<length segs] = filter (\<lambda>k. k \<notin> set (j # js)) [j..<length segs]"
    using assms(1) by (intro filter_cong) auto
  ultimately show ?thesis by (simp add: keep_from_def)
qed

lemma keep_from_last:
  assumes "i < length segs"
  shows "keep_from segs i [i] = drop (Suc i) segs"
proof -
  have "[i..<length segs] = i # [Suc i..<length segs]" using assms by (simp add: upt_conv_Cons)
  moreover have "filter (\<lambda>k. k \<notin> set [i]) [Suc i..<length segs] = [Suc i..<length segs]" by (intro filter_True) auto
  moreover have "map (\<lambda>k. segs ! k) [Suc i..<length segs] = drop (Suc i) segs" by (intro nth_equalityI) auto
  ultimately show ?thesis by (simp add: keep_from_def)
qed

text \<open>The loop: \<open>A\<close> is what has been kept, \<open>J\<close> the gap up to the next entry to delete.\<close>

lemma batch_loop_ok:
  assumes "sorted_wrt (<) (i # js)" "\<forall>j \<in> set (i # js). j < length segs" "\<forall>s \<in> set segs. seg_ok s"
    "length A + length J = lp_off segs i"
  shows "\<exists>rest. batch_loop (A @ J @ concat (drop i segs) @ [LP_EOF] @ slack) (lp_total segs) (map (lp_off segs) (i # js)) (length A) =
    Some (A @ concat (keep_from segs i (i # js)) @ [LP_EOF] @ rest, length A + length (concat (keep_from segs i (i # js))) + 1)"
  using assms
proof (induction js arbitrary: i A J)
  case Nil
  then have i: "i < length segs" by simp
  define M where "M = concat (drop (Suc i) segs) @ [LP_EOF]"
  let ?lp = "A @ J @ concat (drop i segs) @ [LP_EOF] @ slack"
  have lp: "?lp = (A @ J) @ segs ! i @ M @ slack" using Cons_nth_drop_Suc [OF i, symmetric] by (simp add: M_def)
  have ok: "seg_ok (segs ! i)" using Nil.prems(3) i by simp
  note off = lp_off_Suc [OF i]
  have sk: "lpSkip ?lp (lp_off segs i) = Some (lp_off segs (Suc i))"
    using skip_local [OF ok, of "A @ J" "M @ slack"] Nil.prems(4) off unfolding lp by simp
  obtain b where b: "mem_get ?lp (lp_off segs i) = Some b" "b \<noteq> LP_EOF"
    using seg_first_byte [OF ok, of "A @ J" "M @ slack"] Nil.prems(4) unfolding lp by auto
  have tot: "lp_total segs = lp_off segs (Suc i) + length M"
  proof -
    have "concat segs = concat (take (Suc i) segs) @ concat (drop (Suc i) segs)" by (metis append_take_drop_id concat_append)
    then show ?thesis by (simp add: lp_total_def lp_off_def M_def)
  qed
  have "mem_move ?lp (length A) (lp_off segs (Suc i)) (length M) = Some (A @ M @ drop (length M) ((J @ segs ! i) @ M) @ slack)"
    using off Nil.prems(4) unfolding lp by (intro mem_move_gapI) simp_all
  moreover have "0 < length M" by (simp add: M_def)
  ultimately have "batch_loop ?lp (lp_total segs) (map (lp_off segs) [i]) (length A) =
      Some (A @ M @ drop (length M) ((J @ segs ! i) @ M) @ slack, length A + length M)"
    using sk b tot by (simp add: Let_def)
  then show ?case using keep_from_last [OF i] by (auto simp: M_def)
next
  case (Cons j js)
  then have ij: "i < j" "j < length segs" "i < length segs" by auto
  define M where "M = concat (map (\<lambda>k. segs ! k) [Suc i..<j])"
  let ?T = "concat (drop j segs) @ [LP_EOF] @ slack"
  let ?lp = "A @ J @ concat (drop i segs) @ [LP_EOF] @ slack"
  have lp: "?lp = (A @ J) @ segs ! i @ M @ ?T" using drop_split [of i j segs] ij by (simp add: M_def)
  have ok: "seg_ok (segs ! i)" using Cons.prems(3) ij by simp
  note off = lp_off_Suc [OF ij(3)]
  have sk: "lpSkip ?lp (lp_off segs i) = Some (lp_off segs (Suc i))"
    using skip_local [OF ok, of "A @ J" "M @ ?T"] Cons.prems(4) off unfolding lp by simp
  obtain b where b: "mem_get ?lp (lp_off segs i) = Some b" "b \<noteq> LP_EOF"
    using seg_first_byte [OF ok, of "A @ J" "M @ ?T"] Cons.prems(4) unfolding lp by auto
  have offj: "lp_off segs j = lp_off segs (Suc i) + length M"
  proof -
    have "take j segs = take (Suc i) segs @ map (\<lambda>k. segs ! k) [Suc i..<j]"
      using ij by (intro nth_equalityI) (auto simp: nth_append min_def)
    then show ?thesis by (simp add: lp_off_def M_def)
  qed
  define J' where "J' = drop (length M) ((J @ segs ! i) @ M)"
  have mv: "mem_move ?lp (length A) (lp_off segs (Suc i)) (length M) = Some (A @ M @ J' @ ?T)"
    using off Cons.prems(4) unfolding lp J'_def by (intro mem_move_gapI) simp_all
  have J: "length (A @ M) + length J' = lp_off segs j" using offj off Cons.prems(4) by (simp add: J'_def)
  obtain rest where IH: "batch_loop ((A @ M) @ J' @ ?T) (lp_total segs) (map (lp_off segs) (j # js)) (length (A @ M)) =
      Some ((A @ M) @ concat (keep_from segs j (j # js)) @ [LP_EOF] @ rest,
            length (A @ M) + length (concat (keep_from segs j (j # js))) + 1)"
    using Cons.IH [OF _ _ Cons.prems(3) J] Cons.prems(1,2) by auto
  have "batch_loop ?lp (lp_total segs) (map (lp_off segs) (i # j # js)) (length A) =
      (if lp_off segs (Suc i) = lp_off segs j then batch_loop ?lp (lp_total segs) (map (lp_off segs) (j # js)) (length A)
       else if \<not> lp_off segs j > lp_off segs (Suc i) then None
       else do {
         lp \<leftarrow> mem_move ?lp (length A) (lp_off segs (Suc i)) (lp_off segs j - lp_off segs (Suc i));
         batch_loop lp (lp_total segs) (map (lp_off segs) (j # js)) (length A + (lp_off segs j - lp_off segs (Suc i)))
       })"
    unfolding list.map by (subst batch_loop.simps(2)) (simp only: sk b bind.bind_lunit Let_def list.case if_False list.distinct simp_thms)
  also have "\<dots> = batch_loop ((A @ M) @ J' @ ?T) (lp_total segs) (map (lp_off segs) (j # js)) (length (A @ M))"
  proof (cases "M = []")
    case True
    then have e: "?lp = (A @ M) @ J' @ ?T" "lp_off segs (Suc i) = lp_off segs j" using lp offj by (simp_all add: J'_def)
    show ?thesis unfolding e using True by (simp del: batch_loop.simps)
  next
    case False
    then have "lp_off segs (Suc i) < lp_off segs j" "lp_off segs j - lp_off segs (Suc i) = length M" using offj by simp_all
    then show ?thesis using mv by (simp del: batch_loop.simps)
  qed
  also note IH
  finally have "batch_loop ?lp (lp_total segs) (map (lp_off segs) (i # j # js)) (length A) =
      Some ((A @ M) @ concat (keep_from segs j (j # js)) @ [LP_EOF] @ rest,
            length (A @ M) + length (concat (keep_from segs j (j # js))) + 1)" .
  moreover have "concat (keep_from segs i (i # j # js)) = M @ concat (keep_from segs j (j # js))"
    using keep_from_gap [OF ij(1), of js segs] Cons.prems(1) ij(2) by (simp add: M_def)
  ultimately show ?case by (intro exI [of _ rest]) (simp only: append_assoc length_append add.assoc)
qed

lemma keep_from_prefix:
  assumes "sorted_wrt (<) (i # js)" "i < length segs"
  shows "keep_from segs 0 (i # js) = take i segs @ keep_from segs i (i # js)"
proof -
  have "[0..<length segs] = [0..<i] @ [i..<length segs]"
    using assms(2) upt_add_eq_append [of 0 i "length segs - i"] by simp
  moreover have "filter (\<lambda>k. k \<notin> set (i # js)) [0..<i] = [0..<i]" using assms(1) by (intro filter_True) auto
  moreover have "map (\<lambda>k. segs ! k) [0..<i] = take i segs" using assms(2) by (intro nth_equalityI) auto
  ultimately show ?thesis by (simp add: keep_from_def)
qed

lemma keep_from_Nil: "keep_from segs 0 [] = segs"
  by (simp add: keep_from_def map_nth)

lemma length_keep_from:
  assumes "distinct js" "\<forall>j \<in> set js. j < length segs"
  shows "length (keep_from segs 0 js) + length js = length segs"
proof -
  have "length (filter (\<lambda>k. k \<in> set js) [0..<length segs]) = card (set js)"
    using assms(2) by (subst distinct_length_filter) (auto intro!: arg_cong [of _ _ card])
  then show ?thesis
    using sum_length_filter_compl [of "\<lambda>k. k \<in> set js" "[0..<length segs]"] distinct_card [OF assms(1)]
    by (simp add: keep_from_def)
qed

lemma set_keep_from: "set (keep_from segs i js) \<subseteq> set segs"
  by (auto simp: keep_from_def)

lemma rep_batch_delete:
  assumes "lp_rep lp segs" "sorted_wrt (<) js" "\<forall>j \<in> set js. j < length segs"
  shows "\<exists>lp'. lpBatchDelete lp (map (lp_off segs) js) = Some lp' \<and> lp_rep lp' (keep_from segs 0 js)"
proof (cases js)
  case Nil
  then show ?thesis using assms(1) by (simp add: lpBatchDelete_def keep_from_Nil)
next
  case (Cons i ks)
  have i: "i < length segs" using assms(3) Cons by simp
  define tot where "tot = lp_total segs"
  obtain num slack where lp: "lp = lp_header tot num @ concat segs @ [LP_EOF] @ slack"
    "num_ok num segs" "lp_total segs < 2 ^ 32" "\<forall>s \<in> set segs. seg_ok s"
    using assms(1) unfolding tot_def by (rule lp_repE)
  let ?new = "keep_from segs 0 js" and ?A = "lp_header tot num @ concat (take i segs)"
  have c: "concat segs = concat (take i segs) @ concat (drop i segs)" by (metis append_take_drop_id concat_append)
  have l: "lp = ?A @ [] @ concat (drop i segs) @ [LP_EOF] @ slack" using lp(1) c by simp
  have A: "length ?A + length ([] :: byte list) = lp_off segs i" "length ?A = lp_off segs i" by (simp_all add: lp_off_def)
  have new: "concat ?new = concat (take i segs) @ concat (keep_from segs i (i # ks))"
    using keep_from_prefix [of i ks segs] assms(2) Cons i by simp
  obtain rest where bl: "batch_loop lp tot (map (lp_off segs) js) (lp_off segs i) =
      Some (lp_header tot num @ concat ?new @ [LP_EOF] @ rest, lp_total ?new)"
    using batch_loop_ok [OF _ _ lp(4) A(1), of ks slack] assms(2,3) new A(2) unfolding Cons l [symmetric] tot_def [symmetric]
    by (auto simp: lp_total_def lp_off_def)
  have len: "length ?new + length js = length segs"
    using assms(2,3) by (intro length_keep_from) (auto simp: strict_sorted_iff)
  have tot: "lp_total ?new \<le> tot"
  proof -
    have "length (concat (map (\<lambda>k. segs ! k) (filter P ks))) \<le> length (concat (map (\<lambda>k. segs ! k) ks))" for P ks
      by (induction ks) auto
    from this [of "\<lambda>k. k \<notin> set js" "[0..<length segs]"] show ?thesis
      by (simp add: keep_from_def lp_total_def tot_def map_nth)
  qed
  define num' where "num' = (if num = 65535 then 65535 else length ?new)"
  have "update_count (lp_header (lp_total ?new) num @ concat ?new @ [LP_EOF] @ rest) (- int (length js)) =
      Some (lp_header (lp_total ?new) num' @ concat ?new @ [LP_EOF] @ rest)"
    using lp(2) len by (intro header_update_count) (auto simp: num_ok_def num'_def)
  moreover have r: "lp_rep (lp_header (lp_total ?new) num' @ concat ?new @ [LP_EOF] @ rest) ?new"
    using lp(2-4) tot len set_keep_from [of segs 0 js]
    by (intro lp_rep_intro) (auto simp: num_ok_def num'_def tot_def)
  moreover have "mem_get (lp_header tot num @ concat ?new @ [LP_EOF] @ rest) (lp_total ?new - 1) = Some LP_EOF"
    by (simp add: lp_total_def mem_get_def nth_append)
  moreover have "mem_get lp (tot - 1) = Some LP_EOF" using rep_end [OF assms(1) order_refl] lp_off_end [of segs "length segs"]
    by (simp add: tot_def)
  moreover have "tot - (tot - lp_total ?new) = lp_total ?new" using tot by simp
  ultimately have "lpBatchDelete lp (map (lp_off segs) js) =
      Some (take (lp_total ?new) (lp_header (lp_total ?new) num' @ concat ?new @ [LP_EOF] @ rest))"
    using rep_total [OF assms(1)] rep_shrink(1) [OF r] bl header_set_total [of tot num "concat ?new @ [LP_EOF] @ rest" "lp_total ?new"]
    unfolding lpBatchDelete_def tot_def [symmetric] by (simp add: Cons Let_def)
  then show ?thesis using rep_shrink(2) [OF r] by blast
qed

section \<open>Merging\<close>

lemma rep_eqE:
  assumes "lp_rep lp segs"
  obtains num slack where "lp = lp_header (lp_total segs) num @ concat segs @ [LP_EOF] @ slack"
  using assms by (auto elim: lp_repE)

text \<open>A listpack without the header and the end, and the reallocation to the size of the result.\<close>

lemma rep_resize:
  assumes "lp_rep lp segs" "lp_total segs \<le> n"
  obtains slack num where "(if n \<le> length lp then take n lp else lp_grow lp n) = lp_header (lp_total segs) num @ concat segs @ [LP_EOF] @ slack"
    "lp_total segs + length slack = n"
proof -
  obtain num slack where lp: "lp = lp_header (lp_total segs) num @ concat segs @ [LP_EOF] @ slack"
    using assms(1) by (rule rep_eqE)
  have len: "length lp = lp_total segs + length slack" by (simp add: lp lp_total_def)
  show thesis
  proof (cases "n \<le> length lp")
    case True
    have "take n lp = lp_header (lp_total segs) num @ concat segs @ [LP_EOF] @ take (n - lp_total segs) slack"
      using assms(2) by (simp add: lp lp_total_def take_Cons')
    then show ?thesis using True assms(2) len by (intro that [of num "take (n - lp_total segs) slack"]) simp_all
  next
    case False
    then show ?thesis using len by (intro that [of num "slack @ replicate (n - length lp) 0"]) (simp_all add: lp_grow_def lp)
  qed
qed

lemma merge_append_ok:
  assumes "T = lp_header t1 n1 @ concat s1 @ [LP_EOF] @ slack" "S = lp_header t2 n2 @ concat s2 @ [LP_EOF] @ slack2"
    "t1 = lp_total s1" "t2 = lp_total s2" "length slack = length (concat s2)"
  shows "do { bs \<leftarrow> mem_read S LP_HDR_SIZE (t2 - LP_HDR_SIZE); mem_write T (t1 - 1) bs } =
    Some (lp_header t1 n1 @ concat (s1 @ s2) @ [LP_EOF])"
proof -
  have "mem_read S LP_HDR_SIZE (t2 - LP_HDR_SIZE) = Some (concat s2 @ [LP_EOF])"
    using assms by (simp add: mem_read_def lp_total_def)
  moreover have "mem_write T (t1 - 1) (concat s2 @ [LP_EOF]) = Some (lp_header t1 n1 @ concat (s1 @ s2) @ [LP_EOF])"
    using assms by (simp add: mem_write_def lp_total_def)
  ultimately show ?thesis by simp
qed

lemma merge_prepend_ok:
  assumes "T = lp_header t2 n2 @ concat s2 @ [LP_EOF] @ slack" "S = lp_header t1 n1 @ concat s1 @ [LP_EOF] @ slack1"
    "t1 = lp_total s1" "t2 = lp_total s2" "length slack = length (concat s1)"
  shows "do { T \<leftarrow> mem_move T (t1 - 1) LP_HDR_SIZE (t2 - LP_HDR_SIZE); bs \<leftarrow> mem_read S 0 (t1 - 1); mem_write T 0 bs } =
    Some (lp_header t1 n1 @ concat (s1 @ s2) @ [LP_EOF])"
proof -
  have "mem_read T LP_HDR_SIZE (t2 - LP_HDR_SIZE) = Some (concat s2 @ [LP_EOF])"
    using assms by (simp add: mem_read_def lp_total_def)
  moreover have "length (take (t1 - 1) T) = t1 - 1" "length T = t1 + length (concat s2)"
    using assms by (simp_all add: lp_total_def)
  ultimately have "mem_move T (t1 - 1) LP_HDR_SIZE (t2 - LP_HDR_SIZE) = Some (take (t1 - 1) T @ concat s2 @ [LP_EOF])"
    using assms(3,4) by (simp add: mem_move_def mem_write_def lp_total_def)
  moreover have "mem_read S 0 (t1 - 1) = Some (lp_header t1 n1 @ concat s1)"
    using assms by (simp add: mem_read_def lp_total_def)
  moreover have "mem_write (take (t1 - 1) T @ concat s2 @ [LP_EOF]) 0 (lp_header t1 n1 @ concat s1) =
      Some (lp_header t1 n1 @ concat (s1 @ s2) @ [LP_EOF])"
    using \<open>length (take (t1 - 1) T) = t1 - 1\<close> assms(3) by (simp add: mem_write_def lp_total_def)
  ultimately show ?thesis by simp
qed

lemma rep_merge:
  assumes "lp_rep lp1 s1" "lp_rep lp2 s2" "lp_total (s1 @ s2) < UINT32_MAX"
  shows "\<exists>lp. lpMerge lp1 lp2 = Some lp \<and> lp_rep lp (s1 @ s2) \<and> length lp = lp_total (s1 @ s2)"
proof -
  obtain l1 l2 where l: "lpLength lp1 = Some (l1, length s1)" "lp_rep l1 s1" "lpLength lp2 = Some (l2, length s2)" "lp_rep l2 s2"
    using rep_length [OF assms(1)] rep_length [OF assms(2)] by blast
  let ?n = "lp_total (s1 @ s2)" and ?num = "if length (s1 @ s2) < 65535 then length (s1 @ s2) else 65535"
  have n: "lp_total s1 + lp_total s2 - LP_HDR_SIZE - 1 = ?n" by (simp add: lp_total_def)
  have le: "lp_total s1 \<le> ?n" "lp_total s2 \<le> ?n" by (simp_all add: lp_total_def)
  have ok: "\<forall>s \<in> set (s1 @ s2). seg_ok s" using l(2,4) by (auto simp: lp_rep_def)
  have r: "lp_rep (lp_header ?n ?num @ concat (s1 @ s2) @ [LP_EOF] @ []) (s1 @ s2)"
    using assms(3) ok by (intro lp_rep_intro) (auto simp: num_ok_def UINT32_MAX_def)
  have fin: "do { target \<leftarrow> lpSetNumElements (lp_header t m @ concat (s1 @ s2) @ [LP_EOF]) (int ?num); lpSetTotalBytes target (int ?n) } =
      Some (lp_header ?n ?num @ concat (s1 @ s2) @ [LP_EOF])" for t m
    by (simp only: header_set_num header_set_total bind.bind_lunit)
  show ?thesis
  proof (cases "lp_total s1 \<ge> lp_total s2")
    case True
    obtain slack num where T: "(if ?n \<le> length l1 then take ?n l1 else lp_grow l1 ?n) = lp_header (lp_total s1) num @ concat s1 @ [LP_EOF] @ slack"
      "lp_total s1 + length slack = ?n" using rep_resize [OF l(2) le(1)] .
    obtain num2 slack2 where S: "l2 = lp_header (lp_total s2) num2 @ concat s2 @ [LP_EOF] @ slack2" using l(4) by (rule rep_eqE)
    have "length slack = length (concat s2)" using T(2) by (simp add: lp_total_def)
    note m = merge_append_ok [OF refl S refl refl this]
    have "lpMerge lp1 lp2 = Some (lp_header ?n ?num @ concat (s1 @ s2) @ [LP_EOF])"
      unfolding lpMerge_def rep_bytes [OF assms(1)] rep_bytes [OF assms(2)] l(1,3) bind.bind_lunit prod.case Let_def n
      using True assms(3) by (simp only: if_True prod.case T(1) m bind.bind_lunit fin [unfolded length_append] length_append simp_thms if_False not_not)
    then show ?thesis using r by (simp add: lp_total_def)
  next
    case False
    obtain slack num where T: "(if ?n \<le> length l2 then take ?n l2 else lp_grow l2 ?n) = lp_header (lp_total s2) num @ concat s2 @ [LP_EOF] @ slack"
      "lp_total s2 + length slack = ?n" using rep_resize [OF l(4) le(2)] .
    obtain num1 slack1 where S: "l1 = lp_header (lp_total s1) num1 @ concat s1 @ [LP_EOF] @ slack1" using l(2) by (rule rep_eqE)
    have "length slack = length (concat s1)" using T(2) by (simp add: lp_total_def)
    note m = merge_prepend_ok [OF refl S refl refl this]
    have "lpMerge lp1 lp2 = Some (lp_header ?n ?num @ concat (s1 @ s2) @ [LP_EOF])"
      unfolding lpMerge_def rep_bytes [OF assms(1)] rep_bytes [OF assms(2)] l(1,3) bind.bind_lunit prod.case Let_def n
      using False assms(3) by (simp only: if_False prod.case T(1) m bind.bind_lunit fin [unfolded length_append] length_append simp_thms if_True not_not)
    then show ?thesis using r by (simp add: lp_total_def)
  qed
qed

end
