(* ===== verification/Listpack_Integrity.thy ===== *)
theory Listpack_Integrity
  imports Listpack_Update
begin

text \<open>
  The check of untrusted listpacks, \<^verbatim>\<open>lpValidateIntegrity\<close>: it stays inside the block whatever the bytes are,
  accepts every well-formed listpack, and what it accepts is well-formed with one exception, a first
  entry whose length reads on into the header.
\<close>

section \<open>The backward length as a number\<close>

text \<open>The digits that \<^verbatim>\<open>lpDecodeBacklen\<close> reads from the end, with the number of bytes that may still follow:
  \<open>Some None\<close> is a length of more than five bytes.\<close>

fun back_digits :: "byte list \<Rightarrow> nat \<Rightarrow> nat \<Rightarrow> nat option option" where
  "back_digits lp i f =
     do {
       b \<leftarrow> mem_get lp i;
       if unat b < 128 then Some (Some (unat b))
       else (case (f, i) of
               (0, _) \<Rightarrow> Some None
             | (Suc g, 0) \<Rightarrow> None
             | (Suc g, Suc j) \<Rightarrow> do { r \<leftarrow> back_digits lp j g; Some (map_option (\<lambda>w. unat b mod 128 + 128 * w) r) })
     }"

declare back_digits.simps [simp del]

lemma back_digits_small: "mem_get lp i = Some b \<Longrightarrow> unat b < 128 \<Longrightarrow> back_digits lp i f = Some (Some (unat b))"
  by (subst back_digits.simps) simp

lemma back_digits_long: "mem_get lp i = Some b \<Longrightarrow> \<not> unat b < 128 \<Longrightarrow> back_digits lp i 0 = Some None"
  by (subst back_digits.simps) simp

lemma back_digits_more:
  "mem_get lp (Suc j) = Some b \<Longrightarrow> \<not> unat b < 128 \<Longrightarrow>
     back_digits lp (Suc j) (Suc g) = map_option (map_option (\<lambda>w. unat b mod 128 + 128 * w)) (back_digits lp j g)"
  by (subst back_digits.simps) (cases "back_digits lp j g"; simp)

lemma back_digits_edge: "mem_get lp 0 = Some b \<Longrightarrow> \<not> unat b < 128 \<Longrightarrow> back_digits lp 0 (Suc g) = None"
  by (subst back_digits.simps) simp

lemma back_digits_out: "mem_get lp i = None \<Longrightarrow> back_digits lp i f = None"
  by (subst back_digits.simps) simp

lemma back_digitsE:
  assumes "back_digits lp i f = Some (Some w)"
  obtains b where "mem_get lp i = Some b" "unat b < 128" "w = unat b"
  | b j g w' where "mem_get lp i = Some b" "\<not> unat b < 128" "i = Suc j" "f = Suc g" "back_digits lp j g = Some (Some w')"
      "w = unat b mod 128 + 128 * w'"
proof (cases "mem_get lp i")
  case None
  then show thesis using assms by (simp add: back_digits_out)
next
  case (Some b)
  show thesis
  proof (cases "unat b < 128")
    case True
    then show ?thesis using assms Some that(1) by (simp add: back_digits_small)
  next
    case False
    show ?thesis
    proof (cases f)
      case 0
      then show ?thesis using assms Some False by (simp add: back_digits_long)
    next
      case (Suc g)
      then show ?thesis using assms Some False that(2)
        by (cases i) (auto simp: back_digits_edge back_digits_more)
    qed
  qed
qed

lemma high_bit: "(b :: byte) AND 128 = 0 \<longleftrightarrow> unat b < 128"
proof -
  have "list_all (\<lambda>n. ((of_nat n :: byte) AND 128 = 0) = (n < 128)) [0..<256]" by code_simp
  then have "((of_nat n :: byte) AND 128 = 0) = (n < 128)" if "n < 256" for n using that by (auto simp: list_all_iff)
  from this [OF unat_byte, of b] show ?thesis by simp
qed

lemma decode_step:
  assumes "val < 2 ^ s" "mem_get lp i = Some b"
  shows "decode_backlen lp i val s =
    (if unat b < 128 then Some (val + unat b mod 128 * 2 ^ s) else if s + 7 > 28 then Some UINT64_MAX
     else if i = 0 then None else decode_backlen lp (i - 1) (val + unat b mod 128 * 2 ^ s) (s + 7))"
  using assms or_shift [OF assms(1), of "unat b mod 128"]
  by (subst decode_backlen.simps, cases "unat b < 128") (simp_all add: high_bit low_bits Let_def)

lemma decode_digits:
  assumes "val < 2 ^ s" "s + 7 * f = 28"
  shows "decode_backlen lp i val s =
    map_option (\<lambda>r. case r of None \<Rightarrow> UINT64_MAX | Some w \<Rightarrow> val + w * 2 ^ s) (back_digits lp i f)"
  using assms
proof (induction f arbitrary: i val s)
  case 0
  show ?case
  proof (cases "mem_get lp i")
    case (Some b)
    then show ?thesis using 0 decode_step [OF 0(1) Some]
      by (cases "unat b < 128") (simp_all add: back_digits_small back_digits_long)
  qed (simp add: decode_backlen.simps [of lp i] back_digits_out)
next
  case (Suc f)
  show ?case
  proof (cases "mem_get lp i")
    case (Some b)
    define c where "c = unat b mod 128"
    have c: "c \<le> 127" by (simp add: c_def less_Suc_eq_le [symmetric])
    have "c * 2 ^ s \<le> 127 * 2 ^ s" using c by (rule mult_right_mono) simp
    moreover have p7: "(2 :: nat) ^ (s + 7) = 128 * 2 ^ s" by (simp add: power_add)
    ultimately have v: "val + c * 2 ^ s < 2 ^ (s + 7)" using Suc.prems(1) unfolding p7 by linarith
    have IH: "decode_backlen lp j (val + c * 2 ^ s) (s + 7) =
        map_option (\<lambda>r. case r of None \<Rightarrow> UINT64_MAX | Some w \<Rightarrow> val + c * 2 ^ s + w * 2 ^ (s + 7)) (back_digits lp j f)" for j
      using Suc.IH [OF v, of j] Suc.prems(2) by simp
    have m: "(case map_option (\<lambda>w. c + 128 * w) r of None \<Rightarrow> UINT64_MAX | Some w \<Rightarrow> val + w * 2 ^ s) =
        (case r of None \<Rightarrow> UINT64_MAX | Some w \<Rightarrow> val + c * 2 ^ s + w * 2 ^ (s + 7))" for r
      by (cases r) (simp_all add: power_add algebra_simps)
    show ?thesis
    proof (cases "unat b < 128")
      case True
      then show ?thesis using decode_step [OF Suc.prems(1) Some] by (simp add: back_digits_small [OF Some])
    next
      case False
      then have d: "decode_backlen lp i val s = (if i = 0 then None else decode_backlen lp (i - 1) (val + c * 2 ^ s) (s + 7))"
        using decode_step [OF Suc.prems(1) Some] Suc.prems(2) by (simp add: c_def)
      show ?thesis
      proof (cases i)
        case 0
        then show ?thesis using d Some False by (simp add: back_digits_edge)
      next
        case (Suc j)
        then show ?thesis using d False back_digits_more [of lp j b f] Some IH [of j] m
          by (simp add: map_option.compositionality o_def flip: c_def)
      qed
    qed
  qed (simp add: decode_backlen.simps [of lp i] back_digits_out)
qed

lemma lpDecodeBacklen_digits:
  "lpDecodeBacklen lp i = map_option (\<lambda>r. case r of None \<Rightarrow> UINT64_MAX | Some w \<Rightarrow> w) (back_digits lp i 4)"
  using decode_digits [of 0 0 4 lp i] by (simp add: lpDecodeBacklen_def)

lemma back_digits_fuel: "back_digits lp i f = Some (Some w) \<Longrightarrow> f \<le> g \<Longrightarrow> back_digits lp i g = Some (Some w)"
proof (induction f arbitrary: i g w)
  case 0
  from 0(1) show ?case by (rule back_digitsE) (auto simp: back_digits_small)
next
  case (Suc f)
  from Suc.prems(1) show ?case
  proof (cases rule: back_digitsE)
    case (1 b)
    then show ?thesis by (simp add: back_digits_small)
  next
    case (2 b j f' w')
    obtain h where "g = Suc h" "f \<le> h" using Suc.prems(2) by (cases g) auto
    then show ?thesis using 2 Suc.IH [of j w' h] by (simp add: back_digits_more)
  qed
qed

lemma back_digits_low: "back_digits lp i f = Some (Some w) \<Longrightarrow> mem_get lp i = Some b \<Longrightarrow> w mod 128 = unat b mod 128"
  by (erule back_digitsE) auto

text \<open>Reading a length at the end of a block stays in the block, or goes on before it through bytes that all
  have the high bit.\<close>

definition runs_over :: "byte list \<Rightarrow> byte list \<Rightarrow> nat \<Rightarrow> nat \<Rightarrow> nat \<Rightarrow> bool" where
  "runs_over xs seg j f w \<longleftrightarrow> j < f \<and> (\<forall>k \<le> j. 128 \<le> unat (seg ! k)) \<and>
     (\<exists>u w'. back_digits xs (length xs - 1) (f - Suc j) = Some (Some w') \<and> w = u + 128 ^ Suc j * w' \<and>
             unat (seg ! 0) mod 128 * 128 ^ j \<le> u)"

lemma back_digits_prefix: "i < length xs \<Longrightarrow> back_digits (xs @ ys) i f = back_digits xs i f"
proof (induction f arbitrary: i)
  case 0
  then show ?case by (simp add: back_digits.simps [of _ i] nth_append)
next
  case (Suc f)
  then show ?case by (cases i) (simp_all add: back_digits.simps [of _ 0] back_digits.simps [of _ "Suc _"] nth_append)
qed

lemma back_digits_local:
  assumes "back_digits (xs @ seg @ ys) (length xs + j) f = Some (Some w)" "j < length seg"
  shows "back_digits seg j f = Some (Some w) \<or> runs_over xs seg j f w"
  using assms
proof (induction j arbitrary: f w)
  case 0
  have b: "mem_get (xs @ seg @ ys) (length xs) = Some (seg ! 0)" "mem_get seg 0 = Some (seg ! 0)"
    using 0(2) by (simp_all add: nth_append)
  from 0(1) show ?case
  proof (cases rule: back_digitsE)
    case (1 b')
    then show ?thesis using b by (simp add: back_digits_small)
  next
    case (2 b' j' g w')
    then have "back_digits xs (length xs - 1) g = Some (Some w')" using back_digits_prefix [of j' xs "seg @ ys" g] by simp
    then show ?thesis using 2 b by (auto simp: runs_over_def)
  qed
next
  case (Suc j)
  have b: "mem_get (xs @ seg @ ys) (length xs + Suc j) = Some (seg ! Suc j)" "mem_get seg (Suc j) = Some (seg ! Suc j)"
    using Suc.prems(2) by (simp_all add: nth_append)
  from Suc.prems(1) show ?case
  proof (cases rule: back_digitsE)
    case (1 b')
    then show ?thesis using b by (simp add: back_digits_small)
  next
    case (2 b' j' g w')
    then have b': "b' = seg ! Suc j" using b by simp
    from 2 have "back_digits seg j g = Some (Some w') \<or> runs_over xs seg j g w'"
      using Suc.IH [of g w'] Suc.prems(2) by simp
    then show ?thesis
    proof
      assume "back_digits seg j g = Some (Some w')"
      then show ?thesis using 2 b(2) b' by (simp add: back_digits_more)
    next
      assume r: "runs_over xs seg j g w'"
      then obtain u w'' where u: "back_digits xs (length xs - 1) (g - Suc j) = Some (Some w'')"
        "w' = u + 128 ^ Suc j * w''" "unat (seg ! 0) mod 128 * 128 ^ j \<le> u" by (auto simp: runs_over_def)
      let ?u = "unat b' mod 128 + 128 * u"
      have "unat (seg ! 0) mod 128 * 128 ^ Suc j \<le> ?u" using u(3) by simp
      moreover have "w = ?u + 128 ^ Suc (Suc j) * w''" using 2(6) u(2) by (simp add: algebra_simps)
      moreover have "\<forall>k \<le> Suc j. 128 \<le> unat (seg ! k)" using r 2(2) b' by (auto simp: runs_over_def le_Suc_eq)
      ultimately have "runs_over xs seg (Suc j) f w" using r u(1) 2(4)
        unfolding runs_over_def by (intro conjI exI [of _ ?u] exI [of _ w'']) simp_all
      then show ?thesis ..
    qed
  qed
qed

section \<open>The integrity check\<close>

lemma back_digits_bound: "back_digits lp i f = Some (Some w) \<Longrightarrow> w < 128 ^ Suc f"
proof (induction f arbitrary: i w)
  case 0
  from 0(1) show ?case by (rule back_digitsE) auto
next
  case (Suc f)
  from Suc.prems show ?case
  proof (cases rule: back_digitsE)
    case (1 b)
    have "(128 :: nat) \<le> 128 ^ Suc (Suc f)" by (rule self_le_power) simp_all
    then show ?thesis using 1 by linarith
  next
    case (2 b j g w')
    have "w' < 128 ^ Suc f" using Suc.IH 2 by simp
    then have "128 * w' + 128 \<le> 128 * 128 ^ Suc f" by simp
    moreover have "unat b mod 128 < 128" by simp
    ultimately show ?thesis using 2(6) by simp
  qed
qed

lemma validate_nextE:
  assumes "lpValidateNext lp p bytes = Some (Some (Some p'))"
  obtains b m n where "mem_get lp p = Some b" "b \<noteq> LP_EOF" "6 \<le> p" "lpCurrentEncodedSizeBytes lp p = Some m" "0 < m"
    "lpCurrentEncodedSizeUnsafe lp p = Some n" "p' = p + (n + backlen_size n)" "p' < bytes" "p + m < bytes"
    "back_digits lp (p' - 1) 4 = Some (Some n)"
proof -
  obtain b m n prev where h: "mem_get lp p = Some b" "b \<noteq> LP_EOF" "\<not> out_of_range bytes p" "lpCurrentEncodedSizeBytes lp p = Some m" "0 < m"
    "\<not> out_of_range bytes (p + m)" "lpCurrentEncodedSizeUnsafe lp p = Some n" "p' = p + (n + backlen_size n)" "\<not> out_of_range bytes p'"
    "lpDecodeBacklen lp (p' - 1) = Some prev" "(prev + backlen_size n) mod 2 ^ 64 = n + backlen_size n"
    using assms unfolding lpValidateNext_def Let_def by (auto split: if_splits bind_splits)
  obtain r where r: "back_digits lp (p' - 1) 4 = Some r" "prev = (case r of None \<Rightarrow> UINT64_MAX | Some w \<Rightarrow> w)"
    using h(10) by (auto simp: lpDecodeBacklen_digits)
  note bl = backlen_size_bounds [of n]
  have "r = Some n"
  proof (cases r)
    case None
    have "(UINT64_MAX + backlen_size n) mod 2 ^ 64 = (2 ^ 64 + (backlen_size n - 1)) mod 2 ^ 64"
      using bl by (simp add: UINT64_MAX_def)
    also have "\<dots> = backlen_size n - 1" using bl by (simp only: mod_add_self1) simp
    finally show ?thesis using None r(2) h(11) bl by simp
  next
    case (Some w)
    then have "w < 128 ^ 5" using back_digits_bound [of lp "p' - 1" 4 w] r(1) by simp
    then have "w + backlen_size n < 2 ^ 64" using bl by simp
    then show ?thesis using Some r(2) h(11) by simp
  qed
  then show thesis using h r(1) by (intro that [of b m n]) (auto simp: out_of_range_def)
qed

lemma mem_read_nth: "mem_read lp p n = Some bs \<Longrightarrow> k < n \<Longrightarrow> mem_get lp (p + k) = Some (bs ! k)"
  by (auto simp: mem_read_def split: if_splits)

lemma list4: "length bs = 4 \<Longrightarrow> bs = [bs ! 0, bs ! 1, bs ! 2, bs ! 3]"
  by (cases bs; cases "tl bs"; cases "tl (tl bs)"; cases "tl (tl (tl bs))") auto

text \<open>A 32-bit string length whose sum with the size of the header wraps is never accepted.\<close>

lemma size_no_wrap:
  assumes "lpCurrentEncodedSizeUnsafe lp p = Some n" "lpCurrentEncodedSizeBytes lp p = Some m" "0 < m"
    "back_digits lp (p + (n + backlen_size n) - 1) 4 = Some (Some n)"
  shows "m \<le> n"
proof (rule ccontr)
  assume neg: "\<not> m \<le> n"
  obtain b where b: "mem_get lp p = Some b" using assms(1) by (auto simp: lpCurrentEncodedSizeUnsafe_def split: bind_splits)
  have t: "unat b = 240"
  proof -
    note d = assms(1) [unfolded lpCurrentEncodedSizeUnsafe_def b bind.bind_lunit enc_classes]
      assms(2) [unfolded lpCurrentEncodedSizeBytes_def b bind.bind_lunit enc_classes]
    consider "unat b < 128" | "128 \<le> unat b" "unat b < 192" | "192 \<le> unat b" "unat b < 224"
      | "224 \<le> unat b" "unat b < 240" | "unat b = 240" | "unat b = 241" | "unat b = 242" | "unat b = 243" | "unat b = 244"
      | "b = LP_EOF" | "unat b > 244" "b \<noteq> LP_EOF" by fastforce
    then show ?thesis using d neg assms(3) by cases auto
  qed
  then obtain c where c: "get_le lp (p + 1) 4 = Some c" "n = (5 + c) mod 2 ^ 32" "m = 5"
    using assms(1,2) b by (auto simp: lpCurrentEncodedSizeUnsafe_def lpCurrentEncodedSizeBytes_def enc_classes LP_ENCODING_32BIT_STR_LEN_def)
  have cb: "c < 2 ^ 32" using get_le_bound [OF c(1)] by simp
  have "\<not> 5 + c < 2 ^ 32" using c(2,3) neg by auto
  then have n: "5 + c = n + 2 ^ 32" "n \<le> 4" using c(2,3) neg cb by (simp_all add: mod_if split: if_splits)
  obtain bs where bs: "mem_read lp (p + 1) 4 = Some bs" "c = nat (le_uint bs)" using c(1) by (auto simp: get_le_def)
  have l: "length bs = 4" using bs(1) by (auto simp: mem_read_def split: if_splits)
  define x where "x k = unat (bs ! k)" for k
  have x: "x k < 256" for k by (simp add: x_def unat_byte)
  have "le_uint bs = int (x 0 + 256 * (x 1 + 256 * (x 2 + 256 * x 3)))"
    by (subst list4 [OF l]) (simp add: x_def)
  then have "c = x 0 + 256 * x 1 + 65536 * x 2 + 16777216 * x 3" using bs(2) by simp
  then have e: "5 + (x 0 + 256 * x 1 + 65536 * x 2 + 16777216 * x 3) = n + 4294967296" using n(1) by simp
  have le: "x k \<le> 255" for k using x [of k] by simp
  have "\<not> x 3 \<le> 254" using e le [of 0] le [of 1] le [of 2] by linarith
  then have v3: "x 3 = 255" using le [of 3] by linarith
  have "\<not> x 2 \<le> 254" using e v3 le [of 0] le [of 1] by linarith
  then have v2: "x 2 = 255" using le [of 2] by linarith
  have "\<not> x 1 \<le> 254" using e v3 v2 le [of 0] by linarith
  then have v1: "x 1 = 255" using le [of 1] by linarith
  note v = v3 v2 v1
  have v0: "x 0 = 251 + n" using e v by linarith
  have "backlen_size n = 1" using n(2) by (simp add: backlen_size_def lpEncodeBacklen_def)
  then have d: "back_digits lp (p + n) 4 = Some (Some n)" using assms(4) by simp
  have g: "mem_get lp (p + 1 + k) = Some (bs ! k)" if "k < 4" for k using mem_read_nth [OF bs(1) that] .
  have "n mod 128 \<noteq> n"
  proof (cases n)
    case 0
    then show ?thesis using back_digits_low [OF d, of b] b t by simp
  next
    case (Suc k)
    then have "mem_get lp (p + n) = Some (bs ! k)" using g [of k] n(2) by simp
    then have "n mod 128 = x k mod 128" using back_digits_low [OF d] by (simp add: x_def)
    moreover have "k = 0 \<or> k = 1 \<or> k = 2 \<or> k = 3" using Suc n(2) by linarith
    ultimately show ?thesis using v v0 Suc n(2) by (elim disjE) simp_all
  qed
  then show False using n(2) by simp
qed

lemma size_take:
  assumes "lpCurrentEncodedSizeUnsafe lp p = Some n" "lpCurrentEncodedSizeBytes lp p = Some m" "0 < m" "m \<le> k" "p + k \<le> length lp"
  shows "lpCurrentEncodedSizeUnsafe (take k (drop p lp)) 0 = Some n" "lpCurrentEncodedSizeBytes (take k (drop p lp)) 0 = Some m"
proof -
  let ?s = "take k (drop p lp)"
  have g: "mem_get ?s j = mem_get lp (p + j)" if "j < k" for j using that assms(5) by (simp add: add.commute)
  obtain b where b: "mem_get lp p = Some b" using assms(1) by (auto simp: lpCurrentEncodedSizeUnsafe_def split: bind_splits)
  have b0: "mem_get ?s 0 = Some b" using g [of 0] b assms(3,4) by simp
  show "lpCurrentEncodedSizeBytes ?s 0 = Some m" using assms(2) b b0 by (simp add: lpCurrentEncodedSizeBytes_def)
  have "LP_ENCODING_32BIT_STR_LEN ?s 0 = LP_ENCODING_32BIT_STR_LEN lp p" if "5 \<le> k"
  proof -
    have "take 4 (drop (Suc 0) ?s) = take 4 (drop (Suc p) lp)" using that by (simp add: drop_take min_def add.commute)
    then show ?thesis using that assms(5) by (simp add: LP_ENCODING_32BIT_STR_LEN_def get_le_def mem_read_def)
  qed
  moreover have "LP_ENCODING_6BIT_STR_LEN ?s 0 = LP_ENCODING_6BIT_STR_LEN lp p" using b b0 by (simp add: LP_ENCODING_6BIT_STR_LEN_def)
  moreover have "LP_ENCODING_12BIT_STR_LEN ?s 0 = LP_ENCODING_12BIT_STR_LEN lp p" if "2 \<le> k"
    using b b0 g [of 1] that by (simp add: LP_ENCODING_12BIT_STR_LEN_def)
  ultimately show "lpCurrentEncodedSizeUnsafe ?s 0 = Some n" using assms(1,2,4) b b0
    by (auto simp: lpCurrentEncodedSizeUnsafe_def lpCurrentEncodedSizeBytes_def enc_classes split: if_splits)
qed

text \<open>The only way for the backward length of an accepted entry to reach outside the entry.\<close>

abbreviation stray_entry :: "byte list" where
  "stray_entry \<equiv> [0x80, 0x81]"

lemma high_byte: "128 \<le> unat (b :: byte) \<Longrightarrow> unat b = 128 + unat b mod 128"
  using unat_byte [of b] le_mod_geq [of 128 "unat b"] by simp

lemma runs_over_stray:
  assumes "runs_over xs seg (length seg - 1) 4 n" "length seg = n + backlen_size n" "seg \<noteq> []"
    "lpCurrentEncodedSizeUnsafe seg 0 = Some n" "unat (seg ! (length seg - 1)) mod 128 = n mod 128"
  shows "seg = stray_entry \<and> back_digits xs (length xs - 1) 2 = Some (Some 0)"
proof -
  define j where "j = length seg - 1"
  have L: "length seg = Suc j" using assms(3) by (cases seg) (simp_all add: j_def)
  obtain u w' where u: "j < 4" "\<forall>k \<le> j. 128 \<le> unat (seg ! k)" "back_digits xs (length xs - 1) (4 - Suc j) = Some (Some w')"
    "n = u + 128 ^ Suc j * w'" "unat (seg ! 0) mod 128 * 128 ^ j \<le> u"
    using assms(1) by (auto simp: runs_over_def j_def)
  have n: "n < 5" using assms(2) L u(1) backlen_size_bounds(1) [of n] by linarith
  then have bl: "backlen_size n = 1" by (simp add: backlen_size_def lpEncodeBacklen_def)
  have jn: "j = n" using assms(2) L bl by simp
  have "w' = 0"
  proof (rule ccontr)
    assume "w' \<noteq> 0"
    then have "(128 :: nat) ^ Suc j * 1 \<le> 128 ^ Suc j * w'" by (intro mult_left_mono) auto
    moreover have "(128 :: nat) \<le> 128 ^ Suc j" by (rule self_le_power) simp_all
    ultimately show False using u(4) n by linarith
  qed
  define c where "c = unat (seg ! 0) mod 128"
  have c: "c * 128 ^ j < 5" using u(4,5) n \<open>w' = 0\<close> by (simp add: c_def)
  moreover have "c \<le> c * 128 ^ j" by simp
  ultimately have low: "c < 5" by linarith
  have s0: "unat (seg ! 0) = 128 + c" unfolding c_def using u(2) by (intro high_byte) simp
  have "(128 + c) mod 64 = c" using low mod_mult_self2 [of c 64 2] by (simp add: add.commute)
  then have n1: "n = 1 + c"
    using assms(4) low L s0 by (simp add: lpCurrentEncodedSizeUnsafe_def enc_classes LP_ENCODING_6BIT_STR_LEN_def low_bits)
  then have "0 < j" using jn by simp
  then have "(128 :: nat) \<le> 128 ^ j" by (intro self_le_power) simp_all
  moreover have "128 ^ j \<le> c * 128 ^ j" if "c \<noteq> 0" using that by simp
  ultimately have "c = 0" using c by linarith
  then have n: "n = 1" "j = 1" "unat (seg ! 0) = 128" using n1 jn s0 by simp_all
  have u1: "unat (seg ! 1) = 129"
  proof -
    have "unat (seg ! 1) mod 128 = 1" using assms(5) L n(1,2) by simp
    moreover have "unat (seg ! 1) = 128 + unat (seg ! 1) mod 128" using u(2) n(2) by (intro high_byte) simp
    ultimately show ?thesis by linarith
  qed
  have "seg = [seg ! 0, seg ! 1]" using L n(2) by (cases seg; cases "tl seg") auto
  moreover have "seg ! 0 = 0x80" "seg ! 1 = 0x81" using n(3) u1 by (simp_all add: byte_eq)
  ultimately show ?thesis using u(3) n(2) \<open>w' = 0\<close> by simp
qed

text \<open>What an accepted step says of the entry.\<close>

lemma validate_entry:
  assumes "lpValidateNext lp p bytes = Some (Some (Some p'))" "bytes \<le> length lp"
  obtains xs seg ys where "lp = xs @ seg @ ys" "length xs = p" "p' = p + length seg" "6 \<le> p" "p' < bytes" "seg \<noteq> []"
    "back_digits lp (p' - 1) 2 \<noteq> Some (Some 0)" "seg_ok seg \<or> seg = stray_entry \<and> back_digits lp (p - 1) 2 = Some (Some 0)"
proof -
  obtain b m n where h: "mem_get lp p = Some b" "b \<noteq> LP_EOF" "6 \<le> p" "lpCurrentEncodedSizeBytes lp p = Some m" "0 < m"
    "lpCurrentEncodedSizeUnsafe lp p = Some n" "p' = p + (n + backlen_size n)" "p' < bytes" "p + m < bytes"
    "back_digits lp (p' - 1) 4 = Some (Some n)" using assms(1) by (rule validate_nextE)
  have mn: "m \<le> n" using size_no_wrap [OF h(6,4,5)] h(10) unfolding h(7) by simp
  let ?k = "n + backlen_size n"
  define xs where "xs = take p lp"
  define seg where "seg = take ?k (drop p lp)"
  define ys where "ys = drop (p + ?k) lp"
  have lp: "lp = xs @ seg @ ys" unfolding xs_def seg_def ys_def
    by (metis append_take_drop_id drop_drop add.commute)
  have len: "length xs = p" "length seg = ?k" using h(7,8) assms(2) by (simp_all add: xs_def seg_def)
  have ne: "seg \<noteq> []" using len(2) mn h(5) by auto
  have sz: "lpCurrentEncodedSizeUnsafe seg 0 = Some n" "lpCurrentEncodedSizeBytes seg 0 = Some m"
    using size_take [OF h(6,4,5), of ?k] mn h(7,8) assms(2) by (simp_all add: seg_def)
  have hd: "hd seg \<noteq> LP_EOF"
  proof -
    have "mem_get lp (length xs) = Some (seg ! 0)" unfolding lp using ne by (simp add: nth_append mem_get_def)
    then have "seg ! 0 = b" using h(1) len(1) by simp
    then show ?thesis using h(2) ne by (simp add: hd_conv_nth)
  qed
  have "p' - 1 = length xs + (length seg - 1)" using len h(7) ne by (cases seg) auto
  then have d: "back_digits (xs @ seg @ ys) (length xs + (length seg - 1)) 4 = Some (Some n)" using h(10) lp by simp
  have not0: "back_digits lp (p' - 1) 2 \<noteq> Some (Some 0)"
  proof
    assume "back_digits lp (p' - 1) 2 = Some (Some 0)"
    then have "back_digits lp (p' - 1) 4 = Some (Some 0)" by (rule back_digits_fuel) simp
    then show False using h(5,10) mn by simp
  qed
  have last: "unat (seg ! (length seg - 1)) mod 128 = n mod 128"
    using back_digits_low [OF d] mem_get_local [of seg "length seg - 1" "seg ! (length seg - 1)" xs ys] ne by simp
  have "seg_ok seg \<or> seg = stray_entry \<and> back_digits lp (p - 1) 2 = Some (Some 0)"
    using back_digits_local [OF d]
  proof
    show "length seg - 1 < length seg" using ne by (cases seg) auto
    assume "back_digits seg (length seg - 1) 4 = Some (Some n)"
    then have "lpDecodeBacklen seg (length seg - 1) = Some n" by (simp add: lpDecodeBacklen_digits)
    then show ?thesis using sz hd h(5) mn len(2) by (simp add: seg_ok_def)
  next
    assume "runs_over xs seg (length seg - 1) 4 n"
    then have "seg = stray_entry \<and> back_digits xs (length xs - 1) 2 = Some (Some 0)"
      using runs_over_stray len(2) ne sz(1) last by blast
    then show ?thesis using back_digits_prefix [of "p - 1" xs "seg @ ys" 2] len(1) h(3) lp by simp
  qed
  then show thesis using lp len h(3,7,8) ne not0 by (intro that [of xs seg ys]) simp_all
qed

text \<open>The whole loop, from an entry whose predecessor cannot be mistaken for the rest of a length.\<close>

lemma validate_entriesD:
  assumes "validate_entries cb lp bytes numele st (Some p) count = Some (Some (Some q, count'))" "bytes \<le> length lp"
  shows "\<exists>xs segs ys. lp = xs @ concat segs @ [LP_EOF] @ ys \<and> length xs = p \<and> q = p + length (concat segs) \<and>
    count' = count + length segs \<and>
    ((\<forall>s \<in> set segs. seg_ok s) \<or>
     back_digits lp (p - 1) 2 = Some (Some 0) \<and> segs \<noteq> [] \<and> hd segs = stray_entry)"
  using assms(1)
proof (induction "bytes - p" arbitrary: st p count rule: less_induct)
  case less
  obtain b where b: "mem_get lp p = Some b"
    using less.prems by (subst (asm) validate_entries.simps) (auto split: bind_splits)
  show ?case
  proof (cases "b = LP_EOF")
    case True
    then have r: "q = p" "count' = count" using less.prems b by (subst (asm) validate_entries.simps, simp)+
    have p: "p < length lp" "lp ! p = b" using b by (auto simp: mem_get_def split: if_splits)
    then have "lp = take p lp @ concat [] @ [LP_EOF] @ drop (Suc p) lp" using True id_take_nth_drop [OF p(1)] by simp
    then show ?thesis using r p(1) by (intro exI [of _ "take p lp"] exI [of _ "[]"] exI [of _ "drop (Suc p) lp"]) simp
  next
    case False
    obtain p'' st' where v: "lpValidateNext lp p bytes = Some (Some p'')"
      "validate_entries cb lp bytes numele st' p'' (count + 1) = Some (Some (Some q, count'))"
      using less.prems b False by (subst (asm) validate_entries.simps) (auto simp: Let_def split: bind_splits option.splits prod.splits if_splits)
    obtain p' where p': "p'' = Some p'" using v(2) by (cases p'') (simp_all add: validate_entries.simps)
    obtain xs seg ys where s: "lp = xs @ seg @ ys" "length xs = p" "p' = p + length seg" "6 \<le> p" "p' < bytes" "seg \<noteq> []"
      "back_digits lp (p' - 1) 2 \<noteq> Some (Some 0)" "seg_ok seg \<or> seg = stray_entry \<and> back_digits lp (p - 1) 2 = Some (Some 0)"
      using validate_entry [OF v(1) [unfolded p'] assms(2)] .
    have "bytes - p' < bytes - p" using s(3,5,6) by (cases seg) auto
    from less.hyps [OF this v(2) [unfolded p']] s(7) obtain xs' segs ys' where IH:
      "lp = xs' @ concat segs @ [LP_EOF] @ ys'" "length xs' = p'" "q = p' + length (concat segs)" "count' = count + 1 + length segs"
      "\<forall>s \<in> set segs. seg_ok s" by blast
    have "xs' = xs @ seg"
      using arg_cong [OF s(1), of "take p'"] arg_cong [OF IH(1), of "take p'"] s(2,3) IH(2) by simp
    then have "lp = xs @ concat (seg # segs) @ [LP_EOF] @ ys'" using IH(1) by simp
    then show ?thesis using s(2,3,8) IH(3,4,5) by (intro exI [of _ xs] exI [of _ "seg # segs"] exI [of _ ys']) auto
  qed
qed

lemma header_bytes:
  assumes "lpGetTotalBytes lp = Some tot" "lpGetNumElements lp = Some num"
  shows "take 6 lp = lp_header tot num"
proof -
  obtain a where a: "mem_read lp 0 4 = Some a" "tot = nat (le_uint a)" using assms(1) by (auto simp: lpGetTotalBytes_def get_le_def)
  obtain b where b: "mem_read lp 4 2 = Some b" "num = nat (le_uint b)" using assms(2) by (auto simp: lpGetNumElements_def get_le_def)
  have l: "length a = 4" "length b = 2" "a = take 4 lp" "b = take 2 (drop 4 lp)" using a(1) b(1) by (auto simp: mem_read_def split: if_splits)
  have "lp_header tot num = a @ b" using a(2) b(2) l(1,2) by (simp add: lp_header_def byte_simps)
  moreover have "take 6 lp = take 4 lp @ take 2 (drop 4 lp)" using take_add [of 4 2 lp] by simp
  ultimately show ?thesis using l(3,4) by simp
qed

text \<open>A deep check that succeeds has seen a well-formed listpack, unless its first entry is the stray one.\<close>

lemma validate_sound:
  assumes "lpValidateIntegrity cb st lp (length lp) True = Some True"
  shows "(\<exists>segs. lp_rep lp segs \<and> lp_total segs = length lp) \<or> take 2 (drop 6 lp) = stray_entry"
proof -
  obtain num p count where h: "7 \<le> length lp" "lpGetTotalBytes lp = Some (length lp)" "lpGetNumElements lp = Some num"
    "validate_entries cb lp (length lp) num st (Some 6) 0 = Some (Some (Some (length lp - 1), count))"
    "num \<noteq> 65535 \<longrightarrow> num = count"
    using assms by (auto simp: lpValidateIntegrity_def split: if_splits bind_splits option.splits prod.splits)
  obtain xs segs ys where s: "lp = xs @ concat segs @ [LP_EOF] @ ys" "length xs = 6" "length lp - 1 = 6 + length (concat segs)"
    "count = length segs" "(\<forall>s \<in> set segs. seg_ok s) \<or> segs \<noteq> [] \<and> hd segs = stray_entry"
    using validate_entriesD [OF h(4) order_refl] by auto
  have tot: "lp_total segs = length lp" using s(3) h(1) by (simp add: lp_total_def)
  have ys: "ys = []" using tot s(1,2) by (simp add: lp_total_def)
  have "xs = lp_header (lp_total segs) num" using header_bytes [OF h(2,3)] tot s(1,2) by simp
  moreover have "num < 65536" using get_le_bound [OF h(3) [unfolded lpGetNumElements_def]] by simp
  moreover have "length lp < 2 ^ 32" using get_le_bound [OF h(2) [unfolded lpGetTotalBytes_def]] by simp
  ultimately have "(\<forall>s \<in> set segs. seg_ok s) \<Longrightarrow> lp_rep lp segs"
    using s(1,4) h(5) ys tot unfolding lp_rep_def num_ok_def by (intro conjI exI [of _ num] exI [of _ "[]"]) auto
  moreover have "take 2 (drop 6 lp) = stray_entry" if "segs \<noteq> []" "hd segs = stray_entry"
    using that s(1,2) by (cases segs) simp_all
  ultimately show ?thesis using s(5) tot by blast
qed

lemma validate_entries_rep:
  assumes "lp_rep lp segs" "i \<le> length segs"
  shows "validate_entries None lp (lp_total segs) num st (Some (lp_off segs i)) c =
    Some (Some (Some (lp_off segs (length segs)), c + (length segs - i)))"
  using assms(2)
proof (induction "length segs - i" arbitrary: i c)
  case 0
  then show ?case using rep_end [OF assms(1), of i] by (subst validate_entries.simps) simp
next
  case (Suc n)
  then have i: "i < length segs" "n = length segs - Suc i" by simp_all
  obtain b where "mem_get lp (lp_off segs i) = Some b" "b \<noteq> LP_EOF" using rep_first_byte [OF assms(1) i(1)] by blast
  then show ?case using Suc.hyps(1) [of "Suc i" "c + 1"] rep_validate [OF assms(1) i(1)] i
    by (subst validate_entries.simps) simp
qed

lemma validate_complete:
  assumes "lp_rep lp segs" "lp_total segs = length lp"
  shows "lpValidateIntegrity None st lp (length lp) True = Some True"
proof -
  obtain num where num: "lpGetNumElements lp = Some num" "num_ok num segs" using rep_num [OF assms(1)] by blast
  have "mem_get lp (length lp - 1) = Some LP_EOF"
    using rep_end [OF assms(1) order_refl] lp_off_end [of segs "length segs"] assms(2) by simp
  moreover have "7 \<le> length lp" using assms(2) by (simp add: lp_total_def)
  ultimately show ?thesis
    using rep_total [OF assms(1)] num assms(2) validate_entries_rep [OF assms(1), of 0 num st 0] lp_off_end [of segs "length segs"]
    by (auto simp: lpValidateIntegrity_def num_ok_def)
qed

text \<open>The check never reads outside the block and always ends, whatever the bytes are.\<close>

lemma back_digits_in: "i < length lp \<Longrightarrow> f \<le> i \<Longrightarrow> \<exists>r. back_digits lp i f = Some r"
proof (induction f arbitrary: i)
  case 0
  then show ?case by (cases "unat (lp ! i) < 128") (auto simp: back_digits_small back_digits_long)
next
  case (Suc f)
  then obtain j where j: "i = Suc j" "f \<le> j" by (cases i) auto
  then show ?case using Suc.IH [of j] Suc.prems back_digits_more [of lp j "lp ! i" f] back_digits_small [of lp i "lp ! i" "Suc f"]
    by (cases "unat (lp ! i) < 128") auto
qed

lemma size_in:
  assumes "p < length lp" "lpCurrentEncodedSizeBytes lp p = Some m" "p + m \<le> length lp"
  shows "\<exists>n. lpCurrentEncodedSizeUnsafe lp p = Some n"
  using assms get_le_in [of "p + 1" 4 lp]
  by (auto simp: lpCurrentEncodedSizeUnsafe_def lpCurrentEncodedSizeBytes_def LP_ENCODING_6BIT_STR_LEN_def
      LP_ENCODING_12BIT_STR_LEN_def LP_ENCODING_32BIT_STR_LEN_def split: if_splits)

lemma validate_next_in:
  assumes "bytes \<le> length lp"
  shows "\<exists>r. lpValidateNext lp p bytes = Some r"
proof (cases "out_of_range bytes p")
  case True
  then show ?thesis by (simp add: lpValidateNext_def)
next
  case False
  then have p: "6 \<le> p" "p < length lp" using assms by (auto simp: out_of_range_def)
  obtain m where m: "lpCurrentEncodedSizeBytes lp p = Some m" using p by (simp add: lpCurrentEncodedSizeBytes_def)
  show ?thesis
  proof (cases "m = 0 \<or> out_of_range bytes (p + m) \<or> lp ! p = LP_EOF")
    case True
    then show ?thesis using False p m by (auto simp: lpValidateNext_def)
  next
    case nm: False
    then obtain n where n: "lpCurrentEncodedSizeUnsafe lp p = Some n"
      using size_in [OF p(2) m] p assms by (auto simp: out_of_range_def)
    let ?q = "p + (n + backlen_size n)"
    show ?thesis
    proof (cases "out_of_range bytes ?q")
      case True
      then show ?thesis using False p m nm n by (simp add: lpValidateNext_def Let_def)
    next
      case q: False
      then have "?q - 1 < length lp" "4 \<le> ?q - 1" using p assms by (auto simp: out_of_range_def)
      then obtain r where "lpDecodeBacklen lp (?q - 1) = Some r"
        using back_digits_in [of "?q - 1" lp 4] by (auto simp: lpDecodeBacklen_digits)
      then show ?thesis using False p m nm n q by (simp add: lpValidateNext_def Let_def)
    qed
  qed
qed

lemma validate_entries_in:
  assumes "bytes \<le> length lp" "0 < bytes"
  shows "p < bytes \<Longrightarrow> \<exists>r. validate_entries cb lp bytes num st (Some p) c = Some r"
proof (induction "bytes - p" arbitrary: p st c rule: less_induct)
  case less
  obtain r where r: "lpValidateNext lp p bytes = Some r" using validate_next_in [OF assms(1)] by blast
  have none: "\<exists>r. validate_entries cb lp bytes num st None c = Some r" for st c by (simp add: validate_entries.simps)
  have next_ok: "\<exists>r. validate_entries cb lp bytes num st (Some p') c = Some r" if "r = Some (Some p')" for p' st c
  proof -
    have "lpValidateNext lp p bytes = Some (Some (Some p'))" using r that by simp
    then obtain seg :: "byte list" where "p' = p + length seg" "p' < bytes" "seg \<noteq> []"
      by (rule validate_entry [OF _ assms(1)]) (rule that)
    then show ?thesis using less.hyps [of p' st c] less.prems by (cases seg) auto
  qed
  show ?case
  proof (cases "lp ! p = LP_EOF")
    case True
    then show ?thesis using less.prems assms by (subst validate_entries.simps) simp
  next
    case False
    have "\<exists>r'. validate_entries cb lp bytes num st a c = Some r'" if "r = Some a" for a st c
      using none next_ok that by (cases a) auto
    then show ?thesis using False less.prems assms r
      by (subst validate_entries.simps) (cases r; auto simp: Let_def split: prod.splits option.splits)
  qed
qed

lemma validate_total: "\<exists>r. lpValidateIntegrity cb st lp (length lp) deep = Some r"
proof (cases "length lp < 7")
  case False
  obtain tot num where h: "lpGetTotalBytes lp = Some tot" "lpGetNumElements lp = Some num"
    using get_le_in [of 0 4 lp] get_le_in [of 4 2 lp] False by (auto simp: lpGetTotalBytes_def lpGetNumElements_def)
  obtain r where "validate_entries cb lp (length lp) num st (Some 6) 0 = Some r"
    using validate_entries_in [of "length lp" lp 6 cb num st 0] False by fastforce
  then show ?thesis using h False by (auto simp: lpValidateIntegrity_def split: option.splits prod.splits)
qed (simp add: lpValidateIntegrity_def exI [of _ False])

end
