(* ===== verification/Listpack_Ops.thy ===== *)
theory Listpack_Ops
  imports Listpack_Integrity
begin

text \<open>
  Listpacks as lists of strings: sequences of operations refine the same operations on a list, and all ways
  of reading agree. The theory ends with the properties of the listpack code.
\<close>

section \<open>Listpacks as lists of strings\<close>

text \<open>\<open>lp_models lp xs\<close>: the listpack the operations build for the strings \<open>xs\<close>, each in its shortest encoding.\<close>

definition lp_models :: "byte list \<Rightarrow> byte list list \<Rightarrow> bool" where
  "lp_models lp xs \<longleftrightarrow> lp_rep lp (map str_enc xs)"

text \<open>The size of that listpack.\<close>

definition lp_size :: "byte list list \<Rightarrow> nat" where
  "lp_size xs = lp_total (map str_enc xs)"

lemma str_enc_int: "is_int64 v \<Longrightarrow> str_enc (int_bytes v) = int_enc v"
  by (simp add: str_enc_def string2ll_int_bytes)

lemma length_str_enc_le: "length (str_enc s) \<le> length s + 20"
proof -
  have e: "length (entry e) \<le> length e + 5" for e using backlen_size_bounds [of "length e"] by (simp add: entry_def)
  have l: "length (lpEncodeIntegerGetType v) \<le> 9" for v by (simp add: lpEncodeIntegerGetType_def Let_def)
  have i: "length (int_enc v) \<le> 14" for v 
    using e [of "lpEncodeIntegerGetType v"] l [of v] unfolding int_enc_def by linarith
  have "length (lpEncodeString s) \<le> length s + 5" by (simp add: lpEncodeString_def Let_def)
  then have "length (entry (lpEncodeString s)) \<le> length s + 20" using e [of "lpEncodeString s"] by linarith
  moreover have "length (int_enc v) \<le> length s + 20" for v using i [of v] by linarith
  ultimately show ?thesis by (simp add: str_enc_def split: option.splits)
qed

lemma lp_size_le: "lp_size xs \<le> 7 + sum_list (map (\<lambda>s. length s + 20) xs)"
  unfolding lp_size_def lp_total_def
proof (induction xs)
  case (Cons x xs)
  then show ?case using length_str_enc_le [of x] by simp
qed simp

text \<open>The strings of a listpack in that form are the ones that were stored.\<close>

lemma models_length: "lp_models lp xs \<Longrightarrow> x \<in> set xs \<Longrightarrow> length x < 2 ^ 32 - 5"
proof -
  assume m: "lp_models lp xs" "x \<in> set xs"
  have "length (str_enc x) < lp_total (map str_enc xs)" using m(2) by (intro lp_total_member) auto
  then have lt: "length (str_enc x) < 2 ^ 32" using m(1) by (simp add: lp_models_def lp_rep_def)
  show ?thesis
  proof (rule ccontr)
    assume big: "\<not> length x < 2 ^ 32 - 5"
    then have "string2ll x (length x) = Some None" by (simp add: string2ll_def LONG_STR_SIZE_def)
    then have "str_enc x = entry (lpEncodeString x)" by (simp add: str_enc_def)
    then have "2 ^ 32 \<le> length (str_enc x)" using big by (simp add: entry_def lpEncodeString_def Let_def)
    then show False using lt by simp
  qed
qed

lemma models_strings: "lp_models lp xs \<Longrightarrow> lp_strings (map str_enc xs) = xs"
  using models_length str_enc_ok(2) by (auto simp: lp_strings_def intro!: map_idI)

text \<open>The operations at an index, as the callers write them: a seek, and nothing when there is no such entry.\<close>

datatype lp_op =
    Append "byte list" | AppendInteger int | Prepend "byte list" | PrependInteger int
  | Insert int lp_where "byte list" | Replace int "byte list" | ReplaceInteger int int
  | Delete int | DeleteRange int nat

definition at_index :: "byte list \<Rightarrow> int \<Rightarrow> (nat \<Rightarrow> byte list option option) \<Rightarrow> byte list option option" where
  "at_index lp i f = do { p \<leftarrow> lpSeek lp i; (case p of None \<Rightarrow> Some (Some lp) | Some p \<Rightarrow> f p) }"

fun lp_step :: "byte list \<Rightarrow> lp_op \<Rightarrow> byte list option option" where
  "lp_step lp (Append s) = lpAppend lp s"
| "lp_step lp (AppendInteger v) = lpAppendInteger lp v"
| "lp_step lp (Prepend s) = lpPrepend lp s"
| "lp_step lp (PrependInteger v) = lpPrependInteger lp v"
| "lp_step lp (Insert i wher s) = at_index lp i (\<lambda>p. map_option (map_option fst) (lpInsertString lp s p wher))"
| "lp_step lp (Replace i s) = at_index lp i (\<lambda>p. map_option (map_option fst) (lpReplace lp p s))"
| "lp_step lp (ReplaceInteger i v) = at_index lp i (\<lambda>p. map_option (map_option fst) (lpReplaceInteger lp p v))"
| "lp_step lp (Delete i) = at_index lp i (\<lambda>p. map_option (map_option fst) (lpDelete lp p))"
| "lp_step lp (DeleteRange i n) = map_option Some (lpDeleteRange lp i n)"

fun run_lp :: "byte list \<Rightarrow> lp_op list \<Rightarrow> byte list option option" where
  "run_lp lp [] = Some (Some lp)"
| "run_lp lp (op # ops) = do { r \<leftarrow> lp_step lp op; (case r of None \<Rightarrow> Some None | Some lp \<Rightarrow> run_lp lp ops) }"

text \<open>The same operations on a list.\<close>

fun insert_at :: "'a list \<Rightarrow> nat \<Rightarrow> lp_where \<Rightarrow> 'a \<Rightarrow> 'a list" where
  "insert_at xs j LP_BEFORE x = take j xs @ [x] @ drop j xs"
| "insert_at xs j LP_AFTER x = take (Suc j) xs @ [x] @ drop (Suc j) xs"
| "insert_at xs j LP_REPLACE x = xs[j := x]"

definition on_index :: "'a list \<Rightarrow> int \<Rightarrow> (nat \<Rightarrow> 'a list) \<Rightarrow> 'a list" where
  "on_index xs i f = (case index_of (length xs) i of None \<Rightarrow> xs | Some j \<Rightarrow> f j)"

fun seq_step :: "byte list list \<Rightarrow> lp_op \<Rightarrow> byte list list" where
  "seq_step xs (Append s) = xs @ [s]"
| "seq_step xs (AppendInteger v) = xs @ [int_bytes v]"
| "seq_step xs (Prepend s) = s # xs"
| "seq_step xs (PrependInteger v) = int_bytes v # xs"
| "seq_step xs (Insert i wher s) = on_index xs i (\<lambda>j. insert_at xs j wher s)"
| "seq_step xs (Replace i s) = on_index xs i (\<lambda>j. xs[j := s])"
| "seq_step xs (ReplaceInteger i v) = on_index xs i (\<lambda>j. xs[j := int_bytes v])"
| "seq_step xs (Delete i) = on_index xs i (\<lambda>j. take j xs @ drop (Suc j) xs)"
| "seq_step xs (DeleteRange i n) = on_index xs i (\<lambda>j. take j xs @ drop (j + n) xs)"

fun run_seq :: "byte list list \<Rightarrow> lp_op list \<Rightarrow> byte list list option" where
  "run_seq xs [] = Some xs"
| "run_seq xs (op # ops) = (let ys = seq_step xs op in if lp_size ys < 2 ^ 32 then run_seq ys ops else None)"

fun op_ok :: "lp_op \<Rightarrow> bool" where
  "op_ok (AppendInteger v) = is_int64 v"
| "op_ok (PrependInteger v) = is_int64 v"
| "op_ok (ReplaceInteger i v) = is_int64 v"
| "op_ok _ = True"

definition step_result :: "byte list option option \<Rightarrow> byte list list \<Rightarrow> bool" where
  "step_result r ys \<longleftrightarrow> result_is r (map str_enc ys)"

lemma step_resultD:
  "step_result r ys \<Longrightarrow> (if lp_size ys < 2 ^ 32 then \<exists>lp. r = Some (Some lp) \<and> lp_models lp ys else r = Some None)"
  by (simp add: step_result_def result_is_def lp_size_def lp_models_def)

lemma models_result: "lp_models lp xs \<Longrightarrow> step_result (Some (Some lp)) xs"
  by (simp add: step_result_def result_is_def lp_models_def lp_rep_def)

lemma rep_result: "lp_rep lp (map str_enc ys) \<Longrightarrow> step_result (Some (Some lp)) ys"
  by (simp add: step_result_def result_is_def lp_rep_def)

lemma at_index_ok:
  assumes "lp_models lp xs"
    "\<And>j. index_of (length xs) i = Some j \<Longrightarrow> j < length xs \<Longrightarrow> step_result (f (lp_off (map str_enc xs) j)) (g j)"
  shows "step_result (at_index lp i f) (on_index xs i g)"
proof (cases "index_of (length xs) i")
  case None
  then show ?thesis using rep_seek [of lp "map str_enc xs" i] models_result [OF assms(1)] assms(1)
    by (simp add: at_index_def on_index_def lp_models_def)
next
  case (Some j)
  then show ?thesis using rep_seek [of lp "map str_enc xs" i] assms index_of_bound [OF Some]
    by (simp add: at_index_def on_index_def lp_models_def)
qed

lemma insert_elem_ok:
  assumes "lp_models lp xs" "j < length xs" "elem_ok ele" "elem_enc ele = str_enc s"
  shows "step_result (map_option (map_option fst) (lpInsert lp ele (lp_off (map str_enc xs) j) wher)) (insert_at xs j wher s)"
proof -
  have r: "lp_rep lp (map str_enc xs)" using assms(1) by (simp add: lp_models_def)
  show ?thesis
  proof (cases wher)
    case LP_BEFORE
    then show ?thesis using insert_result_fst [OF rep_insert_before(1) [OF r _ assms(3), of j]] assms(2,4)
      by (simp add: step_result_def take_map drop_map)
  next
    case LP_AFTER
    then show ?thesis using insert_result_fst [OF rep_insert_before(2) [OF r _ assms(3), of "Suc j"]] assms(2,4)
      by (simp add: step_result_def take_map drop_map)
  next
    case LP_REPLACE
    then show ?thesis using insert_result_fst [OF rep_replace [OF r _ assms(3), of j]] assms(2,4)
      by (simp add: step_result_def map_update)
  qed
qed

lemma step_ok:
  assumes "lp_models lp xs" "op_ok op"
  shows "step_result (lp_step lp op) (seq_step xs op)"
proof -
  have r: "lp_rep lp (map str_enc xs)" using assms(1) by (simp add: lp_models_def)
  show ?thesis
  proof (cases op)
    case (Append s)
    then show ?thesis using rep_append [OF r, of s] by (simp add: step_result_def)
  next
    case (AppendInteger v)
    then show ?thesis using rep_append_int [OF r, of v] assms(2) by (simp add: step_result_def str_enc_int)
  next
    case (Prepend s)
    then show ?thesis using rep_prepend [OF r, of s] by (simp add: step_result_def)
  next
    case (PrependInteger v)
    then show ?thesis using rep_prepend_int [OF r, of v] assms(2) by (simp add: step_result_def str_enc_int)
  next
    case (Insert i wher s)
    then show ?thesis using at_index_ok [OF assms(1)] insert_elem_ok [OF assms(1), of _ "Ele_Str s" s wher]
      by (simp add: lpInsertString_def)
  next
    case (Replace i s)
    then show ?thesis using at_index_ok [OF assms(1)] insert_elem_ok [OF assms(1), of _ "Ele_Str s" s LP_REPLACE]
      by (simp add: lpReplace_def)
  next
    case (ReplaceInteger i v)
    then show ?thesis using at_index_ok [OF assms(1)] assms(2) str_enc_int [of v]
        insert_elem_ok [OF assms(1), of _ "Ele_Int (lpEncodeIntegerGetType v)" "int_bytes v" LP_REPLACE]
      by (simp add: lpReplaceInteger_def lpInsertInteger_def int_enc_def)
  next
    case (Delete i)
    have "step_result (map_option (map_option fst) (lpDelete lp (lp_off (map str_enc xs) j))) (take j xs @ drop (Suc j) xs)"
      if "j < length xs" for j
      using rep_delete [OF r, of j] that by (auto simp: take_map drop_map intro!: rep_result)
    then show ?thesis using at_index_ok [OF assms(1)] Delete by simp
  next
    case (DeleteRange i n)
    obtain lp' where "lpDeleteRange lp i n = Some lp'"
      "lp_rep lp' (case index_of (length xs) i of None \<Rightarrow> map str_enc xs
         | Some j \<Rightarrow> take j (map str_enc xs) @ drop (j + n) (map str_enc xs))"
      using rep_delete_range [OF r, of i n] by auto
    then show ?thesis using DeleteRange
      by (auto simp: on_index_def take_map drop_map intro!: rep_result split: option.splits)
  qed
qed

lemma run_ok:
  assumes "lp_models lp xs" "\<forall>op \<in> set ops. op_ok op"
  shows "case run_seq xs ops of None \<Rightarrow> run_lp lp ops = Some None
    | Some ys \<Rightarrow> \<exists>lp'. run_lp lp ops = Some (Some lp') \<and> lp_models lp' ys"
  using assms
proof (induction ops arbitrary: lp xs)
  case (Cons op ops)
  let ?ys = "seq_step xs op"
  have s: "if lp_size ?ys < 2 ^ 32 then \<exists>lp'. lp_step lp op = Some (Some lp') \<and> lp_models lp' ?ys else lp_step lp op = Some None"
    using step_resultD [OF step_ok [OF Cons.prems(1)]] Cons.prems(2) by simp
  show ?case
  proof (cases "lp_size ?ys < 2 ^ 32")
    case True
    then obtain lp' where "lp_step lp op = Some (Some lp')" "lp_models lp' ?ys" using s by auto
    moreover from this have l: "run_lp lp (op # ops) = run_lp lp' ops" by simp
    moreover have q: "run_seq xs (op # ops) = run_seq ?ys ops" using True by (simp add: Let_def)
    ultimately show ?thesis unfolding l q using Cons.IH [of lp' ?ys] Cons.prems(2) by simp
  next
    case False
    then show ?thesis using s by (auto simp: Let_def)
  qed
qed simp

section \<open>Reading a whole listpack\<close>

partial_function (option) collect_next :: "byte list \<Rightarrow> nat option \<Rightarrow> byte list list option" where
  "collect_next lp p =
     (case p of
        None \<Rightarrow> Some []
      | Some q \<Rightarrow> do { s \<leftarrow> lpGet_intbuf lp q; p' \<leftarrow> lpNext lp q; rest \<leftarrow> collect_next lp p'; Some (s # rest) })"

partial_function (option) collect_prev :: "byte list \<Rightarrow> nat option \<Rightarrow> byte list list option" where
  "collect_prev lp p =
     (case p of
        None \<Rightarrow> Some []
      | Some q \<Rightarrow> do { s \<leftarrow> lpGet_intbuf lp q; p' \<leftarrow> lpPrev lp q; rest \<leftarrow> collect_prev lp p'; Some (s # rest) })"

text \<open>\<open>lp_reads lp xs\<close>: every way of reading the listpack gives the strings \<open>xs\<close>: the count, the two traversals,
  and each signed index.\<close>

definition lp_reads :: "byte list \<Rightarrow> byte list list \<Rightarrow> bool" where
  "lp_reads lp xs \<longleftrightarrow>
     map_option snd (lpLength lp) = Some (length xs) \<and>
     lpFirst lp \<bind> collect_next lp = Some xs \<and>
     lpLast lp \<bind> collect_prev lp = Some (rev xs) \<and>
     (\<forall>i. do { p \<leftarrow> lpSeek lp i; (case p of None \<Rightarrow> Some None | Some p \<Rightarrow> map_option Some (lpGet_intbuf lp p)) } =
       Some (map_option (\<lambda>j. xs ! j) (index_of (length xs) i)))"

lemma collect_next_ok:
  assumes "lp_rep lp segs" "i \<le> length segs"
  shows "collect_next lp (if i < length segs then Some (lp_off segs i) else None) = Some (drop i (lp_strings segs))"
  using assms(2)
proof (induction "length segs - i" arbitrary: i)
  case 0
  then show ?case by (simp add: collect_next.simps)
next
  case (Suc n)
  then have i: "i < length segs" "n = length segs - Suc i" by simp_all
  have "drop i (lp_strings segs) = lp_strings segs ! i # drop (Suc i) (lp_strings segs)" using i(1) by (simp add: Cons_nth_drop_Suc)
  then show ?case using Suc.hyps(1) [of "Suc i"] i rep_next [OF assms(1) i(1)] rep_get_intbuf [OF assms(1) i(1)]
    by (subst collect_next.simps) simp
qed

lemma collect_prev_ok:
  assumes "lp_rep lp segs" "i < length segs"
  shows "collect_prev lp (Some (lp_off segs i)) = Some (rev (take (Suc i) (lp_strings segs)))"
  using assms(2)
proof (induction i)
  case 0
  then show ?case using rep_prev [OF assms(1), of 0] rep_get_intbuf [OF assms(1) 0]
    by (subst collect_prev.simps) (simp add: collect_prev.simps [of lp None] take_Suc_conv_app_nth)
next
  case (Suc i)
  then show ?case using rep_prev [OF assms(1), of "Suc i"] rep_get_intbuf [OF assms(1) Suc.prems]
    by (subst collect_prev.simps) (simp add: take_Suc_conv_app_nth [of "Suc i"])
qed

lemma rep_reads:
  assumes "lp_rep lp segs"
  shows "lp_reads lp (lp_strings segs)"
  unfolding lp_reads_def
proof (intro conjI allI)
  show "map_option snd (lpLength lp) = Some (length (lp_strings segs))" using rep_length [OF assms] by auto
  show "lpFirst lp \<bind> collect_next lp = Some (lp_strings segs)"
    using rep_first_index [OF assms] collect_next_ok [OF assms, of 0] by simp
  show "lpLast lp \<bind> collect_prev lp = Some (rev (lp_strings segs))"
    using rep_last [OF assms] collect_prev_ok [OF assms, of "length segs - 1"]
    by (cases "segs = []") (auto simp: collect_prev.simps lp_strings_def)
  show "do { p \<leftarrow> lpSeek lp i; (case p of None \<Rightarrow> Some None | Some p \<Rightarrow> map_option Some (lpGet_intbuf lp p)) } =
       Some (map_option (\<lambda>j. lp_strings segs ! j) (index_of (length (lp_strings segs)) i))" for i
    using rep_seek [OF assms, of i] rep_get_intbuf [OF assms] index_of_bound [of "length segs" i]
    by (cases "index_of (length segs) i") auto
qed

lemma models_reads: "lp_models lp xs \<Longrightarrow> lp_reads lp xs"
  using rep_reads [of lp "map str_enc xs"] models_strings [of lp xs] by (simp add: lp_models_def)

lemma models_new: "\<exists>lp. lpNew capacity = Some lp \<and> lp_models lp []"
  using lpNew_ok [of capacity] by (auto simp: lp_models_def)

section \<open>Evaluation\<close>

lemmas lp_eval = lpValidateNext_def out_of_range_def lpCurrentEncodedSizeBytes_def lpCurrentEncodedSizeUnsafe_def
  enc_classes LP_ENCODING_6BIT_STR_LEN_def low_bits Let_def backlen_size_def lpEncodeBacklen_def lpDecodeBacklen_def
  decode_backlen.simps or_shift lpGetTotalBytes_def lpGetNumElements_def get_le_def mem_read_def lpSkip_def lpBytes_def

lemmas lp_eval_insert = lpInsert_def lpEncodeGetType_def lpStringToInt64_def LONG_STR_SIZE_def lp_grow_def mem_move_def
  mem_write_def update_count_def lpSetTotalBytes_def lpSetNumElements_def lpEncodeString_def UINT32_MAX_def

lemma validate_step:
  "mem_get lp q = Some b \<Longrightarrow> b \<noteq> LP_EOF \<Longrightarrow> lpValidateNext lp q bytes = Some (Some p') \<Longrightarrow>
     validate_entries None lp bytes n st (Some q) c = validate_entries None lp bytes n st p' (c + 1)"
  by (subst validate_entries.simps) simp

lemma validate_stop: "mem_get lp q = Some LP_EOF \<Longrightarrow> validate_entries None lp bytes n st (Some q) c = Some (Some (Some q, c))"
  by (subst validate_entries.simps) simp

section \<open>Properties\<close>

text \<open>C6. A listpack behaves as a list of strings: from a new one, any sequence of appends, prepends, insertions,
  replacements, deletions and range deletions, with strings or integers, at positive or negative indexes
  in or out of range, gives a listpack that reads as the list the same operations give. It fails in one
  case only, when an insertion would make the listpack 4 GiB or larger, and then with the null result.\<close>

theorem listpack_refines_list:
  assumes "\<forall>op \<in> set ops. op_ok op"
  shows "\<exists>lp. lpNew capacity = Some lp \<and>
    (case run_seq [] ops of
       None \<Rightarrow> run_lp lp ops = Some None
     | Some xs \<Rightarrow> \<exists>lp'. run_lp lp ops = Some (Some lp') \<and> lp_reads lp' xs)"
proof -
  obtain lp where lp: "lpNew capacity = Some lp" "lp_models lp []" using models_new by blast
  then show ?thesis using run_ok [OF lp(2) assms] models_reads by (cases "run_seq [] ops") fastforce+
qed

theorem listpack_refines_list_witness:
  "\<exists>lp lp'. lpNew 0 = Some lp \<and>
     run_lp lp [Append (bytes_of ''b''), PrependInteger (-5), Insert (-1) LP_AFTER (bytes_of ''c''), Delete 1] = Some (Some lp') \<and>
     lp_reads lp' [bytes_of ''-5'', bytes_of ''c'']"
proof -
  let ?ops = "[Append (bytes_of ''b''), PrependInteger (-5), Insert (-1) LP_AFTER (bytes_of ''c''), Delete 1]"
  have small: "lp_size ys < 4294967296" if "sum_list (map (\<lambda>s. length s + 20) ys) < 1000" for ys
    using lp_size_le [of ys] that by simp
  have "int_bytes (-5) = bytes_of ''-5''" by code_simp
  then have "run_seq [] ?ops = Some [bytes_of ''-5'', bytes_of ''c'']"
    by (simp add: Let_def small on_index_def index_of_def)
  moreover have "\<forall>op \<in> set ?ops. op_ok op" by (simp add: fits_def)
  ultimately show ?thesis using listpack_refines_list [of ?ops 0] by auto
qed

text \<open>C9. \<^verbatim>\<open>lpValidateIntegrity\<close> can be called on any bytes: it returns, and neither it nor the functions it calls
  read outside the block, whatever the callback answers.\<close>

theorem integrity_check_safe: "\<exists>r. lpValidateIntegrity cb st lp (length lp) deep = Some r"
  by (rule validate_total)

text \<open>C7. The deep check is exact up to one case. When the first entry is not the pair of bytes \<^verbatim>\<open>80 81\<close>, the
  blocks it accepts are the well-formed listpacks: a header with the size and the count, entries that
  each carry their length at both ends, and the end byte.\<close>

theorem integrity_check_exact:
  assumes "take 2 (drop 6 lp) \<noteq> [0x80, 0x81]"
  shows "lpValidateIntegrity None st lp (length lp) True = Some True \<longleftrightarrow> (\<exists>segs. lp_rep lp segs \<and> lp_total segs = length lp)"
  using validate_sound [of None st lp] validate_complete [of lp _ st] assms by blast

theorem integrity_check_exact_witness:
  "lpValidateIntegrity None () [10, 0, 0, 0, 1, 0, 0x81, 0x78, 2, 0xFF] 10 True = Some True \<and>
   (\<exists>segs. lp_rep [10, 0, 0, 0, 1, 0, 0x81, 0x78, 2, 0xFF] segs \<and> lp_total segs = 10)"
proof -
  have "lpValidateIntegrity None () [10, 0, 0, 0, 1, 0, 0x81, 0x78, 2, 0xFF] 10 True = Some True"
    by (simp add: lpValidateIntegrity_def validate_step validate_stop lp_eval)
  moreover have len: "length [10, 0, 0, 0, 1, 0, 0x81, 0x78, 2, 0xFF :: byte] = 10" by simp
  ultimately show ?thesis using integrity_check_exact [of "[10, 0, 0, 0, 1, 0, 0x81, 0x78, 2, 0xFF]" "()"] unfolding len by simp
qed



text \<open>C26. The excepted case is a defect: a block whose first entry is \<^verbatim>\<open>80 81\<close>, an empty string with a length that
  reads on into the header, is accepted by the deep check, but after a prepend, which puts other bytes
  before that entry, moving to it fails the assertion in \<^verbatim>\<open>lpNext\<close>.\<close>

theorem stray_length_accepted:
  "lpValidateIntegrity None () [9, 0, 0, 0, 1, 0, 0x80, 0x81, 0xFF] 9 True = Some True \<and>
   lpPrepend [9, 0, 0, 0, 1, 0, 0x80, 0x81, 0xFF] [0x78] = Some (Some [12, 0, 0, 0, 2, 0, 0x81, 0x78, 2, 0x80, 0x81, 0xFF]) \<and>
   lpNext [12, 0, 0, 0, 2, 0, 0x81, 0x78, 2, 0x80, 0x81, 0xFF] 6 = None"
proof -
  have "le_bytes 4 12 = [12, 0, 0, 0]" "le_bytes 2 2 = [2, 0]" by code_simp+
  then have "lpPrepend [9, 0, 0, 0, 1, 0, 0x80, 0x81, 0xFF] [0x78] = Some (Some [12, 0, 0, 0, 2, 0, 0x81, 0x78, 2, 0x80, 0x81, 0xFF])"
    by (simp add: lpPrepend_def lpFirst_def lpAssertValidEntry_def lp_eval_insert lp_eval)
  then show ?thesis
    by (simp add: lpValidateIntegrity_def validate_step validate_stop lpNext_def lpAssertValidEntry_def lp_eval)
qed

text \<open>C10. \<^verbatim>\<open>lpFind\<close> returns the first of the entries it is asked to look at, every \<open>skip + 1\<close>st from the given one
  on, that equals the string, whether the entry or the string is an integer or not, and the null pointer
  when there is none.\<close>

theorem lpFind_first_match:
  assumes "lp_rep lp segs" "i < length segs"
  shows "lpFind lp (lp_off segs i) s skip =
    Some (map_option (lp_off segs)
      (List.find (\<lambda>j. Suc skip dvd j - i \<and> val_bytes (seg_val (segs ! j)) = s) [i..<length segs]))"
proof -
  have "List.find (\<lambda>j. Suc skip dvd j - i \<and> lp_strings segs ! j = s) [i..<length segs] =
      List.find (\<lambda>j. Suc skip dvd j - i \<and> val_bytes (seg_val (segs ! j)) = s) [i..<length segs]"
    by (rule find_cong) (simp add: lp_strings_nth)
  then show ?thesis using rep_find [OF assms, of s skip] by (simp add: find_index_def)
qed

theorem lpFind_first_match_witness:
  "\<exists>lp0 lp. lpNew 0 = Some lp0 \<and>
     run_lp lp0 [Append (bytes_of ''a''), Append (bytes_of ''7''), Append (bytes_of ''7'')] = Some (Some lp) \<and>
     lpFind lp 6 (bytes_of ''7'') 1 = Some (Some 11)"
proof -
  let ?xs = "[bytes_of ''a'', bytes_of ''7'', bytes_of ''7'']"
  let ?ops = "map Append ?xs"
  obtain lp0 where lp0: "lpNew 0 = Some lp0" "lp_models lp0 []" using models_new by blast
  have small: "lp_size ys < 4294967296" if "sum_list (map (\<lambda>s. length s + 20) ys) < 1000" for ys
    using lp_size_le [of ys] that by simp
  have "run_seq [] ?ops = Some ?xs" by (simp add: Let_def small)
  then obtain lp where lp: "run_lp lp0 ?ops = Some (Some lp)" "lp_models lp ?xs" using run_ok [OF lp0(2), of ?ops] by auto
  have e: "str_enc (bytes_of ''a'') = [0x81, 0x61, 2]" "str_enc (bytes_of ''7'') = [7, 1]"
  proof -
    have s7: "int_bytes 7 = bytes_of ''7''" by code_simp
    have "string2ll (bytes_of ''a'') 1 = Some None" by (simp add: string2ll_def LONG_STR_SIZE_def)
    then show "str_enc (bytes_of ''a'') = [0x81, 0x61, 2]" by (simp add: str_enc_def entry_def lpEncodeString_def lpEncodeBacklen_def)
    show "str_enc (bytes_of ''7'') = [7, 1]" using str_enc_int [of 7] unfolding s7
      by (simp add: fits_def int_enc_def entry_def lpEncodeIntegerGetType_def lpEncodeBacklen_def)
  qed
  have v: "val_bytes (seg_val (str_enc (bytes_of ''a''))) = bytes_of ''a''" "val_bytes (seg_val (str_enc (bytes_of ''7''))) = bytes_of ''7''"
    by (rule str_enc_ok(2), simp)+
  show ?thesis using lpFind_first_match [of lp "map str_enc ?xs" 0 "bytes_of ''7''" 1] lp lp0(1) e v
    by (simp add: lp_models_def lp_off_def upt_rec)
qed

text \<open>C12. \<^verbatim>\<open>lpMerge\<close> of two listpacks, whichever of the blocks is extended, reads as the concatenation of their
  entries, and the result has exactly the size of its content.\<close>

theorem lpMerge_concatenates:
  assumes "lp_rep lp1 segs1" "lp_rep lp2 segs2" "lp_total (segs1 @ segs2) < UINT32_MAX"
  shows "\<exists>lp. lpMerge lp1 lp2 = Some lp \<and> lp_rep lp (segs1 @ segs2) \<and> length lp = lp_total (segs1 @ segs2) \<and>
    lp_reads lp (lp_strings segs1 @ lp_strings segs2)"
proof -
  obtain lp where lp: "lpMerge lp1 lp2 = Some lp" "lp_rep lp (segs1 @ segs2)" "length lp = lp_total (segs1 @ segs2)"
    using rep_merge [OF assms] by blast
  moreover have "lp_strings (segs1 @ segs2) = lp_strings segs1 @ lp_strings segs2" by (simp add: lp_strings_def)
  ultimately show ?thesis using rep_reads [OF lp(2)] by simp
qed

theorem lpMerge_concatenates_witness:
  "\<exists>lp1 lp2 lp. lpNew 0 = Some lp1 \<and> lpNew 20 = Some lp2 \<and> lpMerge lp1 lp2 = Some lp \<and> lp_reads lp [] \<and> length lp = 7"
proof -
  obtain lp1 lp2 where lp: "lpNew 0 = Some lp1" "lp_rep lp1 []" "lpNew 20 = Some lp2" "lp_rep lp2 []"
    using lpNew_ok [of 0] lpNew_ok [of 20] by blast
  then show ?thesis
    using lpMerge_concatenates [OF lp(2,4)] by (auto simp: lp_total_def UINT32_MAX_def lp_strings_def)
qed

text \<open>C11. \<^verbatim>\<open>lpBatchDelete\<close> on the pointers of an increasing list of entries removes exactly those entries, closes
  the gaps in one pass over the block, and shrinks it to its content.\<close>

theorem lpBatchDelete_removes:
  assumes "lp_rep lp segs" "sorted_wrt (<) js" "\<forall>j \<in> set js. j < length segs"
  shows "\<exists>lp'. lpBatchDelete lp (map (lp_off segs) js) = Some lp' \<and> lp_rep lp' (nths segs (- set js))"
proof -
  have "keep_from segs 0 js = nths segs (- set js)"
  proof -
    have "nths segs (- set js) = map fst (filter (\<lambda>p. snd p \<in> - set js) (zip segs [0..<length segs]))" by (simp add: nths_def)
    also have "zip segs [0..<length segs] = map (\<lambda>k. (segs ! k, k)) [0..<length segs]" by (intro nth_equalityI) auto
    finally show ?thesis by (simp add: keep_from_def filter_map o_def)
  qed
  then show ?thesis using rep_batch_delete [OF assms] by simp
qed

theorem lpBatchDelete_removes_witness:
  "\<exists>lp segs lp'. lp_rep lp segs \<and> length segs = 4 \<and> lpBatchDelete lp (map (lp_off segs) [0, 2, 3]) = Some lp' \<and> lp_rep lp' [segs ! 1]"
proof -
  let ?xs = "[bytes_of ''a'', bytes_of ''7'', bytes_of ''b'', bytes_of ''c'']"
  obtain lp0 where lp0: "lpNew 0 = Some lp0" "lp_models lp0 []" using models_new by blast
  have small: "lp_size ys < 4294967296" if "sum_list (map (\<lambda>s. length s + 20) ys) < 1000" for ys
    using lp_size_le [of ys] that by simp
  have "run_seq [] (map Append ?xs) = Some ?xs" by (simp add: Let_def small)
  then obtain lp where lp: "lp_models lp ?xs" using run_ok [OF lp0(2), of "map Append ?xs"] by auto
  define segs where "segs = map str_enc ?xs"
  have r: "lp_rep lp segs" "length segs = 4" using lp by (simp_all add: lp_models_def segs_def)
  have n: "nths segs (- set [0, 2, 3]) = [segs ! 1]" by (simp add: nths_Cons segs_def)
  obtain lp' where "lpBatchDelete lp (map (lp_off segs) [0, 2, 3]) = Some lp'" "lp_rep lp' [segs ! 1]"
    using lpBatchDelete_removes [OF r(1), of "[0, 2, 3]", unfolded n] r(2) by auto
  then show ?thesis using r by blast
qed

end
