(* ===== verification/T_Set.thy ===== *)
theory T_Set
  imports Intset Dict_Types Listpack_Ops
begin

text \<open>
  The set object of \<^verbatim>\<open>t_set.c\<close>: a set of strings that is kept as an intset, a listpack or a hash table and
  changes its encoding as it grows. This theory holds the model of the operations on the object; the
  invariant and the refinement to a set of strings are in \<open>T_Set_Proofs\<close>.

  The encoding and the pointer of the object are one value of the datatype \<open>set_obj\<close>. The resize policy and the
  hash seed of the dicts, and the addresses of the two tables of a dict, which only the fingerprint of an iterator
  reads, are the record \<open>server_env\<close>; \<open>set_server\<close> adds the fields of \<^verbatim>\<open>server\<close> that the code of this file reads.
\<close>

record server_env =
  srv_can_resize :: dictResizeEnable
  srv_seed :: "byte list"
  srv_table_addr :: "u64 \<times> u64"

record set_server = server_env +
  set_max_intset_entries :: nat
  set_max_listpack_entries :: nat
  set_max_listpack_value :: nat

datatype set_obj = Enc_Intset intset | Enc_Listpack "byte list" | Enc_HT "(sds, unit) dict"

datatype set_encoding = OBJ_ENCODING_INTSET | OBJ_ENCODING_LISTPACK | OBJ_ENCODING_HT

fun obj_encoding :: "set_obj \<Rightarrow> set_encoding" where
  "obj_encoding (Enc_Intset _) = OBJ_ENCODING_INTSET"
| "obj_encoding (Enc_Listpack _) = OBJ_ENCODING_LISTPACK"
| "obj_encoding (Enc_HT _) = OBJ_ENCODING_HT"

definition HASHTABLE_MIN_FILL :: nat where "HASHTABLE_MIN_FILL = 10"

definition htNeedsResize :: "('k, 'v) dict \<Rightarrow> bool" where
  "htNeedsResize d \<longleftrightarrow>
     (let size = dictSlots d; used = dictSize d
      in size > DICT_HT_INITIAL_SIZE \<and> used * 100 div size < HASHTABLE_MIN_FILL)"

definition isSdsRepresentableAsLongLong :: "sds \<Rightarrow> int option option" where
  "isSdsRepresentableAsLongLong s = string2ll (sds_bytes s) (sdslen s)"

definition createSetObject :: set_obj where "createSetObject = Enc_HT dictCreate"
definition createIntsetObject :: set_obj where "createIntsetObject = Enc_Intset intsetNew"
definition createSetListpackObject :: "set_obj option" where
  "createSetListpackObject = map_option Enc_Listpack (lpNew 0)"

definition setTypeCreate :: "set_server \<Rightarrow> sds \<Rightarrow> nat \<Rightarrow> set_obj option" where
  "setTypeCreate srv value size_hint =
     do {
       r \<leftarrow> isSdsRepresentableAsLongLong value;
       if r \<noteq> None \<and> size_hint \<le> set_max_intset_entries srv then Some createIntsetObject
       else if size_hint \<le> set_max_listpack_entries srv then createSetListpackObject
       else Some (Enc_HT (fst (dictExpand dictCreate size_hint)))
     }"

section \<open>Iteration\<close>

text \<open>The position of a \<^verbatim>\<open>setTypeIterator\<close>, and the element at it: a string or an integer.\<close>

datatype set_iter = Iter_HT "(sds, unit) dictIterator" | Iter_Intset int | Iter_Listpack "nat option"

datatype set_elem = Elem_Str "byte list" | Elem_Int int

fun setTypeInitIterator :: "set_obj \<Rightarrow> set_iter" where
  "setTypeInitIterator (Enc_HT d) = Iter_HT dictInitIterator"
| "setTypeInitIterator (Enc_Intset s) = Iter_Intset 0"
| "setTypeInitIterator (Enc_Listpack lp) = Iter_Listpack None"

fun setTypeReleaseIterator :: "set_server \<Rightarrow> set_obj \<Rightarrow> set_iter \<Rightarrow> set_obj option" where
  "setTypeReleaseIterator srv (Enc_HT d) (Iter_HT di) =
     map_option Enc_HT (dictResetIterator (fst (srv_table_addr srv)) (snd (srv_table_addr srv)) d di)"
| "setTypeReleaseIterator srv obj it = Some obj"

text \<open>\<open>None\<close> as the element is the result -1. An iterator of another encoding is a panic.\<close>

fun setTypeNext :: "set_server \<Rightarrow> set_obj \<Rightarrow> set_iter \<Rightarrow> (set_obj \<times> set_iter \<times> set_elem option) option" where
  "setTypeNext srv (Enc_HT d) (Iter_HT di) =
     do {
       (d, di, de) \<leftarrow> dictNext (fst (srv_table_addr srv)) (snd (srv_table_addr srv)) d di;
       if de = NULL then Some (Enc_HT d, Iter_HT di, None)
       else do {
         str \<leftarrow> dictGetKey de;
         Some (Enc_HT d, Iter_HT di, Some (Elem_Str (sds_bytes str)))
       }
     }"
| "setTypeNext srv (Enc_Intset s) (Iter_Intset ii) =
     do {
       r \<leftarrow> intsetGet s (word_of_int ii);
       Some (Enc_Intset s, Iter_Intset (ii + 1), map_option Elem_Int r)
     }"
| "setTypeNext srv (Enc_Listpack lp) (Iter_Listpack lpi) =
     do {
       lpi' \<leftarrow> (case lpi of None \<Rightarrow> lpFirst lp | Some p \<Rightarrow> lpNext lp p);
       (case lpi' of
          None \<Rightarrow> Some (Enc_Listpack lp, Iter_Listpack lpi, None)
        | Some p \<Rightarrow> do {
            v \<leftarrow> lpGetValue lp p;
            e \<leftarrow> (case v of Got_Str off n \<Rightarrow> map_option Elem_Str (mem_read lp off n) | Got_Int x \<Rightarrow> Some (Elem_Int x));
            Some (Enc_Listpack lp, Iter_Listpack (Some p), Some e)
          })
     }"
| "setTypeNext srv obj it = None"

text \<open>The bytes of an element: \<^verbatim>\<open>sdsfromlonglong\<close> for an integer.\<close>

definition int_string :: "int \<Rightarrow> byte list option" where
  "int_string v =
     do {
       (buf, len) \<leftarrow> ll2string (replicate LONG_STR_SIZE 0) 0 LONG_STR_SIZE v;
       mem_read buf 0 (unat len)
     }"

fun elem_string :: "set_elem \<Rightarrow> byte list option" where
  "elem_string (Elem_Str s) = Some s"
| "elem_string (Elem_Int v) = int_string v"

definition setTypeNextObject :: "set_server \<Rightarrow> set_obj \<Rightarrow> set_iter \<Rightarrow> (set_obj \<times> set_iter \<times> sds option) option" where
  "setTypeNextObject srv obj it =
     do {
       (obj, it, e) \<leftarrow> setTypeNext srv obj it;
       (case e of
          None \<Rightarrow> Some (obj, it, None)
        | Some e \<Rightarrow> do { s \<leftarrow> elem_string e; Some (obj, it, Some (sds_of s)) })
     }"

fun setTypeSize :: "set_obj \<Rightarrow> (set_obj \<times> nat) option" where
  "setTypeSize (Enc_HT d) = Some (Enc_HT d, dictSize d)"
| "setTypeSize (Enc_Intset s) = Some (Enc_Intset s, unat (intsetLen s))"
| "setTypeSize (Enc_Listpack lp) = map_option (map_prod Enc_Listpack id) (lpLength lp)"

section \<open>Conversion\<close>

text \<open>The loops of \<^verbatim>\<open>setTypeConvertAndExpand\<close>.\<close>

partial_function (option) convert_ht_loop ::
  "set_server \<Rightarrow> set_obj \<Rightarrow> set_iter \<Rightarrow> (sds, unit) dict \<Rightarrow> (set_obj \<times> set_iter \<times> (sds, unit) dict) option" where
  "convert_ht_loop srv obj it d =
     do {
       (obj, it, element) \<leftarrow> setTypeNextObject srv obj it;
       (case element of
          None \<Rightarrow> Some (obj, it, d)
        | Some element \<Rightarrow> do {
            (d, ok) \<leftarrow> dictAdd (srv_can_resize srv) (setDictType (srv_seed srv)) d element ();
            if ok then convert_ht_loop srv obj it d else None
          })
     }"

partial_function (option) convert_lp_loop ::
  "set_server \<Rightarrow> set_obj \<Rightarrow> set_iter \<Rightarrow> byte list \<Rightarrow> (set_obj \<times> set_iter \<times> byte list) option" where
  "convert_lp_loop srv obj it lp =
     do {
       (obj, it, e) \<leftarrow> setTypeNext srv obj it;
       (case e of
          None \<Rightarrow> Some (obj, it, lp)
        | Some e \<Rightarrow> do {
            r \<leftarrow> (case e of Elem_Str s \<Rightarrow> lpAppend lp s | Elem_Int v \<Rightarrow> lpAppendInteger lp v);
            lp \<leftarrow> r;
            convert_lp_loop srv obj it lp
          })
     }"

text \<open>\<open>alloc\<close> is the outcome of the allocation of a table that may fail when \<open>panic\<close> is not set; the result
  is the object and whether it was converted.\<close>

definition setTypeConvertAndExpand ::
  "set_server \<Rightarrow> set_obj \<Rightarrow> set_encoding \<Rightarrow> nat \<Rightarrow> bool \<Rightarrow> bool \<Rightarrow> (set_obj \<times> bool) option" where
  "setTypeConvertAndExpand srv obj enc cap panic alloc =
     (if obj_encoding obj = enc then None
      else case enc of
        OBJ_ENCODING_HT \<Rightarrow> do {
          let (d, ok) = (if panic then (fst (dictExpand dictCreate cap), True) else dictTryExpand dictCreate cap alloc);
          if \<not> ok then Some (obj, False)
          else do {
            (obj, it, d) \<leftarrow> convert_ht_loop srv obj (setTypeInitIterator obj) d;
            _ \<leftarrow> setTypeReleaseIterator srv obj it;
            Some (Enc_HT d, True)
          }
        }
      | OBJ_ENCODING_LISTPACK \<Rightarrow> do {
          (obj, n) \<leftarrow> setTypeSize obj;
          estcap \<leftarrow> (case obj of
              Enc_Intset s \<Rightarrow>
                if n > 0 then do {
                  mn \<leftarrow> intsetMin s;
                  mx \<leftarrow> intsetMax s;
                  Some (max (lpEstimateBytesRepeatedInteger mn cap) (lpEstimateBytesRepeatedInteger mx cap))
                } else Some (cap * 2)
            | _ \<Rightarrow> Some (cap * 2));
          lp \<leftarrow> lpNew estcap;
          (obj, it, lp) \<leftarrow> convert_lp_loop srv obj (setTypeInitIterator obj) lp;
          _ \<leftarrow> setTypeReleaseIterator srv obj it;
          Some (Enc_Listpack lp, True)
        }
      | OBJ_ENCODING_INTSET \<Rightarrow> None)"

definition setTypeConvert :: "set_server \<Rightarrow> set_obj \<Rightarrow> set_encoding \<Rightarrow> set_obj option" where
  "setTypeConvert srv obj enc =
     do { (obj, n) \<leftarrow> setTypeSize obj; map_option fst (setTypeConvertAndExpand srv obj enc n True True) }"

definition setTypeMaybeConvert :: "set_server \<Rightarrow> set_obj \<Rightarrow> nat \<Rightarrow> set_obj option" where
  "setTypeMaybeConvert srv obj size_hint =
     (if obj_encoding obj = OBJ_ENCODING_LISTPACK \<and> size_hint > set_max_listpack_entries srv \<or>
         obj_encoding obj = OBJ_ENCODING_INTSET \<and> size_hint > set_max_intset_entries srv
      then map_option fst (setTypeConvertAndExpand srv obj OBJ_ENCODING_HT size_hint True True)
      else Some obj)"

definition intsetMaxEntries :: "set_server \<Rightarrow> nat" where
  "intsetMaxEntries srv =
     (let max_entries = set_max_intset_entries srv in if max_entries \<ge> 2 ^ 30 then 2 ^ 30 else max_entries)"

definition maybeConvertIntset :: "set_server \<Rightarrow> set_obj \<Rightarrow> set_obj option" where
  "maybeConvertIntset srv subject =
     (case subject of
        Enc_Intset s \<Rightarrow>
          if unat (intsetLen s) > intsetMaxEntries srv then setTypeConvert srv subject OBJ_ENCODING_HT
          else Some subject
      | _ \<Rightarrow> None)"

partial_function (option) to_intset_loop ::
  "set_server \<Rightarrow> set_obj \<Rightarrow> set_iter \<Rightarrow> intset \<Rightarrow> (set_obj \<times> set_iter \<times> intset) option" where
  "to_intset_loop srv obj it s =
     do {
       (obj, it, e) \<leftarrow> setTypeNext srv obj it;
       (case e of
          None \<Rightarrow> Some (obj, it, s)
        | Some e \<Rightarrow> do {
            v \<leftarrow> (case e of
                   Elem_Str str \<Rightarrow> do { r \<leftarrow> string2ll str (length str); r }
                 | Elem_Int v \<Rightarrow> Some v);
            (s, success) \<leftarrow> intsetAdd s v;
            if success then to_intset_loop srv obj it s else None
          })
     }"

definition maybeConvertToIntset :: "set_server \<Rightarrow> set_obj \<Rightarrow> set_obj option" where
  "maybeConvertToIntset srv obj =
     (if obj_encoding obj = OBJ_ENCODING_INTSET then Some obj
      else do {
        (obj, n) \<leftarrow> setTypeSize obj;
        if n > intsetMaxEntries srv then Some obj
        else do {
          (obj, it, s) \<leftarrow> to_intset_loop srv obj (setTypeInitIterator obj) intsetNew;
          _ \<leftarrow> setTypeReleaseIterator srv obj it;
          Some (Enc_Intset s)
        }
      })"

section \<open>Operations\<close>

text \<open>The element of a call: an SDS string, a string and its length, or an integer.\<close>

datatype set_arg = Arg_Sds sds | Arg_Chars "byte list" | Arg_Int int

fun arg_string :: "set_arg \<Rightarrow> byte list option" where
  "arg_string (Arg_Sds s) = Some (sds_bytes s)"
| "arg_string (Arg_Chars cs) = Some cs"
| "arg_string (Arg_Int v) = int_string v"

fun arg_sds :: "set_arg \<Rightarrow> byte list \<Rightarrow> sds" where
  "arg_sds (Arg_Sds s) str = s"
| "arg_sds _ str = sds_of str"

text \<open>A conversion to a hash table and the addition of an element that is not in it.\<close>

definition convert_and_add :: "set_server \<Rightarrow> set_obj \<Rightarrow> nat \<Rightarrow> byte list \<Rightarrow> (set_obj \<times> bool) option" where
  "convert_and_add srv obj cap str =
     do {
       (obj, _) \<leftarrow> setTypeConvertAndExpand srv obj OBJ_ENCODING_HT cap True True;
       (case obj of
          Enc_HT d \<Rightarrow> do {
            (d, ok) \<leftarrow> dictAdd (srv_can_resize srv) (setDictType (srv_seed srv)) d (sds_of str) ();
            if ok then Some (Enc_HT d, True) else None
          }
        | _ \<Rightarrow> None)
     }"

definition add_integer :: "set_server \<Rightarrow> intset \<Rightarrow> int \<Rightarrow> (set_obj \<times> bool) option" where
  "add_integer srv s v =
     do {
       (s, success) \<leftarrow> intsetAdd s v;
       obj \<leftarrow> (if success then maybeConvertIntset srv (Enc_Intset s) else Some (Enc_Intset s));
       Some (obj, success)
     }"

text \<open>The longest string of an intset, and the size of a listpack that holds it.\<close>

definition lp_estimate :: "intset \<Rightarrow> (nat \<times> nat) option" where
  "lp_estimate s =
     (let n = unat (intsetLen s)
      in if n \<noteq> 0 then do {
           mx \<leftarrow> intsetMax s;
           mn \<leftarrow> intsetMin s;
           Some (max (unat (sdigits10 mx)) (unat (sdigits10 mn)),
                 max (lpEstimateBytesRepeatedInteger mx n) (lpEstimateBytesRepeatedInteger mn n))
         } else Some (0, 0))"

text \<open>The part of \<^verbatim>\<open>setTypeAddAux\<close> after the conversion of an integer to the string \<open>str\<close>.\<close>

definition add_string :: "set_server \<Rightarrow> set_obj \<Rightarrow> set_arg \<Rightarrow> byte list \<Rightarrow> (set_obj \<times> bool) option" where
  "add_string srv obj arg str =
     (case obj of
        Enc_HT d \<Rightarrow> do {
          let sdsval = arg_sds arg str;
          (d, position, _) \<leftarrow> dictFindPositionForInsert (srv_can_resize srv) (setDictType (srv_seed srv)) d sdsval;
          (case position of
             None \<Rightarrow> Some (Enc_HT d, False)
           | Some position \<Rightarrow> do {
               (d, _) \<leftarrow> dictInsertAtPosition (setDictType (srv_seed srv)) d sdsval position;
               Some (Enc_HT d, True)
             })
        }
      | Enc_Listpack lp \<Rightarrow> do {
          p \<leftarrow> lpFirst lp;
          p \<leftarrow> (case p of None \<Rightarrow> Some None | Some p \<Rightarrow> lpFind lp p str 0);
          if p \<noteq> None then Some (Enc_Listpack lp, False)
          else do {
            (lp, n) \<leftarrow> lpLength lp;
            safe \<leftarrow> lpSafeToAdd (Some lp) (length str);
            if n < set_max_listpack_entries srv \<and> length str \<le> set_max_listpack_value srv \<and> safe then do {
              r \<leftarrow> (case arg of Arg_Int v \<Rightarrow> lpAppendInteger lp v | _ \<Rightarrow> lpAppend lp str);
              lp \<leftarrow> r;
              Some (Enc_Listpack lp, True)
            } else do {
              (lp, n) \<leftarrow> lpLength lp;
              convert_and_add srv (Enc_Listpack lp) (n + 1) str
            }
          }
        }
      | Enc_Intset s \<Rightarrow> do {
          r \<leftarrow> string2ll str (length str);
          (case r of
             Some v \<Rightarrow> add_integer srv s v
           | None \<Rightarrow> do {
               let n = unat (intsetLen s);
               (maxelelen, totsize) \<leftarrow> lp_estimate s;
               safe \<leftarrow> lpSafeToAdd None (totsize + length str);
               if n < set_max_listpack_entries srv \<and> length str \<le> set_max_listpack_value srv \<and>
                  maxelelen \<le> set_max_listpack_value srv \<and> safe
               then do {
                 (obj, _) \<leftarrow> setTypeConvertAndExpand srv (Enc_Intset s) OBJ_ENCODING_LISTPACK (n + 1) True True;
                 (case obj of
                    Enc_Listpack lp \<Rightarrow> do {
                      r \<leftarrow> lpAppend lp str;
                      lp \<leftarrow> r;
                      lp \<leftarrow> lpShrinkToFit lp;
                      Some (Enc_Listpack lp, True)
                    }
                  | _ \<Rightarrow> None)
               } else convert_and_add srv (Enc_Intset s) (n + 1) str
             })
        })"

definition setTypeAddAux :: "set_server \<Rightarrow> set_obj \<Rightarrow> set_arg \<Rightarrow> (set_obj \<times> bool) option" where
  "setTypeAddAux srv obj arg =
     (case (arg, obj) of
        (Arg_Int v, Enc_Intset s) \<Rightarrow> add_integer srv s v
      | _ \<Rightarrow> do { str \<leftarrow> arg_string arg; add_string srv obj arg str })"

definition setTypeAdd :: "set_server \<Rightarrow> set_obj \<Rightarrow> sds \<Rightarrow> (set_obj \<times> bool) option" where
  "setTypeAdd srv subject value = setTypeAddAux srv subject (Arg_Sds value)"

definition setTypeRemoveAux :: "set_server \<Rightarrow> set_obj \<Rightarrow> set_arg \<Rightarrow> (set_obj \<times> bool) option" where
  "setTypeRemoveAux srv obj arg =
     (case (arg, obj) of
        (Arg_Int v, Enc_Intset s) \<Rightarrow> map_option (map_prod Enc_Intset id) (intsetRemove s v)
      | _ \<Rightarrow> do {
          str \<leftarrow> arg_string arg;
          (case obj of
             Enc_HT d \<Rightarrow> do {
               (d, deleted) \<leftarrow> dictDelete (srv_can_resize srv) (setDictType (srv_seed srv)) d (arg_sds arg str);
               let d = (if deleted \<and> htNeedsResize d then fst (dictResize (srv_can_resize srv) d) else d);
               Some (Enc_HT d, deleted)
             }
           | Enc_Listpack lp \<Rightarrow> do {
               p \<leftarrow> lpFirst lp;
               (case p of
                  None \<Rightarrow> Some (Enc_Listpack lp, False)
                | Some p \<Rightarrow> do {
                    p \<leftarrow> lpFind lp p str 0;
                    (case p of
                       None \<Rightarrow> Some (Enc_Listpack lp, False)
                     | Some p \<Rightarrow> do {
                         r \<leftarrow> lpDelete lp p;
                         (lp, _) \<leftarrow> r;
                         Some (Enc_Listpack lp, True)
                       })
                  })
             }
           | Enc_Intset s \<Rightarrow> do {
               r \<leftarrow> string2ll str (length str);
               (case r of
                  None \<Rightarrow> Some (Enc_Intset s, False)
                | Some v \<Rightarrow> map_option (map_prod Enc_Intset id) (intsetRemove s v))
             })
        })"

definition setTypeRemove :: "set_server \<Rightarrow> set_obj \<Rightarrow> sds \<Rightarrow> (set_obj \<times> bool) option" where
  "setTypeRemove srv setobj value = setTypeRemoveAux srv setobj (Arg_Sds value)"

text \<open>A lookup in a hash table may move entries: the object is part of the result.\<close>

definition setTypeIsMemberAux :: "set_server \<Rightarrow> set_obj \<Rightarrow> set_arg \<Rightarrow> (set_obj \<times> bool) option" where
  "setTypeIsMemberAux srv obj arg =
     (case (arg, obj) of
        (Arg_Int v, Enc_Intset s) \<Rightarrow> map_option (\<lambda>b. (obj, b)) (intsetFind s v)
      | _ \<Rightarrow> do {
          str \<leftarrow> arg_string arg;
          (case obj of
             Enc_Listpack lp \<Rightarrow> do {
               p \<leftarrow> lpFirst lp;
               (case p of
                  None \<Rightarrow> Some (obj, False)
                | Some p \<Rightarrow> do { q \<leftarrow> lpFind lp p str 0; Some (obj, q \<noteq> None) })
             }
           | Enc_Intset s \<Rightarrow> do {
               r \<leftarrow> string2ll str (length str);
               (case r of None \<Rightarrow> Some (obj, False) | Some v \<Rightarrow> map_option (\<lambda>b. (obj, b)) (intsetFind s v))
             }
           | Enc_HT d \<Rightarrow> do {
               (d, he) \<leftarrow> dictFind (srv_can_resize srv) (setDictType (srv_seed srv)) d (arg_sds arg str);
               Some (Enc_HT d, he \<noteq> None)
             })
        })"

definition setTypeIsMember :: "set_server \<Rightarrow> set_obj \<Rightarrow> sds \<Rightarrow> (set_obj \<times> bool) option" where
  "setTypeIsMember srv subject value = setTypeIsMemberAux srv subject (Arg_Sds value)"

text \<open>The loop of \<^verbatim>\<open>setTypeDup\<close> over a hash table: the source, the iterator and the copy.\<close>

partial_function (option) dup_loop ::
  "set_server \<Rightarrow> set_obj \<Rightarrow> set_iter \<Rightarrow> set_obj \<Rightarrow> (set_obj \<times> set_iter \<times> set_obj) option" where
  "dup_loop srv obj it new =
     do {
       (obj, it, e) \<leftarrow> setTypeNext srv obj it;
       (case e of
          Some (Elem_Str str) \<Rightarrow> do {
            (new, _) \<leftarrow> setTypeAdd srv new (sds_of str);
            dup_loop srv obj it new
          }
        | _ \<Rightarrow> Some (obj, it, new))
     }"

definition setTypeDup :: "set_server \<Rightarrow> set_obj \<Rightarrow> (set_obj \<times> set_obj) option" where
  "setTypeDup srv obj =
     (case obj of
        Enc_Intset s \<Rightarrow> do {
          blob \<leftarrow> mem_read (is_contents s) 0 (intsetBlobLen s - sizeof_intset);
          Some (obj, Enc_Intset (s\<lparr>is_contents := blob\<rparr>))
        }
      | Enc_Listpack lp \<Rightarrow> do { sz \<leftarrow> lpBytes lp; new \<leftarrow> mem_read lp 0 sz; Some (obj, Enc_Listpack new) }
      | Enc_HT d \<Rightarrow> do {
          (obj, it, new) \<leftarrow> dup_loop srv obj (setTypeInitIterator obj) (Enc_HT (fst (dictExpand dictCreate (dictSize d))));
          obj \<leftarrow> setTypeReleaseIterator srv obj it;
          Some (obj, new)
        })"

end
