(* ===== verification/T_Set_Proofs.thy ===== *)
theory T_Set_Proofs
  imports T_Set
begin

text \<open>
  The set object refines a set of strings. \<open>set_list\<close> reads the strings of an object in the order of its
  iterator, \<open>set_ok\<close> is the invariant of the three encodings, and every conversion keeps both. This theory has
  iteration, conversion and addition; \<open>T_Set_Ops\<close> has the other operations.
\<close>

section \<open>The strings of a set object\<close>

fun set_list :: "set_obj \<Rightarrow> byte list list" where
  "set_list (Enc_Intset s) = map int_bytes (intset_list s)"
| "set_list (Enc_Listpack lp) = (case lpFirst lp \<bind> collect_next lp of Some xs \<Rightarrow> xs | None \<Rightarrow> [])"
| "set_list (Enc_HT d) = map (sds_bytes \<circ> fst) (dict_entries d)"

definition ht_ok :: "set_server \<Rightarrow> (sds, unit) dict \<Rightarrow> bool" where
  "ht_ok srv d \<longleftrightarrow> dict_ok (setDictType (srv_seed srv)) id d"

fun set_ok :: "set_server \<Rightarrow> set_obj \<Rightarrow> bool" where
  "set_ok srv (Enc_Intset s) \<longleftrightarrow> intset_ok s \<and> length (intset_list s) \<le> INTSET_SAFE_ENTRIES"
| "set_ok srv (Enc_Listpack lp) \<longleftrightarrow>
     (\<exists>segs. lp_rep lp segs \<and> distinct (lp_strings segs) \<and> (\<forall>s \<in> set (lp_strings segs). length s < 2 ^ 31))"
| "set_ok srv (Enc_HT d) \<longleftrightarrow> ht_ok srv d"

definition set_elems :: "set_obj \<Rightarrow> sds set" where
  "set_elems obj = sds_of ` set (set_list obj)"

lemma set_list_lp: "lp_rep lp segs \<Longrightarrow> set_list (Enc_Listpack lp) = lp_strings segs"
  using rep_reads [of lp segs] by (simp add: lp_reads_def)

declare set_list.simps(2) [simp del]

lemma sds_of_bytes [simp]: "sds_of (sds_bytes s) = s"
  by (rule sds_bytes_inverse)

lemma sds_bytes_of [simp]: "length s < 2 ^ 31 \<Longrightarrow> sds_bytes (sds_of s) = s"
  by (simp add: sds_of_inverse)

lemma length_int_bytes_small: "is_int64 v \<Longrightarrow> length (int_bytes v) < 2 ^ 31"
  using length_int_bytes [of v] by (simp add: LONG_STR_SIZE_def)

lemma intset_int64: "intset_ok s \<Longrightarrow> v \<in> set (intset_list s) \<Longrightarrow> is_int64 v"
  using intset_ok_rep [of s] by (auto simp: intset_rep_def intro: fits_mono)

lemma inj_int_bytes: "inj_on int_bytes {v. is_int64 v}"
  by (auto intro!: inj_onI int_bytes_inj)

lemma set_list_ok:
  assumes "set_ok srv obj"
  shows "distinct (set_list obj)" "\<forall>s \<in> set (set_list obj). length s < 2 ^ 31"
proof (atomize (full), cases obj)
  case (Enc_Intset s)
  then have ok: "intset_ok s" using assms by simp
  then have "distinct (intset_list s)" by (simp add: intset_ok_def ssorted_distinct)
  moreover have "inj_on int_bytes (set (intset_list s))"
    by (rule inj_on_subset [OF inj_int_bytes]) (auto intro: intset_int64 [OF ok])
  ultimately show "distinct (set_list obj) \<and> (\<forall>s \<in> set (set_list obj). length s < 2 ^ 31)"
    using Enc_Intset length_int_bytes_small intset_int64 [OF ok] by (simp add: distinct_map)
next
  case (Enc_Listpack lp)
  then show "distinct (set_list obj) \<and> (\<forall>s \<in> set (set_list obj). length s < 2 ^ 31)"
    using assms set_list_lp [of lp] by auto
next
  case (Enc_HT d)
  then have "distinct (map fst (dict_entries d))" using assms by (simp add: ht_ok_def dict_ok_def)
  then have "distinct (map sds_bytes (map fst (dict_entries d)))"
    by (simp add: distinct_map comp_inj_on inj_on_def sds_eq_iff del: map_map)
  then show "distinct (set_list obj) \<and> (\<forall>s \<in> set (set_list obj). length s < 2 ^ 31)"
    using Enc_HT by simp
qed

lemma set_elems_iff: "set_ok srv obj \<Longrightarrow> v \<in> set_elems obj \<longleftrightarrow> sds_bytes v \<in> set (set_list obj)"
  using set_list_ok(2) [of srv obj] by (force simp: set_elems_def image_iff)

lemma card_set_elems: "set_ok srv obj \<Longrightarrow> card (set_elems obj) = length (set_list obj)"
proof -
  assume ok: "set_ok srv obj"
  have "inj_on sds_of (set (set_list obj))"
    by (rule inj_on_inverseI [where g = sds_bytes]) (use set_list_ok(2) [OF ok] in auto)
  then show ?thesis using distinct_card [OF set_list_ok(1) [OF ok]] by (simp add: set_elems_def card_image)
qed

text \<open>The keys of a hash table that holds a set.\<close>

definition ht_keys :: "(sds, unit) dict \<Rightarrow> sds set" where
  "ht_keys d = fst ` set (dict_entries d)"

lemma ht_elems: "set_elems (Enc_HT d) = ht_keys d"
  by (force simp: set_elems_def ht_keys_def image_iff)

lemma ht_keys_map: "k \<in> ht_keys d \<longleftrightarrow> dict_map id d k \<noteq> None"
  by (auto simp: ht_keys_def dict_map_def map_of_eq_None_iff image_iff)

lemma ht_keys_bag: "dict_bag d = dict_bag d' \<Longrightarrow> ht_keys d = ht_keys d'"
  by (metis ht_keys_def set_mset_mset)

lemma ht_add_ok:
  assumes "ht_ok srv d" "length (dict_entries d) < 2 ^ 60"
  shows "\<exists>d'. dictAdd can (setDictType (srv_seed srv)) d k () = Some (d', k \<notin> ht_keys d) \<and>
     ht_ok srv d' \<and> ht_keys d' = insert k (ht_keys d) \<and>
     length (dict_entries d') \<le> Suc (length (dict_entries d))"
proof -
  obtain d' where d': "dictAdd can (setDictType (srv_seed srv)) d k () = Some (d', dict_map id d k = None)"
     "ht_ok srv d'" "length (dict_entries d') \<le> Suc (length (dict_entries d))"
     "dict_map id d' = (if dict_map id d k = None
        then (dict_map id d)(k \<mapsto> setDict.new_value (srv_seed srv) ()) else dict_map id d)"
    using setDict.dictAdd_ok [of "srv_seed srv" d can k "()"] assms by (auto simp: ht_ok_def)
  moreover have "ht_keys d' = insert k (ht_keys d)"
    using d'(4) by (auto simp: set_eq_iff ht_keys_map split: if_splits)
  ultimately show ?thesis by (auto simp: ht_keys_map)
qed

lemma u_expand_ok:
  assumes "ht_ok srv d" "n < 2 ^ 64"
  shows "ht_ok srv (fst (u_dictExpand d n alloc)) \<and> dict_bag (fst (u_dictExpand d n alloc)) = dict_bag d"
  using dictExpand_ok [OF assms [unfolded ht_ok_def], of alloc] unfolding ht_ok_def Let_def split_beta by (elim conjE) (intro conjI)

lemma fst_dictExpand: "fst (dictExpand d n) = fst (u_dictExpand d n True)"
  "fst (dictTryExpand d n alloc) = fst (u_dictExpand d n alloc)"
  by (simp_all add: dictExpand_def dictTryExpand_def Let_def split_beta)

lemma ht_expand_ok:
  assumes "ht_ok srv d" "n < 2 ^ 64" "e = fst (dictExpand d n) \<or> e = fst (dictTryExpand d n alloc)"
  shows "ht_ok srv e" "ht_keys e = ht_keys d" "length (dict_entries e) = length (dict_entries d)"
proof -
  have "ht_ok srv e \<and> dict_bag e = dict_bag d"
    using assms(3) u_expand_ok [OF assms(1,2)] by (auto simp: fst_dictExpand)
  then show "ht_ok srv e" "ht_keys e = ht_keys d" "length (dict_entries e) = length (dict_entries d)"
    using ht_keys_bag [of e d] bag_length [of e d] by simp_all
qed

lemma ht_new: "ht_ok srv dictCreate" "ht_keys dictCreate = {}" "dict_entries dictCreate = []"
  by (simp_all add: dictCreate_ok ht_keys_def ht_ok_def)


section \<open>Iteration\<close>

fun elem_is :: "set_elem \<Rightarrow> byte list \<Rightarrow> bool" where
  "elem_is (Elem_Str s) x \<longleftrightarrow> s = x"
| "elem_is (Elem_Int v) x \<longleftrightarrow> is_int64 v \<and> int_bytes v = x"

lemma int_string_ok: "is_int64 v \<Longrightarrow> int_string v = Some (int_bytes v)"
proof -
  assume v: "is_int64 v"
  have l: "length (int_bytes v) < LONG_STR_SIZE" by (rule length_int_bytes [OF v])
  obtain b where "ll2string (replicate LONG_STR_SIZE 0) 0 LONG_STR_SIZE v = Some (b, of_nat (length (int_bytes v)))"
    "b = int_bytes v @ [0] @ drop (length (int_bytes v) + 1) (replicate LONG_STR_SIZE 0)"
    using ll2string_ok [where b = "replicate LONG_STR_SIZE 0" and dst = 0 and dstlen = LONG_STR_SIZE and v = v] v l by (auto simp: LONG_STR_SIZE_def)
  then show ?thesis using l by (simp add: int_string_def mem_read_def LONG_STR_SIZE_def unat_of_nat_u32)
qed

lemma elem_string_ok: "elem_is e x \<Longrightarrow> elem_string e = Some x"
  by (cases e) (auto simp: int_string_ok)

text \<open>An iterator over an object with the strings \<open>xs\<close> still to come.\<close>

fun iter_at :: "set_server \<Rightarrow> set_obj \<Rightarrow> set_iter \<Rightarrow> byte list list \<Rightarrow> bool" where
  "iter_at srv (Enc_HT d) (Iter_HT di) xs \<longleftrightarrow>
     ht_ok srv d \<and> it_ok (setDictType (srv_seed srv)) d di \<and> \<not> it_safe di \<and>
     book_ok (fst (srv_table_addr srv)) (snd (srv_table_addr srv)) (pauserehash d) d di \<and>
     xs = map (sds_bytes \<circ> fst) (remaining d di)"
| "iter_at srv (Enc_Intset s) (Iter_Intset ii) xs \<longleftrightarrow>
     intset_ok s \<and> length (intset_list s) \<le> INTSET_SAFE_ENTRIES \<and>
     (\<exists>i. ii = int i \<and> i \<le> length (intset_list s) \<and> xs = map int_bytes (drop i (intset_list s)))"
| "iter_at srv (Enc_Listpack lp) (Iter_Listpack lpi) xs \<longleftrightarrow>
     (\<exists>segs i. lp_rep lp segs \<and> i \<le> length segs \<and> xs = drop i (lp_strings segs) \<and>
        lpi = (if i = 0 then None else Some (lp_off segs (i - 1))))"
| "iter_at srv obj it xs \<longleftrightarrow> False"

lemma iter_init: "set_ok srv obj \<Longrightarrow> iter_at srv obj (setTypeInitIterator obj) (set_list obj)"
proof (cases obj)
  case (Enc_HT d)
  assume "set_ok srv obj"
  then have ok: "ht_ok srv d" using Enc_HT by simp
  then have "remaining d dictInitIterator = dict_entries d" unfolding ht_ok_def by (rule remaining_init) simp
  with ok Enc_HT show ?thesis by (simp add: it_ok_def book_ok_def started_def dictInitIterator_def)
next
  case (Enc_Listpack lp)
  assume "set_ok srv obj"
  then show ?thesis using Enc_Listpack set_list_lp [of lp] by (auto intro!: exI [of _ 0])
qed auto


lemma next_ht:
  assumes "iter_at srv (Enc_HT d) (Iter_HT di) xs"
  shows "\<exists>it'. setTypeNext srv (Enc_HT d) (Iter_HT di) = Some (Enc_HT d, it', if xs = [] then None else Some (Elem_Str (hd xs))) \<and>
     (xs \<noteq> [] \<longrightarrow> iter_at srv (Enc_HT d) it' (tl xs)) \<and> setTypeReleaseIterator srv (Enc_HT d) it' = Some (Enc_HT d)"
proof -
  let ?a0 = "fst (srv_table_addr srv)" and ?a1 = "snd (srv_table_addr srv)"
  have ok: "ht_ok srv d" and it: "it_ok (setDictType (srv_seed srv)) d di" and u: "\<not> it_safe di"
    and b: "book_ok ?a0 ?a1 (pauserehash d) d di" and xs: "xs = map (sds_bytes \<circ> fst) (remaining d di)"
    using assms by auto
  obtain d' di' he where n: "dictNext ?a0 ?a1 d di = Some (d', di', he)"
    "next_spec ?a0 ?a1 (setDictType (srv_seed srv)) d di (d', di', he)"
    using dictNext_ok [OF ok [unfolded ht_ok_def] it] by (metis prod_cases3)
  then have s: "same_tables d d'" "\<not> it_safe di'" "it_ok (setDictType (srv_seed srv)) d di'" "it_index di' \<noteq> -1"
    and b': "book_ok ?a0 ?a1 (pauserehash d) d' di'"
    using u b by (auto simp: next_spec_def Let_def)
  then have "d' = d" by (cases d; cases d') (auto simp: same_tables_def book_ok_def)
  moreover from this have "dictResetIterator ?a0 ?a1 d di' = Some d"
    using s(2,4) b' by (auto simp: dictResetIterator_def book_ok_def started_def)
  ultimately show ?thesis using n s b' ok xs
    by (cases "remaining d di") (auto simp: next_spec_def Let_def)
qed

lemma next_intset:
  assumes "iter_at srv (Enc_Intset s) (Iter_Intset ii) xs"
  shows "\<exists>it' e. setTypeNext srv (Enc_Intset s) (Iter_Intset ii) = Some (Enc_Intset s, it', e) \<and>
     (case xs of [] \<Rightarrow> e = None | x # xs' \<Rightarrow> (\<exists>e'. e = Some e' \<and> elem_is e' x) \<and> iter_at srv (Enc_Intset s) it' xs')"
proof -
  obtain i where i: "ii = int i" "i \<le> length (intset_list s)" "xs = map int_bytes (drop i (intset_list s))"
    and ok: "intset_ok s" and small: "length (intset_list s) \<le> INTSET_SAFE_ENTRIES"
    using assms by auto
  have len: "length (intset_list s) = unat (is_length s)" by (simp add: intset_list_def)
  have i32: "i < 2 ^ 32" using i(2) small by (simp add: INTSET_SAFE_ENTRIES_def)
  then have w: "unat (word_of_int ii :: u32) = i" by (simp add: i(1) unat_of_nat_u32)
  have lt: "(word_of_int ii :: u32) < is_length s \<longleftrightarrow> i < length (intset_list s)"
    using w len by (simp add: word_less_nat_alt)
  have "intsetGet s (word_of_int ii) = Some (if i < length (intset_list s) then Some (intset_list s ! i) else None)"
    using intsetGet_ok [OF ok, of "word_of_int ii"] small len w lt by (simp add: INTSET_SAFE_ENTRIES_def)
  then show ?thesis using i ok small intset_int64 [OF ok]
    by (cases "i < length (intset_list s)")
      (auto simp: Cons_nth_drop_Suc [symmetric] intro!: exI [of _ "Suc i"])
qed

lemma next_lp:
  assumes "iter_at srv (Enc_Listpack lp) (Iter_Listpack lpi) xs"
  shows "\<exists>it' e. setTypeNext srv (Enc_Listpack lp) (Iter_Listpack lpi) = Some (Enc_Listpack lp, it', e) \<and>
     (case xs of [] \<Rightarrow> e = None | x # xs' \<Rightarrow> (\<exists>e'. e = Some e' \<and> elem_is e' x) \<and> iter_at srv (Enc_Listpack lp) it' xs')"
proof -
  obtain segs i where r: "lp_rep lp segs" and i: "i \<le> length segs" "xs = drop i (lp_strings segs)"
    and p: "lpi = (if i = 0 then None else Some (lp_off segs (i - 1)))" using assms by auto
  have nxt: "(case lpi of None \<Rightarrow> lpFirst lp | Some p \<Rightarrow> lpNext lp p) =
      Some (if i < length segs then Some (lp_off segs i) else None)"
    using rep_first_index [OF r] rep_next [OF r, of "i - 1"] i(1) by (cases i) (auto simp: p)
  show ?thesis
  proof (cases "i < length segs")
    case False
    then show ?thesis using nxt i by simp
  next
    case True
    have xs: "xs = val_bytes (seg_val (segs ! i)) # drop (Suc i) (lp_strings segs)"
      using True i(2) by (simp add: Cons_nth_drop_Suc [symmetric] lp_strings_def)
    have at: "iter_at srv (Enc_Listpack lp) (Iter_Listpack (Some (lp_off segs i))) (drop (Suc i) (lp_strings segs))"
      using r True by (auto intro!: exI [of _ segs] exI [of _ "Suc i"])
    from lp_rep_get [OF r True] show ?thesis
    proof cases
      case (1 v)
      then show ?thesis using nxt True at xs by (simp add: lpGetValue_def lpGet_def)
    next
      case (2 k n s)
      then show ?thesis using nxt True at xs by (simp add: lpGetValue_def lpGet_def)
    qed
  qed
qed

text \<open>One step of the iterator; the object is not changed, and after the last element the iterator can be released.\<close>

lemma next_ok:
  assumes "iter_at srv obj it xs"
  shows "\<exists>it' e. setTypeNext srv obj it = Some (obj, it', e) \<and>
     (case xs of [] \<Rightarrow> e = None \<and> setTypeReleaseIterator srv obj it' = Some obj
      | x # xs' \<Rightarrow> (\<exists>e'. e = Some e' \<and> elem_is e' x) \<and> iter_at srv obj it' xs')"
proof (cases obj)
  case (Enc_HT d)
  then obtain di where "it = Iter_HT di" using assms by (cases it) auto
  with Enc_HT next_ht [of srv d di xs] assms show ?thesis by (cases xs) auto
next
  case (Enc_Intset s)
  then obtain ii where "it = Iter_Intset ii" using assms by (cases it) auto
  with Enc_Intset next_intset [of srv s ii xs] assms show ?thesis
    by (cases xs) (auto simp del: setTypeNext.simps iter_at.simps)
next
  case (Enc_Listpack lp)
  then obtain ii where "it = Iter_Listpack ii" using assms by (cases it) auto
  with Enc_Listpack next_lp [of srv lp ii xs] assms show ?thesis
    by (cases xs) (auto simp del: setTypeNext.simps iter_at.simps)
qed

lemma next_object_ok:
  assumes "iter_at srv obj it xs"
  shows "\<exists>it'. setTypeNextObject srv obj it = Some (obj, it', case xs of [] \<Rightarrow> None | x # _ \<Rightarrow> Some (sds_of x)) \<and>
     (case xs of [] \<Rightarrow> setTypeReleaseIterator srv obj it' = Some obj | x # xs' \<Rightarrow> iter_at srv obj it' xs')"
  using next_ok [OF assms] elem_string_ok by (force simp: setTypeNextObject_def split: list.splits)


section \<open>Conversion\<close>

lemma convert_ht_loop_ok:
  assumes "iter_at srv obj it xs" "ht_ok srv d" "distinct xs"
    "\<forall>x \<in> set xs. length x < 2 ^ 31 \<and> sds_of x \<notin> ht_keys d" "length (dict_entries d) + length xs < 2 ^ 60"
  shows "\<exists>it' d'. convert_ht_loop srv obj it d = Some (obj, it', d') \<and> setTypeReleaseIterator srv obj it' = Some obj \<and>
     ht_ok srv d' \<and> ht_keys d' = ht_keys d \<union> sds_of ` set xs \<and>
     length (dict_entries d') \<le> length (dict_entries d) + length xs"
  using assms
proof (induction xs arbitrary: it d)
  case Nil
  from next_object_ok [OF Nil.prems(1)] obtain it' where
    "setTypeNextObject srv obj it = Some (obj, it', None)" "setTypeReleaseIterator srv obj it' = Some obj" by auto
  then show ?case using Nil.prems by (subst convert_ht_loop.simps) (simp del: id_apply)
next
  case (Cons x xs)
  from next_object_ok [OF Cons.prems(1)] obtain it' where
    n: "setTypeNextObject srv obj it = Some (obj, it', Some (sds_of x))" "iter_at srv obj it' xs" by auto
  obtain d' where d': "dictAdd (srv_can_resize srv) (setDictType (srv_seed srv)) d (sds_of x) () = Some (d', True)"
    "ht_ok srv d'" "ht_keys d' = insert (sds_of x) (ht_keys d)"
    "length (dict_entries d') \<le> Suc (length (dict_entries d))"
    using ht_add_ok [OF Cons.prems(2), of "srv_can_resize srv" "sds_of x"] Cons.prems(4,5) by auto
  have "\<forall>y \<in> set xs. length y < 2 ^ 31 \<and> sds_of y \<notin> ht_keys d'"
  proof
    fix y assume y: "y \<in> set xs"
    then have "y \<noteq> x" "length y < 2 ^ 31" "length x < 2 ^ 31" using Cons.prems(3,4) by auto
    then have "sds_of y \<noteq> sds_of x" by (simp add: sds_of_inject)
    then show "length y < 2 ^ 31 \<and> sds_of y \<notin> ht_keys d'" using y d'(3) Cons.prems(4) by simp
  qed
  from Cons.IH [OF n(2) d'(2) _ this] obtain it'' d'' where
    "convert_ht_loop srv obj it' d' = Some (obj, it'', d'')" "setTypeReleaseIterator srv obj it'' = Some obj"
    "ht_ok srv d''" "ht_keys d'' = ht_keys d' \<union> sds_of ` set xs"
    "length (dict_entries d'') \<le> length (dict_entries d') + length xs"
    using Cons.prems(3,5) d'(4) by auto
  then show ?case using n(1) d' by (subst convert_ht_loop.simps) auto
qed

lemma total_append: "lp_total (as @ bs) = lp_total as + length (concat bs)"
  by (simp add: lp_total_def)

lemma append_elem_ok:
  assumes "lp_rep lp segs" "elem_is e x" "lp_total (segs @ [str_enc x]) < 2 ^ 32"
  shows "\<exists>lp'. (case e of Elem_Str s \<Rightarrow> lpAppend lp s | Elem_Int v \<Rightarrow> lpAppendInteger lp v) = Some (Some lp') \<and>
     lp_rep lp' (segs @ [str_enc x])"
  using rep_append [OF assms(1)] rep_append_int [OF assms(1)] assms(2,3)
  by (cases e) (auto simp: result_is_def str_enc_int)

lemma convert_lp_loop_ok:
  assumes "iter_at srv obj it xs" "lp_rep lp segs" "lp_total (segs @ map str_enc xs) < 2 ^ 32"
  shows "\<exists>it' lp'. convert_lp_loop srv obj it lp = Some (obj, it', lp') \<and> setTypeReleaseIterator srv obj it' = Some obj \<and>
     lp_rep lp' (segs @ map str_enc xs)"
  using assms
proof (induction xs arbitrary: it lp segs)
  case Nil
  from next_ok [OF Nil.prems(1)] obtain it' where
    "setTypeNext srv obj it = Some (obj, it', None)" "setTypeReleaseIterator srv obj it' = Some obj" by auto
  then show ?case using Nil.prems by (subst convert_lp_loop.simps) simp
next
  case (Cons x xs)
  from next_ok [OF Cons.prems(1)] obtain it' e where
    n: "setTypeNext srv obj it = Some (obj, it', Some e)" "elem_is e x" "iter_at srv obj it' xs" by auto
  have "lp_total (segs @ [str_enc x]) < 2 ^ 32" using Cons.prems(3) by (simp add: total_append)
  from append_elem_ok [OF Cons.prems(2) n(2) this] obtain lp' where
    a: "(case e of Elem_Str s \<Rightarrow> lpAppend lp s | Elem_Int v \<Rightarrow> lpAppendInteger lp v) = Some (Some lp')"
      "lp_rep lp' (segs @ [str_enc x])" by blast
  from Cons.IH [OF n(3) a(2)] Cons.prems(3) n(1) a(1) show ?case
    by (subst convert_lp_loop.simps) simp
qed

text \<open>A conversion to a hash table keeps the strings, whatever the outcome of the allocation.\<close>

lemma convert_to_ht:
  assumes "set_ok srv obj" "obj_encoding obj \<noteq> OBJ_ENCODING_HT" "cap < 2 ^ 64" "length (set_list obj) < 2 ^ 60"
  shows "\<exists>obj' b. setTypeConvertAndExpand srv obj OBJ_ENCODING_HT cap panic alloc = Some (obj', b) \<and>
     (panic \<or> alloc \<longrightarrow> b) \<and> set_ok srv obj' \<and> set_elems obj' = set_elems obj \<and>
     (if b then \<exists>d. obj' = Enc_HT d \<and> length (dict_entries d) \<le> length (set_list obj) else obj' = obj)"
proof -
  define d0 :: "(sds, unit) dict \<times> bool" where "d0 = (if panic then (fst (dictExpand dictCreate cap), True) else dictTryExpand dictCreate cap alloc)"
  have "fst d0 = fst (dictExpand dictCreate cap) \<or> fst d0 = fst (dictTryExpand dictCreate cap alloc)"
    by (simp add: d0_def)
  note e = ht_expand_ok [OF ht_new(1) [of srv] assms(3) this, unfolded ht_new]
  have snd: "panic \<or> alloc \<longrightarrow> snd d0"
    by (auto simp: d0_def dictTryExpand_def u_dictExpand_def Let_def split: if_splits)
  obtain it d where c: "convert_ht_loop srv obj (setTypeInitIterator obj) (fst d0) = Some (obj, it, d)"
    "setTypeReleaseIterator srv obj it = Some obj" "ht_ok srv d" 
    "ht_keys d = sds_of ` set (set_list obj)" "length (dict_entries d) \<le> length (set_list obj)"
    using convert_ht_loop_ok [OF iter_init [OF assms(1)] e(1)] e set_list_ok [OF assms(1)] assms(4) by auto
  have "setTypeConvertAndExpand srv obj OBJ_ENCODING_HT cap panic alloc =
      (if snd d0 then Some (Enc_HT d, True) else Some (obj, False))"
    using assms(2) c(1,2) by (simp add: setTypeConvertAndExpand_def Let_def split_beta flip: d0_def)
  then show ?thesis using c(3-5) snd assms(1)
    by (cases "snd d0") (auto simp: ht_elems set_elems_def [of obj])
qed

lemma convert_to_lp:
  assumes "set_ok srv obj" "obj_encoding obj \<noteq> OBJ_ENCODING_LISTPACK" "lp_size (set_list obj) < 2 ^ 32"
  shows "\<exists>lp. setTypeConvertAndExpand srv obj OBJ_ENCODING_LISTPACK cap panic alloc = Some (Enc_Listpack lp, True) \<and>
     lp_models lp (set_list obj)"
proof -
  have sz: "\<exists>n. setTypeSize obj = Some (obj, n) \<and> (\<forall>s. obj = Enc_Intset s \<longrightarrow> n = length (intset_list s))"
    using assms(2) by (cases obj) (auto simp: intset_list_def intsetLen_def)
  then obtain n where n: "setTypeSize obj = Some (obj, n)" "\<And>s. obj = Enc_Intset s \<Longrightarrow> n = length (intset_list s)"
    by auto
  have mm: "\<exists>a b. intsetMin s = Some a \<and> intsetMax s = Some b" if "obj = Enc_Intset s" "0 < n" for s
    using intsetMin_Max_ok [of s] that assms(1) n(2) [OF that(1)]
    by (auto simp: intset_list_def INTSET_SAFE_ENTRIES_def simp flip: unat_gt_0)
  have "\<exists>c. (case obj of
              Enc_Intset s \<Rightarrow>
                if n > 0 then do {
                  mn \<leftarrow> intsetMin s;
                  mx \<leftarrow> intsetMax s;
                  Some (max (lpEstimateBytesRepeatedInteger mn cap) (lpEstimateBytesRepeatedInteger mx cap))
                } else Some (cap * 2)
            | _ \<Rightarrow> Some (cap * 2)) = Some c"
    using mm by (cases obj) auto
  moreover have "\<exists>lp. lpNew c = Some lp \<and> lp_rep lp []" for c using models_new [of c] by (simp add: lp_models_def)
  ultimately obtain c lp where c: "lpNew c = Some lp" "lp_rep lp []"
     "(case obj of
              Enc_Intset s \<Rightarrow>
                if n > 0 then do {
                  mn \<leftarrow> intsetMin s;
                  mx \<leftarrow> intsetMax s;
                  Some (max (lpEstimateBytesRepeatedInteger mn cap) (lpEstimateBytesRepeatedInteger mx cap))
                } else Some (cap * 2)
            | _ \<Rightarrow> Some (cap * 2)) = Some c" by blast
  from convert_lp_loop_ok [OF iter_init [OF assms(1)] c(2)] assms(3) obtain it lp' where
    l: "convert_lp_loop srv obj (setTypeInitIterator obj) lp = Some (obj, it, lp')"
    "setTypeReleaseIterator srv obj it = Some obj" "lp_rep lp' (map str_enc (set_list obj))"
    by (auto simp: lp_size_def)
  then show ?thesis using n(1) c(1,3) assms(2) by (simp add: setTypeConvertAndExpand_def lp_models_def)
qed

lemma models_set_ok:
  assumes "lp_models lp xs" "distinct xs" "\<forall>x \<in> set xs. length x < 2 ^ 31"
  shows "set_ok srv (Enc_Listpack lp)" "set_list (Enc_Listpack lp) = xs"
  using assms models_strings [of lp xs] set_list_lp [of lp "map str_enc xs"]
  by (auto simp: lp_models_def intro!: exI [of _ "map str_enc xs"])

section \<open>Sizes of integer encodings\<close>

lemma enc_length:
  "length (lpEncodeIntegerGetType v) =
     (if 0 \<le> v \<and> v \<le> 127 then 1 else if -4096 \<le> v \<and> v \<le> 4095 then 2 else if -32768 \<le> v \<and> v \<le> 32767 then 3
      else if -8388608 \<le> v \<and> v \<le> 8388607 then 4 else if -2147483648 \<le> v \<and> v \<le> 2147483647 then 5 else 9)"
  by (simp add: lpEncodeIntegerGetType_def Let_def)

lemma enc_length_mono: "0 \<le> v \<Longrightarrow> v \<le> w \<Longrightarrow> length (lpEncodeIntegerGetType v) \<le> length (lpEncodeIntegerGetType w)"
  unfolding enc_length by simp

lemma enc_length_antimono: "v < 0 \<Longrightarrow> w \<le> v \<Longrightarrow> length (lpEncodeIntegerGetType v) \<le> length (lpEncodeIntegerGetType w)"
  unfolding enc_length by simp

lemma enc_length_between:
  assumes "lo \<le> v" "v \<le> hi"
  shows "length (lpEncodeIntegerGetType v) \<le> max (length (lpEncodeIntegerGetType lo)) (length (lpEncodeIntegerGetType hi))"
  using enc_length_mono [of v hi] enc_length_antimono [of v lo] assms by (cases "0 \<le> v") (auto simp: max_def)

lemma enc_length_le: "length (lpEncodeIntegerGetType v) \<le> 9"
  by (simp add: enc_length)

lemma backlen_small: "n \<le> 9 \<Longrightarrow> backlen_size n = 1"
  by (simp add: backlen_size_def lpEncodeBacklen_def)

lemma length_int_enc: "length (int_enc v) = length (lpEncodeIntegerGetType v) + 1"
  using enc_length_le [of v] by (simp add: int_enc_def entry_def backlen_small)

lemma estimate_eq: "lpEstimateBytesRepeatedInteger v n = 7 + length (int_enc v) * n"
  using enc_length_le [of v]
  by (simp add: lpEstimateBytesRepeatedInteger_def Let_def LP_HDR_SIZE_def backlen_small length_int_enc)

lemma length_dec_mono: "m \<le> n \<Longrightarrow> length (dec m) \<le> length (dec n)"
proof (induction n arbitrary: m rule: less_induct)
  case (less n)
  show ?case
  proof (cases "m < 10")
    case True
    then show ?thesis using dec_bytes_nonempty [of n] by (cases "dec n") (auto simp: dec_bytes_def)
  next
    case False
    then have "length (dec (m div 10)) \<le> length (dec (n div 10))" using less.prems by (intro less.IH div_le_mono) auto
    then show ?thesis using False less.prems by (simp add: dec_large)
  qed
qed

lemma digits_between:
  assumes "lo \<le> v" "v \<le> hi"
  shows "length (int_bytes v) \<le> max (length (int_bytes lo)) (length (int_bytes hi))"
proof (cases "0 \<le> v")
  case True
  then have "length (dec (nat v)) \<le> length (dec (nat hi))" using assms(2) by (intro length_dec_mono nat_mono)
  then show ?thesis using True assms(2) by (auto simp: int_bytes_def max_def)
next
  case False
  then have "length (dec (nat (- v))) \<le> length (dec (nat (- lo)))" using assms(1) by (intro length_dec_mono nat_mono) simp
  then show ?thesis using False assms(1) by (auto simp: int_bytes_def max_def)
qed

section \<open>Operations\<close>

text \<open>The invariant between operations: an intset has room for one more element. \<open>within_limits\<close> are the limits
  of the configuration for the compact encodings.\<close>

definition set_inv :: "set_server \<Rightarrow> set_obj \<Rightarrow> bool" where
  "set_inv srv obj \<longleftrightarrow>
     set_ok srv obj \<and> (case obj of Enc_Intset s \<Rightarrow> length (intset_list s) < INTSET_SAFE_ENTRIES | _ \<Rightarrow> True)"

fun within_limits :: "set_server \<Rightarrow> set_obj \<Rightarrow> bool" where
  "within_limits srv (Enc_Intset s) \<longleftrightarrow> length (intset_list s) \<le> intsetMaxEntries srv"
| "within_limits srv (Enc_Listpack lp) \<longleftrightarrow>
     length (set_list (Enc_Listpack lp)) \<le> set_max_listpack_entries srv \<and>
     (\<forall>x \<in> set (set_list (Enc_Listpack lp)). length x \<le> set_max_listpack_value srv)"
| "within_limits srv (Enc_HT d) \<longleftrightarrow> True"

definition srv_ok :: "set_server \<Rightarrow> bool" where
  "srv_ok srv \<longleftrightarrow> intsetMaxEntries srv < INTSET_SAFE_ENTRIES"

fun arg_is :: "set_arg \<Rightarrow> sds \<Rightarrow> bool" where
  "arg_is (Arg_Sds s) x \<longleftrightarrow> s = x"
| "arg_is (Arg_Chars cs) x \<longleftrightarrow> cs = sds_bytes x"
| "arg_is (Arg_Int v) x \<longleftrightarrow> is_int64 v \<and> int_bytes v = sds_bytes x"

lemma arg_is_string: "arg_is arg x \<Longrightarrow> arg_string arg = Some (sds_bytes x)"
  by (cases arg) (auto simp: int_string_ok)

lemma arg_is_sds: "arg_is arg x \<Longrightarrow> arg_sds arg (sds_bytes x) = x"
  by (cases arg) auto

text \<open>What an addition does.\<close>

definition add_result :: "set_server \<Rightarrow> set_obj \<Rightarrow> sds \<Rightarrow> (set_obj \<times> bool) option \<Rightarrow> bool" where
  "add_result srv obj x r \<longleftrightarrow>
     (\<exists>obj'. r = Some (obj', x \<notin> set_elems obj) \<and> set_inv srv obj' \<and> set_elems obj' = insert x (set_elems obj) \<and>
        (within_limits srv obj \<longrightarrow> within_limits srv obj'))"

lemma set_list_length: "length (set_list (Enc_Intset s)) = length (intset_list s)"
  by simp

lemma intset_elems: "intset_ok s \<Longrightarrow> x \<in> set_elems (Enc_Intset s) \<longleftrightarrow> (\<exists>v \<in> set (intset_list s). sds_bytes x = int_bytes v)"
proof -
  assume ok: "intset_ok s"
  have "x = sds_of (int_bytes v) \<longleftrightarrow> sds_bytes x = int_bytes v" if "v \<in> set (intset_list s)" for v
    using length_int_bytes_small [OF intset_int64 [OF ok that]] by (metis sds_bytes_of sds_of_bytes)
  then show ?thesis by (auto simp: set_elems_def image_iff)
qed

lemma intset_elem_int:
  assumes "intset_ok s" "is_int64 v" "sds_bytes x = int_bytes v"
  shows "x \<in> set_elems (Enc_Intset s) \<longleftrightarrow> v \<in> intset_set s"
  using assms intset_int64 [OF assms(1)] by (auto simp: intset_elems intset_set_def dest: int_bytes_inj)

lemma intset_elems_insert:
  assumes "intset_ok s" "intset_ok s'" "is_int64 v" "sds_bytes x = int_bytes v" "intset_set s' = insert v (intset_set s)"
  shows "set_elems (Enc_Intset s') = insert x (set_elems (Enc_Intset s))"
proof -
  have "sds_of (int_bytes v) = x" using assms(4) by (metis sds_of_bytes)
  then show ?thesis using assms(5) by (simp add: set_elems_def intset_set_def image_image flip: image_comp)
qed

lemma card_intset: "intset_ok s \<Longrightarrow> card (intset_set s) = length (intset_list s)"
  by (simp add: intset_set_def intset_ok_def ssorted_distinct distinct_card)

lemma setTypeSize_ok: "set_ok srv obj \<Longrightarrow> \<exists>obj'. setTypeSize obj = Some (obj', length (set_list obj)) \<and> set_ok srv obj' \<and>
    set_list obj' = set_list obj \<and> obj_encoding obj' = obj_encoding obj \<and> ((\<forall>lp. obj \<noteq> Enc_Listpack lp) \<longrightarrow> obj' = obj)"
proof (cases obj)
  case (Enc_Listpack lp)
  assume "set_ok srv obj"
  then obtain segs where s: "lp_rep lp segs" "distinct (lp_strings segs)" "\<forall>s \<in> set (lp_strings segs). length s < 2 ^ 31"
    using Enc_Listpack by auto
  obtain lp' where "lpLength lp = Some (lp', length segs)" "lp_rep lp' segs" using rep_length [OF s(1)] by blast
  then show ?thesis using Enc_Listpack s set_list_lp [OF s(1)] set_list_lp [of lp' segs]
    by auto
next
  case (Enc_HT d)
  assume "set_ok srv obj"
  then have "dictSize d = length (dict_entries d)" using Enc_HT dict_ok_size by (auto simp: ht_ok_def)
  then show ?thesis using Enc_HT \<open>set_ok srv obj\<close> by simp
qed (simp add: intset_list_def intsetLen_def)

lemma add_integer_ok:
  assumes "srv_ok srv" "set_inv srv (Enc_Intset s)" "is_int64 v" "sds_bytes x = int_bytes v"
  shows "add_result srv (Enc_Intset s) x (add_integer srv s v)"
proof -
  have s: "intset_ok s" "length (intset_list s) < INTSET_SAFE_ENTRIES" using assms(2) by (auto simp: set_inv_def)
  obtain s' where a: "intsetAdd s v = Some (s', v \<notin> intset_set s)" "intset_ok s'" "intset_set s' = insert v (intset_set s)"
    using intsetAdd_ok [OF s(1) _ assms(3)] s(2) card_intset [OF s(1)] by auto
  have len: "length (intset_list s') = (if v \<in> intset_set s then length (intset_list s) else Suc (length (intset_list s)))"
    using a(3) card_intset [OF s(1)] card_intset [OF a(2)] by (simp add: card_insert_if intset_set_def split: if_splits)
  have u: "unat (intsetLen s') = length (intset_list s')" by (simp add: intset_list_def intsetLen_def)
  have el: "set_elems (Enc_Intset s') = insert x (set_elems (Enc_Intset s))"
    by (rule intset_elems_insert [OF s(1) a(2) assms(3,4) a(3)])
  have iff: "x \<in> set_elems (Enc_Intset s) \<longleftrightarrow> v \<in> intset_set s" by (rule intset_elem_int [OF s(1) assms(3,4)])
  have ok': "set_ok srv (Enc_Intset s')" using a(2) len s(2) by (auto split: if_splits)
  show ?thesis
  proof (cases "v \<notin> intset_set s \<and> length (intset_list s') > intsetMaxEntries srv")
    case False
    then have m: "maybeConvertIntset srv (Enc_Intset s') = Some (Enc_Intset s')" if "v \<notin> intset_set s"
      using that u by (simp add: maybeConvertIntset_def)
    then have "add_integer srv s v = Some (Enc_Intset s', v \<notin> intset_set s)" using a(1) by (simp add: add_integer_def)
    moreover have "set_inv srv (Enc_Intset s')" using False ok' len s(2) assms(1) by (auto simp: set_inv_def srv_ok_def)
    ultimately show ?thesis using el iff False len by (auto simp: add_result_def)
  next
    case True
    have "length (set_list (Enc_Intset s')) < 2 ^ 60" using ok' by (simp add: INTSET_SAFE_ENTRIES_def)
    from convert_to_ht [OF ok' _ _ this, of "length (intset_list s')" True True] obtain d where
      c: "setTypeConvertAndExpand srv (Enc_Intset s') OBJ_ENCODING_HT (length (intset_list s')) True True = Some (Enc_HT d, True)"
      "set_ok srv (Enc_HT d)" "set_elems (Enc_HT d) = set_elems (Enc_Intset s')"
      using ok' by (auto simp: INTSET_SAFE_ENTRIES_def)
    then have "maybeConvertIntset srv (Enc_Intset s') = Some (Enc_HT d)"
      using True u by (simp add: maybeConvertIntset_def setTypeConvert_def)
    then have "add_integer srv s v = Some (Enc_HT d, True)" using a(1) True by (simp add: add_integer_def)
    then show ?thesis using c(2,3) el iff True by (simp add: add_result_def set_inv_def)
  qed
qed


lemma convert_and_add_ok:
  assumes "set_ok srv obj" "obj_encoding obj \<noteq> OBJ_ENCODING_HT" "cap < 2 ^ 64" "length (set_list obj) < 2 ^ 59" "x \<notin> set_elems obj"
  shows "add_result srv obj x (convert_and_add srv obj cap (sds_bytes x))"
proof -
  from convert_to_ht [OF assms(1-3), of True True] assms(4) obtain d where
    c: "setTypeConvertAndExpand srv obj OBJ_ENCODING_HT cap True True = Some (Enc_HT d, True)"
      "ht_ok srv d" "set_elems (Enc_HT d) = set_elems obj" "length (dict_entries d) \<le> length (set_list obj)" by auto
  have "length (dict_entries d) < 2 ^ 60" using c(4) assms(4) by simp
  from ht_add_ok [OF c(2) this, of "srv_can_resize srv" x] obtain d' where
    "dictAdd (srv_can_resize srv) (setDictType (srv_seed srv)) d x () = Some (d', True)" "ht_ok srv d'"
    "ht_keys d' = insert x (ht_keys d)" using assms(5) c(3) by (auto simp: ht_elems)
  then show ?thesis using c assms(5) by (simp add: add_result_def convert_and_add_def set_inv_def ht_elems)
qed

lemma ht_insert_ok:
  assumes "ht_ok srv d" "length (dict_entries d) < 2 ^ 60"
  shows "\<exists>d' p e. dictFindPositionForInsert (srv_can_resize srv) (setDictType (srv_seed srv)) d x = Some (d', p, e) \<and>
    (case p of
       None \<Rightarrow> x \<in> ht_keys d \<and> ht_ok srv d' \<and> ht_keys d' = ht_keys d
     | Some q \<Rightarrow> x \<notin> ht_keys d \<and> (\<exists>d'' r. dictInsertAtPosition (setDictType (srv_seed srv)) d' x q = Some (d'', r) \<and>
                   ht_ok srv d'' \<and> ht_keys d'' = insert x (ht_keys d)))"
proof -
  let ?t = "setDictType (srv_seed srv)"
  have dup: "keyDup ?t = None" by (simp add: setDictType_def)
  obtain d2 e y where
    r: "dictAddRaw (srv_can_resize srv) ?t d x = Some (d2, e, y)" "dict_ok ?t id d2"
      "case dict_map id d (id x) of
         None \<Rightarrow> \<exists>ref key'. e = Some ref \<and> y = None \<and> id key' = id x \<and>
           dict_bag d2 = add_mset (key', None) (dict_bag d) \<and> ref_points d2 ref (key', None)
       | Some v \<Rightarrow> e = None \<and> dict_bag d2 = dict_bag d \<and>
           (\<exists>ref k. y = Some ref \<and> ref_points d2 ref (k, v) \<and> id k = id x)"
    using setDict.dictAddRaw_ok [OF assms [unfolded ht_ok_def], of "srv_can_resize srv" x] by blast
  from r(1) obtain d1 p ex where f: "dictFindPositionForInsert (srv_can_resize srv) ?t d x = Some (d1, p, ex)"
    by (auto simp: dictAddRaw_def bind_eq_Some_conv)
  show ?thesis
  proof (cases p)
    case None
    then have "e = None" "d2 = d1" using r(1) f dup by (auto simp: dictAddRaw_def)
    moreover from this have "dict_map id d x \<noteq> None" using r(3) by (cases "dict_map id d x") auto
    ultimately show ?thesis using f None r(2,3) ht_keys_bag [of d1 d] by (auto simp: ht_keys_map ht_ok_def)
  next
    case (Some q)
    then obtain ref where i: "dictInsertAtPosition ?t d1 x q = Some (d2, ref)" "e = Some ref"
      using r(1) f dup by (auto simp: dictAddRaw_def bind_eq_Some_conv)
    then have m: "dict_map id d x = None" "dict_bag d2 = add_mset (x, None) (dict_bag d)" using r(3) by (auto split: option.splits)
    then have "ht_keys d2 = insert x (ht_keys d)" by (simp add: ht_keys_def flip: set_mset_mset)
    moreover have "x \<notin> ht_keys d" using m(1) by (simp add: ht_keys_map)
    ultimately show ?thesis using f Some i r(2) by (cases ref) (auto simp: ht_ok_def)
  qed
qed

lemma addAux_string:
  assumes "arg_is arg x" "\<not> (\<exists>v s. arg = Arg_Int v \<and> obj = Enc_Intset s)"
  shows "setTypeAddAux srv obj arg = add_string srv obj arg (sds_bytes x)"
  using arg_is_string [OF assms(1)] assms(2) by (cases arg; cases obj) (simp_all add: setTypeAddAux_def)

lemma add_ht_ok:
  assumes "ht_ok srv d" "length (dict_entries d) < 2 ^ 59" "arg_is arg x"
  shows "add_result srv (Enc_HT d) x (setTypeAddAux srv (Enc_HT d) arg)"
proof -
  have "length (dict_entries d) < 2 ^ 60" using assms(2) by simp
  note i = ht_insert_ok [OF assms(1) this, of x]
  have "add_string srv (Enc_HT d) arg (sds_bytes x) =
      do { (d, position, _) \<leftarrow> dictFindPositionForInsert (srv_can_resize srv) (setDictType (srv_seed srv)) d x;
           (case position of
              None \<Rightarrow> Some (Enc_HT d, False)
            | Some position \<Rightarrow> do {
                (d, _) \<leftarrow> dictInsertAtPosition (setDictType (srv_seed srv)) d x position;
                Some (Enc_HT d, True) }) }"
    by (simp add: add_string_def Let_def arg_is_sds [OF assms(3)])
  then have unf: "setTypeAddAux srv (Enc_HT d) arg = \<dots>" using addAux_string [OF assms(3)] by simp
  show ?thesis unfolding unf using i by (auto simp: add_result_def set_inv_def ht_elems split: option.splits)
qed

lemma lp_lookup:
  assumes "lp_rep lp segs"
  obtains (empty) "lpFirst lp = Some None" "lp_strings segs = []"
  | (absent) p where "lpFirst lp = Some (Some p)" "lpFind lp p s 0 = Some None" "s \<notin> set (lp_strings segs)"
  | (found) p i where "lpFirst lp = Some (Some p)" "lpFind lp p s 0 = Some (Some (lp_off segs i))" "i < length segs"
      "lp_strings segs ! i = s" "s \<in> set (lp_strings segs)"
proof (cases "segs = []")
  case True
  then show ?thesis using rep_first_index [OF assms] empty by (simp add: lp_strings_def)
next
  case False
  have len: "length (lp_strings segs) = length segs" by (simp add: lp_strings_def)
  have f: "lpFind lp (lp_off segs 0) s 0 = Some (map_option (lp_off segs) (find_index (lp_strings segs) s 0 0))"
    "lpFirst lp = Some (Some (lp_off segs 0))"
    using False rep_find [OF assms, of 0] rep_first_index [OF assms] by simp_all
  show ?thesis
  proof (cases "find_index (lp_strings segs) s 0 0")
    case None
    then have "s \<notin> set (lp_strings segs)" using len by (auto simp: find_index_def find_None_iff in_set_conv_nth)
    then show ?thesis using absent f None by simp
  next
    case (Some i)
    then have "i < length segs" "lp_strings segs ! i = s" using len by (auto simp: find_index_def find_Some_iff)
    then show ?thesis using found f Some len nth_mem [of i "lp_strings segs"] by simp
  qed
qed

lemma rep_count_bound:
  assumes "lp_rep lp segs"
  shows "length segs \<le> lp_total segs"
proof -
  have "length segs \<le> length (concat segs)" if "\<forall>s \<in> set segs. seg_ok s"
    using that
  proof (induction segs)
    case (Cons s segs)
    then have "1 \<le> length s" by (auto simp: seg_ok_def split: option.splits)
    moreover have "length segs \<le> length (concat segs)" using Cons by simp
    ultimately show ?case unfolding list.size(4) concat.simps length_append by linarith
  qed simp
  then show ?thesis using assms by (simp add: lp_rep_def lp_total_def)
qed

lemma append_arg_ok:
  assumes "lp_rep lp segs" "arg_is arg x" "lp_total (segs @ [str_enc (sds_bytes x)]) < 2 ^ 32"
  shows "\<exists>lp'. (case arg of Arg_Int v \<Rightarrow> lpAppendInteger lp v | _ \<Rightarrow> lpAppend lp (sds_bytes x)) = Some (Some lp') \<and>
    lp_rep lp' (segs @ [str_enc (sds_bytes x)])"
proof (cases arg)
  case (Arg_Int v)
  then have "str_enc (sds_bytes x) = int_enc v" "is_int64 v" using assms(2) str_enc_int [of v] by auto
  then show ?thesis using rep_append_int [OF assms(1), of v] assms(3) Arg_Int by (auto simp: result_is_def)
qed (use rep_append [OF assms(1), of "sds_bytes x"] assms(3) in \<open>auto simp: result_is_def\<close>)

lemma add_lp_ok:
  assumes "set_ok srv (Enc_Listpack lp)" "arg_is arg x"
  shows "add_result srv (Enc_Listpack lp) x (setTypeAddAux srv (Enc_Listpack lp) arg)"
proof -
  let ?s = "sds_bytes x"
  from assms(1) obtain segs where r: "lp_rep lp segs" and d: "distinct (lp_strings segs)"
    and sm: "\<forall>s \<in> set (lp_strings segs). length s < 2 ^ 31" by auto
  note sl = set_list_lp [OF r]
  define app where "app lp = (case arg of Arg_Int v \<Rightarrow> lpAppendInteger lp v | _ \<Rightarrow> lpAppend lp ?s)" for lp
  have "setTypeAddAux srv (Enc_Listpack lp) arg = add_string srv (Enc_Listpack lp) arg ?s"
    using addAux_string [OF assms(2)] by simp
  also have "\<dots> =
      do { p \<leftarrow> lpFirst lp;
           p \<leftarrow> (case p of None \<Rightarrow> Some None | Some p \<Rightarrow> lpFind lp p ?s 0);
           if p \<noteq> None then Some (Enc_Listpack lp, False)
           else do {
             (lp, n) \<leftarrow> lpLength lp;
             safe \<leftarrow> lpSafeToAdd (Some lp) (length ?s);
             if n < set_max_listpack_entries srv \<and> length ?s \<le> set_max_listpack_value srv \<and> safe then do {
               r \<leftarrow> app lp; lp \<leftarrow> r; Some (Enc_Listpack lp, True)
             } else do { (lp, n) \<leftarrow> lpLength lp; convert_and_add srv (Enc_Listpack lp) (n + 1) ?s } } }"
    unfolding add_string_def app_def by simp
  finally have unf: "setTypeAddAux srv (Enc_Listpack lp) arg = \<dots>" .
  obtain p where p: "lpFirst lp \<bind> (\<lambda>p. case p of None \<Rightarrow> Some None | Some p \<Rightarrow> lpFind lp p ?s 0) = Some p"
    "p \<noteq> None \<longleftrightarrow> ?s \<in> set (lp_strings segs)"
    by (rule lp_lookup [OF r, where s = ?s]) auto
  have el: "x \<in> set_elems (Enc_Listpack lp) \<longleftrightarrow> ?s \<in> set (lp_strings segs)"
    using set_elems_iff [OF assms(1)] sl by simp
  obtain lp1 where l1: "lpLength lp = Some (lp1, length segs)" "lp_rep lp1 segs" using rep_length [OF r] by blast
  obtain lp2 where l2: "lpLength lp1 = Some (lp2, length segs)" "lp_rep lp2 segs" using rep_length [OF l1(2)] by blast
  have tot: "lp_total segs < 2 ^ 32" using r by (simp add: lp_rep_def)
  have safe: "lpSafeToAdd (Some lp1) (length ?s) = Some (lp_total segs + length ?s \<le> 2 ^ 30)"
  proof -
    have "lp_total segs + length ?s < 4294967296 + 2147483648"
      using tot length_sds [of x] by (intro add_strict_mono) simp_all
    then have "(lp_total segs + length ?s) mod 2 ^ 64 = lp_total segs + length ?s" by simp
    then show ?thesis using rep_total [OF l1(2)] by (simp add: lpSafeToAdd_def LISTPACK_MAX_SAFETY_SIZE_def not_less)
  qed
  show ?thesis
  proof (cases "?s \<in> set (lp_strings segs)")
    case True
    then have "setTypeAddAux srv (Enc_Listpack lp) arg = Some (Enc_Listpack lp, False)"
      using p unfolding unf by (auto simp: bind_eq_Some_conv)
    then show ?thesis using assms(1) True el by (auto simp: add_result_def set_inv_def)
  next
    case False
    then have u2: "setTypeAddAux srv (Enc_Listpack lp) arg =
        (if length segs < set_max_listpack_entries srv \<and> length ?s \<le> set_max_listpack_value srv \<and> lp_total segs + length ?s \<le> 2 ^ 30
         then do { r \<leftarrow> app lp1; lp \<leftarrow> r; Some (Enc_Listpack lp, True) }
         else convert_and_add srv (Enc_Listpack lp2) (length segs + 1) ?s)"
      using p l1(1) l2(1) safe unfolding unf by (auto simp: bind_eq_Some_conv)
    show ?thesis
    proof (cases "length segs < set_max_listpack_entries srv \<and> length ?s \<le> set_max_listpack_value srv \<and> lp_total segs + length ?s \<le> 2 ^ 30")
      case c: True
      have "length (str_enc ?s) \<le> length ?s + 20" by (rule length_str_enc_le)
      then have "lp_total (segs @ [str_enc ?s]) < 2 ^ 32" using c by (simp add: lp_total_def)
      then obtain lp' where a: "app lp1 = Some (Some lp')" "lp_rep lp' (segs @ [str_enc ?s])"
        using append_arg_ok [OF l1(2) assms(2)] by (auto simp: app_def)
      have st: "lp_strings (segs @ [str_enc ?s]) = lp_strings segs @ [?s]"
        using str_enc_ok(2) [of ?s] length_sds [of x] by (simp add: lp_strings_def)
      note sl' = set_list_lp [OF a(2), unfolded st]
      have "set_ok srv (Enc_Listpack lp')" using a(2) st d sm False length_sds [of x] by (auto intro!: exI [of _ "segs @ [str_enc ?s]"])
      moreover have "length (lp_strings segs) = length segs" by (simp add: lp_strings_def)
      ultimately show ?thesis using u2 c a(1) el False sl sl'
        by (simp add: add_result_def set_inv_def set_elems_def)
    next
      case c: False
      have ok2: "set_ok srv (Enc_Listpack lp2)" using l2(2) d sm by auto
      have el2: "set_elems (Enc_Listpack lp2) = set_elems (Enc_Listpack lp)" 
        using sl set_list_lp [OF l2(2)] by (simp add: set_elems_def)
      have n: "length segs < 2 ^ 32" "length (lp_strings segs) = length segs"
        using rep_count_bound [OF r] tot by (simp_all add: lp_strings_def)
      have "add_result srv (Enc_Listpack lp2) x (convert_and_add srv (Enc_Listpack lp2) (length segs + 1) ?s)"
        by (rule convert_and_add_ok [OF ok2]) (use n set_list_lp [OF l2(2)] el el2 False in \<open>simp_all\<close>)
      moreover have "within_limits srv (Enc_Listpack lp2) = within_limits srv (Enc_Listpack lp)"
        using sl set_list_lp [OF l2(2)] by simp
      moreover have "setTypeAddAux srv (Enc_Listpack lp) arg = convert_and_add srv (Enc_Listpack lp2) (length segs + 1) ?s"
        unfolding u2 using c by (rule if_not_P)
      ultimately show ?thesis unfolding add_result_def el2 by simp
    qed
  qed
qed


text \<open>The estimate for an intset bounds the listpack made of it.\<close>

lemma lp_size_ints:
  assumes "\<forall>v \<in> set xs. is_int64 v \<and> length (int_enc v) \<le> m"
  shows "lp_size (map int_bytes xs) \<le> 7 + m * length xs"
  using assms by (induction xs) (auto simp: lp_size_def lp_total_def str_enc_int)

lemma intset_min_max:
  assumes "intset_ok s" "length (intset_list s) \<le> INTSET_SAFE_ENTRIES" "intset_list s \<noteq> []"
  obtains lo hi where "intsetMin s = Some lo" "intsetMax s = Some hi" "lo \<in> set (intset_list s)" "hi \<in> set (intset_list s)"
    "\<forall>v \<in> set (intset_list s). lo \<le> v \<and> v \<le> hi"
proof -
  have len: "length (intset_list s) = unat (is_length s)" by (simp add: intset_list_def)
  then have "is_length s \<noteq> 0" "unat (is_length s) < 2 ^ 31" using assms(2,3) by (auto simp: INTSET_SAFE_ENTRIES_def)
  from intsetMin_Max_ok [OF assms(1) this] have
    "intsetMin s = Some (Min (set (intset_list s)))" "intsetMax s = Some (Max (set (intset_list s)))"
    by (auto simp: intset_set_def)
  then show ?thesis using assms(3) that by auto
qed

lemma intset_estimate:
  assumes "intset_ok s" "length (intset_list s) \<le> INTSET_SAFE_ENTRIES"
  obtains len tot where
    "lp_estimate s = Some (len, tot)"
    "lp_size (map int_bytes (intset_list s)) \<le> 7 + tot" "tot \<le> 2 ^ 33" "\<forall>v \<in> set (intset_list s). length (int_bytes v) \<le> len"
proof (cases "intset_list s = []")
  case True
  moreover have "length (intset_list s) = unat (intsetLen s)" by (simp add: intset_list_def intsetLen_def)
  ultimately show ?thesis using that [of 0 0] by (simp add: lp_size_def lp_total_def lp_estimate_def)
next
  case False
  let ?n = "length (intset_list s)"
  have n: "unat (intsetLen s) = ?n" by (simp add: intset_list_def intsetLen_def)
  from intset_min_max [OF assms False] obtain lo hi where
    m: "intsetMin s = Some lo" "intsetMax s = Some hi" "is_int64 lo" "is_int64 hi" "\<forall>v \<in> set (intset_list s). lo \<le> v \<and> v \<le> hi"
    using intset_int64 [OF assms(1)] by metis
  define k where "k = max (length (int_enc hi)) (length (int_enc lo))"
  have est: "max (lpEstimateBytesRepeatedInteger hi ?n) (lpEstimateBytesRepeatedInteger lo ?n) = 7 + k * ?n"
    by (simp add: estimate_eq k_def nat_mult_max_left)
  have dig: "max (unat (sdigits10 hi)) (unat (sdigits10 lo)) = max (length (int_bytes hi)) (length (int_bytes lo))"
    using m(3,4) by (simp add: sdigits10_length)
  have "length (int_enc v) \<le> k" if "v \<in> set (intset_list s)" for v
    using enc_length_between [of lo v hi] m(5) that by (auto simp: k_def length_int_enc max_def split: if_splits)
  then have sz: "lp_size (map int_bytes (intset_list s)) \<le> 7 + k * ?n"
    using intset_int64 [OF assms(1)] by (intro lp_size_ints) auto
  have "k \<le> 10" using enc_length_le [of hi] enc_length_le [of lo] by (simp add: k_def length_int_enc)
  then have "k * ?n \<le> 10 * INTSET_SAFE_ENTRIES" using assms(2) by (intro mult_le_mono)
  then have "7 + k * ?n \<le> 2 ^ 33" by (simp add: INTSET_SAFE_ENTRIES_def)
  moreover have "\<forall>v \<in> set (intset_list s). length (int_bytes v) \<le> max (length (int_bytes hi)) (length (int_bytes lo))"
    using digits_between [of lo _ hi] m(5) by (auto simp: max.commute)
  ultimately show ?thesis using that [of "max (length (int_bytes hi)) (length (int_bytes lo))" "7 + k * ?n"] sz m(1,2) est dig n False
    by (simp add: lp_estimate_def)
qed

lemma add_intset_string_ok:
  assumes "set_inv srv (Enc_Intset s)" "string2ll (sds_bytes x) (length (sds_bytes x)) = Some None"
  shows "add_result srv (Enc_Intset s) x (add_string srv (Enc_Intset s) arg (sds_bytes x))"
proof -
  let ?x = "sds_bytes x"
  let ?n = "length (intset_list s)"
  have ok: "set_ok srv (Enc_Intset s)" and s: "intset_ok s" "?n \<le> INTSET_SAFE_ENTRIES" using assms(1) by (auto simp: set_inv_def)
  have n: "unat (intsetLen s) = ?n" by (simp add: intset_list_def intsetLen_def)
  from intset_estimate [OF s] obtain len tot where
    e: "lp_estimate s = Some (len, tot)"
    and tot: "lp_size (map int_bytes (intset_list s)) \<le> 7 + tot" "tot \<le> 2 ^ 33"
    and len: "\<forall>v \<in> set (intset_list s). length (int_bytes v) \<le> len" by metis
  have "tot + length ?x < 8589934592 + 2147483648" using tot(2) length_sds [of x] by (intro add_le_less_mono) auto
  then have safe: "lpSafeToAdd None (tot + length ?x) = Some (tot + length ?x \<le> 2 ^ 30)"
    by (simp add: lpSafeToAdd_def LISTPACK_MAX_SAFETY_SIZE_def not_less)
  have new: "x \<notin> set_elems (Enc_Intset s)"
    using assms(2) string2ll_int_bytes intset_int64 [OF s(1)] by (auto simp: intset_elems [OF s(1)])
  have unf: "add_string srv (Enc_Intset s) arg ?x =
      (if ?n < set_max_listpack_entries srv \<and> length ?x \<le> set_max_listpack_value srv \<and>
          len \<le> set_max_listpack_value srv \<and> tot + length ?x \<le> 2 ^ 30
       then do {
         (obj, _) \<leftarrow> setTypeConvertAndExpand srv (Enc_Intset s) OBJ_ENCODING_LISTPACK (?n + 1) True True;
         (case obj of
            Enc_Listpack lp \<Rightarrow> do { r \<leftarrow> lpAppend lp ?x; lp \<leftarrow> r; lp \<leftarrow> lpShrinkToFit lp; Some (Enc_Listpack lp, True) }
          | _ \<Rightarrow> None)
       } else convert_and_add srv (Enc_Intset s) (?n + 1) ?x)"
    using assms(2) e safe n by (simp add: add_string_def Let_def)
  show ?thesis
  proof (cases "?n < set_max_listpack_entries srv \<and> length ?x \<le> set_max_listpack_value srv \<and>
      len \<le> set_max_listpack_value srv \<and> tot + length ?x \<le> 2 ^ 30")
    case True
    have sz: "lp_size (set_list (Enc_Intset s)) \<le> 7 + 2 ^ 30" using True tot(1) by simp
    then obtain lp where l: "setTypeConvertAndExpand srv (Enc_Intset s) OBJ_ENCODING_LISTPACK (?n + 1) True True = Some (Enc_Listpack lp, True)"
      "lp_rep lp (map str_enc (set_list (Enc_Intset s)))"
      using convert_to_lp [OF ok, of "?n + 1" True True] by (auto simp: lp_models_def)
    have "lp_total (map str_enc (set_list (Enc_Intset s) @ [?x])) < 2 ^ 32"
      using length_str_enc_le [of ?x] True tot(1) by (simp add: lp_size_def total_append)
    then obtain lp' where a: "lpAppend lp ?x = Some (Some lp')" "lp_rep lp' (map str_enc (set_list (Enc_Intset s) @ [?x]))"
      using rep_append [OF l(2), of ?x] by (auto simp: result_is_def)
    define lp'' where "lp'' = take (lp_total (map str_enc (set_list (Enc_Intset s) @ [?x]))) lp'"
    have sh: "lpShrinkToFit lp' = Some lp''" "lp_models lp'' (set_list (Enc_Intset s) @ [?x])"
      using rep_shrink [OF a(2)] by (simp_all add: lp''_def lp_models_def)
    have m: "set_ok srv (Enc_Listpack lp'')" "set_list (Enc_Listpack lp'') = set_list (Enc_Intset s) @ [?x]"
      using models_set_ok [OF sh(2)] set_list_ok [OF ok] new length_sds [of x] by (auto simp: set_elems_iff [OF ok])
    have "within_limits srv (Enc_Listpack lp'')" using True len by (fastforce simp: m(2))
    moreover have "add_string srv (Enc_Intset s) arg ?x = Some (Enc_Listpack lp'', True)"
      using unf True l(1) a(1) sh(1) by simp
    ultimately show ?thesis using m new by (simp add: add_result_def set_inv_def set_elems_def)
  next
    case False
    have "add_result srv (Enc_Intset s) x (convert_and_add srv (Enc_Intset s) (?n + 1) ?x)"
      by (rule convert_and_add_ok [OF ok]) (use s(2) new in \<open>simp_all add: INTSET_SAFE_ENTRIES_def\<close>)
    moreover have "add_string srv (Enc_Intset s) arg ?x = convert_and_add srv (Enc_Intset s) (?n + 1) ?x"
      unfolding unf using False by (rule if_not_P)
    ultimately show ?thesis by simp
  qed
qed

lemma setTypeAddAux_ok:
  assumes "srv_ok srv" "set_inv srv obj" "length (set_list obj) < 2 ^ 59" "arg_is arg x"
  shows "add_result srv obj x (setTypeAddAux srv obj arg)"
proof (cases obj)
  case (Enc_HT d)
  then show ?thesis using add_ht_ok [of srv d arg x] assms by (simp add: set_inv_def)
next
  case (Enc_Listpack lp)
  then show ?thesis using add_lp_ok [of srv lp arg x] assms by (simp add: set_inv_def)
next
  case (Enc_Intset s)
  obtain r where r: "string2ll (sds_bytes x) (length (sds_bytes x)) = Some r" "\<forall>n. r = Some n \<longleftrightarrow> is_int64 n \<and> sds_bytes x = int_bytes n"
    using string2ll_exact by blast
  show ?thesis
  proof (cases r)
    case None
    then have "\<not> (\<exists>v. arg = Arg_Int v)" using r(2) assms(4) by auto
    then show ?thesis using add_intset_string_ok [of srv s x arg] addAux_string [OF assms(4), of obj srv] assms(2) r(1) None Enc_Intset
      by auto
  next
    case (Some v)
    then have v: "is_int64 v" "sds_bytes x = int_bytes v" using r(2) by auto
    then have "setTypeAddAux srv obj arg = add_integer srv s v"
      using Enc_Intset assms(4) r(1) Some int_bytes_inj [of _ v] by (cases arg) (auto simp: setTypeAddAux_def add_string_def)
    then show ?thesis using add_integer_ok [of srv s v x] assms(1,2) v Enc_Intset by simp
  qed
qed

end
