(* ===== verification/T_Set_Ops.thy ===== *)
theory T_Set_Ops
  imports T_Set_Proofs
begin

text \<open>
  The remaining operations of the set object, its copies, and the interpretation of the container interface
  (\<open>Set_Interface\<close>) on it. The theory ends with the properties of the set object.
\<close>

section \<open>Removal and membership\<close>

text \<open>What a removal and a membership test do.\<close>

definition rem_result :: "set_server \<Rightarrow> set_obj \<Rightarrow> sds \<Rightarrow> (set_obj \<times> bool) option \<Rightarrow> bool" where
  "rem_result srv obj x r \<longleftrightarrow>
     (\<exists>obj'. r = Some (obj', x \<in> set_elems obj) \<and> set_inv srv obj' \<and> set_elems obj' = set_elems obj - {x} \<and>
        (within_limits srv obj \<longrightarrow> within_limits srv obj'))"

definition mem_result :: "set_server \<Rightarrow> set_obj \<Rightarrow> sds \<Rightarrow> (set_obj \<times> bool) option \<Rightarrow> bool" where
  "mem_result srv obj x r \<longleftrightarrow>
     (\<exists>obj'. r = Some (obj', x \<in> set_elems obj) \<and> set_inv srv obj' \<and> set_elems obj' = set_elems obj \<and>
        (within_limits srv obj \<longrightarrow> within_limits srv obj'))"

lemma ht_delete_ok:
  assumes "ht_ok srv d"
  shows "\<exists>d'. dictDelete can (setDictType (srv_seed srv)) d k = Some (d', k \<in> ht_keys d) \<and> ht_ok srv d' \<and>
    ht_keys d' = ht_keys d - {k} \<and> length (dict_entries d') \<le> length (dict_entries d)"
proof -
  obtain d' r where r: "dictGenericDelete can (setDictType (srv_seed srv)) d k = Some (d', r)"
    "dict_ok (setDictType (srv_seed srv)) id d'" "dict_map id d' = (dict_map id d)(id k := None)"
    "length (dict_entries d') \<le> length (dict_entries d)"
    "case r of None \<Rightarrow> dict_map id d (id k) = None
      | Some e \<Rightarrow> \<exists>k' v. e \<noteq> NULL \<and> hd (chain_list e) = (k', v) \<and> id k' = id k \<and> dict_map id d (id k) = Some v"
    using setDict.dictGenericDelete_ok [OF assms [unfolded ht_ok_def], of can k] by blast
  have "r \<noteq> None \<longleftrightarrow> k \<in> ht_keys d" using r(5) by (cases r) (auto simp: ht_keys_map)
  moreover have "ht_keys d' = ht_keys d - {k}" using r(3) by (auto simp: set_eq_iff ht_keys_map)
  ultimately show ?thesis using r(1,2,4) by (auto simp: dictDelete_def ht_ok_def)
qed

lemma ht_resize_ok:
  assumes "ht_ok srv d" "length (dict_entries d) < 2 ^ 60"
  shows "ht_ok srv (fst (dictResize can d))" "ht_keys (fst (dictResize can d)) = ht_keys d"
proof -
  have "ht_used (ht0 d) < 2 ^ 60" using dict_ok_size [of "setDictType (srv_seed srv)" id d] assms
    by (simp add: ht_ok_def dictSize_def)
  then have n: "(if ht_used (ht0 d) < DICT_HT_INITIAL_SIZE then DICT_HT_INITIAL_SIZE else ht_used (ht0 d)) < 2 ^ 64"
    by (simp add: DICT_HT_INITIAL_SIZE_def DICT_HT_INITIAL_EXP_def)
  show "ht_ok srv (fst (dictResize can d))" "ht_keys (fst (dictResize can d)) = ht_keys d"
    using ht_expand_ok [OF assms(1) n disjI1 [OF refl]] assms(1) by (auto simp: dictResize_def Let_def)
qed

lemma rem_ht_ok:
  assumes "ht_ok srv d" "length (dict_entries d) < 2 ^ 60" "arg_is arg x"
  shows "rem_result srv (Enc_HT d) x (setTypeRemoveAux srv (Enc_HT d) arg)"
proof -
  from ht_delete_ok [OF assms(1), of "srv_can_resize srv" x] obtain d' where
    d': "dictDelete (srv_can_resize srv) (setDictType (srv_seed srv)) d x = Some (d', x \<in> ht_keys d)" "ht_ok srv d'"
      "ht_keys d' = ht_keys d - {x}" "length (dict_entries d') \<le> length (dict_entries d)" by blast
  define d'' where "d'' = (if x \<in> ht_keys d \<and> htNeedsResize d' then fst (dictResize (srv_can_resize srv) d') else d')"
  have "ht_ok srv d''" "ht_keys d'' = ht_keys d - {x}"
    using ht_resize_ok [OF d'(2), of "srv_can_resize srv"] d' assms(2) by (auto simp: d''_def)
  moreover have "setTypeRemoveAux srv (Enc_HT d) arg = Some (Enc_HT d'', x \<in> ht_keys d)"
    using d'(1) arg_is_string [OF assms(3)] arg_is_sds [OF assms(3)]
    by (cases arg) (auto simp: setTypeRemoveAux_def d''_def)
  ultimately show ?thesis by (simp add: rem_result_def set_inv_def ht_elems)
qed

lemma lp_strings_delete: "lp_strings (take i segs @ drop (Suc i) segs) = take i (lp_strings segs) @ drop (Suc i) (lp_strings segs)"
  by (simp add: lp_strings_def take_map drop_map)

lemma set_delete:
  assumes "distinct xs" "i < length xs"
  shows "set (take i xs @ drop (Suc i) xs) = set xs - {xs ! i}" "distinct (take i xs @ drop (Suc i) xs)"
proof -
  have "distinct (take i xs @ xs ! i # drop (Suc i) xs)" "set xs = set (take i xs @ xs ! i # drop (Suc i) xs)"
    using assms by (simp_all flip: id_take_nth_drop)
  then show "set (take i xs @ drop (Suc i) xs) = set xs - {xs ! i}" "distinct (take i xs @ drop (Suc i) xs)" by auto
qed

lemma rem_lp_ok:
  assumes "set_ok srv (Enc_Listpack lp)" "arg_is arg x"
  shows "rem_result srv (Enc_Listpack lp) x (setTypeRemoveAux srv (Enc_Listpack lp) arg)"
proof -
  let ?s = "sds_bytes x"
  from assms(1) obtain segs where r: "lp_rep lp segs" and d: "distinct (lp_strings segs)"
    and sm: "\<forall>s \<in> set (lp_strings segs). length s < 2 ^ 31" by auto
  note sl = set_list_lp [OF r]
  have el: "x \<in> set_elems (Enc_Listpack lp) \<longleftrightarrow> ?s \<in> set (lp_strings segs)"
    using set_elems_iff [OF assms(1)] sl by simp
  have unf: "setTypeRemoveAux srv (Enc_Listpack lp) arg =
      do { p \<leftarrow> lpFirst lp;
           (case p of
              None \<Rightarrow> Some (Enc_Listpack lp, False)
            | Some p \<Rightarrow> do {
                p \<leftarrow> lpFind lp p ?s 0;
                (case p of
                   None \<Rightarrow> Some (Enc_Listpack lp, False)
                 | Some p \<Rightarrow> do { r \<leftarrow> lpDelete lp p; (lp, _) \<leftarrow> r; Some (Enc_Listpack lp, True) }) }) }"
    using arg_is_string [OF assms(2)] by (cases arg) (simp_all add: setTypeRemoveAux_def)
  show ?thesis
  proof (cases "?s \<in> set (lp_strings segs)")
    case False
    have "setTypeRemoveAux srv (Enc_Listpack lp) arg = Some (Enc_Listpack lp, False)"
      by (rule lp_lookup [OF r, where s = ?s]) (use False in \<open>simp_all add: unf\<close>)
    then show ?thesis using assms(1) False el by (auto simp: rem_result_def set_inv_def)
  next
    case True
    obtain p i where q: "lpFirst lp = Some (Some p)" "lpFind lp p ?s 0 = Some (Some (lp_off segs i))" "i < length segs" "lp_strings segs ! i = ?s"
      by (rule lp_lookup [OF r, where s = ?s]) (use True in auto)
    from rep_delete [OF r q(3)] obtain lp' n where
      l: "lpDelete lp (lp_off segs i) = Some (Some (lp', n))" "lp_rep lp' (take i segs @ drop (Suc i) segs)" by blast
    have i: "i < length (lp_strings segs)" using q(3) by (simp add: lp_strings_def)
    note sd = set_delete [OF d i, unfolded q(4)]
    note sl' = set_list_lp [OF l(2), unfolded lp_strings_delete]
    have "set_ok srv (Enc_Listpack lp')"
      using l(2) sd sm by (auto simp: lp_strings_delete intro!: exI [of _ "take i segs @ drop (Suc i) segs"])
    moreover have "set_elems (Enc_Listpack lp') = set_elems (Enc_Listpack lp) - {x}"
      unfolding set_eq_iff Diff_iff set_elems_iff [OF \<open>set_ok srv (Enc_Listpack lp')\<close>] set_elems_iff [OF assms(1)] sl sl' sd(1)
      by (simp add: sds_eq_iff)
    moreover have "within_limits srv (Enc_Listpack lp) \<longrightarrow> within_limits srv (Enc_Listpack lp')"
      using sl sl' sd(1) i by (auto simp del: set_append)
    moreover have "setTypeRemoveAux srv (Enc_Listpack lp) arg = Some (Enc_Listpack lp', True)"
      using q l(1) by (simp add: unf)
    ultimately show ?thesis using el True by (simp add: rem_result_def set_inv_def)
  qed
qed

lemma rem_integer_ok:
  assumes "set_inv srv (Enc_Intset s)" "is_int64 v" "sds_bytes x = int_bytes v"
  shows "rem_result srv (Enc_Intset s) x (map_option (map_prod Enc_Intset id) (intsetRemove s v))"
proof -
  have s: "intset_ok s" "length (intset_list s) < INTSET_SAFE_ENTRIES" using assms(1) by (auto simp: set_inv_def)
  obtain s' where a: "intsetRemove s v = Some (s', v \<in> intset_set s)" "intset_ok s'" "intset_set s' = intset_set s - {v}"
    using intsetRemove_ok [OF s(1) _ assms(2)] s(2) card_intset [OF s(1)] by auto
  have len: "length (intset_list s') \<le> length (intset_list s)"
    using a(3) card_intset [OF s(1)] card_intset [OF a(2)] by (metis card_Diff1_le)
  have iff: "x \<in> set_elems (Enc_Intset s) \<longleftrightarrow> v \<in> intset_set s" by (rule intset_elem_int [OF s(1) assms(2,3)])
  have "y \<in> set_elems (Enc_Intset s') \<longleftrightarrow> y \<in> set_elems (Enc_Intset s) - {x}" for y
  proof (cases "\<exists>w. is_int64 w \<and> sds_bytes y = int_bytes w")
    case True
    then obtain w where w: "is_int64 w" "sds_bytes y = int_bytes w" by blast
    have "y = x \<longleftrightarrow> w = v" using w assms(2,3) int_bytes_inj by (metis sds_of_bytes)
    then show ?thesis using w a(3) by (simp add: intset_elem_int [OF s(1) w] intset_elem_int [OF a(2) w])
  next
    case False
    then show ?thesis using intset_int64 [OF s(1)] intset_int64 [OF a(2)] by (auto simp: intset_elems [OF s(1)] intset_elems [OF a(2)])
  qed
  then show ?thesis using a len s(2) iff by (auto simp: rem_result_def set_inv_def)
qed

lemma intset_not_int:
  assumes "intset_ok s" "string2ll (sds_bytes x) (length (sds_bytes x)) = Some None"
  shows "x \<notin> set_elems (Enc_Intset s)"
  using assms string2ll_int_bytes intset_int64 [OF assms(1)] by (auto simp: intset_elems)

lemma setTypeRemoveAux_ok:
  assumes "set_inv srv obj" "length (set_list obj) \<le> 2 ^ 59" "arg_is arg x"
  shows "rem_result srv obj x (setTypeRemoveAux srv obj arg)"
proof (cases obj)
  case (Enc_HT d)
  then show ?thesis using rem_ht_ok [of srv d arg x] assms by (simp add: set_inv_def)
next
  case (Enc_Listpack lp)
  then show ?thesis using rem_lp_ok [of srv lp arg x] assms by (simp add: set_inv_def)
next
  case (Enc_Intset s)
  obtain r where r: "string2ll (sds_bytes x) (length (sds_bytes x)) = Some r" "\<forall>n. r = Some n \<longleftrightarrow> is_int64 n \<and> sds_bytes x = int_bytes n"
    using string2ll_exact by blast
  show ?thesis
  proof (cases r)
    case None
    then have "setTypeRemoveAux srv obj arg = Some (obj, False)"
      using r arg_is_string [OF assms(3)] assms(3) Enc_Intset by (cases arg) (auto simp: setTypeRemoveAux_def)
    then show ?thesis using intset_not_int [of s x] assms(1) r(1) None Enc_Intset by (auto simp: rem_result_def set_inv_def)
  next
    case (Some v)
    then have v: "is_int64 v" "sds_bytes x = int_bytes v" using r(2) by auto
    then have "setTypeRemoveAux srv obj arg = map_option (map_prod Enc_Intset id) (intsetRemove s v)"
      using Enc_Intset assms(3) r(1) Some int_bytes_inj [of _ v] by (cases arg) (auto simp: setTypeRemoveAux_def)
    then show ?thesis using rem_integer_ok [of srv s v x] assms(1) v Enc_Intset by simp
  qed
qed

lemma setTypeIsMemberAux_ok:
  assumes "set_inv srv obj" "arg_is arg x"
  shows "mem_result srv obj x (setTypeIsMemberAux srv obj arg)"
proof (cases obj)
  case (Enc_HT d)
  have ok: "ht_ok srv d" using assms(1) Enc_HT by (simp add: set_inv_def)
  obtain d' r where r: "dictFind (srv_can_resize srv) (setDictType (srv_seed srv)) d x = Some (d', r)"
    "dict_ok (setDictType (srv_seed srv)) id d'" "dict_bag d' = dict_bag d" 
    "case r of None \<Rightarrow> dict_map id d (id x) = None
      | Some ref \<Rightarrow> \<exists>k v. ref_points d' ref (k, v) \<and> id k = id x \<and> dict_map id d (id x) = Some v"
    using setDict.dictFind_ok [OF ok [unfolded ht_ok_def], of "srv_can_resize srv" x] by blast
  have "r \<noteq> None \<longleftrightarrow> x \<in> ht_keys d" using r(4) by (cases r) (auto simp: ht_keys_map)
  moreover have "setTypeIsMemberAux srv obj arg = Some (Enc_HT d', r \<noteq> None)"
    using r(1) arg_is_string [OF assms(2)] arg_is_sds [OF assms(2)] Enc_HT
    by (cases arg) (auto simp: setTypeIsMemberAux_def)
  ultimately show ?thesis using Enc_HT r(2,3) ht_keys_bag [of d' d] by (simp add: mem_result_def set_inv_def ht_elems ht_ok_def)
next
  case (Enc_Listpack lp)
  let ?s = "sds_bytes x"
  have ok: "set_ok srv (Enc_Listpack lp)" using assms(1) Enc_Listpack by (simp add: set_inv_def)
  then obtain segs where r: "lp_rep lp segs" by auto
  have el: "x \<in> set_elems (Enc_Listpack lp) \<longleftrightarrow> ?s \<in> set (lp_strings segs)"
    using set_elems_iff [OF ok] set_list_lp [OF r] by simp
  have unf: "setTypeIsMemberAux srv obj arg = do { p \<leftarrow> lpFirst lp; (case p of None \<Rightarrow> Some (obj, False)
       | Some p \<Rightarrow> do { q \<leftarrow> lpFind lp p ?s 0; Some (obj, q \<noteq> None) }) }"
    unfolding Enc_Listpack using arg_is_string [OF assms(2)] by (cases arg) (simp_all add: setTypeIsMemberAux_def del: not_None_eq)
  have "setTypeIsMemberAux srv obj arg = Some (obj, ?s \<in> set (lp_strings segs))"
    by (rule lp_lookup [OF r, where s = ?s]) (auto simp: unf)
  then show ?thesis using el assms(1) Enc_Listpack by (auto simp: mem_result_def)
next
  case (Enc_Intset s)
  have s: "intset_ok s" "card (intset_set s) \<le> INTSET_SAFE_ENTRIES" using assms(1) Enc_Intset card_intset by (auto simp: set_inv_def)
  obtain r where r: "string2ll (sds_bytes x) (length (sds_bytes x)) = Some r" "\<forall>n. r = Some n \<longleftrightarrow> is_int64 n \<and> sds_bytes x = int_bytes n"
    using string2ll_exact by blast
  have "setTypeIsMemberAux srv obj arg = Some (obj, x \<in> set_elems obj)"
  proof (cases r)
    case None
    then show ?thesis using r arg_is_string [OF assms(2)] assms(2) Enc_Intset intset_not_int [OF s(1)]
      by (cases arg) (auto simp: setTypeIsMemberAux_def)
  next
    case (Some v)
    then have v: "is_int64 v" "sds_bytes x = int_bytes v" using r(2) by auto
    then show ?thesis
      using Enc_Intset assms(2) r(1) Some int_bytes_inj [of _ v] intsetFind_ok [OF s v(1)] intset_elem_int [OF s(1) v]
      by (cases arg) (auto simp: setTypeIsMemberAux_def)
  qed
  then show ?thesis using assms(1) by (auto simp: mem_result_def)
qed


section \<open>Creation and copies\<close>

lemma lpNew_set_ok: "\<exists>lp. lpNew n = Some lp \<and> set_ok srv (Enc_Listpack lp) \<and> set_list (Enc_Listpack lp) = []"
  using models_new [of n] models_set_ok [of _ "[]"] by fastforce

lemma setTypeCreate_ok:
  assumes "hint < 2 ^ 64" "srv_ok srv"
  shows "\<exists>obj. setTypeCreate srv v hint = Some obj \<and> set_inv srv obj \<and> set_elems obj = {} \<and> within_limits srv obj"
proof -
  obtain r where r: "isSdsRepresentableAsLongLong v = Some r"
    using string2ll_exact [of "sds_bytes v"] by (auto simp: isSdsRepresentableAsLongLong_def sdslen_def)
  have i: "intset_list intsetNew = []" using intset_new_ok by (simp add: intset_set_def)
  note e = ht_expand_ok [OF ht_new(1) assms(1) disjI1 [OF refl], unfolded ht_new]
  show ?thesis using r intset_new_ok i lpNew_set_ok [of 0 srv] e
    by (auto simp: setTypeCreate_def createIntsetObject_def createSetListpackObject_def set_inv_def set_elems_def
        INTSET_SAFE_ENTRIES_def)
qed

lemma dup_loop_ok:
  assumes "iter_at srv (Enc_HT d) it xs" "srv_ok srv" "set_inv srv (Enc_HT e)" "length (dict_entries e) + length xs < 2 ^ 59"
    "\<forall>x \<in> set xs. length x < 2 ^ 31"
  shows "\<exists>it' e'. dup_loop srv (Enc_HT d) it (Enc_HT e) = Some (Enc_HT d, it', Enc_HT e') \<and>
     setTypeReleaseIterator srv (Enc_HT d) it' = Some (Enc_HT d) \<and> set_inv srv (Enc_HT e') \<and>
     ht_keys e' = ht_keys e \<union> sds_of ` set xs"
  using assms(1,3-)
proof (induction xs arbitrary: it e)
  case Nil
  then obtain di where it: "it = Iter_HT di" by (cases it) auto
  from next_ht [of srv d di "[]"] Nil it obtain it' where "setTypeNext srv (Enc_HT d) it = Some (Enc_HT d, it', None)"
    "setTypeReleaseIterator srv (Enc_HT d) it' = Some (Enc_HT d)" by auto
  then show ?case using Nil by (subst dup_loop.simps) simp
next
  case (Cons x xs)
  then obtain di where it: "it = Iter_HT di" by (cases it) auto
  from next_ht [of srv d di "x # xs"] Cons it obtain it' where n: "setTypeNext srv (Enc_HT d) it = Some (Enc_HT d, it', Some (Elem_Str x))"
    "iter_at srv (Enc_HT d) it' xs" by auto
  have "length (set_list (Enc_HT e)) < 2 ^ 59" using Cons.prems(3) by simp
  from setTypeAddAux_ok [OF assms(2) Cons.prems(2) this, of "Arg_Sds (sds_of x)" "sds_of x"] obtain obj b where
    a: "setTypeAdd srv (Enc_HT e) (sds_of x) = Some (obj, b)" "set_inv srv obj" "set_elems obj = insert (sds_of x) (ht_keys e)"
    by (auto simp: add_result_def setTypeAdd_def ht_elems)
  obtain e' where e': "obj = Enc_HT e'" using a(1) by (auto simp: setTypeAdd_def setTypeAddAux_def add_string_def Let_def bind_eq_Some_conv split: option.splits)
  have "card (set_elems obj) \<le> Suc (card (ht_keys e))" using a(3) by (simp add: card_insert_le_m1 ht_keys_def card_insert_if)
  then have "length (dict_entries e') \<le> Suc (length (dict_entries e))"
    using card_set_elems [of srv obj] card_set_elems [of srv "Enc_HT e"] a(2) Cons.prems(2) e' by (simp add: set_inv_def ht_elems)
  then have "length (dict_entries e') + length xs < 2 ^ 59" using Cons.prems(3) by simp
  from Cons.IH [OF n(2) a(2) [unfolded e'] this] Cons.prems(4) obtain it'' e'' where
    "dup_loop srv (Enc_HT d) it' (Enc_HT e') = Some (Enc_HT d, it'', Enc_HT e'')"
    "setTypeReleaseIterator srv (Enc_HT d) it'' = Some (Enc_HT d)" "set_inv srv (Enc_HT e'')"
    "ht_keys e'' = ht_keys e' \<union> sds_of ` set xs" by auto
  then show ?case using n(1) a(1,3) e' by (subst dup_loop.simps) (auto simp: ht_elems)
qed

lemma setTypeDup_ok:
  assumes "srv_ok srv" "set_inv srv obj" "length (set_list obj) < 2 ^ 59"
  shows "\<exists>new. setTypeDup srv obj = Some (obj, new) \<and> set_inv srv new \<and> set_elems new = set_elems obj \<and> obj_encoding new = obj_encoding obj"
proof (cases obj)
  case (Enc_Intset s)
  then have s: "intset_ok s" using assms(2) by (simp add: set_inv_def)
  have "mem_read (is_contents s) 0 (intsetBlobLen s - sizeof_intset) = Some (is_contents s)"
    using s by (simp add: mem_read_def intsetBlobLen_def intset_ok_def mult.commute)
  then show ?thesis using Enc_Intset assms(2) by (simp add: setTypeDup_def)
next
  case (Enc_Listpack lp)
  then obtain segs where r: "lp_rep lp segs" "distinct (lp_strings segs)" "\<forall>s \<in> set (lp_strings segs). length s < 2 ^ 31"
    using assms(2) by (auto simp: set_inv_def)
  note s = rep_shrink [OF r(1)]
  have "mem_read lp 0 (lp_total segs) = Some (take (lp_total segs) lp)"
    using r(1) by (auto simp: mem_read_def lp_rep_def lp_total_def)
  moreover have "set_elems (Enc_Listpack (take (lp_total segs) lp)) = set_elems (Enc_Listpack lp)"
    using set_list_lp [OF r(1)] set_list_lp [OF s(2)] by (simp add: set_elems_def)
  ultimately show ?thesis using Enc_Listpack rep_bytes [OF r(1)] r(2,3) s(2) by (auto simp: setTypeDup_def set_inv_def)
next
  case (Enc_HT d)
  have ok: "set_ok srv obj" using assms(2) by (simp add: set_inv_def)
  have sz: "dictSize d < 2 ^ 64" "length (set_list obj) = length (dict_entries d)"
    using Enc_HT ok assms(3) dict_ok_size [of "setDictType (srv_seed srv)" id d] by (auto simp: ht_ok_def)
  note e = ht_expand_ok [OF ht_new(1) sz(1) disjI1 [OF refl], unfolded ht_new]
  have "set_inv srv (Enc_HT (fst (dictExpand dictCreate (dictSize d))))" using e(1) by (simp add: set_inv_def)
  from dup_loop_ok [OF iter_init [OF ok, unfolded Enc_HT] assms(1) this] e(2,3) assms(3) set_list_ok(2) [OF ok] Enc_HT
  obtain it e' where "dup_loop srv obj (setTypeInitIterator obj) (Enc_HT (fst (dictExpand dictCreate (dictSize d)))) = Some (obj, it, Enc_HT e')"
    "setTypeReleaseIterator srv obj it = Some obj" "set_inv srv (Enc_HT e')" "ht_keys e' = sds_of ` set (set_list obj)"
    by auto
  moreover from this have "set_elems (Enc_HT e') = set_elems obj" by (simp add: ht_elems set_elems_def [of obj])
  ultimately show ?thesis using Enc_HT by (simp add: setTypeDup_def)
qed


text \<open>A set of integers becomes an intset.\<close>

lemma to_intset_loop_ok:
  assumes "iter_at srv obj it (map int_bytes vs)" "intset_ok s" "\<forall>v \<in> set vs. is_int64 v \<and> v \<notin> intset_set s" "distinct vs"
    "card (intset_set s) + length vs \<le> INTSET_SAFE_ENTRIES"
  shows "\<exists>it' s'. to_intset_loop srv obj it s = Some (obj, it', s') \<and> setTypeReleaseIterator srv obj it' = Some obj \<and>
     intset_ok s' \<and> intset_set s' = intset_set s \<union> set vs"
  using assms
proof (induction vs arbitrary: it s)
  case Nil
  from next_ok [OF Nil.prems(1)] obtain it' where
    "setTypeNext srv obj it = Some (obj, it', None)" "setTypeReleaseIterator srv obj it' = Some obj" by auto
  then show ?case using Nil.prems by (subst to_intset_loop.simps) simp
next
  case (Cons v vs)
  from next_ok [OF Cons.prems(1)] obtain it' e where
    n: "setTypeNext srv obj it = Some (obj, it', Some e)" "elem_is e (int_bytes v)" "iter_at srv obj it' (map int_bytes vs)" by auto
  have v: "is_int64 v" using Cons.prems(3) by simp
  have e: "(case e of Elem_Str str \<Rightarrow> do { r \<leftarrow> string2ll str (length str); r } | Elem_Int v \<Rightarrow> Some v) = Some v"
    using n(2) v string2ll_int_bytes [OF v] int_bytes_inj [of _ v] by (cases e) auto
  from intsetAdd_ok [OF Cons.prems(2) _ v] Cons.prems(3,5) obtain s' where
    s': "intsetAdd s v = Some (s', True)" "intset_ok s'" "intset_set s' = insert v (intset_set s)" by auto
  have "card (intset_set s') = Suc (card (intset_set s))"
    using s'(3) Cons.prems(3) by (simp add: intset_set_def)
  then have "\<exists>it'' s''. to_intset_loop srv obj it' s' = Some (obj, it'', s'') \<and> setTypeReleaseIterator srv obj it'' = Some obj \<and>
     intset_ok s'' \<and> intset_set s'' = intset_set s' \<union> set vs"
    using Cons.prems(3-5) s'(3) by (intro Cons.IH [OF n(3) s'(2)]) auto
  then show ?case using n(1) e s' by (subst to_intset_loop.simps) auto
qed

lemma to_intset_ok:
  assumes "srv_ok srv" "set_ok srv obj" "length (set_list obj) \<le> intsetMaxEntries srv"
    "\<forall>x \<in> set (set_list obj). \<exists>v. is_int64 v \<and> x = int_bytes v"
  shows "\<exists>s. maybeConvertToIntset srv obj = Some (Enc_Intset s) \<and> set_inv srv (Enc_Intset s) \<and> set_elems (Enc_Intset s) = set_elems obj"
proof (cases "obj_encoding obj = OBJ_ENCODING_INTSET")
  case True
  then show ?thesis using assms by (cases obj) (auto simp: maybeConvertToIntset_def set_inv_def srv_ok_def)
next
  case False
  from setTypeSize_ok [OF assms(2)] obtain obj1 where
    o: "setTypeSize obj = Some (obj1, length (set_list obj))" "set_ok srv obj1" "set_list obj1 = set_list obj" by blast
  define vs where "vs = map (\<lambda>x. SOME v. is_int64 v \<and> x = int_bytes v) (set_list obj)"
  have pick: "is_int64 (SOME v. is_int64 v \<and> x = int_bytes v) \<and> x = int_bytes (SOME v. is_int64 v \<and> x = int_bytes v)"
    if "x \<in> set (set_list obj)" for x
    using someI_ex [of "\<lambda>v. is_int64 v \<and> x = int_bytes v"] assms(4) that by blast
  have eq: "map int_bytes vs = set_list obj" using pick by (auto simp: vs_def intro!: map_idI)
  have v64: "\<forall>v \<in> set vs. is_int64 v" using pick by (auto simp: vs_def)
  have "distinct vs" using set_list_ok(1) [OF assms(2)] by (metis distinct_map eq)
  moreover have "length vs \<le> INTSET_SAFE_ENTRIES" "length vs < INTSET_SAFE_ENTRIES" using assms(1,3) by (auto simp: vs_def srv_ok_def)
  ultimately obtain it s where
    s: "to_intset_loop srv obj1 (setTypeInitIterator obj1) intsetNew = Some (obj1, it, s)" "setTypeReleaseIterator srv obj1 it = Some obj1"
      "intset_ok s" "intset_set s = set vs"
    using to_intset_loop_ok [of srv obj1 "setTypeInitIterator obj1" vs intsetNew] iter_init [OF o(2)] v64 intset_new_ok
    by (auto simp: o(3) eq)
  have "card (intset_set s) = length vs" using s(4) \<open>distinct vs\<close> by (simp add: distinct_card)
  then have "set_inv srv (Enc_Intset s)" using s(3) card_intset [OF s(3)] \<open>length vs < INTSET_SAFE_ENTRIES\<close> by (simp add: set_inv_def)
  moreover have "set_elems (Enc_Intset s) = set_elems obj"
    using s(4) by (simp add: set_elems_def intset_set_def flip: eq)
  moreover have "maybeConvertToIntset srv obj = Some (Enc_Intset s)"
    using False o(1) assms(3) s(1,2) by (simp add: maybeConvertToIntset_def)
  ultimately show ?thesis by blast
qed

section \<open>The interface\<close>

interpretation setObj: set_impl "\<lambda>obj. srv_ok srv \<and> set_inv srv obj \<and> within_limits srv obj" set_elems "\<lambda>_. True" "2 ^ 59"
  "setTypeAdd srv" "setTypeRemove srv" "setTypeIsMember srv" for srv
proof
  show "finite (set_elems obj)" for obj by (simp add: set_elems_def)
next
  fix obj x assume a: "srv_ok srv \<and> set_inv srv obj \<and> within_limits srv obj" "card (set_elems obj) < 2 ^ 59"
  then have "length (set_list obj) < 2 ^ 59" using card_set_elems [of srv obj] by (simp add: set_inv_def)
  then show "\<exists>obj'. setTypeAdd srv obj x = Some (obj', x \<notin> set_elems obj) \<and>
      (srv_ok srv \<and> set_inv srv obj' \<and> within_limits srv obj') \<and> set_elems obj' = insert x (set_elems obj)"
    using setTypeAddAux_ok [of srv obj "Arg_Sds x" x] a(1) by (auto simp: setTypeAdd_def add_result_def)
next
  fix obj x assume a: "srv_ok srv \<and> set_inv srv obj \<and> within_limits srv obj" "card (set_elems obj) \<le> 2 ^ 59"
  then have "length (set_list obj) \<le> 2 ^ 59" using card_set_elems [of srv obj] by (simp add: set_inv_def)
  then show "\<exists>obj'. setTypeRemove srv obj x = Some (obj', x \<in> set_elems obj) \<and>
      (srv_ok srv \<and> set_inv srv obj' \<and> within_limits srv obj') \<and> set_elems obj' = set_elems obj - {x}"
    using setTypeRemoveAux_ok [of srv obj "Arg_Sds x" x] a(1) by (auto simp: setTypeRemove_def rem_result_def)
  show "\<exists>obj'. setTypeIsMember srv obj x = Some (obj', x \<in> set_elems obj) \<and>
      (srv_ok srv \<and> set_inv srv obj' \<and> within_limits srv obj') \<and> set_elems obj' = set_elems obj"
    using setTypeIsMemberAux_ok [of srv obj "Arg_Sds x" x] a(1) by (auto simp: setTypeIsMember_def mem_result_def)
qed

section \<open>Properties\<close>

text \<open>The default configuration.\<close>

definition default_server :: set_server where
  "default_server =
     \<lparr>srv_can_resize = DICT_RESIZE_ENABLE, srv_seed = replicate 16 0, srv_table_addr = (0, 0),
      set_max_intset_entries = 512, set_max_listpack_entries = 128, set_max_listpack_value = 64\<rparr>"

lemma default_server_ok: "srv_ok default_server"
  by (simp add: srv_ok_def default_server_def intsetMaxEntries_def INTSET_SAFE_ENTRIES_def)

text \<open>C27. Refinement: from \<^verbatim>\<open>setTypeCreate\<close> with any value and size hint, any sequence of \<^verbatim>\<open>setTypeAdd\<close>, \<^verbatim>\<open>setTypeRemove\<close>
  and \<^verbatim>\<open>setTypeIsMember\<close> returns the answers of a set of strings and ends in an object that holds that set, whatever
  encodings the object takes on the way. \<open>set_inv\<close> says that the bytes of the encoding are well-formed.\<close>

theorem set_type_refines_set:
  assumes "srv_ok srv" and "hint < 2 ^ 64" and "length ps \<le> 2 ^ 59"
  shows "\<exists>obj obj'. setTypeCreate srv v hint = Some obj \<and>
           run_impl (setTypeAdd srv) (setTypeRemove srv) (setTypeIsMember srv) ps obj = Some (obj', snd (run_spec ps {})) \<and>
           set_inv srv obj' \<and> set_elems obj' = fst (run_spec ps {})"
proof -
  obtain obj where o: "setTypeCreate srv v hint = Some obj" "set_inv srv obj" "set_elems obj = {}" "within_limits srv obj"
    using setTypeCreate_ok [OF assms(2,1)] by blast
  from setObj.run_refines [of srv obj ps] o assms(1,3) show ?thesis by auto
qed

theorem set_type_refines_set_witness:
  "\<exists>obj obj'. setTypeCreate default_server (sds_of [53]) 0 = Some obj \<and>
     run_impl (setTypeAdd default_server) (setTypeRemove default_server) (setTypeIsMember default_server)
       [Add (sds_of [53]), Add (sds_of [97]), Add (sds_of [53]), Rem (sds_of [53]), Mem (sds_of [97])] obj =
       Some (obj', [True, True, False, True, True]) \<and>
     set_inv default_server obj' \<and> set_elems obj' = {sds_of [97]}"
  using set_type_refines_set [OF default_server_ok, of 0
      "[Add (sds_of [53]), Add (sds_of [97]), Add (sds_of [53]), Rem (sds_of [53]), Mem (sds_of [97])]" "sds_of [53]"]
  by (simp add: sds_of_inject insert_Diff_if)

text \<open>C28. Invariant: the limits of the configuration hold in every state: from an object within them, no sequence of
  operations leads to an intset with more than \<^verbatim>\<open>set-max-intset-entries\<close> elements, or to a listpack with more than
  \<^verbatim>\<open>set-max-listpack-entries\<close> elements or a string longer than \<^verbatim>\<open>set-max-listpack-value\<close>.\<close>

theorem set_encoding_limits:
  assumes "srv_ok srv" and "set_inv srv obj" and "within_limits srv obj" and "card (set_elems obj) + length ps \<le> 2 ^ 59"
  shows "\<exists>obj' bs. run_impl (setTypeAdd srv) (setTypeRemove srv) (setTypeIsMember srv) ps obj = Some (obj', bs) \<and>
           within_limits srv obj'"
  using setObj.run_refines [of srv obj ps] assms by auto

theorem set_encoding_limits_witness:
  "\<exists>obj obj' bs. setTypeCreate default_server (sds_of [53]) 0 = Some obj \<and>
     run_impl (setTypeAdd default_server) (setTypeRemove default_server) (setTypeIsMember default_server)
       [Add (sds_of [53]), Add (sds_of [97])] obj = Some (obj', bs) \<and> within_limits default_server obj'"
proof -
  obtain obj where o: "setTypeCreate default_server (sds_of [53]) 0 = Some obj" "set_inv default_server obj" "set_elems obj = {}"
    "within_limits default_server obj" using setTypeCreate_ok [OF _ default_server_ok, of 0 "sds_of [53]"] by force
  then show ?thesis
    using set_encoding_limits [OF default_server_ok o(2,4), of "[Add (sds_of [53]), Add (sds_of [97])]"] by auto
qed

lemma add_result_view: "add_result srv obj x r \<Longrightarrow> map_option (map_prod set_elems id) r = Some (insert x (set_elems obj), x \<notin> set_elems obj)"
  unfolding add_result_def by (elim exE conjE) simp

lemma rem_result_view: "rem_result srv obj x r \<Longrightarrow> map_option (map_prod set_elems id) r = Some (set_elems obj - {x}, x \<in> set_elems obj)"
  unfolding rem_result_def by (elim exE conjE) simp

lemma mem_result_view: "mem_result srv obj x r \<Longrightarrow> map_option (map_prod set_elems id) r = Some (set_elems obj, x \<in> set_elems obj)"
  unfolding mem_result_def by (elim exE conjE) simp

lemma arg_is_self: "arg_is (Arg_Sds x) x"
  by simp

text \<open>C29. Equivalence: the three forms of an argument, an SDS string, a buffer with a length and an integer, are
  interchangeable: an operation given one form reports what it reports for the SDS string, and leaves the same
  elements.\<close>

theorem set_argument_forms_agree:
  assumes "srv_ok srv" and "set_inv srv obj" and "length (set_list obj) < 2 ^ 59" and "arg_is arg x"
  shows "map_option (map_prod set_elems id) (setTypeAddAux srv obj arg) = map_option (map_prod set_elems id) (setTypeAdd srv obj x) \<and>
         map_option (map_prod set_elems id) (setTypeRemoveAux srv obj arg) = map_option (map_prod set_elems id) (setTypeRemove srv obj x) \<and>
         map_option (map_prod set_elems id) (setTypeIsMemberAux srv obj arg) = map_option (map_prod set_elems id) (setTypeIsMember srv obj x)"
  unfolding setTypeAdd_def setTypeRemove_def setTypeIsMember_def
    add_result_view [OF setTypeAddAux_ok [OF assms]] add_result_view [OF setTypeAddAux_ok [OF assms(1-3) arg_is_self]]
    rem_result_view [OF setTypeRemoveAux_ok [OF assms(2) less_imp_le [OF assms(3)] assms(4)]]
    rem_result_view [OF setTypeRemoveAux_ok [OF assms(2) less_imp_le [OF assms(3)] arg_is_self]]
    mem_result_view [OF setTypeIsMemberAux_ok [OF assms(2,4)]] mem_result_view [OF setTypeIsMemberAux_ok [OF assms(2) arg_is_self]]
  by (intro conjI refl)

theorem set_argument_forms_agree_witness:
  "map_option (map_prod set_elems id) (setTypeAddAux default_server (Enc_Intset intsetNew) (Arg_Int (-12))) =
     map_option (map_prod set_elems id) (setTypeAdd default_server (Enc_Intset intsetNew) (sds_of [45, 49, 50]))"
proof -
  have "set_inv default_server (Enc_Intset intsetNew)" "length (set_list (Enc_Intset intsetNew)) < 2 ^ 59"
    using intset_new_ok by (simp_all add: set_inv_def intset_set_def INTSET_SAFE_ENTRIES_def)
  moreover have "int_bytes (-12) = [45, 49, 50]" by code_simp
  then have "arg_is (Arg_Int (-12)) (sds_of [45, 49, 50])" by (simp add: fits_def)
  ultimately show ?thesis by (rule conjunct1 [OF set_argument_forms_agree [OF default_server_ok]])
qed

text \<open>C30. A conversion to a hash table keeps the elements, and reports failure with the object unchanged when the table
  cannot be allocated and the caller asked not to panic; a copy has the encoding and the elements of the original,
  which is not changed.\<close>

theorem set_conversion_and_copy:
  assumes "srv_ok srv" and "set_inv srv obj" and "length (set_list obj) < 2 ^ 59" and "cap < 2 ^ 64"
  shows "(obj_encoding obj \<noteq> OBJ_ENCODING_HT \<longrightarrow>
           (\<exists>obj' b. setTypeConvertAndExpand srv obj OBJ_ENCODING_HT cap panic alloc = Some (obj', b) \<and>
              (panic \<or> alloc \<longrightarrow> b) \<and> (if b then obj_encoding obj' = OBJ_ENCODING_HT else obj' = obj) \<and>
              set_inv srv obj' \<and> set_elems obj' = set_elems obj)) \<and>
         (\<exists>copy. setTypeDup srv obj = Some (obj, copy) \<and> obj_encoding copy = obj_encoding obj \<and> set_inv srv copy \<and>
           set_elems copy = set_elems obj)"
proof (intro conjI impI)
  assume e: "obj_encoding obj \<noteq> OBJ_ENCODING_HT"
  have "set_ok srv obj" "length (set_list obj) < 2 ^ 60" using assms(2,3) by (auto simp: set_inv_def)
  from convert_to_ht [OF this(1) e assms(4) this(2), of panic alloc]
  obtain obj' b where c: "setTypeConvertAndExpand srv obj OBJ_ENCODING_HT cap panic alloc = Some (obj', b)"
    "panic \<or> alloc \<longrightarrow> b" "set_ok srv obj'" "set_elems obj' = set_elems obj"
    "if b then \<exists>d. obj' = Enc_HT d \<and> length (dict_entries d) \<le> length (set_list obj) else obj' = obj"
    by (elim exE conjE) (rule that; assumption)
  have "set_inv srv obj'" using assms(2) c(3,5) by (cases b) (auto simp: set_inv_def)
  moreover have "if b then obj_encoding obj' = OBJ_ENCODING_HT else obj' = obj" using c(5) by (auto split: if_splits)
  ultimately show "\<exists>obj' b. setTypeConvertAndExpand srv obj OBJ_ENCODING_HT cap panic alloc = Some (obj', b) \<and>
              (panic \<or> alloc \<longrightarrow> b) \<and> (if b then obj_encoding obj' = OBJ_ENCODING_HT else obj' = obj) \<and>
              set_inv srv obj' \<and> set_elems obj' = set_elems obj" using c(1,2,4) by (intro exI conjI)
next
  show "\<exists>copy. setTypeDup srv obj = Some (obj, copy) \<and> obj_encoding copy = obj_encoding obj \<and> set_inv srv copy \<and>
           set_elems copy = set_elems obj"
    using setTypeDup_ok [OF assms(1-3)] by blast
qed

theorem set_conversion_and_copy_witness:
  "\<exists>copy. setTypeDup default_server (Enc_Intset intsetNew) = Some (Enc_Intset intsetNew, copy) \<and>
     obj_encoding copy = OBJ_ENCODING_INTSET \<and> set_inv default_server copy \<and> set_elems copy = set_elems (Enc_Intset intsetNew)"
proof -
  have "set_inv default_server (Enc_Intset intsetNew)" "length (set_list (Enc_Intset intsetNew)) < 2 ^ 59"
    using intset_new_ok by (simp_all add: set_inv_def intset_set_def INTSET_SAFE_ENTRIES_def)
  from conjunct2 [OF set_conversion_and_copy [OF default_server_ok this, of 0]] show ?thesis by simp
qed



end
