(* ===== verification/T_Hash.thy ===== *)
theory T_Hash
  imports T_Set
begin

text \<open>
  The hash object of \<^verbatim>\<open>t_hash.c\<close>: a map from field strings to value strings, kept as a listpack of alternating fields
  and values or as a hash table. This theory holds the model of the operations; \<open>T_Hash_Proofs\<close> shows that they
  refine a map.
\<close>

record hash_server = server_env +
  hash_max_listpack_entries :: nat
  hash_max_listpack_value :: nat

datatype hash_obj = Hash_Listpack "byte list" | Hash_HT "(sds, sds) dict"

definition createHashObject :: "hash_obj option" where
  "createHashObject = map_option Hash_Listpack (lpNew 0)"

text \<open>The value of an entry of a listpack, as \<^verbatim>\<open>lpGetValue\<close> hands it out: a string or an integer.\<close>

definition lp_elem :: "byte list \<Rightarrow> nat \<Rightarrow> set_elem option" where
  "lp_elem lp p =
     do {
       v \<leftarrow> lpGetValue lp p;
       (case v of Got_Str off n \<Rightarrow> map_option Elem_Str (mem_read lp off n) | Got_Int x \<Rightarrow> Some (Elem_Int x))
     }"

section \<open>Lookup\<close>

text \<open>The entry of a field and the entry of its value; a field without a value fails the assertion.\<close>

definition find_field :: "byte list \<Rightarrow> sds \<Rightarrow> (nat \<times> nat) option option" where
  "find_field zl field =
     do {
       fptr \<leftarrow> lpFirst zl;
       (case fptr of
          None \<Rightarrow> Some None
        | Some fptr \<Rightarrow> do {
            fptr \<leftarrow> lpFind zl fptr (sds_bytes field) 1;
            (case fptr of
               None \<Rightarrow> Some None
             | Some fptr \<Rightarrow> do {
                 vptr \<leftarrow> lpNext zl fptr;
                 (case vptr of None \<Rightarrow> None | Some vptr \<Rightarrow> Some (Some (fptr, vptr)))
               })
          })
     }"

text \<open>\<open>Some None\<close> is the result -1.\<close>

definition hashTypeGetFromListpack :: "byte list \<Rightarrow> sds \<Rightarrow> set_elem option option" where
  "hashTypeGetFromListpack zl field =
     do {
       r \<leftarrow> find_field zl field;
       (case r of None \<Rightarrow> Some None | Some (fptr, vptr) \<Rightarrow> map_option Some (lp_elem zl vptr))
     }"

definition hashTypeGetFromHashTable ::
  "hash_server \<Rightarrow> (sds, sds) dict \<Rightarrow> sds \<Rightarrow> ((sds, sds) dict \<times> sds option) option" where
  "hashTypeGetFromHashTable srv d field =
     do {
       (d, de) \<leftarrow> dictFind (srv_can_resize srv) (hashDictType (srv_seed srv)) d field;
       (case de of
          None \<Rightarrow> Some (d, None)
        | Some ref \<Rightarrow> do { he \<leftarrow> entry_at d ref; v \<leftarrow> dictGetVal he; Some (d, Some v) })
     }"

text \<open>A lookup in a hash table may move entries: the object is part of the result. \<open>None\<close> as the value is \<^verbatim>\<open>C_ERR\<close>.\<close>

fun hashTypeGetValue :: "hash_server \<Rightarrow> hash_obj \<Rightarrow> sds \<Rightarrow> (hash_obj \<times> set_elem option) option" where
  "hashTypeGetValue srv (Hash_Listpack zl) field =
     map_option (\<lambda>r. (Hash_Listpack zl, r)) (hashTypeGetFromListpack zl field)"
| "hashTypeGetValue srv (Hash_HT d) field =
     map_option (\<lambda>(d, r). (Hash_HT d, map_option (\<lambda>v. Elem_Str (sds_bytes v)) r)) (hashTypeGetFromHashTable srv d field)"

definition hashTypeGetValueLength :: "hash_server \<Rightarrow> hash_obj \<Rightarrow> sds \<Rightarrow> (hash_obj \<times> nat) option" where
  "hashTypeGetValueLength srv obj field =
     do {
       (obj, r) \<leftarrow> hashTypeGetValue srv obj field;
       Some (obj, case r of None \<Rightarrow> 0 | Some (Elem_Str s) \<Rightarrow> length s | Some (Elem_Int v) \<Rightarrow> unat (sdigits10 v))
     }"

definition hashTypeExists :: "hash_server \<Rightarrow> hash_obj \<Rightarrow> sds \<Rightarrow> (hash_obj \<times> bool) option" where
  "hashTypeExists srv obj field = map_option (map_prod id (\<lambda>r. r \<noteq> None)) (hashTypeGetValue srv obj field)"

fun hashTypeLength :: "hash_obj \<Rightarrow> (hash_obj \<times> nat) option" where
  "hashTypeLength (Hash_Listpack zl) = map_option (\<lambda>(zl, n). (Hash_Listpack zl, n div 2)) (lpLength zl)"
| "hashTypeLength (Hash_HT d) = Some (Hash_HT d, dictSize d)"

section \<open>Iteration\<close>

text \<open>The cursor of a \<^verbatim>\<open>hashTypeIterator\<close>: the entries of a field and its value, or an iterator of the dict with
  the current entry.\<close>

datatype hash_iter =
    HIter_LP "nat option" "nat option"
  | HIter_HT "(sds, sds) dictIterator" "(sds, sds) chain"

fun hashTypeInitIterator :: "hash_obj \<Rightarrow> hash_iter" where
  "hashTypeInitIterator (Hash_Listpack zl) = HIter_LP None None"
| "hashTypeInitIterator (Hash_HT d) = HIter_HT dictInitIterator NULL"

fun hashTypeReleaseIterator :: "hash_server \<Rightarrow> hash_obj \<Rightarrow> hash_iter \<Rightarrow> hash_obj option" where
  "hashTypeReleaseIterator srv (Hash_HT d) (HIter_HT di de) =
     map_option Hash_HT (dictResetIterator (fst (srv_table_addr srv)) (snd (srv_table_addr srv)) d di)"
| "hashTypeReleaseIterator srv obj hi = Some obj"

text \<open>\<open>False\<close> is the result \<^verbatim>\<open>C_ERR\<close>; an iterator of another encoding is a panic.\<close>

fun hashTypeNext :: "hash_server \<Rightarrow> hash_obj \<Rightarrow> hash_iter \<Rightarrow> (hash_obj \<times> hash_iter \<times> bool) option" where
  "hashTypeNext srv (Hash_Listpack zl) (HIter_LP fptr vptr) =
     do {
       f \<leftarrow> (case fptr of
               None \<Rightarrow> if vptr = None then lpFirst zl else None
             | Some _ \<Rightarrow> (case vptr of None \<Rightarrow> None | Some v \<Rightarrow> lpNext zl v));
       (case f of
          None \<Rightarrow> Some (Hash_Listpack zl, HIter_LP fptr vptr, False)
        | Some f \<Rightarrow> do {
            v \<leftarrow> lpNext zl f;
            (case v of None \<Rightarrow> None | Some v \<Rightarrow> Some (Hash_Listpack zl, HIter_LP (Some f) (Some v), True))
          })
     }"
| "hashTypeNext srv (Hash_HT d) (HIter_HT di de) =
     do {
       (d, di, de) \<leftarrow> dictNext (fst (srv_table_addr srv)) (snd (srv_table_addr srv)) d di;
       Some (Hash_HT d, HIter_HT di de, de \<noteq> NULL)
     }"
| "hashTypeNext srv obj hi = None"

text \<open>\<open>key\<close> is the bit \<^verbatim>\<open>OBJ_HASH_KEY\<close> of \<^verbatim>\<open>what\<close>.\<close>

definition hashTypeCurrentFromListpack :: "byte list \<Rightarrow> nat option \<Rightarrow> nat option \<Rightarrow> bool \<Rightarrow> set_elem option" where
  "hashTypeCurrentFromListpack zl fptr vptr key =
     do { p \<leftarrow> (if key then fptr else vptr); lp_elem zl p }"

definition hashTypeCurrentFromHashTable :: "(sds, sds) chain \<Rightarrow> bool \<Rightarrow> sds option" where
  "hashTypeCurrentFromHashTable de key = (if key then dictGetKey de else dictGetVal de)"

fun hashTypeCurrentObject :: "hash_obj \<Rightarrow> hash_iter \<Rightarrow> bool \<Rightarrow> set_elem option" where
  "hashTypeCurrentObject (Hash_Listpack zl) (HIter_LP fptr vptr) key = hashTypeCurrentFromListpack zl fptr vptr key"
| "hashTypeCurrentObject (Hash_HT d) (HIter_HT di de) key =
     map_option (\<lambda>ele. Elem_Str (sds_bytes ele)) (hashTypeCurrentFromHashTable de key)"
| "hashTypeCurrentObject obj hi key = None"

definition hashTypeCurrentObjectNewSds :: "hash_obj \<Rightarrow> hash_iter \<Rightarrow> bool \<Rightarrow> sds option" where
  "hashTypeCurrentObjectNewSds obj hi key =
     do { e \<leftarrow> hashTypeCurrentObject obj hi key; s \<leftarrow> elem_string e; Some (sds_of s) }"

section \<open>Conversion\<close>

text \<open>The loop of \<^verbatim>\<open>hashTypeConvertListpack\<close>; a repeated field is a panic.\<close>

partial_function (option) hash_convert_loop ::
  "hash_server \<Rightarrow> hash_obj \<Rightarrow> hash_iter \<Rightarrow> (sds, sds) dict \<Rightarrow> (hash_obj \<times> hash_iter \<times> (sds, sds) dict) option" where
  "hash_convert_loop srv obj hi d =
     do {
       (obj, hi, more) \<leftarrow> hashTypeNext srv obj hi;
       if \<not> more then Some (obj, hi, d)
       else do {
         key \<leftarrow> hashTypeCurrentObjectNewSds obj hi True;
         value \<leftarrow> hashTypeCurrentObjectNewSds obj hi False;
         (d, ret) \<leftarrow> dictAdd (srv_can_resize srv) (hashDictType (srv_seed srv)) d key value;
         if ret then hash_convert_loop srv obj hi d else None
       }
     }"

definition hashTypeConvertListpack :: "hash_server \<Rightarrow> hash_obj \<Rightarrow> set_encoding \<Rightarrow> hash_obj option" where
  "hashTypeConvertListpack srv obj enc =
     (case obj of
        Hash_HT d \<Rightarrow> None
      | Hash_Listpack zl \<Rightarrow>
          (case enc of
             OBJ_ENCODING_LISTPACK \<Rightarrow> Some obj
           | OBJ_ENCODING_HT \<Rightarrow> do {
               (obj, n) \<leftarrow> hashTypeLength obj;
               (obj, hi, d) \<leftarrow> hash_convert_loop srv obj (hashTypeInitIterator obj) (fst (dictExpand dictCreate n));
               _ \<leftarrow> hashTypeReleaseIterator srv obj hi;
               Some (Hash_HT d)
             }
           | OBJ_ENCODING_INTSET \<Rightarrow> None))"

definition hashTypeConvert :: "hash_server \<Rightarrow> hash_obj \<Rightarrow> set_encoding \<Rightarrow> hash_obj option" where
  "hashTypeConvert srv obj enc =
     (case obj of Hash_Listpack zl \<Rightarrow> hashTypeConvertListpack srv obj enc | Hash_HT d \<Rightarrow> None)"

text \<open>The loop of \<^verbatim>\<open>hashTypeTryConversion\<close> over the arguments \<open>i\<close> to \<open>last\<close>: the sum of the lengths, or \<open>None\<close> for
  the early return at a string that is too long. Arguments that are not SDS strings are skipped.\<close>

function try_loop :: "hash_server \<Rightarrow> str_obj list \<Rightarrow> nat \<Rightarrow> nat \<Rightarrow> nat \<Rightarrow> nat option option" where
  "try_loop srv argv i last_i len_sum =
     (if i > last_i then Some (Some len_sum)
      else do {
        a \<leftarrow> mem_get argv i;
        (case a of
           Obj_Int _ \<Rightarrow> try_loop srv argv (i + 1) last_i len_sum
         | Obj_Sds s \<Rightarrow>
             if sdslen s > hash_max_listpack_value srv then Some None
             else try_loop srv argv (i + 1) last_i (len_sum + sdslen s))
      })"
  by pat_completeness auto
termination by (relation "measure (\<lambda>(srv, argv, i, last_i, len_sum). Suc last_i - i)") auto

definition hashTypeTryConversion :: "hash_server \<Rightarrow> hash_obj \<Rightarrow> str_obj list \<Rightarrow> nat \<Rightarrow> nat \<Rightarrow> hash_obj option" where
  "hashTypeTryConversion srv obj argv start last_i =
     (case obj of
        Hash_HT d \<Rightarrow> Some obj
      | Hash_Listpack zl \<Rightarrow>
          let new_fields = (last_i + 1 - start) div 2
          in if new_fields > hash_max_listpack_entries srv then do {
               obj \<leftarrow> hashTypeConvert srv obj OBJ_ENCODING_HT;
               (case obj of
                  Hash_HT d \<Rightarrow> Some (Hash_HT (fst (dictExpand d new_fields)))
                | Hash_Listpack zl \<Rightarrow> None)
             }
             else do {
               r \<leftarrow> try_loop srv argv start last_i 0;
               (case r of
                  None \<Rightarrow> hashTypeConvert srv obj OBJ_ENCODING_HT
                | Some len_sum \<Rightarrow> do {
                    safe \<leftarrow> lpSafeToAdd (Some zl) len_sum;
                    if \<not> safe then hashTypeConvert srv obj OBJ_ENCODING_HT else Some obj
                  })
             })"

section \<open>Update\<close>

text \<open>\<open>take_field\<close> is the flag \<^verbatim>\<open>HASH_SET_TAKE_FIELD\<close>: without it the key is stored a second time, as a copy. The result
  is the object and whether a value was overwritten.\<close>

definition hash_set_lp :: "hash_server \<Rightarrow> byte list \<Rightarrow> sds \<Rightarrow> sds \<Rightarrow> (hash_obj \<times> bool) option" where
  "hash_set_lp srv zl field value =
     do {
       r \<leftarrow> find_field zl field;
       (zl, update) \<leftarrow>
         (case r of
            Some (fptr, vptr) \<Rightarrow> do { r \<leftarrow> lpReplace zl vptr (sds_bytes value); (zl, _) \<leftarrow> r; Some (zl, True) }
          | None \<Rightarrow> do {
              r \<leftarrow> lpAppend zl (sds_bytes field);
              zl \<leftarrow> r;
              r \<leftarrow> lpAppend zl (sds_bytes value);
              zl \<leftarrow> r;
              Some (zl, False)
            });
       (obj, n) \<leftarrow> hashTypeLength (Hash_Listpack zl);
       obj \<leftarrow> (if n > hash_max_listpack_entries srv then hashTypeConvert srv obj OBJ_ENCODING_HT else Some obj);
       Some (obj, update)
     }"

definition hash_set_ht :: "hash_server \<Rightarrow> (sds, sds) dict \<Rightarrow> sds \<Rightarrow> sds \<Rightarrow> bool \<Rightarrow> (hash_obj \<times> bool) option" where
  "hash_set_ht srv d field value take_field =
     do {
       let t = hashDictType (srv_seed srv);
       (d, de, existing) \<leftarrow> dictAddRaw (srv_can_resize srv) t d field;
       (case de of
          Some ref \<Rightarrow> do {
            d \<leftarrow> dictSetVal t d ref value;
            d \<leftarrow> (if take_field then Some d else dictSetKey t d ref field);
            Some (Hash_HT d, False)
          }
        | None \<Rightarrow> do {
            ref \<leftarrow> existing;
            he \<leftarrow> entry_at d ref;
            _ \<leftarrow> dictGetVal he;
            d \<leftarrow> dictSetVal t d ref value;
            Some (Hash_HT d, True)
          })
     }"

definition hashTypeSet :: "hash_server \<Rightarrow> hash_obj \<Rightarrow> sds \<Rightarrow> sds \<Rightarrow> bool \<Rightarrow> (hash_obj \<times> bool) option" where
  "hashTypeSet srv obj field value take_field =
     do {
       obj \<leftarrow> (case obj of
                  Hash_Listpack zl \<Rightarrow>
                    if sdslen field > hash_max_listpack_value srv \<or> sdslen value > hash_max_listpack_value srv
                    then hashTypeConvert srv obj OBJ_ENCODING_HT else Some obj
                | Hash_HT d \<Rightarrow> Some obj);
       (case obj of
          Hash_Listpack zl \<Rightarrow> hash_set_lp srv zl field value
        | Hash_HT d \<Rightarrow> hash_set_ht srv d field value take_field)
     }"

definition hashTypeDelete :: "hash_server \<Rightarrow> hash_obj \<Rightarrow> sds \<Rightarrow> (hash_obj \<times> bool) option" where
  "hashTypeDelete srv obj field =
     (case obj of
        Hash_Listpack zl \<Rightarrow> do {
          fptr \<leftarrow> lpFirst zl;
          (case fptr of
             None \<Rightarrow> Some (obj, False)
           | Some fptr \<Rightarrow> do {
               fptr \<leftarrow> lpFind zl fptr (sds_bytes field) 1;
               (case fptr of
                  None \<Rightarrow> Some (obj, False)
                | Some fptr \<Rightarrow> do {
                    (zl, _) \<leftarrow> lpDeleteRangeWithEntry zl fptr 2;
                    Some (Hash_Listpack zl, True)
                  })
             })
        }
      | Hash_HT d \<Rightarrow> do {
          (d, deleted) \<leftarrow> dictDelete (srv_can_resize srv) (hashDictType (srv_seed srv)) d field;
          let d = (if deleted \<and> htNeedsResize d then fst (dictResize (srv_can_resize srv) d) else d);
          Some (Hash_HT d, deleted)
        })"

text \<open>The loop of \<^verbatim>\<open>hashTypeDup\<close> over a hash table.\<close>

partial_function (option) hash_dup_loop ::
  "hash_server \<Rightarrow> hash_obj \<Rightarrow> hash_iter \<Rightarrow> (sds, sds) dict \<Rightarrow> (hash_obj \<times> hash_iter \<times> (sds, sds) dict) option" where
  "hash_dup_loop srv obj hi d =
     do {
       (obj, hi, more) \<leftarrow> hashTypeNext srv obj hi;
       (case hi of
          HIter_HT di de \<Rightarrow>
            if \<not> more then Some (obj, hi, d)
            else do {
              field \<leftarrow> hashTypeCurrentFromHashTable de True;
              value \<leftarrow> hashTypeCurrentFromHashTable de False;
              (d, _) \<leftarrow> dictAdd (srv_can_resize srv) (hashDictType (srv_seed srv)) d field value;
              hash_dup_loop srv obj hi d
            }
        | HIter_LP _ _ \<Rightarrow> None)
     }"

definition hashTypeDup :: "hash_server \<Rightarrow> hash_obj \<Rightarrow> (hash_obj \<times> hash_obj) option" where
  "hashTypeDup srv obj =
     (case obj of
        Hash_Listpack zl \<Rightarrow> do { sz \<leftarrow> lpBytes zl; new \<leftarrow> mem_read zl 0 sz; Some (obj, Hash_Listpack new) }
      | Hash_HT d \<Rightarrow> do {
          (obj, hi, new) \<leftarrow> hash_dup_loop srv obj (hashTypeInitIterator obj) (fst (dictExpand dictCreate (dictSize d)));
          obj \<leftarrow> hashTypeReleaseIterator srv obj hi;
          Some (obj, Hash_HT new)
        })"

section \<open>Commands on the object\<close>

text \<open>The part of \<^verbatim>\<open>hsetCommand\<close> between the lookup of the object and the reply: the pairs are the arguments from
  index 2 on, and the result counts the fields that were created.\<close>

fun hset_loop :: "hash_server \<Rightarrow> hash_obj \<Rightarrow> sds list \<Rightarrow> nat \<Rightarrow> (hash_obj \<times> nat) option" where
  "hset_loop srv obj (f # v # args) created =
     do {
       (obj, update) \<leftarrow> hashTypeSet srv obj f v False;
       hset_loop srv obj args (created + (if update then 0 else 1))
     }"
| "hset_loop srv obj [f] created = None"
| "hset_loop srv obj [] created = Some (obj, created)"

definition hset_object :: "hash_server \<Rightarrow> hash_obj \<Rightarrow> sds list \<Rightarrow> (hash_obj \<times> nat) option" where
  "hset_object srv obj argv =
     do {
       obj \<leftarrow> hashTypeTryConversion srv obj (map Obj_Sds argv) 2 (length argv - 1);
       hset_loop srv obj (drop 2 argv) 0
     }"

text \<open>The part of \<^verbatim>\<open>hincrbyCommand\<close> between the lookup and the reply: the new value or an error message.\<close>

datatype hincr_reply = Hincr_Value int | Hincr_Not_Integer | Hincr_Overflow

definition hincrby_object :: "hash_server \<Rightarrow> hash_obj \<Rightarrow> sds \<Rightarrow> int \<Rightarrow> (hash_obj \<times> hincr_reply) option" where
  "hincrby_object srv obj field incr =
     do {
       (obj, r) \<leftarrow> hashTypeGetValue srv obj field;
       old \<leftarrow> (case r of
                  None \<Rightarrow> Some (Some 0)
                | Some (Elem_Str s) \<Rightarrow> string2ll s (length s)
                | Some (Elem_Int v) \<Rightarrow> Some (Some v));
       (case old of
          None \<Rightarrow> Some (obj, Hincr_Not_Integer)
        | Some oldvalue \<Rightarrow>
            if incr < 0 \<and> oldvalue < 0 \<and> incr < LLONG_MIN - oldvalue \<or>
               incr > 0 \<and> oldvalue > 0 \<and> incr > LLONG_MAX - oldvalue
            then Some (obj, Hincr_Overflow)
            else do {
              let value = oldvalue + incr;
              s \<leftarrow> int_string value;
              (obj, _) \<leftarrow> hashTypeSet srv obj field (sds_of s) False;
              Some (obj, Hincr_Value value)
            })
     }"

text \<open>What \<^verbatim>\<open>hsetnxCommand\<close> does to the object: the flag tells whether the field was set.\<close>

definition hsetnx_object :: "hash_server \<Rightarrow> hash_obj \<Rightarrow> sds list \<Rightarrow> (hash_obj \<times> bool) option" where
  "hsetnx_object srv obj argv =
     do {
       field \<leftarrow> mem_get argv 2;
       value \<leftarrow> mem_get argv 3;
       (obj, there) \<leftarrow> hashTypeExists srv obj field;
       if there then Some (obj, False)
       else do {
         obj \<leftarrow> hashTypeTryConversion srv obj (map Obj_Sds argv) 2 3;
         (obj, _) \<leftarrow> hashTypeSet srv obj field value False;
         Some (obj, True)
       }
     }"

text \<open>The loop of \<^verbatim>\<open>hdelCommand\<close> over the fields: the number of deleted fields, and whether it stopped because the hash
  is empty, in which case the command deletes the key.\<close>

fun hdel_loop :: "hash_server \<Rightarrow> hash_obj \<Rightarrow> sds list \<Rightarrow> nat \<Rightarrow> (hash_obj \<times> nat \<times> bool) option" where
  "hdel_loop srv obj [] deleted = Some (obj, deleted, False)"
| "hdel_loop srv obj (f # fs) deleted =
     do {
       (obj, b) \<leftarrow> hashTypeDelete srv obj f;
       if b then do {
         (obj, n) \<leftarrow> hashTypeLength obj;
         if n = 0 then Some (obj, deleted + 1, True) else hdel_loop srv obj fs (deleted + 1)
       }
       else hdel_loop srv obj fs deleted
     }"

text \<open>The reply to a read of one field: the null reply, or a bulk string.\<close>

definition addHashFieldToReply :: "hash_server \<Rightarrow> hash_obj \<Rightarrow> sds \<Rightarrow> (hash_obj \<times> sds option) option" where
  "addHashFieldToReply srv obj field =
     do {
       (obj, r) \<leftarrow> hashTypeGetValue srv obj field;
       (case r of
          None \<Rightarrow> Some (obj, None)
        | Some (Elem_Str s) \<Rightarrow> Some (obj, Some (sds_of s))
        | Some (Elem_Int v) \<Rightarrow> do { s \<leftarrow> int_string v; Some (obj, Some (sds_of s)) })
     }"

end
