(* ===== verification/Map_Interface.thy ===== *)
theory Map_Interface
  imports Redis_Prelude
begin

text \<open>
  The interface of a map from keys to values, as the hash object of \<^verbatim>\<open>t_hash.c\<close> and the dict behind it offer it:
  storing, fetching and removing, each reporting what was there before; a fetch may change the state, since a
  lookup in a hash table moves entries while it is rehashed. The locale \<open>map_impl\<close> states the laws a provider
  promises in terms of the partial function \<open>view s\<close> and proves for its clients that any sequence of operations
  gives the answers and the final contents of that function (\<open>run_refines\<close>).
\<close>

datatype ('k, 'v) map_op = Put 'k 'v | Get 'k | Del 'k

datatype 'v map_answer = Replaced bool | Found "'v option" | Removed bool

text \<open>One operation on a partial function, and a sequence of them with the list of answers.\<close>

fun map_op_spec :: "('k, 'v) map_op \<Rightarrow> ('k \<rightharpoonup> 'v) \<Rightarrow> ('k \<rightharpoonup> 'v) \<times> 'v map_answer" where
  "map_op_spec (Put k v) m = (m(k \<mapsto> v), Replaced (k \<in> dom m))"
| "map_op_spec (Get k) m = (m, Found (m k))"
| "map_op_spec (Del k) m = (m(k := None), Removed (k \<in> dom m))"

fun map_run_spec :: "('k, 'v) map_op list \<Rightarrow> ('k \<rightharpoonup> 'v) \<Rightarrow> ('k \<rightharpoonup> 'v) \<times> 'v map_answer list" where
  "map_run_spec [] m = (m, [])"
| "map_run_spec (p # ps) m =
     (let (m', a) = map_op_spec p m; (m'', as) = map_run_spec ps m' in (m'', a # as))"

text \<open>The same on an implementation, given by its three operations.\<close>

fun map_op_impl :: "('s \<Rightarrow> 'k \<Rightarrow> 'v \<Rightarrow> ('s \<times> bool) option) \<Rightarrow> ('s \<Rightarrow> 'k \<Rightarrow> ('s \<times> 'v option) option) \<Rightarrow>
    ('s \<Rightarrow> 'k \<Rightarrow> ('s \<times> bool) option) \<Rightarrow> ('k, 'v) map_op \<Rightarrow> 's \<Rightarrow> ('s \<times> 'v map_answer) option" where
  "map_op_impl put fetch del (Put k v) s = map_option (map_prod id Replaced) (put s k v)"
| "map_op_impl put fetch del (Get k) s = map_option (map_prod id Found) (fetch s k)"
| "map_op_impl put fetch del (Del k) s = map_option (map_prod id Removed) (del s k)"

fun map_run_impl :: "('s \<Rightarrow> 'k \<Rightarrow> 'v \<Rightarrow> ('s \<times> bool) option) \<Rightarrow> ('s \<Rightarrow> 'k \<Rightarrow> ('s \<times> 'v option) option) \<Rightarrow>
    ('s \<Rightarrow> 'k \<Rightarrow> ('s \<times> bool) option) \<Rightarrow> ('k, 'v) map_op list \<Rightarrow> 's \<Rightarrow> ('s \<times> 'v map_answer list) option" where
  "map_run_impl put fetch del [] s = Some (s, [])"
| "map_run_impl put fetch del (p # ps) s =
     do {
       (s', a) \<leftarrow> map_op_impl put fetch del p s;
       (s'', as) \<leftarrow> map_run_impl put fetch del ps s';
       Some (s'', a # as)
     }"

locale map_impl =
  fixes ok :: "'s \<Rightarrow> bool"
    and view :: "'s \<Rightarrow> 'k \<rightharpoonup> 'v"
    and cap :: nat
    and put :: "'s \<Rightarrow> 'k \<Rightarrow> 'v \<Rightarrow> ('s \<times> bool) option"
    and fetch :: "'s \<Rightarrow> 'k \<Rightarrow> ('s \<times> 'v option) option"
    and del :: "'s \<Rightarrow> 'k \<Rightarrow> ('s \<times> bool) option"
  assumes finite_view: "ok s \<Longrightarrow> finite (dom (view s))"
    and put_ok: "ok s \<Longrightarrow> card (dom (view s)) < cap \<Longrightarrow>
      \<exists>s'. put s k v = Some (s', k \<in> dom (view s)) \<and> ok s' \<and> view s' = (view s)(k \<mapsto> v)"
    and fetch_ok: "ok s \<Longrightarrow> card (dom (view s)) \<le> cap \<Longrightarrow>
      \<exists>s'. fetch s k = Some (s', view s k) \<and> ok s' \<and> view s' = view s"
    and del_ok: "ok s \<Longrightarrow> card (dom (view s)) \<le> cap \<Longrightarrow>
      \<exists>s'. del s k = Some (s', k \<in> dom (view s)) \<and> ok s' \<and> view s' = (view s)(k := None)"
begin

lemma op_refines:
  assumes "ok s" and "card (dom (view s)) < cap"
  shows "\<exists>s'. map_op_impl put fetch del p s = Some (s', snd (map_op_spec p (view s))) \<and> ok s' \<and>
           view s' = fst (map_op_spec p (view s))"
proof (cases p)
  case (Put k v)
  then show ?thesis using put_ok [OF assms, of k v] by auto
next
  case (Get k)
  then show ?thesis using fetch_ok [OF assms(1) less_imp_le [OF assms(2)], of k] by auto
next
  case (Del k)
  then show ?thesis using del_ok [OF assms(1) less_imp_le [OF assms(2)], of k] by auto
qed

lemma card_op: "finite (dom m) \<Longrightarrow> card (dom (fst (map_op_spec p m))) \<le> Suc (card (dom m))"
  by (cases p) (auto simp: card_insert_if card_Diff_singleton_if)

lemma run_refines:
  assumes "ok s" and "card (dom (view s)) + length ps \<le> cap"
  shows "\<exists>s'. map_run_impl put fetch del ps s = Some (s', snd (map_run_spec ps (view s))) \<and> ok s' \<and>
           view s' = fst (map_run_spec ps (view s))"
  using assms
proof (induction ps arbitrary: s)
  case (Cons p ps)
  obtain s' where s': "map_op_impl put fetch del p s = Some (s', snd (map_op_spec p (view s)))" "ok s'"
    "view s' = fst (map_op_spec p (view s))"
    using op_refines [of s p] Cons.prems by auto
  moreover have "card (dom (view s')) + length ps \<le> cap"
    using Cons.prems(2) card_op [OF finite_view [OF Cons.prems(1)], of p] s'(3) by simp
  ultimately obtain s'' where "map_run_impl put fetch del ps s' = Some (s'', snd (map_run_spec ps (view s')))"
    "ok s''" "view s'' = fst (map_run_spec ps (view s'))"
    using Cons.IH [of s'] by auto
  with s' show ?case by (auto simp: split_beta Let_def)
qed simp

end

end
