(* ===== verification/T_Hash_Proofs.thy ===== *)
theory T_Hash_Proofs
  imports T_Hash Map_Interface T_Set_Ops
begin

text \<open>
  The hash object as a map of strings. \<open>hash_pairs\<close> reads the fields and values of an object, \<open>hash_view\<close> is the map,
  \<open>hash_ok\<close> the invariant of the two encodings and \<open>hash_within\<close> the configured limits of the listpack. The theory
  proves lookup, iteration, conversion and the update of one field in either encoding.
\<close>

section \<open>Lists of pairs\<close>

fun pair_up :: "'a list \<Rightarrow> ('a \<times> 'a) list" where
  "pair_up (a # b # xs) = (a, b) # pair_up xs"
| "pair_up _ = []"

lemma length_pair_up [simp]: "length (pair_up xs) = length xs div 2"
  by (induction xs rule: pair_up.induct) auto

lemma pair_up_nth: "Suc (2 * j) < length xs \<Longrightarrow> pair_up xs ! j = (xs ! (2 * j), xs ! Suc (2 * j))"
proof (induction xs arbitrary: j rule: pair_up.induct)
  case (1 a b xs)
  then show ?case by (cases j) auto
qed auto

lemma pair_up_append: "even (length xs) \<Longrightarrow> pair_up (xs @ ys) = pair_up xs @ pair_up ys"
  by (induction xs rule: pair_up.induct) auto

lemma pair_up_update: "Suc (2 * j) < length xs \<Longrightarrow> pair_up (xs[Suc (2 * j) := v]) = (pair_up xs)[j := (xs ! (2 * j), v)]"
proof (induction xs arbitrary: j rule: pair_up.induct)
  case (1 a b xs)
  then show ?case by (cases j) auto
qed auto

lemma pair_up_delete: "pair_up (take (2 * j) xs @ drop (2 * j + 2) xs) = take j (pair_up xs) @ drop (Suc j) (pair_up xs)"
proof (induction xs arbitrary: j rule: pair_up.induct)
  case (1 a b xs)
  then show ?case by (cases j) auto
qed (auto split: nat.splits simp: take_Cons')

lemma in_pair_up:
  assumes "even (length xs)" "i < length xs" "even i"
  shows "xs ! i \<in> fst ` set (pair_up xs)"
proof -
  obtain j where j: "i = 2 * j" using assms(3) by blast
  then have "Suc (2 * j) < length xs" using assms(1,2) by presburger
  then have "pair_up xs ! j = (xs ! i, xs ! Suc i)" "j < length (pair_up xs)" using pair_up_nth [of j xs] j by auto
  then show ?thesis by (metis fst_conv image_eqI nth_mem)
qed

lemma pair_up_keys:
  assumes "k \<in> fst ` set (pair_up xs)"
  obtains j where "Suc (2 * j) < length xs" "xs ! (2 * j) = k"
proof -
  obtain j where j: "j < length (pair_up xs)" "fst (pair_up xs ! j) = k" using assms by (auto simp: in_set_conv_nth)
  then have "Suc (2 * j) < length xs" by auto
  with pair_up_nth [OF this] j(2) that show ?thesis by auto
qed

lemma set_pair_up: "(a, b) \<in> set (pair_up xs) \<Longrightarrow> a \<in> set xs \<and> b \<in> set xs"
  by (induction xs rule: pair_up.induct) auto

text \<open>Association lists with distinct keys under the same changes.\<close>

lemma map_of_update:
  assumes "distinct (map fst ps)" "j < length ps" "fst (ps ! j) = k"
  shows "map_of (ps[j := (k, v)]) = (map_of ps)(k \<mapsto> v)" "map fst (ps[j := (k, v)]) = map fst ps"
proof -
  show keys: "map fst (ps[j := (k, v)]) = map fst ps"
    using assms(2,3) by (metis fst_conv list_update_id map_update nth_map)
  have d: "distinct (map fst (ps[j := (k, v)]))" using keys assms(1) by simp
  show "map_of (ps[j := (k, v)]) = (map_of ps)(k \<mapsto> v)"
  proof (rule ext)
    fix x show "map_of (ps[j := (k, v)]) x = ((map_of ps)(k \<mapsto> v)) x"
    proof (cases "x = k")
      case True
      then show ?thesis using map_of_eq_Some_iff [OF d, of x v] assms(2) by (simp add: set_update_memI)
    next
      case False
      have "(x, w) \<in> set (ps[j := (k, v)]) \<longleftrightarrow> (x, w) \<in> set ps" for w
      proof -
        have "(x, w) \<noteq> ps ! j" using False assms(3) by (metis fst_conv)
        then show ?thesis
          using False assms(2) by (subst (2) id_take_nth_drop [OF assms(2)]) (auto simp: upd_conv_take_nth_drop)
      qed
      then show ?thesis using False map_of_eq_Some_iff [OF d, of x] map_of_eq_Some_iff [OF assms(1), of x]
        by (metis fun_upd_other option.exhaust)
    qed
  qed
qed

lemma map_of_delete:
  assumes "distinct (map fst ps)" "j < length ps" "fst (ps ! j) = k"
  shows "map_of (take j ps @ drop (Suc j) ps) = (map_of ps)(k := None)"
proof -
  have ps: "ps = take j ps @ ps ! j # drop (Suc j) ps" using assms(2) by (rule id_take_nth_drop)
  have "distinct (map fst (take j ps @ ps ! j # drop (Suc j) ps))" using assms(1) ps by simp
  then have "k \<notin> fst ` set (take j ps)" "k \<notin> fst ` set (drop (Suc j) ps)" using assms(3) by auto
  then have n: "map_of (take j ps) k = None" "map_of (drop (Suc j) ps) k = None" by (auto simp: map_of_eq_None_iff)
  have "map_of ps = map_of (take j ps @ ps ! j # drop (Suc j) ps)" using ps by simp
  then show ?thesis using n assms(3) by (cases "ps ! j") (auto simp: map_add_def fun_eq_iff split: option.splits)
qed

section \<open>The pairs of a hash object\<close>

fun hash_pairs :: "hash_obj \<Rightarrow> (byte list \<times> byte list) list" where
  "hash_pairs (Hash_Listpack zl) = (case lpFirst zl \<bind> collect_next zl of Some xs \<Rightarrow> pair_up xs | None \<Rightarrow> [])"
| "hash_pairs (Hash_HT d) =
     map (\<lambda>(k, v). (sds_bytes k, case v of Some s \<Rightarrow> sds_bytes s | None \<Rightarrow> [])) (dict_entries d)"

definition hash_view :: "hash_obj \<Rightarrow> sds \<rightharpoonup> sds" where
  "hash_view obj = map_of (map (map_prod sds_of sds_of) (hash_pairs obj))"

text \<open>The strings of a listpack that holds a hash.\<close>

definition hash_strings :: "byte list \<Rightarrow> byte list list \<Rightarrow> bool" where
  "hash_strings zl xs \<longleftrightarrow>
     lp_models zl xs \<and> even (length xs) \<and> distinct (map fst (pair_up xs)) \<and> (\<forall>x \<in> set xs. length x < 2 ^ 31)"

definition ht_models :: "hash_server \<Rightarrow> (sds, sds) dict \<Rightarrow> (sds \<rightharpoonup> sds) \<Rightarrow> bool" where
  "ht_models srv d m \<longleftrightarrow> dict_models (hashDictType (srv_seed srv)) id d m"

fun hash_ok :: "hash_server \<Rightarrow> hash_obj \<Rightarrow> bool" where
  "hash_ok srv (Hash_Listpack zl) \<longleftrightarrow> (\<exists>xs. hash_strings zl xs)"
| "hash_ok srv (Hash_HT d) \<longleftrightarrow> ht_models srv d (hash_view (Hash_HT d))"

lemma hash_pairs_lp: "lp_models zl xs \<Longrightarrow> hash_pairs (Hash_Listpack zl) = pair_up xs"
  using models_reads [of zl xs] by (simp add: lp_reads_def)

declare hash_pairs.simps(1) [simp del]

lemma hash_view_lp: "hash_strings zl xs \<Longrightarrow> hash_view (Hash_Listpack zl) = map_of (map (map_prod sds_of sds_of) (pair_up xs))"
  using hash_pairs_lp [of zl xs] by (simp add: hash_view_def hash_strings_def)

lemma sds_pairs_distinct:
  assumes "distinct (map fst ps)" "\<forall>p \<in> set ps. length (fst p) < 2 ^ 31"
  shows "distinct (map fst (map (map_prod sds_of sds_of) ps))"
proof -
  have "inj_on sds_of (set (map fst ps))"
    by (rule inj_on_inverseI [where g = sds_bytes]) (use assms(2) in auto)
  then have "distinct (map sds_of (map fst ps))" using assms(1) distinct_map by blast
  then show ?thesis by (simp add: comp_def)
qed

lemma hash_strings_distinct:
  "hash_strings zl xs \<Longrightarrow> distinct (map fst (map (map_prod sds_of sds_of) (pair_up xs)))"
  by (rule sds_pairs_distinct) (auto simp: hash_strings_def dest: set_pair_up)

text \<open>A hash table holds the map it models.\<close>

lemma ht_view_map:
  assumes "dict_ok t id d" "\<forall>p \<in> set (dict_entries d). snd p \<noteq> None"
  shows "dict_map id d k = map_option Some (hash_view (Hash_HT d) k)"
proof -
  let ?ps = "map (map_prod sds_of sds_of) (hash_pairs (Hash_HT d))"
  have "map (\<lambda>(k, v). (k, Some v)) ?ps = dict_entries d"
    using assms(2) by (force simp: comp_def intro!: map_idI split: option.splits)
  then have "dict_map id d = map_of (map (\<lambda>(k, v). (k, Some v)) ?ps)" by (simp add: dict_map_def case_prod_unfold)
  moreover have "map_of (map (\<lambda>(k, v). (k, Some v)) ps) k = map_option Some (map_of ps k)" for ps :: "(sds \<times> sds) list"
    by (induction ps) auto
  ultimately show ?thesis unfolding hash_view_def by (simp only:)
qed

lemma ht_models_view:
  assumes "dict_models t id d m"
  shows "hash_view (Hash_HT d) = m"
proof -
  have ok: "dict_ok t id d" and m: "\<And>k. dict_map id d k = map_option Some (m k)" using assms by (auto simp: dict_models_def)
  have "snd p \<noteq> None" if "p \<in> set (dict_entries d)" for p
  proof -
    have "distinct (map fst (map (\<lambda>(k, v). (id k, v)) (dict_entries d)))" using ok by (simp add: dict_ok_def comp_def case_prod_unfold)
    then have "dict_map id d (fst p) = Some (snd p)" 
      using that by (simp add: dict_map_def case_prod_unfold map_of_eq_Some_iff)
    then have "map_option Some (m (fst p)) = Some (snd p)" using m [of "fst p"] by simp
    then show ?thesis by (cases "snd p") auto
  qed
  then have "dict_map id d k = map_option Some (hash_view (Hash_HT d) k)" for k using ht_view_map [OF ok] by blast
  then have "map_option Some (hash_view (Hash_HT d) k) = map_option Some (m k)" for k using m by simp
  then have "hash_view (Hash_HT d) k = m k" for k by (cases "m k"; cases "hash_view (Hash_HT d) k") (metis option.simps)+
  then show ?thesis by (rule ext)
qed

lemma ht_view: "ht_models srv d m \<Longrightarrow> hash_view (Hash_HT d) = m"
  unfolding ht_models_def by (rule ht_models_view)

lemma ht_hash_ok: "ht_models srv d m \<Longrightarrow> hash_ok srv (Hash_HT d)"
  using ht_view [of srv d m] by simp

lemma ht_step:
  assumes "ht_models srv d m" "length (dict_entries d) < 2 ^ 60" "op_size p < 2 ^ 64"
  shows "\<exists>d'. dict_step (hashDictType (srv_seed srv)) (can, p) d = Some (d', snd (map_step id p m)) \<and>
    ht_models srv d' (fst (map_step id p m)) \<and> length (dict_entries d') \<le> Suc (length (dict_entries d))"
  using hashDict.dict_step_refines [OF assms(1) [unfolded ht_models_def] assms(2,3), of can] by (simp add: ht_models_def)

lemma finite_hash_view: "finite (dom (hash_view obj))"
  by (simp add: hash_view_def finite_dom_map_of)

lemma hash_pairs_distinct:
  assumes "hash_ok srv obj"
  shows "distinct (map fst (map (map_prod sds_of sds_of) (hash_pairs obj)))"
proof (cases obj)
  case (Hash_Listpack zl)
  then show ?thesis using assms hash_strings_distinct hash_pairs_lp by (auto simp: hash_strings_def)
next
  case (Hash_HT d)
  then have "distinct (map fst (dict_entries d))" using assms by (simp add: ht_models_def dict_models_def dict_ok_def)
  moreover have "map fst (map (map_prod sds_of sds_of) (hash_pairs obj)) = map fst (dict_entries d)"
    using Hash_HT by (simp add: comp_def case_prod_unfold)
  ultimately show ?thesis by simp
qed

lemma card_hash_view: "hash_ok srv obj \<Longrightarrow> card (dom (hash_view obj)) = length (hash_pairs obj)"
  using distinct_card [OF hash_pairs_distinct [of srv obj]] by (simp add: hash_view_def dom_map_of_conv_image_fst image_image)

section \<open>Reading entries\<close>

lemma lp_elem_ok:
  assumes "lp_models zl xs" "i < length xs"
  shows "\<exists>e. lp_elem zl (lp_off (map str_enc xs) i) = Some e \<and> elem_is e (xs ! i)"
proof -
  have r: "lp_rep zl (map str_enc xs)" and i: "i < length (map str_enc xs)" using assms by (simp_all add: lp_models_def)
  have "lp_strings (map str_enc xs) ! i = xs ! i" using models_strings [OF assms(1)] by simp
  then have v: "val_bytes (seg_val (map str_enc xs ! i)) = xs ! i" using i by (simp add: lp_strings_def)
  from lp_rep_get [OF r i] show ?thesis
  proof cases
    case (1 w)
    then show ?thesis using v by (simp add: lp_elem_def lpGetValue_def lpGet_def)
  next
    case (2 k n s)
    then show ?thesis using v by (simp add: lp_elem_def lpGetValue_def lpGet_def)
  qed
qed

lemma models_next:
  assumes "lp_models zl xs" "i < length xs"
  shows "lpNext zl (lp_off (map str_enc xs) i) = Some (if Suc i < length xs then Some (lp_off (map str_enc xs) (Suc i)) else None)"
  using rep_next [of zl "map str_enc xs" i] assms by (simp add: lp_models_def)

lemma models_first: "lp_models zl xs \<Longrightarrow> lpFirst zl = Some (if xs = [] then None else Some (lp_off (map str_enc xs) 0))"
  using rep_first_index [of zl "map str_enc xs"] by (simp add: lp_models_def)

text \<open>Looking up a field: the search steps over the values.\<close>

lemma find_index_skip1:
  "find_index xs s 1 0 = None \<Longrightarrow> i < length xs \<Longrightarrow> even i \<Longrightarrow> xs ! i \<noteq> s"
  "find_index xs s 1 0 = Some i \<Longrightarrow> i < length xs" "find_index xs s 1 0 = Some i \<Longrightarrow> xs ! i = s"
  "find_index xs s 1 0 = Some i \<Longrightarrow> even i"
  unfolding find_index_def find_None_iff find_Some_iff One_nat_def numeral_2_eq_2 [symmetric]
  by (simp_all add: nth_upt) (use nth_upt in \<open>force+\<close>)

lemma lp_find_field:
  assumes "lp_models zl xs" "even (length xs)"
  obtains (empty) "lpFirst zl = Some None" "xs = []"
  | (absent) p where "lpFirst zl = Some (Some p)" "lpFind zl p s 1 = Some None" "s \<notin> fst ` set (pair_up xs)"
  | (found) p j where "lpFirst zl = Some (Some p)" "lpFind zl p s 1 = Some (Some (lp_off (map str_enc xs) (2 * j)))"
      "Suc (2 * j) < length xs" "xs ! (2 * j) = s" "s \<in> fst ` set (pair_up xs)"
proof (cases "xs = []")
  case True
  then show ?thesis using models_first [OF assms(1)] empty by simp
next
  case False
  have st: "lp_strings (map str_enc xs) = xs" by (rule models_strings [OF assms(1)])
  have f: "lpFind zl (lp_off (map str_enc xs) 0) s 1 = Some (map_option (lp_off (map str_enc xs)) (find_index xs s 1 0))"
    using rep_find [of zl "map str_enc xs" 0 s 1] assms(1) False st by (simp add: lp_models_def)
  note first = models_first [OF assms(1)]
  show ?thesis
  proof (cases "find_index xs s 1 0")
    case None
    have n: "xs ! i \<noteq> s" if "i < length xs" "even i" for i
      by (rule find_index_skip1(1) [OF None that])
    have "s \<notin> fst ` set (pair_up xs)"
    proof
      assume "s \<in> fst ` set (pair_up xs)"
      then obtain j where "Suc (2 * j) < length xs" "xs ! (2 * j) = s" by (rule pair_up_keys)
      then show False using n [of "2 * j"] by simp
    qed
    then show ?thesis by (rule absent [rotated 2]) (use f None first False in simp_all)
  next
    case (Some i)
    note i = find_index_skip1(2-4) [OF Some]
    then obtain j where j: "i = 2 * j" by blast
    have "Suc (2 * j) < length xs" using i(1) j assms(2) by presburger
    then show ?thesis
      by (rule found [of "lp_off (map str_enc xs) 0" j, rotated 2])
        (use f Some first False i(2) j in_pair_up [OF assms(2) i(1,3)] in simp_all)
  qed
qed

lemma find_field_ok:
  assumes "lp_models zl xs" "even (length xs)"
  obtains (absent) "find_field zl field = Some None" "sds_bytes field \<notin> fst ` set (pair_up xs)"
  | (found) j where "find_field zl field = Some (Some (lp_off (map str_enc xs) (2 * j), lp_off (map str_enc xs) (Suc (2 * j))))"
      "Suc (2 * j) < length xs" "xs ! (2 * j) = sds_bytes field" "sds_bytes field \<in> fst ` set (pair_up xs)"
proof (rule lp_find_field [OF assms, where s = "sds_bytes field"])
  assume "lpFirst zl = Some None" "xs = []"
  then show ?thesis using absent by (simp add: find_field_def)
next
  fix p assume "lpFirst zl = Some (Some p)" "lpFind zl p (sds_bytes field) 1 = Some None" "sds_bytes field \<notin> fst ` set (pair_up xs)"
  then show ?thesis using absent by (simp add: find_field_def)
next
  fix p j assume a: "lpFirst zl = Some (Some p)" "lpFind zl p (sds_bytes field) 1 = Some (Some (lp_off (map str_enc xs) (2 * j)))"
    "Suc (2 * j) < length xs" "xs ! (2 * j) = sds_bytes field" "sds_bytes field \<in> fst ` set (pair_up xs)"
  then show ?thesis using found models_next [OF assms(1), of "2 * j"] by (simp add: find_field_def)
qed

lemma hash_view_key:
  assumes "hash_strings zl xs"
  shows "field \<in> dom (hash_view (Hash_Listpack zl)) \<longleftrightarrow> sds_bytes field \<in> fst ` set (pair_up xs)"
proof -
  have "length a < 2 ^ 31" if "(a, b) \<in> set (pair_up xs)" for a b
    using set_pair_up [OF that] assms by (auto simp: hash_strings_def)
  then have "field = sds_of a \<longleftrightarrow> sds_bytes field = a" if "(a, b) \<in> set (pair_up xs)" for a b
    using that by (metis sds_bytes_of sds_of_bytes)
  then show ?thesis by (force simp: hash_view_lp [OF assms] dom_map_of_conv_image_fst image_iff)
qed

lemma hash_view_nth:
  assumes "hash_strings zl xs" "Suc (2 * j) < length xs" "xs ! (2 * j) = sds_bytes field"
  shows "hash_view (Hash_Listpack zl) field = Some (sds_of (xs ! Suc (2 * j)))"
proof -
  have "(field, sds_of (xs ! Suc (2 * j))) \<in> set (map (map_prod sds_of sds_of) (pair_up xs))"
    using assms(2,3) pair_up_nth [OF assms(2)] nth_mem [of j "pair_up xs"] by force
  then show ?thesis using hash_strings_distinct [OF assms(1)] by (simp add: hash_view_lp [OF assms(1)] del: map_map set_map)
qed

section \<open>Iteration and conversion\<close>

text \<open>An iterator over a listpack with the pairs \<open>ps\<close> still to come.\<close>

definition hash_iter_lp :: "byte list \<Rightarrow> hash_iter \<Rightarrow> (byte list \<times> byte list) list \<Rightarrow> bool" where
  "hash_iter_lp zl hi ps \<longleftrightarrow>
     (\<exists>xs i. lp_models zl xs \<and> even (length xs) \<and> 2 * i \<le> length xs \<and> ps = drop i (pair_up xs) \<and>
        hi = (case i of 0 \<Rightarrow> HIter_LP None None
              | Suc j \<Rightarrow> HIter_LP (Some (lp_off (map str_enc xs) (2 * j))) (Some (lp_off (map str_enc xs) (Suc (2 * j))))))"

lemma hash_next_lp:
  assumes "hash_iter_lp zl hi ps"
  shows "\<exists>hi'. hashTypeNext srv (Hash_Listpack zl) hi = Some (Hash_Listpack zl, hi', ps \<noteq> []) \<and>
    (ps \<noteq> [] \<longrightarrow> hash_iter_lp zl hi' (tl ps) \<and>
       hashTypeCurrentObjectNewSds (Hash_Listpack zl) hi' True = Some (sds_of (fst (hd ps))) \<and>
       hashTypeCurrentObjectNewSds (Hash_Listpack zl) hi' False = Some (sds_of (snd (hd ps))))"
proof -
  obtain xs i where m: "lp_models zl xs" and e: "even (length xs)" and i: "2 * i \<le> length xs" and ps: "ps = drop i (pair_up xs)"
    and hi: "hi = (case i of 0 \<Rightarrow> HIter_LP None None
              | Suc j \<Rightarrow> HIter_LP (Some (lp_off (map str_enc xs) (2 * j))) (Some (lp_off (map str_enc xs) (Suc (2 * j)))))"
    using assms by (auto simp: hash_iter_lp_def)
  let ?o = "lp_off (map str_enc xs)"
  obtain f v where fv: "hi = HIter_LP f v" 
    "(case f of None \<Rightarrow> if v = None then lpFirst zl else None | Some _ \<Rightarrow> (case v of None \<Rightarrow> None | Some v \<Rightarrow> lpNext zl v)) =
       Some (if 2 * i < length xs then Some (?o (2 * i)) else None)"
  proof (cases i)
    case 0
    then show ?thesis using that [of None None] hi models_first [OF m] by simp
  next
    case (Suc j)
    then show ?thesis using that [of "Some (?o (2 * j))" "Some (?o (Suc (2 * j)))"] hi models_next [OF m, of "Suc (2 * j)"] i by simp
  qed
  show ?thesis
  proof (cases "2 * i < length xs")
    case False
    then have "ps = []" using ps i by simp
    then show ?thesis using fv False by simp
  next
    case True
    then have l: "Suc (2 * i) < length xs" using e by presburger
    have hd: "hd ps = (xs ! (2 * i), xs ! Suc (2 * i))" "ps \<noteq> []" "tl ps = drop (Suc i) (pair_up xs)"
      using ps l pair_up_nth [OF l] by (simp_all add: hd_drop_conv_nth drop_Suc tl_drop)
    obtain e1 e2 where el: "lp_elem zl (?o (2 * i)) = Some e1" "elem_is e1 (xs ! (2 * i))"
      "lp_elem zl (?o (Suc (2 * i))) = Some e2" "elem_is e2 (xs ! Suc (2 * i))"
      using lp_elem_ok [OF m True] lp_elem_ok [OF m l] by blast
    have "hash_iter_lp zl (HIter_LP (Some (?o (2 * i))) (Some (?o (Suc (2 * i))))) (tl ps)"
      unfolding hash_iter_lp_def using m e l hd(3) by (intro exI [of _ xs] exI [of _ "Suc i"]) auto
    moreover have "hashTypeNext srv (Hash_Listpack zl) hi =
        Some (Hash_Listpack zl, HIter_LP (Some (?o (2 * i))) (Some (?o (Suc (2 * i)))), True)"
      using fv True models_next [OF m True] l by simp
    ultimately show ?thesis using hd el elem_string_ok
      by (auto simp: hashTypeCurrentObjectNewSds_def hashTypeCurrentFromListpack_def)
  qed
qed

lemma hash_convert_loop_ok:
  assumes "hash_iter_lp zl hi ps" "ht_models srv d m"
    "length (dict_entries d) + length ps < 2 ^ 60" "distinct (map fst (map (map_prod sds_of sds_of) ps))"
    "\<forall>p \<in> set ps. m (sds_of (fst p)) = None"
  shows "\<exists>hi' d'. hash_convert_loop srv (Hash_Listpack zl) hi d = Some (Hash_Listpack zl, hi', d') \<and>
     ht_models srv d' (m ++ map_of (map (map_prod sds_of sds_of) ps))"
  using assms
proof (induction ps arbitrary: hi d m)
  case Nil
  from hash_next_lp [OF Nil.prems(1), of srv] Nil.prems(2) show ?case by (subst hash_convert_loop.simps) auto
next
  case (Cons p ps)
  from hash_next_lp [OF Cons.prems(1), of srv] obtain hi' where
    n: "hashTypeNext srv (Hash_Listpack zl) hi = Some (Hash_Listpack zl, hi', True)" "hash_iter_lp zl hi' ps"
      "hashTypeCurrentObjectNewSds (Hash_Listpack zl) hi' True = Some (sds_of (fst p))"
      "hashTypeCurrentObjectNewSds (Hash_Listpack zl) hi' False = Some (sds_of (snd p))" by auto
  have small: "length (dict_entries d) < 2 ^ 60" using Cons.prems(3) by simp
  from ht_step [OF Cons.prems(2) small, of "DAdd (sds_of (fst p)) (sds_of (snd p))" "srv_can_resize srv"]
  obtain d' where d': "dictAdd (srv_can_resize srv) (hashDictType (srv_seed srv)) d (sds_of (fst p)) (sds_of (snd p)) = Some (d', True)"
    "ht_models srv d' (m(sds_of (fst p) \<mapsto> sds_of (snd p)))"
    "length (dict_entries d') \<le> Suc (length (dict_entries d))" using Cons.prems(5) by auto
  have "\<exists>hi'' d''. hash_convert_loop srv (Hash_Listpack zl) hi' d' = Some (Hash_Listpack zl, hi'', d'') \<and>
     ht_models srv d''
       (m(sds_of (fst p) \<mapsto> sds_of (snd p)) ++ map_of (map (map_prod sds_of sds_of) ps))"
  proof (rule Cons.IH [OF n(2) d'(2)])
    show "\<forall>q \<in> set ps. (m(sds_of (fst p) \<mapsto> sds_of (snd p))) (sds_of (fst q)) = None"
      using Cons.prems(4,5) by (force simp: image_iff)
  qed (use Cons.prems(3,4) d'(3) in auto)
  moreover have "m(sds_of (fst p) \<mapsto> sds_of (snd p)) ++ map_of (map (map_prod sds_of sds_of) ps) =
      m ++ map_of (map (map_prod sds_of sds_of) (p # ps))"
  proof -
    have "sds_of (fst p) \<notin> dom (map_of (map (map_prod sds_of sds_of) ps))"
      using Cons.prems(4) by (auto simp: dom_map_of_conv_image_fst image_iff)
    then show ?thesis by (cases p) (auto simp: map_add_upd_left)
  qed
  ultimately show ?case using n d'(1) by (subst hash_convert_loop.simps) auto
qed

lemma models_lpLength:
  assumes "lp_models zl xs"
  shows "\<exists>zl'. lpLength zl = Some (zl', length xs) \<and> lp_models zl' xs"
  using rep_length [of zl "map str_enc xs"] assms by (auto simp: lp_models_def)

lemma models_count: "lp_models zl xs \<Longrightarrow> length xs < 2 ^ 32"
  using rep_count_bound [of zl "map str_enc xs"] by (simp add: lp_models_def lp_rep_def)

lemma hash_convert_ok:
  assumes "hash_strings zl xs"
  shows "\<exists>d. hashTypeConvert srv (Hash_Listpack zl) OBJ_ENCODING_HT = Some (Hash_HT d) \<and>
    ht_models srv d (hash_view (Hash_Listpack zl)) \<and> length (dict_entries d) = length (pair_up xs)"
proof -
  have m: "lp_models zl xs" and e: "even (length xs)" using assms by (auto simp: hash_strings_def)
  obtain zl' where l: "lpLength zl = Some (zl', length xs)" "lp_models zl' xs" using models_lpLength [OF m] by blast
  have n: "length xs div 2 < 2 ^ 64" using models_count [OF m] by simp
  define d0 :: "(sds, sds) dict" where "d0 = fst (dictExpand dictCreate (length xs div 2))"
  have "ht_models srv dictCreate Map.empty" unfolding ht_models_def by (rule hashDict.create_models)
  then have d0: "ht_models srv d0 Map.empty" "dict_entries d0 = []"
    using hashDict.resize_models [of "srv_seed srv" dictCreate Map.empty, OF _ n]
    by (auto simp: d0_def ht_models_def dictCreate_ok)
  have it: "hash_iter_lp zl' (hashTypeInitIterator (Hash_Listpack zl')) (pair_up xs)"
    unfolding hash_iter_lp_def using l(2) e by (intro exI [of _ xs] exI [of _ 0]) simp
  have small: "length (dict_entries d0) + length (pair_up xs) < 2 ^ 60" using models_count [OF m] d0(2) by simp
  obtain hi d where c: "hash_convert_loop srv (Hash_Listpack zl') (hashTypeInitIterator (Hash_Listpack zl')) d0 = Some (Hash_Listpack zl', hi, d)"
    "ht_models srv d (map_of (map (map_prod sds_of sds_of) (pair_up xs)))"
    using hash_convert_loop_ok [OF it d0(1) small hash_strings_distinct [OF assms]] by auto
  have v: "ht_models srv d (hash_view (Hash_Listpack zl))" using c(2) hash_view_lp [OF assms] by simp
  have "length (hash_pairs (Hash_HT d)) = length (hash_pairs (Hash_Listpack zl))"
    using card_hash_view [OF ht_hash_ok [OF v]] card_hash_view [of srv "Hash_Listpack zl"] assms ht_view [OF v] by auto
  then have "length (dict_entries d) = length (pair_up xs)" using hash_pairs_lp [OF m] by simp
  moreover have "hashTypeConvert srv (Hash_Listpack zl) OBJ_ENCODING_HT = Some (Hash_HT d)"
    using l(1) c(1) by (simp add: hashTypeConvert_def hashTypeConvertListpack_def d0_def)
  ultimately show ?thesis using v by blast
qed

section \<open>Operations\<close>

fun hash_within :: "hash_server \<Rightarrow> hash_obj \<Rightarrow> bool" where
  "hash_within srv (Hash_Listpack zl) \<longleftrightarrow>
     length (hash_pairs (Hash_Listpack zl)) \<le> hash_max_listpack_entries srv \<and>
     (\<forall>p \<in> set (hash_pairs (Hash_Listpack zl)). length (fst p) \<le> hash_max_listpack_value srv \<and>
        length (snd p) \<le> hash_max_listpack_value srv)"
| "hash_within srv (Hash_HT d) \<longleftrightarrow> True"

text \<open>The limits are such that a listpack within them, with one more pair, is smaller than 4 GB.\<close>

definition hash_srv_ok :: "hash_server \<Rightarrow> bool" where
  "hash_srv_ok srv \<longleftrightarrow> 7 + 2 * (hash_max_listpack_entries srv + 1) * (hash_max_listpack_value srv + 20) < 2 ^ 32"

definition hash_inv :: "hash_server \<Rightarrow> hash_obj \<Rightarrow> bool" where
  "hash_inv srv obj \<longleftrightarrow> hash_srv_ok srv \<and> hash_ok srv obj \<and> hash_within srv obj"

lemma lp_size_bound:
  assumes "\<forall>x \<in> set xs. length x \<le> n"
  shows "lp_size xs \<le> 7 + length xs * (n + 20)"
proof -
  have "sum_list (map (\<lambda>s. length s + 20) xs) \<le> length xs * (n + 20)"
    using assms by (induction xs) auto
  then show ?thesis using lp_size_le [of xs] by linarith
qed

lemma pair_up_members:
  assumes "even (length xs)" "x \<in> set xs"
  shows "\<exists>p \<in> set (pair_up xs). x = fst p \<or> x = snd p"
  using assms by (induction xs rule: pair_up.induct) auto

lemma within_size:
  assumes "hash_srv_ok srv" "length xs \<le> 2 * (hash_max_listpack_entries srv + 1)" "\<forall>x \<in> set xs. length x \<le> hash_max_listpack_value srv"
  shows "lp_size xs < 2 ^ 32"
proof -
  have "length xs * (hash_max_listpack_value srv + 20) \<le>
      2 * (hash_max_listpack_entries srv + 1) * (hash_max_listpack_value srv + 20)"
    using assms(2) by (intro mult_le_mono1)
  then show ?thesis using assms(1) lp_size_bound [OF assms(3)] by (simp add: hash_srv_ok_def)
qed

lemma within_strings:
  assumes "hash_strings zl xs" "hash_within srv (Hash_Listpack zl)"
  shows "length xs \<le> 2 * hash_max_listpack_entries srv" "\<forall>x \<in> set xs. length x \<le> hash_max_listpack_value srv"
proof -
  have m: "lp_models zl xs" and e: "even (length xs)" using assms(1) by (auto simp: hash_strings_def)
  show "length xs \<le> 2 * hash_max_listpack_entries srv" using assms(2) e hash_pairs_lp [OF m] by auto
  show "\<forall>x \<in> set xs. length x \<le> hash_max_listpack_value srv"
    using assms(2) hash_pairs_lp [OF m] pair_up_members [OF e] by fastforce
qed

lemma get_ok:
  assumes "hash_ok srv obj"
  shows "\<exists>obj' r. hashTypeGetValue srv obj field = Some (obj', r) \<and> hash_ok srv obj' \<and> hash_view obj' = hash_view obj \<and>
    (hash_within srv obj \<longrightarrow> hash_within srv obj') \<and>
    (case r of None \<Rightarrow> hash_view obj field = None
     | Some e \<Rightarrow> \<exists>v. hash_view obj field = Some v \<and> elem_is e (sds_bytes v))"
proof (cases obj)
  case (Hash_HT d)
  then have m: "dict_models (hashDictType (srv_seed srv)) id d (hash_view obj)" using assms by (simp add: ht_models_def)
  from hashDict.fetch_models [OF m, of "srv_can_resize srv" field] obtain d' where
    d': "dictFetchValue (srv_can_resize srv) (hashDictType (srv_seed srv)) d field = Some (d', hash_view obj field)"
    "dict_models (hashDictType (srv_seed srv)) id d' (hash_view obj)" by auto
  then have m': "ht_models srv d' (hash_view obj)" by (simp add: ht_models_def)
  have "hashTypeGetFromHashTable srv d field = Some (d', hash_view obj field)"
    using d'(1) by (simp add: hashTypeGetFromHashTable_def dictFetchValue_def)
  then show ?thesis using Hash_HT ht_view [OF m'] ht_hash_ok [OF m'] by (auto split: option.splits)
next
  case (Hash_Listpack zl)
  then obtain xs where s: "hash_strings zl xs" using assms by auto
  then have m: "lp_models zl xs" "even (length xs)" by (auto simp: hash_strings_def)
  show ?thesis
  proof (rule find_field_ok [OF m, where field = field])
    assume a: "find_field zl field = Some None" "sds_bytes field \<notin> fst ` set (pair_up xs)"
    then have "hash_view obj field = None" using hash_view_key [OF s, of field] Hash_Listpack by auto
    then show ?thesis using a Hash_Listpack assms by (simp add: hashTypeGetFromListpack_def)
  next
    fix j assume a: "find_field zl field = Some (Some (lp_off (map str_enc xs) (2 * j), lp_off (map str_enc xs) (Suc (2 * j))))"
      "Suc (2 * j) < length xs" "xs ! (2 * j) = sds_bytes field"
    have v: "hash_view obj field = Some (sds_of (xs ! Suc (2 * j)))" using hash_view_nth [OF s a(2,3)] Hash_Listpack by simp
    obtain e where e: "lp_elem zl (lp_off (map str_enc xs) (Suc (2 * j))) = Some e" "elem_is e (xs ! Suc (2 * j))"
      using lp_elem_ok [OF m(1) a(2)] by blast
    have "length (xs ! Suc (2 * j)) < 2 ^ 31" using s a(2) by (simp add: hash_strings_def)
    then show ?thesis using a(1) e v Hash_Listpack assms by (simp add: hashTypeGetFromListpack_def)
  qed
qed

text \<open>What storing a value does.\<close>

definition set_result :: "hash_server \<Rightarrow> hash_obj \<Rightarrow> sds \<Rightarrow> sds \<Rightarrow> (hash_obj \<times> bool) option \<Rightarrow> bool" where
  "set_result srv obj k v r \<longleftrightarrow>
     (\<exists>obj'. r = Some (obj', k \<in> dom (hash_view obj)) \<and> hash_ok srv obj' \<and> hash_within srv obj' \<and>
        hash_view obj' = (hash_view obj)(k \<mapsto> v))"

lemma replace_points:
  assumes "dict_ok t key_id d" "ref_points d ref (k, v)" "update_entry f d ref = Some d'"
    "\<And>c. chain_ok t c \<Longrightarrow> c \<noteq> NULL \<Longrightarrow> hd (chain_list c) = (k, v) \<Longrightarrow>
       \<exists>c'. f c = Some c' \<and> chain_ok t c' \<and> chain_list c' = (k, v') # tl (chain_list c)"
  shows "ref_points d' ref (k, v')"
proof -
  obtain i idx pos tab where r: "ref = (i, idx, pos)" "i \<le> 1" "ht_table (get_ht d i) = Some tab"
    "idx < length tab" "pos < length (chain_list (tab ! idx))" "chain_list (tab ! idx) ! pos = (k, v)"
    using assms(2) by (rule ref_pointsE)
  let ?c = "(dictGetNext ^^ pos) (tab ! idx)"
  have "table_ok t (get_ht d i)" using assms(1) by (simp add: dict_ok_def get_ht_def)
  then have cok: "chain_ok t (tab ! idx)" using table_ok_Some(5) [OF _ r(3,4)] by simp
  have cl: "chain_list ?c = drop pos (chain_list (tab ! idx))" by (rule funpow_next_list)
  have "chain_ok t ?c" using cok by (induction pos) (auto intro: chain_ok_next)
  moreover have "?c \<noteq> NULL" using cl r(5) by (metis chain_list_Nil drop_eq_Nil2 not_le)
  moreover have "hd (chain_list ?c) = (k, v)" using cl r(5,6) by (simp add: hd_drop_conv_nth)
  ultimately obtain c' where c': "f ?c = Some c'" "chain_ok t c'" "chain_list c' = (k, v') # tl (chain_list ?c)"
    using assms(4) [of ?c] by auto
  obtain he' where "update_entry f d ref = Some (set_ht d i ((get_ht d i)\<lparr>ht_table := Some (tab[idx := he'])\<rparr>))"
    "chain_list he' = take pos (chain_list (tab ! idx)) @ chain_list c'"
    using update_entry_ok [where f = f, OF assms(1) r(1-5) c'(1,2)] by auto
  then show ?thesis using assms(3) r c'(3) by (auto simp: ref_points_def nth_append get_ht_def set_ht_def)
qed


lemma value_chain:
  "chain_ok t c \<Longrightarrow> c \<noteq> NULL \<Longrightarrow> hd (chain_list c) = (k, v) \<Longrightarrow> \<not> no_value t \<Longrightarrow> \<exists>n. c = ENormal k v n \<and> chain_ok t n"
  by (cases c) auto

lemma setval_points:
  assumes "dict_ok t key_id d" "ref_points d ref (k, v)" "\<not> no_value t" "valDup t = None" "dictSetVal t d ref val = Some d'"
  shows "ref_points d' ref (k, Some val)"
proof (rule replace_points [OF assms(1,2) assms(5) [unfolded dictSetVal_def]])
  fix c assume "chain_ok t c" "c \<noteq> NULL" "hd (chain_list c) = (k, v)"
  from value_chain [OF this assms(3)] show "\<exists>c'. (case c of
      ENormal k v n \<Rightarrow> Some (ENormal k (Some (case valDup t of Some f \<Rightarrow> f val | None \<Rightarrow> val)) n) | _ \<Rightarrow> None) = Some c' \<and>
      chain_ok t c' \<and> chain_list c' = (k, Some val) # tl (chain_list c)"
    using assms(3,4) by auto
qed

lemma setkey_ok:
  assumes "dict_ok t key_id d" "ref_points d ref (k, v)" "\<not> no_value t" "keyDup t = None"
  shows "\<exists>d'. dictSetKey t d ref k = Some d' \<and> dict_ok t key_id d' \<and> dict_map key_id d' = (dict_map key_id d)(key_id k \<mapsto> v)"
proof -
  have "\<exists>d'. update_entry (\<lambda>c. case c of ENormal k' v n \<Rightarrow> Some (ENormal k v n) | _ \<Rightarrow> None) d ref = Some d' \<and>
      dict_ok t key_id d' \<and> pauserehash d' = pauserehash d \<and> dict_map key_id d' = (dict_map key_id d)(key_id k \<mapsto> v) \<and>
      add_mset (k, v) (dict_bag d') = add_mset (k, v) (dict_bag d)"
  proof (rule replace_entry_ok [OF assms(1,2)])
    fix c assume "chain_ok t c" "c \<noteq> NULL" "hd (chain_list c) = (k, v)"
    from value_chain [OF this assms(3)] show "\<exists>c'. (case c of ENormal k' v n \<Rightarrow> Some (ENormal k v n) | _ \<Rightarrow> None) = Some c' \<and>
      chain_ok t c' \<and> chain_list c' = (k, v) # tl (chain_list c)" using assms(3) by auto
  qed
  then obtain d' where d': "update_entry (\<lambda>c. case c of ENormal k' v n \<Rightarrow> Some (ENormal k v n) | _ \<Rightarrow> None) d ref = Some d'"
    "dict_ok t key_id d'" "dict_map key_id d' = (dict_map key_id d)(key_id k \<mapsto> v)" by (elim exE conjE) (rule that)
  then have "dictSetKey t d ref k = Some d'" using assms(3,4) by (simp add: dictSetKey_def)
  with d'(2,3) show ?thesis by (intro exI conjI)
qed

lemma set_ht_ok:
  assumes "ht_models srv d m" "length (dict_entries d) < 2 ^ 60"
  shows "\<exists>d'. hash_set_ht srv d field value tf = Some (Hash_HT d', field \<in> dom m) \<and> ht_models srv d' (m(field \<mapsto> value))"
proof -
  let ?t = "hashDictType (srv_seed srv) :: (sds, sds) dictType"
  have nv: "\<not> no_value ?t" "valDup ?t = None" "keyDup ?t = None" by (simp_all add: hashDictType_def)
  have ok: "dict_ok ?t id d" and dm: "\<And>k. dict_map id d k = map_option Some (m k)"
    using assms(1) by (auto simp: ht_models_def dict_models_def)
  obtain d1 e x where r: "dictAddRaw (srv_can_resize srv) ?t d field = Some (d1, e, x)" "dict_ok ?t id d1"
     "case dict_map id d (id field) of
        None \<Rightarrow> \<exists>ref key'. e = Some ref \<and> x = None \<and> id key' = id field \<and>
                   dict_bag d1 = add_mset (key', None) (dict_bag d) \<and> ref_points d1 ref (key', None)
      | Some v \<Rightarrow> e = None \<and> dict_bag d1 = dict_bag d \<and>
                   (\<exists>ref k. x = Some ref \<and> ref_points d1 ref (k, v) \<and> id k = id field)"
    using hashDict.dictAddRaw_ok [OF ok assms(2), of "srv_can_resize srv" field] by blast
  show ?thesis
  proof (cases "m field")
    case (Some v)
    then have "dict_map id d (id field) = Some (Some v)" using dm by simp
    from r(3) [unfolded this option.case] obtain ref where
      x: "e = None" "x = Some ref" "ref_points d1 ref (field, Some v)" "dict_bag d1 = dict_bag d" by auto
    obtain d2 where d2: "dictSetVal ?t d1 ref value = Some d2" "dict_ok ?t id d2"
      "dict_map id d2 = (dict_map id d1)(id field \<mapsto> Some (stored_value ?t value))"
      using dictSetVal_ok [OF r(2) x(3) nv(1)] by blast
    have "dict_map id d1 = dict_map id d" by (rule dict_map_bag [OF ok r(2) x(4)])
    then have "ht_models srv d2 (m(field \<mapsto> value))"
      using d2(2,3) dm nv(2) by (simp add: ht_models_def dict_models_def stored_value_def)
    moreover obtain he where "entry_at d1 ref = Some he" "he \<noteq> NULL" "hd (chain_list he) = (field, Some v)"
      using ref_points_entry_at [OF x(3)] by blast
    moreover from this have "dictGetVal he = Some v" by (cases he) auto
    ultimately show ?thesis using r(1) x(1,2) d2(1) Some by (auto simp: hash_set_ht_def Let_def)
  next
    case None
    then have "dict_map id d (id field) = None" using dm by simp
    from r(3) [unfolded this option.case] obtain ref where
      x: "e = Some ref" "ref_points d1 ref (field, None)" "dict_bag d1 = add_mset (field, None) (dict_bag d)" by auto
    obtain d2 where d2: "dictSetVal ?t d1 ref value = Some d2" "dict_ok ?t id d2"
      "dict_map id d2 = (dict_map id d1)(id field \<mapsto> Some (stored_value ?t value))"
      using dictSetVal_ok [OF r(2) x(2) nv(1)] by blast
    have v: "stored_value ?t value = value" using nv(2) by (simp add: stored_value_def)
    have p2: "ref_points d2 ref (field, Some value)" by (rule setval_points [OF r(2) x(2) nv(1,2) d2(1)])
    obtain d3 where d3: "dictSetKey ?t d2 ref field = Some d3" "dict_ok ?t id d3"
      "dict_map id d3 = (dict_map id d2)(id field \<mapsto> Some value)"
      using setkey_ok [OF d2(2) p2 nv(1,3)] by blast
    have d1m: "dict_map id d1 = (dict_map id d)(field \<mapsto> None)"
      using dict_map_insert [OF r(2) x(3)] by simp
    have "ht_models srv d2 (m(field \<mapsto> value))" "ht_models srv d3 (m(field \<mapsto> value))"
      using d2(2,3) d3(2,3) d1m dm v by (simp_all add: ht_models_def dict_models_def)
    then show ?thesis using r(1) x(1) d2(1) d3(1) None by (auto simp: hash_set_ht_def Let_def)
  qed
qed


lemma set_lp_ok:
  assumes srv: "hash_srv_ok srv" and s: "hash_strings zl xs" and w: "hash_within srv (Hash_Listpack zl)"
    and f: "length (sds_bytes field) \<le> hash_max_listpack_value srv" and v: "length (sds_bytes value) \<le> hash_max_listpack_value srv"
  shows "set_result srv (Hash_Listpack zl) field value (hash_set_lp srv zl field value)"
proof -
  let ?f = "sds_bytes field" and ?v = "sds_bytes value"
  have m: "lp_models zl xs" "even (length xs)" and d: "distinct (map fst (pair_up xs))" and sm: "\<forall>x \<in> set xs. length x < 2 ^ 31"
    using s by (auto simp: hash_strings_def)
  have r: "lp_rep zl (map str_enc xs)" using m(1) by (simp add: lp_models_def)
  note wl = within_strings [OF s w]
  \<comment> \<open>the listpack before the last test of the length\<close>
  obtain zl1 xs1 where z1: "hash_strings zl1 xs1" "hash_view (Hash_Listpack zl1) = (hash_view (Hash_Listpack zl))(field \<mapsto> value)"
    "length xs1 \<le> 2 * (hash_max_listpack_entries srv + 1)" "\<forall>x \<in> set xs1. length x \<le> hash_max_listpack_value srv"
    "do { r \<leftarrow> find_field zl field;
          (case r of
            Some (fptr, vptr) \<Rightarrow> do { r \<leftarrow> lpReplace zl vptr ?v; (zl, _) \<leftarrow> r; Some (zl, True) }
          | None \<Rightarrow> do { r \<leftarrow> lpAppend zl ?f; zl \<leftarrow> r; r \<leftarrow> lpAppend zl ?v; zl \<leftarrow> r; Some (zl, False) }) } =
        Some (zl1, field \<in> dom (hash_view (Hash_Listpack zl)))"
  proof (rule find_field_ok [OF m, where field = field])
    assume a: "find_field zl field = Some None" "?f \<notin> fst ` set (pair_up xs)"
    let ?xs = "xs @ [?f, ?v]"
    have sz: "lp_size ?xs < 2 ^ 32" using wl f v by (intro within_size [OF srv]) auto
    then have "lp_total (map str_enc (xs @ [?f])) < 2 ^ 32" by (simp add: lp_size_def lp_total_def)
    then obtain z where z: "lpAppend zl ?f = Some (Some z)" "lp_rep z (map str_enc (xs @ [?f]))"
      using rep_append [OF r, of ?f] by (auto simp: result_is_def)
    obtain z' where z': "lpAppend z ?v = Some (Some z')" "lp_rep z' (map str_enc ?xs)"
      using rep_append [OF z(2), of ?v] sz by (auto simp: result_is_def lp_size_def)
    have pu: "pair_up ?xs = pair_up xs @ [(?f, ?v)]" using pair_up_append [OF m(2), of "[?f, ?v]"] by simp
    have s': "hash_strings z' ?xs" using z'(2) m(2) d a(2) sm length_sds [of field] length_sds [of "value"] pu
      by (auto simp: hash_strings_def lp_models_def)
    have k: "field \<notin> dom (hash_view (Hash_Listpack zl))" using hash_view_key [OF s] a(2) by simp
    then have "hash_view (Hash_Listpack z') = (hash_view (Hash_Listpack zl))(field \<mapsto> value)"
      by (auto simp: hash_view_lp [OF s'] hash_view_lp [OF s] pu map_add_def fun_eq_iff domIff split: option.splits)
    then show ?thesis using that [OF s'] wl f v a(1) z(1) z'(1) k by auto
  next
    fix j assume a: "find_field zl field = Some (Some (lp_off (map str_enc xs) (2 * j), lp_off (map str_enc xs) (Suc (2 * j))))"
      "Suc (2 * j) < length xs" "xs ! (2 * j) = ?f" "?f \<in> fst ` set (pair_up xs)"
    let ?xs = "xs[Suc (2 * j) := ?v]"
    have st: "set ?xs \<subseteq> insert ?v (set xs)" by (rule set_update_subset_insert)
    have sz: "lp_size ?xs < 2 ^ 32" using wl v st by (intro within_size [OF srv]) auto
    obtain z n where z: "lpReplace zl (lp_off (map str_enc xs) (Suc (2 * j))) ?v = Some (Some (z, n))" "lp_rep z (map str_enc ?xs)"
      using rep_replace [OF r, of "Suc (2 * j)" "Ele_Str ?v"] a(2) sz by (auto simp: insert_result_def lp_size_def map_update lpReplace_def)
    have j: "j < length (pair_up xs)" "fst (pair_up xs ! j) = ?f" using a(2,3) pair_up_nth [OF a(2)] by auto
    have pu: "pair_up ?xs = (pair_up xs)[j := (?f, ?v)]" using pair_up_update [OF a(2), of ?v] a(3) by simp
    have s': "hash_strings z ?xs"
      using z(2) m(2) d sm st length_sds [of "value"] pu map_of_update(2) [OF d j] by (auto simp: hash_strings_def lp_models_def)
    have k: "field \<in> dom (hash_view (Hash_Listpack zl))" using hash_view_key [OF s] a(4) by simp
    have "map_of ((map (map_prod sds_of sds_of) (pair_up xs))[j := (field, value)]) =
        (map_of (map (map_prod sds_of sds_of) (pair_up xs)))(field \<mapsto> value)"
      using j by (intro map_of_update(1) [OF hash_strings_distinct [OF s]]) auto
    then have "hash_view (Hash_Listpack z) = (hash_view (Hash_Listpack zl))(field \<mapsto> value)"
      by (simp add: hash_view_lp [OF s'] hash_view_lp [OF s] pu map_update)
    then show ?thesis using that [OF s'] wl v st a(1) z(1) k by auto
  qed
  have m1: "lp_models zl1 xs1" "even (length xs1)" using z1(1) by (auto simp: hash_strings_def)
  obtain zl2 where l2: "lpLength zl1 = Some (zl2, length xs1)" "lp_models zl2 xs1" using models_lpLength [OF m1(1)] by blast
  have s2: "hash_strings zl2 xs1" using l2(2) z1(1) by (simp add: hash_strings_def)
  have v2: "hash_view (Hash_Listpack zl2) = hash_view (Hash_Listpack zl1)" by (simp add: hash_view_lp [OF s2] hash_view_lp [OF z1(1)])
  have unf: "hash_set_lp srv zl field value =
      do { obj \<leftarrow> (if length xs1 div 2 > hash_max_listpack_entries srv then hashTypeConvert srv (Hash_Listpack zl2) OBJ_ENCODING_HT
                     else Some (Hash_Listpack zl2));
           Some (obj, field \<in> dom (hash_view (Hash_Listpack zl))) }"
    using z1(5) l2(1) unfolding hash_set_lp_def
    by (cases "find_field zl field") (simp_all add: case_prod_beta)
  show ?thesis
  proof (cases "length xs1 div 2 > hash_max_listpack_entries srv")
    case True
    obtain d' where "hashTypeConvert srv (Hash_Listpack zl2) OBJ_ENCODING_HT = Some (Hash_HT d')"
      "ht_models srv d' (hash_view (Hash_Listpack zl2))" using hash_convert_ok [OF s2] by blast
    then show ?thesis using True unf v2 z1(2) ht_view [of srv d'] ht_hash_ok [of srv d'] by (auto simp: set_result_def)
  next
    case False
    have "hash_within srv (Hash_Listpack zl2)"
      using False z1(4) hash_pairs_lp [OF l2(2)] set_pair_up [of _ _ xs1] by (auto simp: not_less)
    then show ?thesis using False unf v2 z1(2) s2 by (auto simp: set_result_def)
  qed
qed

end
