(* ===== verification/T_Hash_Ops.thy ===== *)
theory T_Hash_Ops
  imports T_Hash_Proofs
begin

text \<open>
  The operations of the hash object on maps: setting, deleting, conversion before many arguments, copies, reads
  and the parts of the commands that work on the object. The hash object and the hash table behind it are
  instances of the interface of maps. The theory ends with the properties of the hash object.
\<close>

section \<open>Setting and deleting\<close>

lemma lp_pairs_count: "hash_strings zl xs \<Longrightarrow> length (hash_pairs (Hash_Listpack zl)) < 2 ^ 32"
  using models_count [of zl xs] hash_pairs_lp [of zl xs] by (simp add: hash_strings_def)

lemma hashTypeSet_ok:
  assumes "hash_inv srv obj" "length (hash_pairs obj) < 2 ^ 60"
  shows "set_result srv obj field value (hashTypeSet srv obj field value tf)"
proof (cases obj)
  case (Hash_HT d)
  then have "ht_models srv d (hash_view obj)" "length (dict_entries d) < 2 ^ 60"
    using assms by (auto simp: hash_inv_def)
  from set_ht_ok [OF this, of field "value" tf] obtain d' where
    d': "hash_set_ht srv d field value tf = Some (Hash_HT d', field \<in> dom (hash_view obj))"
    "ht_models srv d' ((hash_view obj)(field \<mapsto> value))" by blast
  show ?thesis using Hash_HT d'(1) ht_view [OF d'(2)] ht_hash_ok [OF d'(2)]
    by (simp add: hashTypeSet_def set_result_def del: hash_ok.simps)
next
  case (Hash_Listpack zl)
  then obtain xs where s: "hash_strings zl xs" and w: "hash_within srv (Hash_Listpack zl)" and srv: "hash_srv_ok srv"
    using assms(1) by (auto simp: hash_inv_def)
  show ?thesis
  proof (cases "sdslen field > hash_max_listpack_value srv \<or> sdslen value > hash_max_listpack_value srv")
    case False
    then show ?thesis using set_lp_ok [OF srv s w, of field "value"] Hash_Listpack
      by (simp add: hashTypeSet_def sdslen_def not_less)
  next
    case True
    obtain d where d: "hashTypeConvert srv (Hash_Listpack zl) OBJ_ENCODING_HT = Some (Hash_HT d)"
      "ht_models srv d (hash_view (Hash_Listpack zl))" "length (dict_entries d) = length (pair_up xs)"
      using hash_convert_ok [OF s] by blast
    have "length (dict_entries d) < 2 ^ 60" using d(3) lp_pairs_count [OF s] hash_pairs_lp [of zl xs] s by (simp add: hash_strings_def)
    from set_ht_ok [OF d(2) this, of field "value" tf] obtain d' where
      d': "hash_set_ht srv d field value tf = Some (Hash_HT d', field \<in> dom (hash_view (Hash_Listpack zl)))"
      "ht_models srv d' ((hash_view (Hash_Listpack zl))(field \<mapsto> value))" by blast
    show ?thesis using Hash_Listpack True d(1) d'(1) ht_view [OF d'(2)] ht_hash_ok [OF d'(2)]
      by (simp add: hashTypeSet_def set_result_def del: hash_ok.simps)
  qed
qed

text \<open>The number of pairs of an object that holds a given map.\<close>

lemma pairs_of_view:
  assumes "hash_ok srv obj" "hash_ok srv obj'" "hash_view obj' = m"
  shows "length (hash_pairs obj') = card (dom m)" "length (hash_pairs obj) = card (dom (hash_view obj))"
  using card_hash_view [OF assms(1)] card_hash_view [OF assms(2)] assms(3) by auto

text \<open>What deleting a field does.\<close>

definition del_result :: "hash_server \<Rightarrow> hash_obj \<Rightarrow> sds \<Rightarrow> (hash_obj \<times> bool) option \<Rightarrow> bool" where
  "del_result srv obj k r \<longleftrightarrow>
     (\<exists>obj'. r = Some (obj', k \<in> dom (hash_view obj)) \<and> hash_ok srv obj' \<and> hash_within srv obj' \<and>
        hash_view obj' = (hash_view obj)(k := None))"

lemma del_ht_ok:
  assumes "ht_models srv d m" "length (dict_entries d) < 2 ^ 59"
  shows "\<exists>d'. hashTypeDelete srv (Hash_HT d) field = Some (Hash_HT d', field \<in> dom m) \<and> ht_models srv d' (m(field := None))"
proof -
  have "length (dict_entries d) < 2 ^ 60" using assms(2) by simp
  from ht_step [OF assms(1) this, of "DDelete field" "srv_can_resize srv"] obtain d1 where
    d1: "dictDelete (srv_can_resize srv) (hashDictType (srv_seed srv)) d field = Some (d1, m field \<noteq> None)"
    "ht_models srv d1 (m(field := None))" "length (dict_entries d1) \<le> Suc (length (dict_entries d))"
    by (auto simp del: not_None_eq)
  have "length (dict_entries d1) < 2 ^ 60" using d1(3) assms(2) by simp
  from ht_step [OF d1(2) this, of DResize "srv_can_resize srv"]
  have d2: "ht_models srv (fst (dictResize (srv_can_resize srv) d1)) (m(field := None))" by simp
  show ?thesis using d1 d2 by (auto simp: hashTypeDelete_def Let_def domIff simp del: not_None_eq)
qed

lemma del_lp_ok:
  assumes s: "hash_strings zl xs" and w: "hash_within srv (Hash_Listpack zl)"
  shows "del_result srv (Hash_Listpack zl) field (hashTypeDelete srv (Hash_Listpack zl) field)"
proof -
  have m: "lp_models zl xs" "even (length xs)" and d: "distinct (map fst (pair_up xs))" using s by (auto simp: hash_strings_def)
  have same: "del_result srv (Hash_Listpack zl) field (Some (Hash_Listpack zl, False))" if "sds_bytes field \<notin> fst ` set (pair_up xs)"
  proof -
    have "field \<notin> dom (hash_view (Hash_Listpack zl))" using hash_view_key [OF s] that by simp
    then show ?thesis using s w by (auto simp: del_result_def)
  qed
  show ?thesis
  proof (rule lp_find_field [OF m, where s = "sds_bytes field"])
    assume "lpFirst zl = Some None" "xs = []"
    then show ?thesis using same by (simp add: hashTypeDelete_def)
  next
    fix p assume "lpFirst zl = Some (Some p)" "lpFind zl p (sds_bytes field) 1 = Some None" "sds_bytes field \<notin> fst ` set (pair_up xs)"
    then show ?thesis using same by (simp add: hashTypeDelete_def)
  next
    fix p j assume a: "lpFirst zl = Some (Some p)" "lpFind zl p (sds_bytes field) 1 = Some (Some (lp_off (map str_enc xs) (2 * j)))"
      "Suc (2 * j) < length xs" "xs ! (2 * j) = sds_bytes field" "sds_bytes field \<in> fst ` set (pair_up xs)"
    let ?xs = "take (2 * j) xs @ drop (2 * j + 2) xs"
    obtain z r where z: "lpDeleteRangeWithEntry zl (lp_off (map str_enc xs) (2 * j)) 2 = Some (z, r)" "lp_models z ?xs"
      using rep_delete_range_entry [of zl "map str_enc xs" "2 * j" 2] m(1) a(3) by (auto simp: lp_models_def take_map drop_map)
    have j: "j < length (pair_up xs)" "fst (pair_up xs ! j) = sds_bytes field" using a(3,4) pair_up_nth [OF a(3)] by auto
    have sub: "set ?xs \<subseteq> set xs" by (auto dest: in_set_takeD in_set_dropD)
    have pu: "pair_up ?xs = take j (pair_up xs) @ drop (Suc j) (pair_up xs)" by (rule pair_up_delete)
    have psub: "set (pair_up ?xs) \<subseteq> set (pair_up xs)" unfolding pu by (auto dest: in_set_takeD in_set_dropD)
    have "distinct (map fst (pair_up ?xs))"
      unfolding pu using d by (subst (asm) id_take_nth_drop [OF j(1)]) auto
    then have s': "hash_strings z ?xs" using z(2) m(2) a(3) sub s by (auto simp: hash_strings_def)
    have "map_of (take j (map (map_prod sds_of sds_of) (pair_up xs)) @ drop (Suc j) (map (map_prod sds_of sds_of) (pair_up xs))) =
        (map_of (map (map_prod sds_of sds_of) (pair_up xs)))(field := None)"
      using j by (intro map_of_delete [OF hash_strings_distinct [OF s]]) auto
    then have v: "hash_view (Hash_Listpack z) = (hash_view (Hash_Listpack zl))(field := None)"
      by (simp only: hash_view_lp [OF s'] hash_view_lp [OF s] pu map_append take_map drop_map)
    have w': "hash_within srv (Hash_Listpack z)"
      using w psub hash_pairs_lp [OF z(2)] hash_pairs_lp [OF m(1)] pu by auto
    have "field \<in> dom (hash_view (Hash_Listpack zl))" using hash_view_key [OF s] a(5) by simp
    then show ?thesis using a(1,2) z(1) s' v w' by (auto simp: hashTypeDelete_def del_result_def)
  qed
qed

lemma hashTypeDelete_ok:
  assumes "hash_inv srv obj" "length (hash_pairs obj) < 2 ^ 59"
  shows "del_result srv obj field (hashTypeDelete srv obj field)"
proof (cases obj)
  case (Hash_HT d)
  then have "ht_models srv d (hash_view obj)" "length (dict_entries d) < 2 ^ 59" using assms by (auto simp: hash_inv_def)
  from del_ht_ok [OF this, of field] obtain d' where
    d': "hashTypeDelete srv (Hash_HT d) field = Some (Hash_HT d', field \<in> dom (hash_view obj))"
    "ht_models srv d' ((hash_view obj)(field := None))" by blast
  show ?thesis using Hash_HT d'(1) ht_view [OF d'(2)] ht_hash_ok [OF d'(2)] by (simp add: del_result_def del: hash_ok.simps)
next
  case (Hash_Listpack zl)
  then show ?thesis using del_lp_ok assms(1) by (auto simp: hash_inv_def)
qed

section \<open>Conversion of many arguments\<close>

lemma try_loop_ok:
  assumes "last_i < length argv"
  shows "\<exists>r. try_loop srv argv i last_i n = Some r"
  using assms
proof (induction srv argv i last_i n rule: try_loop.induct)
  case (1 srv argv i last_i n)
  show ?case
  proof (cases "i > last_i")
    case True
    then show ?thesis by (subst try_loop.simps) simp
  next
    case False
    then have g: "mem_get argv i = Some (argv ! i)" using 1 by (simp add: mem_get_def)
    show ?thesis
      using 1(1) [OF False g] 1(2) [OF False g] 1(3) False g
      by (subst try_loop.simps) (cases "argv ! i", auto)
  qed
qed

text \<open>The object with the same contents.\<close>

definition same_hash :: "hash_server \<Rightarrow> hash_obj \<Rightarrow> hash_obj option \<Rightarrow> bool" where
  "same_hash srv obj r \<longleftrightarrow> (\<exists>obj'. r = Some obj' \<and> hash_ok srv obj' \<and> hash_within srv obj' \<and> hash_view obj' = hash_view obj)"

lemma hashTypeTryConversion_ok:
  assumes "hash_inv srv obj" "last_i < length argv" "length argv < 2 ^ 64"
  shows "same_hash srv obj (hashTypeTryConversion srv obj argv start last_i)"
proof (cases obj)
  case (Hash_HT d)
  then show ?thesis using assms(1) by (simp add: hashTypeTryConversion_def same_hash_def hash_inv_def)
next
  case (Hash_Listpack zl)
  then obtain xs where s: "hash_strings zl xs" using assms(1) by (auto simp: hash_inv_def)
  obtain d where d: "hashTypeConvert srv (Hash_Listpack zl) OBJ_ENCODING_HT = Some (Hash_HT d)"
    "ht_models srv d (hash_view (Hash_Listpack zl))" using hash_convert_ok [OF s] by blast
  have c: "same_hash srv obj (Some (Hash_HT d))"
    using Hash_Listpack ht_view [OF d(2)] ht_hash_ok [OF d(2)] by (simp add: same_hash_def del: hash_ok.simps)
  let ?n = "(last_i + 1 - start) div 2"
  have n: "?n < 2 ^ 64" using assms(2,3) by (simp add: less_mult_imp_div_less)
  have d': "ht_models srv (fst (dictExpand d ?n)) (hash_view (Hash_Listpack zl))"
    using hashDict.resize_models(1) [OF d(2) [unfolded ht_models_def] n] by (simp add: ht_models_def)
  have e: "same_hash srv obj (Some (Hash_HT (fst (dictExpand d ?n))))"
    using Hash_Listpack ht_view [OF d'] ht_hash_ok [OF d'] by (simp add: same_hash_def del: hash_ok.simps)
  have o: "same_hash srv obj (Some obj)" using assms(1) by (simp add: same_hash_def hash_inv_def)
  obtain r where r: "try_loop srv argv start last_i 0 = Some r" using try_loop_ok [OF assms(2)] by blast
  have "\<exists>b. lpSafeToAdd (Some zl) l = Some b" for l
    using rep_total [of zl "map str_enc xs"] s by (auto simp: lpSafeToAdd_def hash_strings_def lp_models_def)
  then obtain sf where "lpSafeToAdd (Some zl) l = Some (sf l)" for l by metis
  then show ?thesis using r c e o d(1) Hash_Listpack
    by (cases r) (auto simp: hashTypeTryConversion_def Let_def simp del: try_loop.simps split: option.splits)
qed

section \<open>Copies\<close>

definition hash_iter_ht :: "hash_server \<Rightarrow> (sds, sds) dict \<Rightarrow> hash_iter \<Rightarrow> (sds \<times> sds option) list \<Rightarrow> bool" where
  "hash_iter_ht srv d hi ps \<longleftrightarrow>
     (\<exists>di de. hi = HIter_HT di de \<and> dict_ok (hashDictType (srv_seed srv)) id d \<and> it_ok (hashDictType (srv_seed srv)) d di \<and>
        \<not> it_safe di \<and> book_ok (fst (srv_table_addr srv)) (snd (srv_table_addr srv)) (pauserehash d) d di \<and>
        ps = remaining d di)"

lemma hash_next_ht:
  assumes "hash_iter_ht srv d hi ps"
  shows "\<exists>di de. hashTypeNext srv (Hash_HT d) hi = Some (Hash_HT d, HIter_HT di de, ps \<noteq> []) \<and>
    (ps = [] \<longrightarrow> hashTypeReleaseIterator srv (Hash_HT d) (HIter_HT di de) = Some (Hash_HT d)) \<and>
    (\<forall>k v ps'. ps = (k, Some v) # ps' \<longrightarrow> hash_iter_ht srv d (HIter_HT di de) ps' \<and>
       hashTypeCurrentFromHashTable de True = Some k \<and> hashTypeCurrentFromHashTable de False = Some v)"
proof -
  let ?a0 = "fst (srv_table_addr srv)" and ?a1 = "snd (srv_table_addr srv)" and ?t = "hashDictType (srv_seed srv) :: (sds, sds) dictType"
  obtain di de where hi: "hi = HIter_HT di de" and ok: "dict_ok ?t id d" and it: "it_ok ?t d di" and u: "\<not> it_safe di"
    and b: "book_ok ?a0 ?a1 (pauserehash d) d di" and ps: "ps = remaining d di" using assms by (auto simp: hash_iter_ht_def simp del: id_apply)
  obtain d' di' he where n: "dictNext ?a0 ?a1 d di = Some (d', di', he)" "next_spec ?a0 ?a1 ?t d di (d', di', he)"
    using dictNext_ok [OF ok it] by (metis prod_cases3)
  then have s: "same_tables d d'" "\<not> it_safe di'" "it_ok ?t d di'" "it_index di' \<noteq> -1"
    and b': "book_ok ?a0 ?a1 (pauserehash d) d' di'"
    using u b by (auto simp: next_spec_def Let_def)
  then have d': "d' = d" by (cases d; cases d') (auto simp: same_tables_def book_ok_def)
  have r: "dictResetIterator ?a0 ?a1 d di' = Some d"
    using s(2,4) b' d' by (auto simp: dictResetIterator_def book_ok_def started_def)
  show ?thesis
  proof (cases ps)
    case Nil
    then have "he = NULL" using n(2) ps by (auto simp: next_spec_def Let_def)
    then show ?thesis using n(1) Nil hi r d' by simp
  next
    case (Cons p ps')
    then have he: "he \<noteq> NULL" "dictGetKey he = Some (fst p)" "dictGetVal he = snd p" "remaining d di' = ps'"
      using n(2) ps by (auto simp: next_spec_def Let_def)
    have "hash_iter_ht srv d (HIter_HT di' he) ps'"
      using ok s b' he(4) d' by (auto simp: hash_iter_ht_def simp del: id_apply)
    then show ?thesis using n(1) Cons hi d' he
      by (auto simp: hashTypeCurrentFromHashTable_def)
  qed
qed

lemma ht_entries:
  assumes "ht_models srv d m"
  shows "\<exists>qs. dict_entries d = map (\<lambda>(k, v). (k, Some v)) qs \<and> distinct (map fst qs) \<and> map_of qs = m"
proof -
  let ?qs = "map (map_prod sds_of sds_of) (hash_pairs (Hash_HT d))"
  have ok: "dict_ok (hashDictType (srv_seed srv)) id d" and m: "\<And>k. dict_map id d k = map_option Some (m k)"
    using assms by (auto simp: ht_models_def dict_models_def)
  have "snd p \<noteq> None" if "p \<in> set (dict_entries d)" for p
  proof -
    have "distinct (map fst (map (\<lambda>(k, v). (id k, v)) (dict_entries d)))" using ok by (simp add: dict_ok_def comp_def case_prod_unfold)
    then have "dict_map id d (fst p) = Some (snd p)"
      using that by (simp add: dict_map_def case_prod_unfold map_of_eq_Some_iff)
    then show ?thesis using m [of "fst p"] by (cases "snd p") auto
  qed
  then have "dict_entries d = map (\<lambda>(k, v). (k, Some v)) ?qs"
    by (force simp: comp_def intro!: map_idI [symmetric] split: option.splits)
  moreover have "map_of ?qs = m" using ht_view [OF assms] by (simp add: hash_view_def)
  ultimately show ?thesis using hash_pairs_distinct [OF ht_hash_ok [OF assms]] by blast
qed

lemma hash_dup_loop_ok:
  assumes "hash_iter_ht srv d hi (map (\<lambda>(k, v). (k, Some v)) qs)" "ht_models srv e m"
    "length (dict_entries e) + length qs < 2 ^ 60" "distinct (map fst qs)" "\<forall>q \<in> set qs. m (fst q) = None"
  shows "\<exists>hi' e'. hash_dup_loop srv (Hash_HT d) hi e = Some (Hash_HT d, hi', e') \<and>
     hashTypeReleaseIterator srv (Hash_HT d) hi' = Some (Hash_HT d) \<and> ht_models srv e' (m ++ map_of qs)"
  using assms
proof (induction qs arbitrary: hi e m)
  case Nil
  from hash_next_ht [OF Nil.prems(1)] Nil.prems(2) show ?case by (subst hash_dup_loop.simps) auto
next
  case (Cons q qs)
  obtain k v where q: "q = (k, v)" by (cases q)
  from hash_next_ht [OF Cons.prems(1)] q obtain di de where
    n: "hashTypeNext srv (Hash_HT d) hi = Some (Hash_HT d, HIter_HT di de, True)"
      "hash_iter_ht srv d (HIter_HT di de) (map (\<lambda>(k, v). (k, Some v)) qs)"
      "hashTypeCurrentFromHashTable de True = Some k" "hashTypeCurrentFromHashTable de False = Some v" by auto
  have small: "length (dict_entries e) < 2 ^ 60" using Cons.prems(3) by simp
  from ht_step [OF Cons.prems(2) small, of "DAdd k v" "srv_can_resize srv"]
  obtain e' where e': "dictAdd (srv_can_resize srv) (hashDictType (srv_seed srv)) e k v = Some (e', True)"
    "ht_models srv e' (m(k \<mapsto> v))" "length (dict_entries e') \<le> Suc (length (dict_entries e))" using Cons.prems(5) q by auto
  have "\<exists>hi'' e''. hash_dup_loop srv (Hash_HT d) (HIter_HT di de) e' = Some (Hash_HT d, hi'', e'') \<and>
     hashTypeReleaseIterator srv (Hash_HT d) hi'' = Some (Hash_HT d) \<and> ht_models srv e'' (m(k \<mapsto> v) ++ map_of qs)"
  proof (rule Cons.IH [OF n(2) e'(2)])
    show "\<forall>q \<in> set qs. (m(k \<mapsto> v)) (fst q) = None" using Cons.prems(4,5) q by force
  qed (use Cons.prems(3,4) e'(3) in auto)
  moreover have "m(k \<mapsto> v) ++ map_of qs = m ++ map_of (q # qs)"
    using Cons.prems(4) q by (auto simp: map_add_upd_left dom_map_of_conv_image_fst)
  ultimately show ?case using n e'(1) by (subst hash_dup_loop.simps) auto
qed

fun hash_encoding :: "hash_obj \<Rightarrow> set_encoding" where
  "hash_encoding (Hash_Listpack zl) = OBJ_ENCODING_LISTPACK"
| "hash_encoding (Hash_HT d) = OBJ_ENCODING_HT"

lemma hashTypeDup_ok:
  assumes "hash_inv srv obj" "length (hash_pairs obj) < 2 ^ 60"
  shows "\<exists>new. hashTypeDup srv obj = Some (obj, new) \<and> hash_inv srv new \<and> hash_view new = hash_view obj \<and>
    hash_encoding new = hash_encoding obj"
proof (cases obj)
  case (Hash_Listpack zl)
  then obtain xs where s: "hash_strings zl xs" using assms(1) by (auto simp: hash_inv_def)
  then have r: "lp_rep zl (map str_enc xs)" by (simp add: hash_strings_def lp_models_def)
  let ?z = "take (lp_total (map str_enc xs)) zl"
  have "lp_models ?z xs" using rep_shrink(2) [OF r] by (simp add: lp_models_def)
  then have s': "hash_strings ?z xs" using s by (simp add: hash_strings_def)
  have w: "hash_within srv (Hash_Listpack ?z) = hash_within srv (Hash_Listpack zl)"
    using hash_pairs_lp [of ?z xs] hash_pairs_lp [of zl xs] s s' by (simp add: hash_strings_def)
  have "mem_read zl 0 (lp_total (map str_enc xs)) = Some ?z" using r by (auto simp: mem_read_def lp_rep_def lp_total_def)
  then have "hashTypeDup srv obj = Some (obj, Hash_Listpack ?z)" using Hash_Listpack rep_bytes [OF r] by (simp add: hashTypeDup_def)
  moreover have "hash_inv srv (Hash_Listpack ?z)" using s' w assms(1) Hash_Listpack by (auto simp: hash_inv_def simp del: hash_within.simps)
  ultimately show ?thesis using hash_view_lp [OF s] hash_view_lp [OF s'] Hash_Listpack by simp
next
  case (Hash_HT d)
  have m: "ht_models srv d (hash_view obj)" and srv: "hash_srv_ok srv" and n: "length (dict_entries d) < 2 ^ 60"
    using assms Hash_HT by (auto simp: hash_inv_def)
  then have ok: "dict_ok (hashDictType (srv_seed srv)) id d" by (simp add: ht_models_def dict_models_def)
  then have r: "remaining d dictInitIterator = dict_entries d" by (rule remaining_init) simp
  obtain qs where qs: "dict_entries d = map (\<lambda>(k, v). (k, Some v)) qs" "distinct (map fst qs)" "map_of qs = hash_view obj"
    using ht_entries [OF m] by blast
  have it: "hash_iter_ht srv d (hashTypeInitIterator (Hash_HT d)) (map (\<lambda>(k, v). (k, Some v)) qs)"
    using ok r qs(1) by (auto simp: hash_iter_ht_def it_ok_def book_ok_def started_def dictInitIterator_def)
  define e :: "(sds, sds) dict" where "e = fst (dictExpand dictCreate (dictSize d))"
  have "dictSize d < 2 ^ 64" using n dict_ok_size [OF ok] by simp
  then have e: "ht_models srv e Map.empty" "dict_entries e = []"
    using hashDict.resize_models [OF hashDict.create_models [of "srv_seed srv"], of "dictSize d"]
    by (auto simp: e_def ht_models_def dictCreate_ok)
  have "length (dict_entries e) + length qs < 2 ^ 60" using n e(2) qs(1) by simp
  from hash_dup_loop_ok [OF it e(1) this qs(2)] qs(3) obtain hi e' where
    "hash_dup_loop srv obj (hashTypeInitIterator obj) e = Some (obj, hi, e')" "hashTypeReleaseIterator srv obj hi = Some obj"
    and e': "ht_models srv e' (hash_view obj)" using Hash_HT by auto
  then have "hashTypeDup srv obj = Some (obj, Hash_HT e')" using Hash_HT by (simp add: hashTypeDup_def e_def)
  then show ?thesis using Hash_HT ht_view [OF e'] ht_hash_ok [OF e'] srv by (simp add: hash_inv_def del: hash_ok.simps)
qed

section \<open>Reading\<close>

lemma addHashFieldToReply_ok:
  assumes "hash_inv srv obj"
  shows "\<exists>obj'. addHashFieldToReply srv obj field = Some (obj', hash_view obj field) \<and> hash_inv srv obj' \<and> hash_view obj' = hash_view obj"
proof -
  have ok: "hash_ok srv obj" and w: "hash_within srv obj" and srv: "hash_srv_ok srv" using assms by (auto simp: hash_inv_def)
  obtain obj' r where g: "hashTypeGetValue srv obj field = Some (obj', r)" "hash_ok srv obj'" "hash_view obj' = hash_view obj"
    "hash_within srv obj'"
    and r: "case r of None \<Rightarrow> hash_view obj field = None | Some e \<Rightarrow> \<exists>v. hash_view obj field = Some v \<and> elem_is e (sds_bytes v)"
    using get_ok [OF ok, of field] w by blast
  have "addHashFieldToReply srv obj field = Some (obj', hash_view obj field)"
  proof (cases r)
    case None
    then show ?thesis using g(1) r by (simp add: addHashFieldToReply_def)
  next
    case (Some e)
    then show ?thesis using g(1) r int_string_ok by (cases e) (auto simp: addHashFieldToReply_def)
  qed
  then show ?thesis using g srv by (simp add: hash_inv_def)
qed

lemma hashTypeLength_ok:
  assumes "hash_inv srv obj"
  shows "\<exists>obj'. hashTypeLength obj = Some (obj', card (dom (hash_view obj))) \<and> hash_inv srv obj' \<and> hash_view obj' = hash_view obj"
proof (cases obj)
  case (Hash_HT d)
  then have "dict_ok (hashDictType (srv_seed srv)) id d" using assms by (simp add: hash_inv_def ht_models_def dict_models_def)
  then have "dictSize d = length (hash_pairs obj)" using dict_ok_size Hash_HT by fastforce
  then show ?thesis using assms card_hash_view [of srv obj] Hash_HT by (simp add: hash_inv_def)
next
  case (Hash_Listpack zl)
  then obtain xs where s: "hash_strings zl xs" using assms by (auto simp: hash_inv_def)
  obtain zl' where l: "lpLength zl = Some (zl', length xs)" "lp_models zl' xs" using models_lpLength [of zl xs] s by (auto simp: hash_strings_def)
  have s': "hash_strings zl' xs" using l(2) s by (simp add: hash_strings_def)
  have p: "hash_pairs (Hash_Listpack zl') = pair_up xs" "hash_pairs (Hash_Listpack zl) = pair_up xs"
    using s s' hash_pairs_lp by (auto simp: hash_strings_def)
  have "hash_inv srv (Hash_Listpack zl')" using assms Hash_Listpack s' p by (auto simp: hash_inv_def)
  moreover have "hash_view (Hash_Listpack zl') = hash_view obj" using p Hash_Listpack by (simp add: hash_view_def)
  ultimately show ?thesis using l(1) Hash_Listpack card_hash_view [of srv obj] assms p(2) by (simp add: hash_inv_def)
qed

section \<open>The interface of maps\<close>

lemma hash_inv_srv: "hash_inv srv obj \<Longrightarrow> hash_srv_ok srv"
  by (simp add: hash_inv_def)

lemma hash_put_ok:
  assumes "hash_inv srv obj" "card (dom (hash_view obj)) < 2 ^ 60"
  shows "\<exists>obj'. hashTypeSet srv obj k v tf = Some (obj', k \<in> dom (hash_view obj)) \<and> hash_inv srv obj' \<and>
    hash_view obj' = (hash_view obj)(k \<mapsto> v)"
  using hashTypeSet_ok [OF assms(1), of k v tf] assms card_hash_view [of srv obj] by (auto simp: set_result_def hash_inv_def)

lemma hash_del_ok:
  assumes "hash_inv srv obj" "card (dom (hash_view obj)) < 2 ^ 59"
  shows "\<exists>obj'. hashTypeDelete srv obj k = Some (obj', k \<in> dom (hash_view obj)) \<and> hash_inv srv obj' \<and>
    hash_view obj' = (hash_view obj)(k := None)"
  using hashTypeDelete_ok [OF assms(1), of k] assms card_hash_view [of srv obj] by (auto simp: del_result_def hash_inv_def)

interpretation hashObj: map_impl "hash_inv srv" hash_view "2 ^ 59 - 1" "\<lambda>obj k v. hashTypeSet srv obj k v tf"
  "addHashFieldToReply srv" "hashTypeDelete srv" for srv tf
proof unfold_locales
  fix obj show "finite (dom (hash_view obj))" by (rule finite_hash_view)
next
  fix obj k v assume "hash_inv srv obj" "card (dom (hash_view obj)) < 2 ^ 59 - 1"
  then show "\<exists>s'. hashTypeSet srv obj k v tf = Some (s', k \<in> dom (hash_view obj)) \<and> hash_inv srv s' \<and>
    hash_view s' = (hash_view obj)(k \<mapsto> v)" by (intro hash_put_ok) auto
next
  fix obj k assume "hash_inv srv obj"
  then show "\<exists>s'. addHashFieldToReply srv obj k = Some (s', hash_view obj k) \<and> hash_inv srv s' \<and> hash_view s' = hash_view obj"
    by (rule addHashFieldToReply_ok)
next
  fix obj k assume "hash_inv srv obj" "card (dom (hash_view obj)) \<le> 2 ^ 59 - 1"
  then show "\<exists>s'. hashTypeDelete srv obj k = Some (s', k \<in> dom (hash_view obj)) \<and> hash_inv srv s' \<and>
    hash_view s' = (hash_view obj)(k := None)" by (intro hash_del_ok) auto
qed

lemma createHashObject_ok:
  assumes "hash_srv_ok srv"
  shows "\<exists>obj. createHashObject = Some obj \<and> hash_inv srv obj \<and> hash_view obj = Map.empty"
proof -
  obtain zl where z: "lpNew 0 = Some zl" "lp_models zl []" using models_new [of 0] by blast
  have s: "hash_strings zl []" using z(2) by (simp add: hash_strings_def)
  have "hash_within srv (Hash_Listpack zl)" using hash_pairs_lp [OF z(2)] by simp
  then show ?thesis using z(1) s assms hash_view_lp [OF s] by (auto simp: createHashObject_def hash_inv_def)
qed

lemma ht_length: "ht_models srv d m \<Longrightarrow> length (dict_entries d) = card (dom m)"
  using card_hash_view [of srv "Hash_HT d"] ht_hash_ok [of srv d m] ht_view [of srv d m] by simp

interpretation hashTable: map_impl "\<lambda>d. ht_models srv d (hash_view (Hash_HT d))" "\<lambda>d. hash_view (Hash_HT d)" "2 ^ 60 - 1"
  "\<lambda>d k v. map_option (map_prod id Not) (dictReplace can (hashDictType (srv_seed srv)) d k v)"
  "dictFetchValue can (hashDictType (srv_seed srv))" "dictDelete can (hashDictType (srv_seed srv))" for srv can
proof unfold_locales
  fix d show "finite (dom (hash_view (Hash_HT d)))" by (rule finite_hash_view)
next
  fix d k v assume m: "ht_models srv d (hash_view (Hash_HT d))" and c: "card (dom (hash_view (Hash_HT d))) < 2 ^ 60 - 1"
  have "length (dict_entries d) < 2 ^ 60" using c ht_length [OF m] by simp
  from ht_step [OF m this, of "DReplace k v" can] obtain d' where
    d': "dictReplace can (hashDictType (srv_seed srv)) d k v = Some (d', hash_view (Hash_HT d) k = None)"
    "ht_models srv d' ((hash_view (Hash_HT d))(k \<mapsto> v))" by auto
  then show "\<exists>s'. map_option (map_prod id Not) (dictReplace can (hashDictType (srv_seed srv)) d k v) =
      Some (s', k \<in> dom (hash_view (Hash_HT d))) \<and> ht_models srv s' (hash_view (Hash_HT s')) \<and>
      hash_view (Hash_HT s') = (hash_view (Hash_HT d))(k \<mapsto> v)"
    using ht_view [OF d'(2)] by (auto simp: domIff simp del: not_None_eq)
next
  fix d k assume m: "ht_models srv d (hash_view (Hash_HT d))"
  from hashDict.fetch_models [OF m [unfolded ht_models_def], of can k] obtain d' where
    d': "dictFetchValue can (hashDictType (srv_seed srv)) d k = Some (d', hash_view (Hash_HT d) k)"
    "ht_models srv d' (hash_view (Hash_HT d))" by (auto simp: ht_models_def)
  then show "\<exists>s'. dictFetchValue can (hashDictType (srv_seed srv)) d k = Some (s', hash_view (Hash_HT d) k) \<and>
      ht_models srv s' (hash_view (Hash_HT s')) \<and> hash_view (Hash_HT s') = hash_view (Hash_HT d)"
    using ht_view [OF d'(2)] by simp
next
  fix d k assume m: "ht_models srv d (hash_view (Hash_HT d))" and c: "card (dom (hash_view (Hash_HT d))) \<le> 2 ^ 60 - 1"
  have "length (dict_entries d) < 2 ^ 60" using c ht_length [OF m] by simp
  from ht_step [OF m this, of "DDelete k" can] obtain d' where
    d': "dictDelete can (hashDictType (srv_seed srv)) d k = Some (d', hash_view (Hash_HT d) k \<noteq> None)"
    "ht_models srv d' ((hash_view (Hash_HT d))(k := None))" by (auto simp del: not_None_eq)
  then show "\<exists>s'. dictDelete can (hashDictType (srv_seed srv)) d k = Some (s', k \<in> dom (hash_view (Hash_HT d))) \<and>
      ht_models srv s' (hash_view (Hash_HT s')) \<and> hash_view (Hash_HT s') = (hash_view (Hash_HT d))(k := None)"
    using ht_view [OF d'(2)] by (auto simp: domIff simp del: not_None_eq)
qed

section \<open>Commands\<close>

lemma card_upd_count:
  assumes "finite (dom m)"
  shows "card (dom (m(k \<mapsto> v))) = card (dom m) + (if k \<in> dom m then 0 else 1)"
  using assms by (auto simp: card_insert_if insert_absorb)

lemma hset_loop_ok:
  assumes "hash_inv srv obj" "even (length args)" "card (dom (hash_view obj)) + length args < 2 ^ 60"
  shows "\<exists>obj' n. hset_loop srv obj args c = Some (obj', c + n) \<and> hash_inv srv obj' \<and>
    hash_view obj' = hash_view obj ++ map_of (rev (pair_up args)) \<and> card (dom (hash_view obj')) = card (dom (hash_view obj)) + n"
  using assms
proof (induction srv obj args c rule: hset_loop.induct)
  case (1 srv obj f v args c)
  have "card (dom (hash_view obj)) < 2 ^ 60" using "1.prems"(3) by simp
  from hash_put_ok [OF "1.prems"(1) this, of f v False] obtain obj1 where
    o: "hashTypeSet srv obj f v False = Some (obj1, f \<in> dom (hash_view obj))" "hash_inv srv obj1"
    "hash_view obj1 = (hash_view obj)(f \<mapsto> v)" by blast
  define b :: nat where "b = (if f \<in> dom (hash_view obj) then 0 else 1)"
  have cd: "card (dom (hash_view obj1)) = card (dom (hash_view obj)) + b"
    unfolding o(3) b_def by (rule card_upd_count [OF finite_hash_view])
  then have "card (dom (hash_view obj1)) + length args < 2 ^ 60" using "1.prems"(3) by (simp add: b_def split: if_splits)
  from "1.IH" [OF o(1) refl o(2) _ this] "1.prems"(2) obtain obj' n where
    n: "hset_loop srv obj1 args (c + b) = Some (obj', c + b + n)" "hash_inv srv obj'"
    "hash_view obj' = hash_view obj1 ++ map_of (rev (pair_up args))" "card (dom (hash_view obj')) = card (dom (hash_view obj1)) + n"
    by (auto simp: b_def)
  have "hset_loop srv obj (f # v # args) c = Some (obj', c + (b + n))" using o(1) n(1) by (simp add: b_def add.assoc)
  moreover have "hash_view obj' = hash_view obj ++ map_of (rev (pair_up (f # v # args)))" using n(3) o(3) by simp
  ultimately show ?case using n(2,4) cd by (intro exI [of _ obj'] exI [of _ "b + n"]) simp
qed auto

lemma hset_object_ok:
  assumes "hash_inv srv obj" "even (length argv)" "2 < length argv" "card (dom (hash_view obj)) + length argv < 2 ^ 60"
  shows "\<exists>obj' n. hset_object srv obj argv = Some (obj', n) \<and> hash_inv srv obj' \<and>
    hash_view obj' = hash_view obj ++ map_of (rev (pair_up (drop 2 argv))) \<and> card (dom (hash_view obj')) = card (dom (hash_view obj)) + n"
proof -
  have "length argv - 1 < length (map Obj_Sds argv)" "length (map Obj_Sds argv) < 2 ^ 64" using assms(3,4) by auto
  from hashTypeTryConversion_ok [OF assms(1) this, of 2] obtain obj1 where
    o: "hashTypeTryConversion srv obj (map Obj_Sds argv) 2 (length argv - 1) = Some obj1" "hash_inv srv obj1" "hash_view obj1 = hash_view obj"
    using hash_inv_srv [OF assms(1)] by (auto simp: same_hash_def hash_inv_def)
  from hset_loop_ok [OF o(2), of "drop 2 argv" 0] assms o show ?thesis by (simp add: hset_object_def)
qed

lemma hdel_loop_ok:
  assumes "hash_inv srv obj" "card (dom (hash_view obj)) < 2 ^ 59"
  shows "\<exists>obj' n. hdel_loop srv obj fs c = Some (obj', c + n, 0 < n \<and> hash_view obj' = Map.empty) \<and> hash_inv srv obj' \<and>
    hash_view obj' = hash_view obj |` (- set fs) \<and> card (dom (hash_view obj')) + n = card (dom (hash_view obj))"
  using assms
proof (induction fs arbitrary: obj c)
  case (Cons f fs)
  obtain obj1 where o: "hashTypeDelete srv obj f = Some (obj1, f \<in> dom (hash_view obj))" "hash_inv srv obj1"
    "hash_view obj1 = (hash_view obj)(f := None)" using hash_del_ok [OF Cons.prems, of f] by blast
  show ?case
  proof (cases "f \<in> dom (hash_view obj)")
    case False
    then have "hash_view obj1 = hash_view obj" using o(3) by auto
    moreover from this False have "hash_view obj |` (- set (f # fs)) = hash_view obj1 |` (- set fs)"
      by (auto simp: restrict_map_def domIff fun_eq_iff)
    ultimately show ?thesis using Cons.IH [OF o(2), of c] Cons.prems o(1) False by auto
  next
    case True
    obtain obj2 where l: "hashTypeLength obj1 = Some (obj2, card (dom (hash_view obj1)))" "hash_inv srv obj2" "hash_view obj2 = hash_view obj1"
      using hashTypeLength_ok [OF o(2)] by blast
    have cd: "Suc (card (dom (hash_view obj1))) = card (dom (hash_view obj))"
      using True o(3) card_Suc_Diff1 [OF finite_hash_view True] by simp
    have r: "hash_view obj |` (- set (f # fs)) = hash_view obj1 |` (- set fs)"
      using o(3) by (auto simp: restrict_map_def fun_eq_iff)
    show ?thesis
    proof (cases "card (dom (hash_view obj1)) = 0")
      case e: True
      then have "hash_view obj1 = Map.empty" using finite_hash_view [of obj1] by simp
      then show ?thesis using o(1) l True e cd r by (intro exI [of _ obj2] exI [of _ 1]) simp
    next
      case False
      have "card (dom (hash_view obj2)) < 2 ^ 59" using cd Cons.prems(2) l(3) by simp
      from Cons.IH [OF l(2) this, of "c + 1"] obtain obj' n where
        n: "hdel_loop srv obj2 fs (c + 1) = Some (obj', c + 1 + n, 0 < n \<and> hash_view obj' = Map.empty)" "hash_inv srv obj'"
        "hash_view obj' = hash_view obj2 |` (- set fs)" "card (dom (hash_view obj')) + n = card (dom (hash_view obj2))" by blast
      have "(0 < n \<and> hash_view obj' = Map.empty) = (0 < Suc n \<and> hash_view obj' = Map.empty)"
        using n(4) False l(3) by (cases n) auto
      then show ?thesis using o(1) l(1,3) True False n cd r by (intro exI [of _ obj'] exI [of _ "Suc n"]) simp
    qed
  qed
qed (auto simp: restrict_map_def)

text \<open>The number a string stands for, if any.\<close>

definition int_value :: "sds \<Rightarrow> int option" where
  "int_value s = (case string2ll (sds_bytes s) (length (sds_bytes s)) of Some r \<Rightarrow> r | None \<Rightarrow> None)"

lemma int_value_exact: "int_value s = Some n \<longleftrightarrow> is_int64 n \<and> sds_bytes s = int_bytes n"
proof -
  obtain r where "string2ll (sds_bytes s) (length (sds_bytes s)) = Some r" "\<forall>n. r = Some n \<longleftrightarrow> is_int64 n \<and> sds_bytes s = int_bytes n"
    using string2ll_exact by blast
  then show ?thesis by (simp add: int_value_def)
qed

lemma old_value:
  assumes "case r of None \<Rightarrow> m = None | Some e \<Rightarrow> \<exists>v. m = Some v \<and> elem_is e (sds_bytes v)"
  shows "(case r of None \<Rightarrow> Some (Some 0) | Some (Elem_Str s) \<Rightarrow> string2ll s (length s) | Some (Elem_Int v) \<Rightarrow> Some (Some v)) =
    Some (case m of None \<Rightarrow> Some 0 | Some v \<Rightarrow> int_value v)"
proof (cases r)
  case (Some e)
  then obtain v where v: "m = Some v" "elem_is e (sds_bytes v)" using assms by auto
  show ?thesis
  proof (cases e)
    case (Elem_Str s)
    obtain q where "string2ll s (length s) = Some q" using string2ll_exact by blast
    with Elem_Str show ?thesis using Some v by (simp add: int_value_def)
  next
    case (Elem_Int n)
    then show ?thesis using Some v int_value_exact [of v n] by simp
  qed
qed (use assms in simp)

lemma hincrby_ok:
  assumes "hash_inv srv obj" "card (dom (hash_view obj)) < 2 ^ 60" "is_int64 incr"
  shows "\<exists>obj' r. hincrby_object srv obj field incr = Some (obj', r) \<and> hash_inv srv obj' \<and>
    (case (case hash_view obj field of None \<Rightarrow> Some 0 | Some v \<Rightarrow> int_value v) of
       None \<Rightarrow> r = Hincr_Not_Integer \<and> hash_view obj' = hash_view obj
     | Some n \<Rightarrow>
         if is_int64 (n + incr)
         then r = Hincr_Value (n + incr) \<and> hash_view obj' = (hash_view obj)(field \<mapsto> sds_of (int_bytes (n + incr)))
         else r = Hincr_Overflow \<and> hash_view obj' = hash_view obj)"
proof -
  have ok: "hash_ok srv obj" and w: "hash_within srv obj" and srv: "hash_srv_ok srv" using assms by (auto simp: hash_inv_def)
  obtain obj1 e where g: "hashTypeGetValue srv obj field = Some (obj1, e)" "hash_ok srv obj1" "hash_view obj1 = hash_view obj"
    "hash_within srv obj1"
    and e: "case e of None \<Rightarrow> hash_view obj field = None | Some e \<Rightarrow> \<exists>v. hash_view obj field = Some v \<and> elem_is e (sds_bytes v)"
    using get_ok [OF ok, of field] w by blast
  have i: "hash_inv srv obj1" using g srv by (simp add: hash_inv_def)
  define old where "old = (case hash_view obj field of None \<Rightarrow> Some 0 | Some v \<Rightarrow> int_value v)"
  have unf: "hincrby_object srv obj field incr = (case old of
          None \<Rightarrow> Some (obj1, Hincr_Not_Integer)
        | Some oldvalue \<Rightarrow>
            if incr < 0 \<and> oldvalue < 0 \<and> incr < LLONG_MIN - oldvalue \<or>
               incr > 0 \<and> oldvalue > 0 \<and> incr > LLONG_MAX - oldvalue
            then Some (obj1, Hincr_Overflow)
            else do {
              s \<leftarrow> int_string (oldvalue + incr);
              (obj, _) \<leftarrow> hashTypeSet srv obj1 field (sds_of s) False;
              Some (obj, Hincr_Value (oldvalue + incr))
            })"
    unfolding hincrby_object_def g(1) old_value [OF e, folded old_def, symmetric] by (cases old) (simp_all add: old_value [OF e, folded old_def] Let_def)
  show ?thesis
  proof (cases old)
    case None
    then show ?thesis using unf i g(3) by (simp add: old_def)
  next
    case (Some n)
    have n: "is_int64 n" using Some int_value_exact by (auto simp: old_def fits_def split: option.splits)
    have ov: "(incr < 0 \<and> n < 0 \<and> incr < LLONG_MIN - n \<or> incr > 0 \<and> n > 0 \<and> incr > LLONG_MAX - n) \<longleftrightarrow> \<not> is_int64 (n + incr)"
      using n assms(3) by (auto simp: fits_def LLONG_MIN_def LLONG_MAX_def)
    show ?thesis
    proof (cases "is_int64 (n + incr)")
      case False
      then show ?thesis using unf Some ov i g(3) by (simp add: old_def)
    next
      case True
      obtain obj2 where "hashTypeSet srv obj1 field (sds_of (int_bytes (n + incr))) False = Some (obj2, field \<in> dom (hash_view obj1))"
        "hash_inv srv obj2" "hash_view obj2 = (hash_view obj1)(field \<mapsto> sds_of (int_bytes (n + incr)))"
        using hash_put_ok [OF i, of field "sds_of (int_bytes (n + incr))" False] assms(2) g(3) by auto
      then show ?thesis using unf Some ov True int_string_ok [OF True] g(3) by (simp add: old_def)
    qed
  qed
qed

section \<open>Properties\<close>

definition default_hash_server :: hash_server where
  "default_hash_server =
     \<lparr>srv_can_resize = DICT_RESIZE_ENABLE, srv_seed = replicate 16 0, srv_table_addr = (0, 0),
      hash_max_listpack_entries = 512, hash_max_listpack_value = 64\<rparr>"

lemma default_hash_server_ok: "hash_srv_ok default_hash_server"
  by (simp add: hash_srv_ok_def default_hash_server_def)

text \<open>C32. The hash type refines a map. Starting with the empty hash of \<^verbatim>\<open>createHashObject\<close>, any sequence of
  \<^verbatim>\<open>hashTypeSet\<close> (with or without ownership of the field), reads of a field and \<^verbatim>\<open>hashTypeDelete\<close> returns exactly
  the answers of a map of strings (whether a value was overwritten, the value read, whether a field was removed)
  and leaves an object with the contents of that map, whatever conversions of the encoding happen on the way. The
  final object meets the invariant of its encoding, and a listpack holds at most
  \<^verbatim>\<open>hash-max-listpack-entries\<close> pairs, none with a string longer than \<^verbatim>\<open>hash-max-listpack-value\<close>.\<close>

theorem hash_type_refines_map:
  assumes "hash_srv_ok srv" "length ps < 2 ^ 59"
  shows "\<exists>obj obj'. createHashObject = Some obj \<and>
    map_run_impl (\<lambda>obj k v. hashTypeSet srv obj k v take_field) (addHashFieldToReply srv) (hashTypeDelete srv) ps obj =
      Some (obj', snd (map_run_spec ps Map.empty)) \<and>
    hash_ok srv obj' \<and> hash_within srv obj' \<and> hash_view obj' = fst (map_run_spec ps Map.empty)"
proof -
  obtain obj where o: "createHashObject = Some obj" "hash_inv srv obj" "hash_view obj = Map.empty"
    using createHashObject_ok [OF assms(1)] by blast
  have "card (dom (hash_view obj)) + length ps \<le> 2 ^ 59 - 1" using o(3) assms(2) by simp
  from hashObj.run_refines [OF o(2) this, of take_field] o show ?thesis by (auto simp: hash_inv_def)
qed

theorem hash_type_refines_map_witness:
  "\<exists>obj obj'. createHashObject = Some obj \<and>
    map_run_impl (\<lambda>obj k v. hashTypeSet default_hash_server obj k v False) (addHashFieldToReply default_hash_server)
      (hashTypeDelete default_hash_server)
      [Put (sds_of [97]) (sds_of [49]), Put (sds_of [97]) (sds_of [50]), Get (sds_of [97]), Del (sds_of [98])] obj =
      Some (obj', [Replaced False, Replaced True, Found (Some (sds_of [50])), Removed False]) \<and>
    hash_within default_hash_server obj' \<and> hash_view obj' = [sds_of [97] \<mapsto> sds_of [50]]"
proof -
  have "sds_bytes (sds_of [98]) \<noteq> sds_bytes (sds_of [97])" by simp
  then have "sds_of [98] \<noteq> sds_of [97]" by metis
  then show ?thesis
    using hash_type_refines_map [OF default_hash_server_ok, of
      "[Put (sds_of [97]) (sds_of [49]), Put (sds_of [97]) (sds_of [50]), Get (sds_of [97]), Del (sds_of [98])]" False]
    by (auto simp: Let_def)
qed

text \<open>C33. HSET on an object: with an even number of arguments (command, key and the pairs), the object afterwards
  holds the old contents overwritten by the pairs in their order, so that the last value of a repeated field wins,
  and the reply is the number of fields that were not there before, repeated fields counted once. This holds with
  the conversion before the loop (too many pairs, or a string that is too long, go to a hash table at once) and
  with conversions inside it.\<close>

theorem hset_updates_fields:
  assumes "hash_srv_ok srv" "hash_ok srv obj" "hash_within srv obj" "even (length argv)" "2 < length argv"
    "card (dom (hash_view obj)) + length argv < 2 ^ 60"
  shows "\<exists>obj' n. hset_object srv obj argv = Some (obj', n) \<and> hash_ok srv obj' \<and> hash_within srv obj' \<and>
    hash_view obj' = hash_view obj ++ map_of (rev (pair_up (drop 2 argv))) \<and>
    n = card (fst ` set (pair_up (drop 2 argv)) - dom (hash_view obj))"
proof -
  let ?ps = "pair_up (drop 2 argv)"
  have "hash_inv srv obj" using assms(1-3) by (simp add: hash_inv_def)
  from hset_object_ok [OF this assms(4-6)] obtain obj' n where r: "hset_object srv obj argv = Some (obj', n)" "hash_inv srv obj'"
    "hash_view obj' = hash_view obj ++ map_of (rev ?ps)" "card (dom (hash_view obj')) = card (dom (hash_view obj)) + n" by blast
  have "dom (hash_view obj') = dom (hash_view obj) \<union> (fst ` set ?ps - dom (hash_view obj))"
    using r(3) by (auto simp: dom_map_of_conv_image_fst)
  then have "card (dom (hash_view obj')) = card (dom (hash_view obj)) + card (fst ` set ?ps - dom (hash_view obj))"
    using finite_hash_view [of obj] by (simp only:) (rule card_Un_disjoint, auto)
  then have "n = card (fst ` set ?ps - dom (hash_view obj))" using r(4) by simp
  then show ?thesis using r by (auto simp: hash_inv_def)
qed

theorem hset_updates_fields_witness:
  "\<exists>obj obj' n. createHashObject = Some obj \<and>
    hset_object default_hash_server obj (map sds_of [[1], [2], [97], [49], [97], [50]]) = Some (obj', n) \<and>
    hash_view obj' = [sds_of [97] \<mapsto> sds_of [50]] \<and> n = 1"
proof -
  obtain obj where o: "createHashObject = Some obj" "hash_inv default_hash_server obj" "hash_view obj = Map.empty"
    using createHashObject_ok [OF default_hash_server_ok] by blast
  then show ?thesis using hset_updates_fields [OF default_hash_server_ok, of obj "map sds_of [[1], [2], [97], [49], [97], [50]]"]
    by (auto simp: hash_inv_def simp del: hash_ok.simps hash_within.simps)
qed

text \<open>C34. HDEL on an object: the loop of the command removes exactly the given fields, its count is the number of
  fields that were there, each counted once, and it stops early and asks for the deletion of the key exactly if
  it removed something and left the hash empty; no empty hash is left behind.\<close>

theorem hdel_removes_fields:
  assumes "hash_srv_ok srv" "hash_ok srv obj" "hash_within srv obj" "card (dom (hash_view obj)) < 2 ^ 59"
  shows "\<exists>obj' n keyremoved. hdel_loop srv obj fs 0 = Some (obj', n, keyremoved) \<and> hash_ok srv obj' \<and> hash_within srv obj' \<and>
    hash_view obj' = hash_view obj |` (- set fs) \<and> n = card (dom (hash_view obj) \<inter> set fs) \<and>
    (keyremoved \<longleftrightarrow> hash_view obj \<noteq> Map.empty \<and> hash_view obj' = Map.empty)"
proof -
  have "hash_inv srv obj" using assms(1-3) by (simp add: hash_inv_def)
  from hdel_loop_ok [OF this assms(4), of fs 0] obtain obj' n where
    r: "hdel_loop srv obj fs 0 = Some (obj', n, 0 < n \<and> hash_view obj' = Map.empty)" "hash_inv srv obj'"
    "hash_view obj' = hash_view obj |` (- set fs)" "card (dom (hash_view obj')) + n = card (dom (hash_view obj))" by auto
  have "dom (hash_view obj) = dom (hash_view obj') \<union> (dom (hash_view obj) \<inter> set fs)"
    "dom (hash_view obj') \<inter> (dom (hash_view obj) \<inter> set fs) = {}" using r(3) by auto
  then have "card (dom (hash_view obj)) = card (dom (hash_view obj')) + card (dom (hash_view obj) \<inter> set fs)"
    using card_Un_disjoint [of "dom (hash_view obj')" "dom (hash_view obj) \<inter> set fs"] finite_hash_view by auto
  then have n: "n = card (dom (hash_view obj) \<inter> set fs)" using r(4) by simp
  have "0 < n \<longleftrightarrow> hash_view obj \<noteq> Map.empty" if "hash_view obj' = Map.empty"
    using r(4) that finite_hash_view [of obj] by (auto simp: card_gt_0_iff)
  then have "(0 < n \<and> hash_view obj' = Map.empty) \<longleftrightarrow> hash_view obj \<noteq> Map.empty \<and> hash_view obj' = Map.empty" by blast
  then show ?thesis using r n by (auto simp: hash_inv_def)
qed

theorem hdel_removes_fields_witness:
  "\<exists>obj obj' n b. createHashObject = Some obj \<and> hdel_loop default_hash_server obj [sds_of [97], sds_of [97]] 0 = Some (obj', n, b) \<and>
    hash_view obj' = Map.empty \<and> n = 0 \<and> \<not> b"
proof -
  obtain obj where o: "createHashObject = Some obj" "hash_inv default_hash_server obj" "hash_view obj = Map.empty"
    using createHashObject_ok [OF default_hash_server_ok] by blast
  then show ?thesis using hdel_removes_fields [OF default_hash_server_ok, of obj "[sds_of [97], sds_of [97]]"]
    by (auto simp: hash_inv_def simp del: hash_ok.simps hash_within.simps)
qed

text \<open>C35. HINCRBY on an object: a missing field counts as 0; a value that is not the decimal representation of a
  64 bit integer is refused; the sum is stored, in decimal, exactly if it is a 64 bit integer, and otherwise the
  overflow error leaves the hash as it is. The checks in the code are performed before the addition, so the
  addition itself never overflows.\<close>

theorem hincrby_adds_exactly:
  assumes "hash_srv_ok srv" "hash_ok srv obj" "hash_within srv obj" "card (dom (hash_view obj)) < 2 ^ 60" "is_int64 incr"
  shows "(\<exists>obj' r. hincrby_object srv obj field incr = Some (obj', r) \<and> hash_ok srv obj' \<and> hash_within srv obj' \<and>
    (case (case hash_view obj field of None \<Rightarrow> Some 0 | Some v \<Rightarrow> int_value v) of
       None \<Rightarrow> r = Hincr_Not_Integer \<and> hash_view obj' = hash_view obj
     | Some n \<Rightarrow>
         if is_int64 (n + incr)
         then r = Hincr_Value (n + incr) \<and> hash_view obj' = (hash_view obj)(field \<mapsto> sds_of (int_bytes (n + incr)))
         else r = Hincr_Overflow \<and> hash_view obj' = hash_view obj)) \<and>
    (\<forall>s n. int_value s = Some n \<longleftrightarrow> is_int64 n \<and> sds_bytes s = int_bytes n)"
proof -
  have "hash_inv srv obj" using assms(1-3) by (simp add: hash_inv_def)
  from hincrby_ok [OF this assms(4,5), of field] show ?thesis
    unfolding hash_inv_def int_value_exact by (elim exE conjE) (intro exI conjI allI refl; assumption)
qed

theorem hincrby_adds_exactly_witness:
  "\<exists>obj obj'. createHashObject = Some obj \<and> hincrby_object default_hash_server obj (sds_of [97]) (-120) = Some (obj', Hincr_Value (-120)) \<and>
    hash_view obj' = [sds_of [97] \<mapsto> sds_of [45, 49, 50, 48]]"
proof -
  obtain obj where o: "createHashObject = Some obj" "hash_inv default_hash_server obj" "hash_view obj = Map.empty"
    using createHashObject_ok [OF default_hash_server_ok] by blast
  have "int_bytes (-120) = [45, 49, 50, 48]" by (simp add: int_bytes_def dec_bytes_def dec_large digit_def)
  then show ?thesis using o hincrby_adds_exactly [OF default_hash_server_ok, of obj "-120" "sds_of [97]", THEN conjunct1]
    by (auto simp: hash_inv_def fits_def simp del: hash_ok.simps hash_within.simps)
qed

end
