(* ===== verification/Skiplist.thy ===== *)
theory Skiplist
  imports Dict_Types
begin

text \<open>
  The skip list of \<^verbatim>\<open>t_zset.c\<close>: nodes ordered by score and element, linked at several levels, each link with the
  number of nodes it crosses, so that ranks are found in logarithmic time. This theory holds the model; the
  invariant and the refinement to a sorted list are in \<open>Skiplist_Proofs\<close>.

  A node is reached by its address; the allocated nodes are a map from addresses, from which \<^verbatim>\<open>zslFreeNode\<close> removes
  an address, so that an access to a node that was freed is \<^const>\<open>None\<close>. The allocator is an argument, as is the
  result of \<^verbatim>\<open>random()\<close>. A score is a value of any linear order: the code only compares scores, none of them is
  NaN, and the order of the other doubles is linear.
\<close>

section \<open>Comparison of strings\<close>

text \<open>The sign of \<^verbatim>\<open>memcmp\<close> on two blocks of the same length, and \<^verbatim>\<open>sdscmp\<close>.\<close>

fun memcmp :: "byte list \<Rightarrow> byte list \<Rightarrow> int" where
  "memcmp (a # as) (b # bs) = (if a < b then -1 else if b < a then 1 else memcmp as bs)"
| "memcmp _ _ = 0"

definition sdscmp :: "sds \<Rightarrow> sds \<Rightarrow> int" where
  "sdscmp s1 s2 =
     (let l1 = sdslen s1; l2 = sdslen s2; minlen = (if l1 < l2 then l1 else l2);
          cmp = memcmp (take minlen (sds_bytes s1)) (take minlen (sds_bytes s2))
      in if cmp = 0 then (if l1 > l2 then 1 else if l1 < l2 then -1 else 0) else cmp)"

section \<open>Nodes\<close>

definition ZSKIPLIST_MAXLEVEL :: nat where
  "ZSKIPLIST_MAXLEVEL = 32"

text \<open>A level of a node: \<^verbatim>\<open>forward\<close> and \<^verbatim>\<open>span\<close>.\<close>

record 'd zskiplistNode =
  zn_ele :: "sds option"
  zn_score :: 'd
  zn_backward :: "nat option"
  zn_level :: "(nat option \<times> u64) list"

type_synonym 'd zsl_heap = "nat \<rightharpoonup> 'd zskiplistNode"

record 'd zskiplist =
  zsl_nodes :: "'d zsl_heap"
  zsl_header :: nat
  zsl_tail :: "nat option"
  zsl_length :: u64
  zsl_level :: nat

definition get_level :: "'d zsl_heap \<Rightarrow> nat \<Rightarrow> nat \<Rightarrow> (nat option \<times> u64) option" where
  "get_level h x i = do { n \<leftarrow> h x; mem_get (zn_level n) i }"

definition set_level :: "'d zsl_heap \<Rightarrow> nat \<Rightarrow> nat \<Rightarrow> nat option \<times> u64 \<Rightarrow> 'd zsl_heap option" where
  "set_level h x i l =
     do {
       n \<leftarrow> h x;
       if i < length (zn_level n) then Some (h(x \<mapsto> n\<lparr>zn_level := (zn_level n)[i := l]\<rparr>)) else None
     }"

definition set_backward :: "'d zsl_heap \<Rightarrow> nat \<Rightarrow> nat option \<Rightarrow> 'd zsl_heap option" where
  "set_backward h x b = do { n \<leftarrow> h x; Some (h(x \<mapsto> n\<lparr>zn_backward := b\<rparr>)) }"

text \<open>The fields \<^verbatim>\<open>backward\<close> and \<^verbatim>\<open>level\<close> of a new node are not initialised; they are written before they are read.\<close>

definition zslCreateNode :: "('d zsl_heap \<Rightarrow> nat) \<Rightarrow> 'd zsl_heap \<Rightarrow> nat \<Rightarrow> 'd \<Rightarrow> sds option \<Rightarrow> 'd zsl_heap \<times> nat" where
  "zslCreateNode zmalloc h level score ele =
     (let x = zmalloc h
      in (h(x \<mapsto> \<lparr>zn_ele = ele, zn_score = score, zn_backward = None, zn_level = replicate level (None, 0)\<rparr>), x))"

definition zslCreate :: "('d zsl_heap \<Rightarrow> nat) \<Rightarrow> 'd::{linorder, zero} zskiplist" where
  "zslCreate zmalloc =
     (let (h, x) = zslCreateNode zmalloc Map.empty ZSKIPLIST_MAXLEVEL 0 None
      in \<lparr>zsl_nodes = h, zsl_header = x, zsl_tail = None, zsl_length = 0, zsl_level = 1\<rparr>)"

definition zslFreeNode :: "'d zsl_heap \<Rightarrow> nat \<Rightarrow> 'd zsl_heap option" where
  "zslFreeNode h x = do { _ \<leftarrow> h x; Some (h(x := None)) }"

text \<open>The loop of \<^verbatim>\<open>zslFree\<close>; the result are the nodes that are still allocated.\<close>

partial_function (option) zslFree_loop :: "'d zsl_heap \<Rightarrow> nat option \<Rightarrow> 'd zsl_heap option" where
  "zslFree_loop h node =
     (case node of
        None \<Rightarrow> Some h
      | Some x \<Rightarrow> do {
          (next_x, _) \<leftarrow> get_level h x 0;
          h \<leftarrow> zslFreeNode h x;
          zslFree_loop h next_x
        })"

definition zslFree :: "'d zskiplist \<Rightarrow> 'd zsl_heap option" where
  "zslFree zsl =
     do {
       (node, _) \<leftarrow> get_level (zsl_nodes zsl) (zsl_header zsl) 0;
       zslFree_loop ((zsl_nodes zsl)(zsl_header zsl := None)) node
     }"

text \<open>\<^verbatim>\<open>ZSKIPLIST_P * RAND_MAX\<close> with \<^verbatim>\<open>RAND_MAX\<close> \<open>2^31 - 1\<close>. The list holds the results of \<^verbatim>\<open>random()\<close>.\<close>

definition zsl_threshold :: int where
  "zsl_threshold = (2 ^ 31 - 1) div 4"

fun random_level_loop :: "int list \<Rightarrow> nat \<Rightarrow> nat option" where
  "random_level_loop (r # rs) level = (if r < zsl_threshold then random_level_loop rs (level + 1) else Some level)"
| "random_level_loop [] level = None"

definition zslRandomLevel :: "int list \<Rightarrow> nat option" where
  "zslRandomLevel rs =
     do { level \<leftarrow> random_level_loop rs 1; Some (if level < ZSKIPLIST_MAXLEVEL then level else ZSKIPLIST_MAXLEVEL) }"

section \<open>Search\<close>

text \<open>The inner loop of the searches: at level \<open>i\<close>, go forward while the test holds. The test gets the node ahead and
  the rank it has; the rank is the number of nodes crossed.\<close>

partial_function (option) zsl_forward ::
  "('d zskiplistNode \<Rightarrow> u64 \<Rightarrow> bool option) \<Rightarrow> 'd zsl_heap \<Rightarrow> nat \<Rightarrow> nat \<Rightarrow> u64 \<Rightarrow> (nat \<times> u64) option" where
  "zsl_forward go h i x rank =
     do {
       (forward, span) \<leftarrow> get_level h x i;
       (case forward of
          None \<Rightarrow> Some (x, rank)
        | Some f \<Rightarrow> do {
            n \<leftarrow> h f;
            b \<leftarrow> go n (rank + span);
            if b then zsl_forward go h i f (rank + span) else Some (x, rank)
          })
     }"

text \<open>The outer loop, from the top level down: the list of \<^verbatim>\<open>update[i]\<close> and \<^verbatim>\<open>rank[i]\<close>, lowest level first.\<close>

fun zsl_search ::
  "('d zskiplistNode \<Rightarrow> u64 \<Rightarrow> bool option) \<Rightarrow> 'd zsl_heap \<Rightarrow> nat \<Rightarrow> nat \<Rightarrow> u64 \<Rightarrow> (nat \<times> u64) list option" where
  "zsl_search go h 0 x rank = Some []"
| "zsl_search go h (Suc i) x rank =
     do {
       (x, rank) \<leftarrow> zsl_forward go h i x rank;
       rest \<leftarrow> zsl_search go h i x rank;
       Some (rest @ [(x, rank)])
     }"

text \<open>The node where the search ends.\<close>

definition search_end :: "'d zskiplist \<Rightarrow> (nat \<times> u64) list \<Rightarrow> nat" where
  "search_end zsl ur = (case ur of [] \<Rightarrow> zsl_header zsl | (x, _) # _ \<Rightarrow> x)"

text \<open>The tests of the searches by score and element.\<close>

definition node_before :: "'d::linorder \<Rightarrow> sds \<Rightarrow> 'd zskiplistNode \<Rightarrow> u64 \<Rightarrow> bool option" where
  "node_before score ele n rank =
     do { e \<leftarrow> zn_ele n; Some (zn_score n < score \<or> zn_score n = score \<and> sdscmp e ele < 0) }"

definition node_not_after :: "'d::linorder \<Rightarrow> sds \<Rightarrow> 'd zskiplistNode \<Rightarrow> u64 \<Rightarrow> bool option" where
  "node_not_after score ele n rank =
     do { e \<leftarrow> zn_ele n; Some (zn_score n < score \<or> zn_score n = score \<and> sdscmp e ele \<le> 0) }"

section \<open>Insertion\<close>

text \<open>The three loops of \<^verbatim>\<open>zslInsert\<close> after the search: new levels of the list, levels of the new node, levels above it.\<close>

fun raise_levels :: "'d zsl_heap \<Rightarrow> nat \<Rightarrow> u64 \<Rightarrow> nat list \<Rightarrow> 'd zsl_heap option" where
  "raise_levels h header len [] = Some h"
| "raise_levels h header len (i # is) =
     do {
       (forward, _) \<leftarrow> get_level h header i;
       h \<leftarrow> set_level h header i (forward, len);
       raise_levels h header len is
     }"

fun link_levels :: "'d zsl_heap \<Rightarrow> nat \<Rightarrow> (nat \<times> u64) list \<Rightarrow> nat list \<Rightarrow> 'd zsl_heap option" where
  "link_levels h x ur [] = Some h"
| "link_levels h x ur (i # is) =
     do {
       (_, rank0) \<leftarrow> mem_get ur 0;
       (u, rank) \<leftarrow> mem_get ur i;
       (forward, span) \<leftarrow> get_level h u i;
       h \<leftarrow> set_level h x i (forward, span - (rank0 - rank));
       h \<leftarrow> set_level h u i (Some x, (rank0 - rank) + 1);
       link_levels h x ur is
     }"

fun bump_levels :: "'d zsl_heap \<Rightarrow> (nat \<times> u64) list \<Rightarrow> nat list \<Rightarrow> 'd zsl_heap option" where
  "bump_levels h ur [] = Some h"
| "bump_levels h ur (i # is) =
     do {
       (u, _) \<leftarrow> mem_get ur i;
       (forward, span) \<leftarrow> get_level h u i;
       h \<leftarrow> set_level h u i (forward, span + 1);
       bump_levels h ur is
     }"

definition zslInsert ::
  "('d zsl_heap \<Rightarrow> nat) \<Rightarrow> 'd::linorder zskiplist \<Rightarrow> 'd \<Rightarrow> sds \<Rightarrow> nat \<Rightarrow> ('d zskiplist \<times> nat) option" where
  "zslInsert zmalloc zsl score ele level =
     do {
       let header = zsl_header zsl;
       ur \<leftarrow> zsl_search (node_before score ele) (zsl_nodes zsl) (zsl_level zsl) header 0;
       (h, ur, top) \<leftarrow>
         (if level > zsl_level zsl then do {
            h \<leftarrow> raise_levels (zsl_nodes zsl) header (zsl_length zsl) [zsl_level zsl..<level];
            Some (h, ur @ replicate (level - zsl_level zsl) (header, 0), level)
          }
          else Some (zsl_nodes zsl, ur, zsl_level zsl));
       let (h, x) = zslCreateNode zmalloc h level score (Some ele);
       h \<leftarrow> link_levels h x ur [0..<level];
       h \<leftarrow> bump_levels h ur [level..<top];
       (u0, _) \<leftarrow> mem_get ur 0;
       h \<leftarrow> set_backward h x (if u0 = header then None else Some u0);
       (forward, _) \<leftarrow> get_level h x 0;
       (h, tail) \<leftarrow>
         (case forward of
            Some f \<Rightarrow> do { h \<leftarrow> set_backward h f (Some x); Some (h, zsl_tail zsl) }
          | None \<Rightarrow> Some (h, Some x));
       Some (zsl\<lparr>zsl_nodes := h, zsl_tail := tail, zsl_level := top, zsl_length := zsl_length zsl + 1\<rparr>, x)
     }"

section \<open>Deletion\<close>

fun unlink_levels :: "'d zsl_heap \<Rightarrow> nat \<Rightarrow> (nat \<times> u64) list \<Rightarrow> nat list \<Rightarrow> 'd zsl_heap option" where
  "unlink_levels h x ur [] = Some h"
| "unlink_levels h x ur (i # is) =
     do {
       (u, _) \<leftarrow> mem_get ur i;
       (forward, span) \<leftarrow> get_level h u i;
       h \<leftarrow> (if forward = Some x then do {
                (xforward, xspan) \<leftarrow> get_level h x i;
                set_level h u i (xforward, span + (xspan - 1))
              }
              else set_level h u i (forward, span - 1));
       unlink_levels h x ur is
     }"

fun lower_level :: "'d zsl_heap \<Rightarrow> nat \<Rightarrow> nat \<Rightarrow> nat option" where
  "lower_level h header (Suc (Suc l)) =
     do {
       (forward, _) \<leftarrow> get_level h header (Suc l);
       if forward = None then lower_level h header (Suc l) else Some (Suc (Suc l))
     }"
| "lower_level h header l = Some l"

definition zslDeleteNode :: "'d zskiplist \<Rightarrow> nat \<Rightarrow> (nat \<times> u64) list \<Rightarrow> 'd zskiplist option" where
  "zslDeleteNode zsl x ur =
     do {
       h \<leftarrow> unlink_levels (zsl_nodes zsl) x ur [0..<zsl_level zsl];
       n \<leftarrow> h x;
       (forward, _) \<leftarrow> get_level h x 0;
       (h, tail) \<leftarrow>
         (case forward of
            Some f \<Rightarrow> do { h \<leftarrow> set_backward h f (zn_backward n); Some (h, zsl_tail zsl) }
          | None \<Rightarrow> Some (h, zn_backward n));
       level \<leftarrow> lower_level h (zsl_header zsl) (zsl_level zsl);
       Some (zsl\<lparr>zsl_nodes := h, zsl_tail := tail, zsl_level := level, zsl_length := zsl_length zsl - 1\<rparr>)
     }"

text \<open>\<open>keep\<close>: the caller passed a place for the node, which is then only unlinked. The result is the node.\<close>

definition zslDelete :: "'d::linorder zskiplist \<Rightarrow> 'd \<Rightarrow> sds \<Rightarrow> bool \<Rightarrow> ('d zskiplist \<times> nat option) option" where
  "zslDelete zsl score ele keep =
     do {
       ur \<leftarrow> zsl_search (node_before score ele) (zsl_nodes zsl) (zsl_level zsl) (zsl_header zsl) 0;
       (forward, _) \<leftarrow> get_level (zsl_nodes zsl) (search_end zsl ur) 0;
       (case forward of
          None \<Rightarrow> Some (zsl, None)
        | Some x \<Rightarrow> do {
            n \<leftarrow> zsl_nodes zsl x;
            e \<leftarrow> zn_ele n;
            if score = zn_score n \<and> sdscmp e ele = 0 then do {
              zsl \<leftarrow> zslDeleteNode zsl x ur;
              h \<leftarrow> (if keep then Some (zsl_nodes zsl) else zslFreeNode (zsl_nodes zsl) x);
              Some (zsl\<lparr>zsl_nodes := h\<rparr>, Some x)
            }
            else Some (zsl, None)
          })
     }"

definition zslUpdateScore ::
  "('d zsl_heap \<Rightarrow> nat) \<Rightarrow> 'd::linorder zskiplist \<Rightarrow> 'd \<Rightarrow> sds \<Rightarrow> 'd \<Rightarrow> nat \<Rightarrow> ('d zskiplist \<times> nat) option" where
  "zslUpdateScore zmalloc zsl curscore ele newscore level =
     do {
       ur \<leftarrow> zsl_search (node_before curscore ele) (zsl_nodes zsl) (zsl_level zsl) (zsl_header zsl) 0;
       (forward, _) \<leftarrow> get_level (zsl_nodes zsl) (search_end zsl ur) 0;
       x \<leftarrow> forward;
       n \<leftarrow> zsl_nodes zsl x;
       e \<leftarrow> zn_ele n;
       if \<not> (curscore = zn_score n \<and> sdscmp e ele = 0) then None
       else do {
         before \<leftarrow> (case zn_backward n of None \<Rightarrow> Some True | Some b \<Rightarrow> do { m \<leftarrow> zsl_nodes zsl b; Some (zn_score m < newscore) });
         (forward, _) \<leftarrow> get_level (zsl_nodes zsl) x 0;
         after \<leftarrow> (case forward of None \<Rightarrow> Some True | Some f \<Rightarrow> do { m \<leftarrow> zsl_nodes zsl f; Some (zn_score m > newscore) });
         if before \<and> after then Some (zsl\<lparr>zsl_nodes := (zsl_nodes zsl)(x \<mapsto> n\<lparr>zn_score := newscore\<rparr>)\<rparr>, x)
         else do {
           zsl \<leftarrow> zslDeleteNode zsl x ur;
           (zsl, newnode) \<leftarrow> zslInsert zmalloc zsl newscore e level;
           h \<leftarrow> zslFreeNode (zsl_nodes zsl) x;
           Some (zsl\<lparr>zsl_nodes := h\<rparr>, newnode)
         }
       }
     }"

section \<open>Ranges of scores\<close>

record 'd zrangespec =
  zr_min :: 'd
  zr_max :: 'd
  zr_minex :: bool
  zr_maxex :: bool

definition zslValueGteMin :: "'d::linorder \<Rightarrow> 'd zrangespec \<Rightarrow> bool" where
  "zslValueGteMin v spec = (if zr_minex spec then v > zr_min spec else v \<ge> zr_min spec)"

definition zslValueLteMax :: "'d::linorder \<Rightarrow> 'd zrangespec \<Rightarrow> bool" where
  "zslValueLteMax v spec = (if zr_maxex spec then v < zr_max spec else v \<le> zr_max spec)"

definition zslIsInRange :: "'d::linorder zskiplist \<Rightarrow> 'd zrangespec \<Rightarrow> bool option" where
  "zslIsInRange zsl spec =
     (if zr_min spec > zr_max spec \<or> zr_min spec = zr_max spec \<and> (zr_minex spec \<or> zr_maxex spec) then Some False
      else (case zsl_tail zsl of
        None \<Rightarrow> Some False
      | Some x \<Rightarrow> do {
          n \<leftarrow> zsl_nodes zsl x;
          if \<not> zslValueGteMin (zn_score n) spec then Some False
          else do {
            (forward, _) \<leftarrow> get_level (zsl_nodes zsl) (zsl_header zsl) 0;
            (case forward of
               None \<Rightarrow> Some False
             | Some f \<Rightarrow> do { m \<leftarrow> zsl_nodes zsl f; Some (zslValueLteMax (zn_score m) spec) })
          }
        }))"

definition zslFirstInRange :: "'d::linorder zskiplist \<Rightarrow> 'd zrangespec \<Rightarrow> nat option option" where
  "zslFirstInRange zsl spec =
     do {
       b \<leftarrow> zslIsInRange zsl spec;
       if \<not> b then Some None
       else do {
         ur \<leftarrow> zsl_search (\<lambda>n _. Some (\<not> zslValueGteMin (zn_score n) spec)) (zsl_nodes zsl) (zsl_level zsl) (zsl_header zsl) 0;
         (forward, _) \<leftarrow> get_level (zsl_nodes zsl) (search_end zsl ur) 0;
         x \<leftarrow> forward;
         n \<leftarrow> zsl_nodes zsl x;
         Some (if zslValueLteMax (zn_score n) spec then Some x else None)
       }
     }"

definition zslLastInRange :: "'d::linorder zskiplist \<Rightarrow> 'd zrangespec \<Rightarrow> nat option option" where
  "zslLastInRange zsl spec =
     do {
       b \<leftarrow> zslIsInRange zsl spec;
       if \<not> b then Some None
       else do {
         ur \<leftarrow> zsl_search (\<lambda>n _. Some (zslValueLteMax (zn_score n) spec)) (zsl_nodes zsl) (zsl_level zsl) (zsl_header zsl) 0;
         let x = search_end zsl ur;
         n \<leftarrow> zsl_nodes zsl x;
         Some (if zslValueGteMin (zn_score n) spec then Some x else None)
       }
     }"

section \<open>Ranks\<close>

text \<open>The loop of \<^verbatim>\<open>zslGetRank\<close> over the levels, and that of \<^verbatim>\<open>zslGetElementByRank\<close>.\<close>

fun rank_loop :: "'d::linorder zsl_heap \<Rightarrow> 'd \<Rightarrow> sds \<Rightarrow> nat \<Rightarrow> nat \<Rightarrow> u64 \<Rightarrow> u64 option" where
  "rank_loop h score ele 0 x rank = Some 0"
| "rank_loop h score ele (Suc i) x rank =
     do {
       (x, rank) \<leftarrow> zsl_forward (node_not_after score ele) h i x rank;
       n \<leftarrow> h x;
       if (case zn_ele n of None \<Rightarrow> False | Some e \<Rightarrow> zn_score n = score \<and> sdscmp e ele = 0) then Some rank
       else rank_loop h score ele i x rank
     }"

definition zslGetRank :: "'d::linorder zskiplist \<Rightarrow> 'd \<Rightarrow> sds \<Rightarrow> u64 option" where
  "zslGetRank zsl score ele = rank_loop (zsl_nodes zsl) score ele (zsl_level zsl) (zsl_header zsl) 0"

fun by_rank_loop :: "'d zsl_heap \<Rightarrow> u64 \<Rightarrow> nat \<Rightarrow> nat \<Rightarrow> u64 \<Rightarrow> nat option option" where
  "by_rank_loop h rank 0 x traversed = Some None"
| "by_rank_loop h rank (Suc i) x traversed =
     do {
       (x, traversed) \<leftarrow> zsl_forward (\<lambda>_ r. Some (r \<le> rank)) h i x traversed;
       if traversed = rank then Some (Some x) else by_rank_loop h rank i x traversed
     }"

definition zslGetElementByRank :: "'d zskiplist \<Rightarrow> u64 \<Rightarrow> nat option option" where
  "zslGetElementByRank zsl rank = by_rank_loop (zsl_nodes zsl) rank (zsl_level zsl) (zsl_header zsl) 0"

end
