(* ===== verification/T_Zset.thy ===== *)
theory T_Zset
  imports T_Set Skiplist
begin

text \<open>
  The sorted set of \<^verbatim>\<open>t_zset.c\<close> in its large encoding: a skip list for the order and a dict from the elements to their
  scores. A value of the dict is a pointer into a node of the skip list, \<^verbatim>\<open>&znode->score\<close>, here the address of the
  node. This theory holds the model; \<open>T_Zset_Proofs\<close> shows that both views agree.

  A score that may be NaN is \<^const>\<open>None\<close> or a value of the linear order of the scores; the addition of scores is an argument, as
  the skip list leaves it open which order the scores have.
\<close>

record 'd zset =
  zs_dict :: "(sds, nat) dict"
  zs_zsl :: "'d zskiplist"

definition createZsetObject :: "('d zsl_heap \<Rightarrow> nat) \<Rightarrow> 'd::{linorder, zero} zset" where
  "createZsetObject zmalloc = \<lparr>zs_dict = dictCreate, zs_zsl = zslCreate zmalloc\<rparr>"

definition zsetLength :: "'d zset \<Rightarrow> u64" where
  "zsetLength zs = zsl_length (zs_zsl zs)"

section \<open>Score and rank\<close>

text \<open>The score behind a pointer of the dict, and the lookup of an element.\<close>

definition score_at :: "'d zset \<Rightarrow> nat \<Rightarrow> 'd option" where
  "score_at zs x = map_option zn_score (zsl_nodes (zs_zsl zs) x)"

definition zset_find :: "'a server_env_scheme \<Rightarrow> 'd zset \<Rightarrow> sds \<Rightarrow> ('d zset \<times> (entry_ref \<times> nat) option) option" where
  "zset_find srv zs ele =
     do {
       (d, de) \<leftarrow> dictFind (srv_can_resize srv) (zsetDictType (srv_seed srv)) (zs_dict zs) ele;
       (case de of
          None \<Rightarrow> Some (zs\<lparr>zs_dict := d\<rparr>, None)
        | Some ref \<Rightarrow> do {
            he \<leftarrow> entry_at d ref;
            x \<leftarrow> dictGetVal he;
            Some (zs\<lparr>zs_dict := d\<rparr>, Some (ref, x))
          })
     }"

definition zsetScore :: "'a server_env_scheme \<Rightarrow> 'd zset \<Rightarrow> sds \<Rightarrow> ('d zset \<times> 'd option) option" where
  "zsetScore srv zs member =
     do {
       (zs, r) \<leftarrow> zset_find srv zs member;
       (case r of
          None \<Rightarrow> Some (zs, None)
        | Some (_, x) \<Rightarrow> do { score \<leftarrow> score_at zs x; Some (zs, Some score) })
     }"

text \<open>\<open>None\<close> as the rank is the result -1.\<close>

definition zsetRank :: "'a server_env_scheme \<Rightarrow> 'd::linorder zset \<Rightarrow> sds \<Rightarrow> bool \<Rightarrow> ('d zset \<times> (u64 \<times> 'd) option) option" where
  "zsetRank srv zs ele reverse =
     do {
       let llen = zsetLength zs;
       (zs, r) \<leftarrow> zset_find srv zs ele;
       (case r of
          None \<Rightarrow> Some (zs, None)
        | Some (_, x) \<Rightarrow> do {
            score \<leftarrow> score_at zs x;
            rank \<leftarrow> zslGetRank (zs_zsl zs) score ele;
            if rank = 0 then None
            else Some (zs, Some (if reverse then llen - rank else rank - 1, score))
          })
     }"

section \<open>Adding\<close>

text \<open>The flags of ZADD and its outcomes; the outcomes that succeed carry the score.\<close>

record zadd_flags =
  zadd_incr :: bool
  zadd_nx :: bool
  zadd_xx :: bool
  zadd_gt :: bool
  zadd_lt :: bool

datatype 'd zadd_out = Zadd_Nan | Zadd_Nop | Zadd_Added 'd | Zadd_Updated 'd | Zadd_Same 'd

text \<open>The branch of \<^verbatim>\<open>zsetAdd\<close> for an element that is there, and the one for a new element.\<close>

definition zset_update ::
  "('d zsl_heap \<Rightarrow> nat) \<Rightarrow> ('d \<Rightarrow> 'd \<Rightarrow> 'd option) \<Rightarrow> 'a server_env_scheme \<Rightarrow> 'd::linorder zset \<Rightarrow> entry_ref \<Rightarrow> nat \<Rightarrow> 'd \<Rightarrow> sds \<Rightarrow>
     zadd_flags \<Rightarrow> nat \<Rightarrow> ('d zset \<times> 'd zadd_out) option" where
  "zset_update zmalloc add srv zs ref x score ele flags level =
     (if zadd_nx flags then Some (zs, Zadd_Nop)
      else do {
        curscore \<leftarrow> score_at zs x;
        (case (if zadd_incr flags then add score curscore else Some score) of
           None \<Rightarrow> Some (zs, Zadd_Nan)
         | Some score \<Rightarrow>
             if zadd_lt flags \<and> score \<ge> curscore \<or> zadd_gt flags \<and> score \<le> curscore then Some (zs, Zadd_Nop)
             else if score \<noteq> curscore then do {
               (zsl, znode) \<leftarrow> zslUpdateScore zmalloc (zs_zsl zs) curscore ele score level;
               d \<leftarrow> dictSetVal (zsetDictType (srv_seed srv)) (zs_dict zs) ref znode;
               Some (\<lparr>zs_dict = d, zs_zsl = zsl\<rparr>, Zadd_Updated score)
             }
             else Some (zs, Zadd_Same score))
      })"

definition zset_insert ::
  "('d zsl_heap \<Rightarrow> nat) \<Rightarrow> 'a server_env_scheme \<Rightarrow> 'd::linorder zset \<Rightarrow> 'd \<Rightarrow> sds \<Rightarrow> nat \<Rightarrow> 'd zset option" where
  "zset_insert zmalloc srv zs score ele level =
     do {
       (zsl, znode) \<leftarrow> zslInsert zmalloc (zs_zsl zs) score ele level;
       (d, added) \<leftarrow> dictAdd (srv_can_resize srv) (zsetDictType (srv_seed srv)) (zs_dict zs) ele znode;
       if added then Some \<lparr>zs_dict = d, zs_zsl = zsl\<rparr> else None
     }"

definition zsetAdd ::
  "('d zsl_heap \<Rightarrow> nat) \<Rightarrow> ('d \<Rightarrow> 'd \<Rightarrow> 'd option) \<Rightarrow> 'a server_env_scheme \<Rightarrow> 'd::linorder zset \<Rightarrow> 'd option \<Rightarrow> sds \<Rightarrow>
     zadd_flags \<Rightarrow> nat \<Rightarrow> ('d zset \<times> 'd zadd_out) option" where
  "zsetAdd zmalloc add srv zs score ele flags level =
     (case score of
        None \<Rightarrow> Some (zs, Zadd_Nan)
      | Some score \<Rightarrow> do {
          (zs, r) \<leftarrow> zset_find srv zs ele;
          (case r of
             Some (ref, x) \<Rightarrow> zset_update zmalloc add srv zs ref x score ele flags level
           | None \<Rightarrow>
               if \<not> zadd_xx flags then do {
                 zs \<leftarrow> zset_insert zmalloc srv zs score ele level;
                 Some (zs, Zadd_Added score)
               }
               else Some (zs, Zadd_Nop))
        })"

section \<open>Deleting\<close>

definition zsetRemoveFromSkiplist :: "'a server_env_scheme \<Rightarrow> 'd::linorder zset \<Rightarrow> sds \<Rightarrow> ('d zset \<times> bool) option" where
  "zsetRemoveFromSkiplist srv zs ele =
     do {
       (d, de) \<leftarrow> dictUnlink (srv_can_resize srv) (zsetDictType (srv_seed srv)) (zs_dict zs) ele;
       let zs = zs\<lparr>zs_dict := d\<rparr>;
       (case de of
          None \<Rightarrow> Some (zs, False)
        | Some he \<Rightarrow> do {
            x \<leftarrow> dictGetVal he;
            score \<leftarrow> score_at zs x;
            (zsl, retval) \<leftarrow> zslDelete (zs_zsl zs) score ele False;
            if retval = None then None else Some (zs\<lparr>zs_zsl := zsl\<rparr>, True)
          })
     }"

definition zsetDel :: "'a server_env_scheme \<Rightarrow> 'd::linorder zset \<Rightarrow> sds \<Rightarrow> ('d zset \<times> bool) option" where
  "zsetDel srv zs ele =
     do {
       (zs, removed) \<leftarrow> zsetRemoveFromSkiplist srv zs ele;
       Some (if removed \<and> htNeedsResize (zs_dict zs) then zs\<lparr>zs_dict := fst (dictResize (srv_can_resize srv) (zs_dict zs))\<rparr> else zs,
             removed)
     }"

section \<open>Deleting ranges\<close>

text \<open>The loop that deletes nodes from \<open>x\<close> on while a test holds; the test gets the node and its rank. The result
  counts the deleted nodes.\<close>

partial_function (option) delete_range_loop ::
  "('d zskiplistNode \<Rightarrow> u64 \<Rightarrow> bool option) \<Rightarrow> 'a server_env_scheme \<Rightarrow> 'd zset \<Rightarrow> (nat \<times> u64) list \<Rightarrow> nat option \<Rightarrow> u64 \<Rightarrow> u64 \<Rightarrow>
     ('d zset \<times> u64) option" where
  "delete_range_loop go srv zs ur x traversed removed =
     (case x of
        None \<Rightarrow> Some (zs, removed)
      | Some x \<Rightarrow> do {
          n \<leftarrow> zsl_nodes (zs_zsl zs) x;
          b \<leftarrow> go n traversed;
          if \<not> b then Some (zs, removed)
          else do {
            (next_x, _) \<leftarrow> get_level (zsl_nodes (zs_zsl zs)) x 0;
            zsl \<leftarrow> zslDeleteNode (zs_zsl zs) x ur;
            ele \<leftarrow> zn_ele n;
            (d, _) \<leftarrow> dictDelete (srv_can_resize srv) (zsetDictType (srv_seed srv)) (zs_dict zs) ele;
            h \<leftarrow> zslFreeNode (zsl_nodes zsl) x;
            delete_range_loop go srv \<lparr>zs_dict = d, zs_zsl = zsl\<lparr>zsl_nodes := h\<rparr>\<rparr> ur next_x (traversed + 1) (removed + 1)
          }
        })"

definition zslDeleteRangeByScore :: "'a server_env_scheme \<Rightarrow> 'd::linorder zset \<Rightarrow> 'd zrangespec \<Rightarrow> ('d zset \<times> u64) option" where
  "zslDeleteRangeByScore srv zs spec =
     do {
       let zsl = zs_zsl zs;
       ur \<leftarrow> zsl_search (\<lambda>n _. Some (\<not> zslValueGteMin (zn_score n) spec)) (zsl_nodes zsl) (zsl_level zsl) (zsl_header zsl) 0;
       (x, _) \<leftarrow> get_level (zsl_nodes zsl) (search_end zsl ur) 0;
       delete_range_loop (\<lambda>n _. Some (zslValueLteMax (zn_score n) spec)) srv zs ur x 0 0
     }"

text \<open>The ranks are 32 bit numbers and start at 1.\<close>

definition zslDeleteRangeByRank :: "'a server_env_scheme \<Rightarrow> 'd::linorder zset \<Rightarrow> u32 \<Rightarrow> u32 \<Rightarrow> ('d zset \<times> u64) option" where
  "zslDeleteRangeByRank srv zs start last_rank =
     do {
       let zsl = zs_zsl zs;
       ur \<leftarrow> zsl_search (\<lambda>_ r. Some (r < ucast start)) (zsl_nodes zsl) (zsl_level zsl) (zsl_header zsl) 0;
       (_, traversed) \<leftarrow> mem_get ur 0;
       (x, _) \<leftarrow> get_level (zsl_nodes zsl) (search_end zsl ur) 0;
       delete_range_loop (\<lambda>_ r. Some (r \<le> ucast last_rank)) srv zs ur x (traversed + 1) 0
     }"

end
