(* ===== verification/Skiplist_Proofs.thy ===== *)
theory Skiplist_Proofs
  imports Skiplist
begin

text \<open>
  The invariant of the skip list, \<open>zsl_inv\<close>: the links of every level are those of the sorted list of the nodes, and
  every span is the number of nodes its link crosses. Every operation of \<open>Skiplist\<close> keeps it and acts on the sorted
  list as its specification says.
\<close>

section \<open>The order of strings\<close>

lemma memcmp_sign: "memcmp a b \<in> {-1, 0, 1}"
  by (induction a b rule: memcmp.induct) auto

definition cmp_bytes :: "byte list \<Rightarrow> byte list \<Rightarrow> int" where
  "cmp_bytes a b =
     (let m = min (length a) (length b); c = memcmp (take m a) (take m b)
      in if c = 0 then (if length a > length b then 1 else if length a < length b then -1 else 0) else c)"

lemma cmp_bytes_simps [simp]:
  "cmp_bytes [] [] = 0" "cmp_bytes [] (b # bs) = -1" "cmp_bytes (a # as) [] = 1"
  "cmp_bytes (a # as) (b # bs) = (if a < b then -1 else if b < a then 1 else cmp_bytes as bs)"
  by (auto simp: cmp_bytes_def Let_def)

lemma cmp_bytes_lex: "(cmp_bytes a b < 0 \<longleftrightarrow> ord_class.lexordp a b) \<and> (cmp_bytes a b = 0 \<longleftrightarrow> a = b)"
proof (induction a arbitrary: b)
  case Nil
  then show ?case by (cases b) auto
next
  case (Cons x a)
  then show ?case by (cases b) auto
qed

lemma sdscmp_lex: "sdscmp a b < 0 \<longleftrightarrow> ord_class.lexordp (sds_bytes a) (sds_bytes b)" "sdscmp a b = 0 \<longleftrightarrow> a = b"
proof -
  have "sdscmp a b = cmp_bytes (sds_bytes a) (sds_bytes b)"
    by (simp add: sdscmp_def cmp_bytes_def sdslen_def Let_def min_def)
  then show "sdscmp a b < 0 \<longleftrightarrow> ord_class.lexordp (sds_bytes a) (sds_bytes b)" "sdscmp a b = 0 \<longleftrightarrow> a = b"
    using cmp_bytes_lex [of "sds_bytes a" "sds_bytes b"] by (simp_all add: sds_eq_iff)
qed

lemma sdscmp_le: "sdscmp a b \<le> 0 \<longleftrightarrow> sdscmp a b < 0 \<or> a = b"
  using sdscmp_lex(2) [of a b] by linarith

text \<open>The order of the nodes: by score, then by element.\<close>

definition zless :: "'d::linorder \<times> sds \<Rightarrow> 'd \<times> sds \<Rightarrow> bool" where
  "zless p q \<longleftrightarrow> fst p < fst q \<or> fst p = fst q \<and> sdscmp (snd p) (snd q) < 0"

lemma zless_irrefl [simp]: "\<not> zless p p"
  by (simp add: zless_def sdscmp_lex lexordp_irreflexive')

lemma zless_trans: "zless p q \<Longrightarrow> zless q r \<Longrightarrow> zless p r"
  by (auto simp: zless_def sdscmp_lex intro: lexordp_trans)

lemma zless_linear: "zless p q \<or> p = q \<or> zless q p"
proof -
  have "ord_class.lexordp (sds_bytes (snd p)) (sds_bytes (snd q)) \<or> snd p = snd q \<or> ord_class.lexordp (sds_bytes (snd q)) (sds_bytes (snd p))"
    using lexordp_linear [of "sds_bytes (snd p)" "sds_bytes (snd q)"] by (auto simp: sds_eq_iff)
  then show ?thesis by (auto simp: zless_def sdscmp_lex prod_eq_iff)
qed

lemma zless_asym: "zless p q \<Longrightarrow> \<not> zless q p"
  using zless_trans [of p q p] by auto

section \<open>Observing nodes\<close>

definition height :: "'d zsl_heap \<Rightarrow> nat \<Rightarrow> nat" where
  "height h a = (case h a of Some n \<Rightarrow> length (zn_level n) | None \<Rightarrow> 0)"

definition nkey :: "'d zsl_heap \<Rightarrow> nat \<Rightarrow> ('d \<times> sds option) option" where
  "nkey h a = map_option (\<lambda>n. (zn_score n, zn_ele n)) (h a)"

definition nback :: "'d zsl_heap \<Rightarrow> nat \<Rightarrow> nat option option" where
  "nback h a = map_option zn_backward (h a)"

lemma get_level_iff: "get_level h a i \<noteq> None \<longleftrightarrow> i < height h a"
  by (auto simp: get_level_def height_def mem_get_def split: option.splits)

lemma get_level_height: "get_level h a i = Some l \<Longrightarrow> i < height h a"
  using get_level_iff [of h a i] by simp

text \<open>Writing a level or a back pointer changes nothing else.\<close>

lemma set_level_ok:
  assumes "i < height h a"
  shows "\<exists>h'. set_level h a i l = Some h' \<and>
    get_level h' = (\<lambda>b j. if b = a \<and> j = i then Some l else get_level h b j) \<and>
    height h' = height h \<and> nkey h' = nkey h \<and> nback h' = nback h \<and> dom h' = dom h"
proof -
  obtain n where n: "h a = Some n" "i < length (zn_level n)" using assms by (auto simp: height_def split: option.splits)
  let ?h = "h(a \<mapsto> n\<lparr>zn_level := (zn_level n)[i := l]\<rparr>)"
  have "set_level h a i l = Some ?h" using n by (simp add: set_level_def)
  moreover have "get_level ?h = (\<lambda>b j. if b = a \<and> j = i then Some l else get_level h b j)"
    using n by (auto simp: get_level_def mem_get_def fun_eq_iff)
  moreover have "height ?h = height h" "nkey ?h = nkey h" "nback ?h = nback h" "dom ?h = dom h"
    using n by (auto simp: height_def nkey_def nback_def fun_eq_iff)
  ultimately show ?thesis by blast
qed

lemma set_backward_ok:
  assumes "a \<in> dom h"
  shows "\<exists>h'. set_backward h a b = Some h' \<and> nback h' = (nback h)(a \<mapsto> b) \<and>
    get_level h' = get_level h \<and> height h' = height h \<and> nkey h' = nkey h \<and> dom h' = dom h"
proof -
  obtain n where n: "h a = Some n" using assms by auto
  let ?h = "h(a \<mapsto> n\<lparr>zn_backward := b\<rparr>)"
  have "set_backward h a b = Some ?h" using n by (simp add: set_backward_def)
  moreover have "nback ?h = (nback h)(a \<mapsto> b)" by (auto simp: nback_def fun_eq_iff)
  moreover have "get_level ?h = get_level h" "height ?h = height h" "nkey ?h = nkey h" "dom ?h = dom h"
    using n by (auto simp: get_level_def height_def nkey_def fun_eq_iff)
  ultimately show ?thesis by blast
qed

lemma height_dom: "0 < height h a \<Longrightarrow> a \<in> dom h"
  by (auto simp: height_def split: option.splits)

section \<open>Links\<close>

text \<open>The first node of a list that has a level \<open>i\<close>, with its distance; the length of the list if there is none.\<close>

fun nxt :: "(nat \<Rightarrow> nat) \<Rightarrow> nat \<Rightarrow> nat list \<Rightarrow> nat option \<times> nat" where
  "nxt ht i [] = (None, 0)"
| "nxt ht i (a # as) = (if i < ht a then (Some a, 1) else (fst (nxt ht i as), Suc (snd (nxt ht i as))))"

lemma nxt_skip: "\<forall>b \<in> set M. ht b \<le> i \<Longrightarrow> nxt ht i (M @ R) = (fst (nxt ht i R), length M + snd (nxt ht i R))"
  by (induction M) auto

lemma nxt_hit: "b \<in> set M \<Longrightarrow> i < ht b \<Longrightarrow> nxt ht i (M @ R) = nxt ht i M"
  by (induction M) auto

lemma nxt_cases:
  obtains (none) "\<forall>b \<in> set M. ht b \<le> i" "nxt ht i M = (None, length M)"
  | (some) M1 b M2 where "M = M1 @ b # M2" "\<forall>c \<in> set M1. ht c \<le> i" "i < ht b" "nxt ht i M = (Some b, Suc (length M1))"
proof (cases "\<exists>b \<in> set M. i < ht b")
  case True
  then obtain M1 b M2 where "M = M1 @ b # M2" "i < ht b" "\<forall>c \<in> set M1. \<not> i < ht c"
    using split_list_first_prop [of M "\<lambda>b. i < ht b"] by blast
  then show thesis using some [of M1 b M2] nxt_skip [of M1 ht i "b # M2"] by (auto simp: not_less)
next
  case False
  then have "\<forall>b \<in> set M. ht b \<le> i" by (auto simp: not_less)
  then show thesis using none nxt_skip [of M ht i "[]"] by simp
qed

lemma nxt_fst_in: "fst (nxt ht i R) = Some x \<Longrightarrow> x \<in> set R \<and> i < ht x"
  by (induction R) (auto split: if_splits)

lemma nxt_cong: "\<forall>b \<in> set R. ht b = ht' b \<Longrightarrow> nxt ht i R = nxt ht' i R"
  by (induction R) auto

text \<open>A link as it is stored.\<close>

definition link_to :: "(nat \<Rightarrow> nat) \<Rightarrow> nat \<Rightarrow> nat list \<Rightarrow> nat option \<times> u64" where
  "link_to ht i R = (fst (nxt ht i R), of_nat (snd (nxt ht i R)))"

definition links :: "'d zsl_heap \<Rightarrow> nat \<Rightarrow> nat list \<Rightarrow> bool" where
  "links h L P \<longleftrightarrow> (\<forall>A a B i. P = A @ a # B \<longrightarrow> i < L \<longrightarrow> i < height h a \<longrightarrow> get_level h a i = Some (link_to (height h) i B))"

lemma linksD: "links h L (A @ a # B) \<Longrightarrow> i < L \<Longrightarrow> i < height h a \<Longrightarrow> get_level h a i = Some (link_to (height h) i B)"
  by (auto simp: links_def)

section \<open>Searching\<close>

text \<open>The test holds for the nodes of \<open>Q\<close> after the first, and not for those of \<open>R\<close>.\<close>

definition cut :: "('d zskiplistNode \<Rightarrow> u64 \<Rightarrow> bool option) \<Rightarrow> 'd zsl_heap \<Rightarrow> nat list \<Rightarrow> nat list \<Rightarrow> bool" where
  "cut go h Q R \<longleftrightarrow>
     (\<forall>A a B. Q = A @ a # B \<longrightarrow> A \<noteq> [] \<longrightarrow> (\<exists>n. h a = Some n \<and> go n (of_nat (length A)) = Some True)) \<and>
     (\<forall>A a B. R = A @ a # B \<longrightarrow> (\<exists>n. h a = Some n \<and> go n (of_nat (length Q + length A)) = Some False))"

lemma cut_in: "cut go h (A @ a # B) R \<Longrightarrow> A \<noteq> [] \<Longrightarrow> \<exists>n. h a = Some n \<and> go n (of_nat (length A)) = Some True"
  by (auto simp: cut_def)

lemma cut_out: "cut go h Q (A @ a # B) \<Longrightarrow> \<exists>n. h a = Some n \<and> go n (of_nat (length Q + length A)) = Some False"
  by (auto simp: cut_def)

text \<open>The last node of \<open>Q\<close> that has a level \<open>i\<close>, with its position.\<close>

definition upd_at :: "(nat \<Rightarrow> nat) \<Rightarrow> nat list \<Rightarrow> nat \<Rightarrow> nat \<times> u64 \<Rightarrow> bool" where
  "upd_at ht Q i ur \<longleftrightarrow>
     (\<exists>A M. Q = A @ fst ur # M \<and> i < ht (fst ur) \<and> (\<forall>b \<in> set M. ht b \<le> i) \<and> snd ur = of_nat (length A))"

lemma forward_ok:
  assumes "links h L (Q @ R)" "cut go h Q R" "i < L" "Q = A @ a # M" "i < height h a"
  shows "\<exists>A' u M'. Q = A' @ u # M' \<and> i < height h u \<and> (\<forall>b \<in> set M'. height h b \<le> i) \<and>
    zsl_forward go h i a (of_nat (length A)) = Some (u, of_nat (length A'))"
  using assms(4,5)
proof (induction M arbitrary: A a rule: length_induct)
  case (1 M)
  have l: "get_level h a i = Some (link_to (height h) i (M @ R))"
    using linksD [of h L A a "M @ R" i] assms(1,3) 1(2,3) by simp
  show ?case
  proof (rule nxt_cases [of M "height h" i])
    fix M1 b M2 assume m: "M = M1 @ b # M2" "\<forall>c \<in> set M1. height h c \<le> i" "i < height h b"
      "nxt (height h) i M = (Some b, Suc (length M1))"
    have n: "nxt (height h) i (M @ R) = (Some b, Suc (length M1))" using nxt_hit [of b M i "height h" R] m by simp
    have q: "Q = (A @ a # M1) @ b # M2" using 1(2) m(1) by simp
    obtain nd where nd: "h b = Some nd" "go nd (of_nat (length (A @ a # M1))) = Some True"
      using cut_in [of go h "A @ a # M1" b M2 R] assms(2) q by auto
    have r: "(of_nat (length A) :: u64) + of_nat (Suc (length M1)) = of_nat (length (A @ a # M1))" by simp
    obtain A' u M' where "Q = A' @ u # M'" "i < height h u" "\<forall>b \<in> set M'. height h b \<le> i"
      "zsl_forward go h i b (of_nat (length (A @ a # M1))) = Some (u, of_nat (length A'))"
      using 1(1) [rule_format, of M2 "A @ a # M1" b] m(1,3) q by auto
    moreover have "zsl_forward go h i a (of_nat (length A)) = zsl_forward go h i b (of_nat (length (A @ a # M1)))"
      using l n nd by (subst zsl_forward.simps) (simp add: link_to_def r del: of_nat_Suc of_nat_add length_append)
    ultimately show ?thesis by metis
  next
    assume m: "\<forall>b \<in> set M. height h b \<le> i" "nxt (height h) i M = (None, length M)"
    have n: "nxt (height h) i (M @ R) = (fst (nxt (height h) i R), length M + snd (nxt (height h) i R))"
      by (rule nxt_skip [OF m(1)])
    have "zsl_forward go h i a (of_nat (length A)) = Some (a, of_nat (length A))"
    proof (rule nxt_cases [of R "height h" i])
      assume "nxt (height h) i R = (None, length R)"
      then show ?thesis using l n by (subst zsl_forward.simps) (simp add: link_to_def)
    next
      fix R1 b R2 assume r: "R = R1 @ b # R2" "nxt (height h) i R = (Some b, Suc (length R1))"
      obtain nd where nd: "h b = Some nd" "go nd (of_nat (length Q + length R1)) = Some False"
        using cut_out [of go h Q R1 b R2] assms(2) r by auto
      have e: "(of_nat (length A) :: u64) + of_nat (Suc (length M + length R1)) = of_nat (length Q + length R1)"
        using 1(2) by simp
      show ?thesis using l n r(2) nd
        by (subst zsl_forward.simps) (simp add: link_to_def e del: of_nat_Suc of_nat_add length_append)
    qed
    then show ?thesis using 1(2,3) m(1) by blast
  qed
qed

lemma search_ok:
  assumes "links h L (Q @ R)" "cut go h Q R" "l \<le> L" "Q = A @ a # M" "l \<le> height h a"
  shows "\<exists>ur. zsl_search go h l a (of_nat (length A)) = Some ur \<and> length ur = l \<and> (\<forall>i < l. upd_at (height h) Q i (ur ! i))"
  using assms(3-5)
proof (induction l arbitrary: A a M)
  case (Suc l)
  then obtain A' u M' where f: "Q = A' @ u # M'" "l < height h u" "\<forall>b \<in> set M'. height h b \<le> l"
    "zsl_forward go h l a (of_nat (length A)) = Some (u, of_nat (length A'))"
    using forward_ok [OF assms(1,2), of l A a M] by auto
  obtain ur where ur: "zsl_search go h l u (of_nat (length A')) = Some ur" "length ur = l" "\<forall>i < l. upd_at (height h) Q i (ur ! i)"
    using Suc.IH [OF _ f(1)] f(2) Suc.prems(1) by auto
  have "upd_at (height h) Q l (u, of_nat (length A'))" using f by (auto simp: upd_at_def)
  then show ?case using f(4) ur by (auto simp: nth_append less_Suc_eq)
qed simp

section \<open>Insertion\<close>

lemma upd_at_unique:
  assumes "upd_at ht Q i ur" "Q = A @ a # M" "i < ht a" "\<forall>b \<in> set M. ht b \<le> i"
  shows "A @ a # M = A @ fst ur # M \<and> snd ur = of_nat (length A)"
proof -
  obtain A' M' where q: "Q = A' @ fst ur # M'" "i < ht (fst ur)" "\<forall>b \<in> set M'. ht b \<le> i" "snd ur = of_nat (length A')"
    using assms(1) by (auto simp: upd_at_def)
  have "\<not> length A < length A'"
  proof
    assume "length A < length A'"
    then have "fst ur \<in> set M" using q(1) assms(2) by (auto simp: append_eq_append_conv2 append_eq_Cons_conv Cons_eq_append_conv)
    then show False using assms(4) q(2) by auto
  qed
  moreover have "\<not> length A' < length A"
  proof
    assume "length A' < length A"
    then have "a \<in> set M'" using q(1) assms(2) by (auto simp: append_eq_append_conv2 append_eq_Cons_conv Cons_eq_append_conv)
    then show False using assms(3) q(3) by auto
  qed
  ultimately have "length A = length A'" by simp
  then show ?thesis using q(1,4) assms(2) by auto
qed

lemma upd_at_not:
  assumes "upd_at ht Q i ur" "Q = A @ a # M" "distinct Q" "a \<noteq> fst ur" "i < ht a"
  shows "\<exists>b \<in> set M. i < ht b"
proof (rule ccontr)
  assume "\<not> ?thesis"
  then have "\<forall>b \<in> set M. ht b \<le> i" by (auto simp: not_less)
  from upd_at_unique [OF assms(1,2,5) this] assms(4) show False by simp
qed

lemma upd_at_in: "upd_at ht Q i ur \<Longrightarrow> fst ur \<in> set Q \<and> i < ht (fst ur)"
  by (auto simp: upd_at_def)

lemma upd_at_0:
  assumes "upd_at ht Q 0 ur" "\<forall>a \<in> set Q. 0 < ht a"
  shows "fst ur = last Q \<and> snd ur = of_nat (length Q - 1)"
proof -
  obtain A M where q: "Q = A @ fst ur # M" "\<forall>b \<in> set M. ht b \<le> 0" "snd ur = of_nat (length A)"
    using assms(1) by (auto simp: upd_at_def)
  then have "M = []" using assms(2) by (cases M) auto
  then have "last Q = fst ur" "length Q - 1 = length A" using q(1) by auto
  then show ?thesis using q(3) by simp
qed

text \<open>What the two loops of the insertion write.\<close>

lemma link_levels_ok:
  assumes "distinct is" "ur \<noteq> []"
    "\<forall>i \<in> set is. i < length ur \<and> fst (ur ! i) \<noteq> x \<and> i < height h (fst (ur ! i)) \<and> i < height h x"
  shows "\<exists>h'. link_levels h x ur is = Some h' \<and>
    get_level h' = (\<lambda>b j. if j \<in> set is \<and> b = x
                          then (let (f, s) = the (get_level h (fst (ur ! j)) j) in Some (f, s - (snd (ur ! 0) - snd (ur ! j))))
                          else if j \<in> set is \<and> b = fst (ur ! j) then Some (Some x, (snd (ur ! 0) - snd (ur ! j)) + 1)
                          else get_level h b j) \<and>
    height h' = height h \<and> nkey h' = nkey h \<and> nback h' = nback h \<and> dom h' = dom h"
  using assms(1,3)
proof (induction "is" arbitrary: h)
  case (Cons i "is")
  let ?u = "fst (ur ! i)" and ?d = "snd (ur ! 0) - snd (ur ! i)"
  have i: "i < length ur" "?u \<noteq> x" "i < height h ?u" "i < height h x" using Cons.prems(2) by auto
  obtain f s where fs: "get_level h ?u i = Some (f, s)" using get_level_iff [of h ?u i] i(3) by (metis not_None_eq surj_pair)
  obtain h1 where h1: "set_level h x i (f, s - ?d) = Some h1"
    "get_level h1 = (\<lambda>b j. if b = x \<and> j = i then Some (f, s - ?d) else get_level h b j)"
    "height h1 = height h" "nkey h1 = nkey h" "nback h1 = nback h" "dom h1 = dom h"
    using set_level_ok [OF i(4), of "(f, s - ?d)"] by blast
  have "i < height h1 ?u" using i(3) h1(3) by simp
  from set_level_ok [OF this, of "(Some x, ?d + 1)"] obtain h2 where
    h2: "set_level h1 ?u i (Some x, ?d + 1) = Some h2"
    "get_level h2 = (\<lambda>b j. if b = ?u \<and> j = i then Some (Some x, ?d + 1) else get_level h1 b j)"
    "height h2 = height h" "nkey h2 = nkey h" "nback h2 = nback h" "dom h2 = dom h"
    using h1 by auto
  obtain h' where h': "link_levels h2 x ur is = Some h'" 
    "get_level h' = (\<lambda>b j. if j \<in> set is \<and> b = x
                          then (let (f, s) = the (get_level h2 (fst (ur ! j)) j) in Some (f, s - (snd (ur ! 0) - snd (ur ! j))))
                          else if j \<in> set is \<and> b = fst (ur ! j) then Some (Some x, (snd (ur ! 0) - snd (ur ! j)) + 1)
                          else get_level h2 b j)"
    "height h' = height h2" "nkey h' = nkey h2" "nback h' = nback h2" "dom h' = dom h2"
    using Cons.IH [of h2] Cons.prems h2(3) by auto
  have "mem_get ur 0 = Some (ur ! 0)" "mem_get ur i = Some (ur ! i)" using assms(2) i(1) by auto
  then have run: "link_levels h x ur (i # is) = Some h'"
    using fs h1(1) h2(1) h'(1) by (simp add: case_prod_beta)
  have "i \<notin> set is" using Cons.prems(1) by simp
  then have "get_level h2 (fst (ur ! j)) j = get_level h (fst (ur ! j)) j" if "j \<in> set is" for j
    using that h1(2) h2(2) by auto
  then have "get_level h' = (\<lambda>b j. if j \<in> set (i # is) \<and> b = x
                          then (let (f, s) = the (get_level h (fst (ur ! j)) j) in Some (f, s - (snd (ur ! 0) - snd (ur ! j))))
                          else if j \<in> set (i # is) \<and> b = fst (ur ! j) then Some (Some x, (snd (ur ! 0) - snd (ur ! j)) + 1)
                          else get_level h b j)"
    using fs \<open>i \<notin> set is\<close> i(2) by (auto simp: h'(2) h2(2) h1(2) fun_eq_iff)
  then show ?case using run h' h2 by simp
qed (auto simp: fun_eq_iff)

lemma bump_levels_ok:
  assumes "distinct is" "\<forall>i \<in> set is. i < length ur \<and> i < height h (fst (ur ! i))"
  shows "\<exists>h'. bump_levels h ur is = Some h' \<and>
    get_level h' = (\<lambda>b j. if j \<in> set is \<and> b = fst (ur ! j)
                          then (let (f, s) = the (get_level h b j) in Some (f, s + 1)) else get_level h b j) \<and>
    height h' = height h \<and> nkey h' = nkey h \<and> nback h' = nback h \<and> dom h' = dom h"
  using assms
proof (induction "is" arbitrary: h)
  case (Cons i "is")
  let ?u = "fst (ur ! i)"
  have i: "i < length ur" "i < height h ?u" using Cons.prems(2) by auto
  obtain f s where fs: "get_level h ?u i = Some (f, s)" using get_level_iff [of h ?u i] i(2) by (metis not_None_eq surj_pair)
  obtain h1 where h1: "set_level h ?u i (f, s + 1) = Some h1"
    "get_level h1 = (\<lambda>b j. if b = ?u \<and> j = i then Some (f, s + 1) else get_level h b j)"
    "height h1 = height h" "nkey h1 = nkey h" "nback h1 = nback h" "dom h1 = dom h"
    using set_level_ok [OF i(2), of "(f, s + 1)"] by blast
  obtain h' where h': "bump_levels h1 ur is = Some h'"
    "get_level h' = (\<lambda>b j. if j \<in> set is \<and> b = fst (ur ! j)
                          then (let (f, s) = the (get_level h1 b j) in Some (f, s + 1)) else get_level h1 b j)"
    "height h' = height h1" "nkey h' = nkey h1" "nback h' = nback h1" "dom h' = dom h1"
    using Cons.IH [of h1] Cons.prems h1(3) by auto
  have run: "bump_levels h ur (i # is) = Some h'"
    using i(1) fs h1(1) h'(1) by (simp add: case_prod_beta)
  have "i \<notin> set is" using Cons.prems(1) by simp
  then have "get_level h' = (\<lambda>b j. if j \<in> set (i # is) \<and> b = fst (ur ! j)
                          then (let (f, s) = the (get_level h b j) in Some (f, s + 1)) else get_level h b j)"
    using fs by (auto simp: h'(2) h1(2) fun_eq_iff)
  then show ?case using run h' h1 by simp
qed (auto simp: fun_eq_iff)

lemma raise_levels_ok:
  assumes "distinct is" "\<forall>i \<in> set is. i < height h hdr \<and> (\<exists>s. get_level h hdr i = Some (None, s))"
  shows "\<exists>h'. raise_levels h hdr len is = Some h' \<and>
    get_level h' = (\<lambda>b j. if j \<in> set is \<and> b = hdr then Some (None, len) else get_level h b j) \<and>
    height h' = height h \<and> nkey h' = nkey h \<and> nback h' = nback h \<and> dom h' = dom h"
  using assms
proof (induction "is" arbitrary: h)
  case (Cons i "is")
  obtain s where i: "i < height h hdr" "get_level h hdr i = Some (None, s)" using Cons.prems(2) by auto
  obtain h1 where h1: "set_level h hdr i (None, len) = Some h1"
    "get_level h1 = (\<lambda>b j. if b = hdr \<and> j = i then Some (None, len) else get_level h b j)"
    "height h1 = height h" "nkey h1 = nkey h" "nback h1 = nback h" "dom h1 = dom h"
    using set_level_ok [OF i(1), of "(None, len)"] by blast
  have "i \<notin> set is" using Cons.prems(1) by simp
  then have "\<forall>i \<in> set is. i < height h1 hdr \<and> (\<exists>s. get_level h1 hdr i = Some (None, s))" using Cons.prems(2) h1(2,3) by auto
  then obtain h' where h': "raise_levels h1 hdr len is = Some h'"
    "get_level h' = (\<lambda>b j. if j \<in> set is \<and> b = hdr then Some (None, len) else get_level h1 b j)"
    "height h' = height h1" "nkey h' = nkey h1" "nback h' = nback h1" "dom h' = dom h1"
    using Cons.IH [of h1] Cons.prems(1) by auto
  have run: "raise_levels h hdr len (i # is) = Some h'" using i(2) h1(1) h'(1) by simp
  then show ?case using h' h1 by (auto simp: fun_eq_iff)
qed (auto simp: fun_eq_iff)

text \<open>The links after the insertion of \<open>x\<close> between \<open>Q\<close> and \<open>R\<close>.\<close>

lemma insert_links:
  assumes lk: "links h L (Q @ R)" and d: "distinct (Q @ R)" "x \<notin> set (Q @ R)"
    and u: "\<forall>i < L. upd_at (height h) Q i (ur ! i)" and pos: "\<forall>a \<in> set Q. 0 < height h a" and lv: "0 < lv" "lv \<le> L"
    and ht: "height h' = (height h)(x := lv)"
    and gl: "\<And>b j. j < L \<Longrightarrow> get_level h' b j =
      (if j < lv \<and> b = x then (let (f, s) = the (get_level h (fst (ur ! j)) j) in Some (f, s - (snd (ur ! 0) - snd (ur ! j))))
       else if b = fst (ur ! j) then
         (if j < lv then Some (Some x, (snd (ur ! 0) - snd (ur ! j)) + 1)
          else (let (f, s) = the (get_level h b j) in Some (f, s + 1)))
       else if b = x then None else get_level h b j)"
  shows "links h' L (Q @ x # R)"
  unfolding links_def
proof (intro allI impI)
  fix A a B i assume eq: "Q @ x # R = A @ a # B" and i: "i < L" "i < height h' a"
  have r: "nxt (height h') i T = nxt (height h) i T" if "x \<notin> set T" for T i
    by (rule nxt_cong) (use that ht in auto)
  have u0: "snd (ur ! 0) = of_nat (length Q - 1)" using upd_at_0 [of "height h" Q "ur ! 0"] u lv pos by auto
  obtain A' M where q: "Q = A' @ fst (ur ! i) # M" "i < height h (fst (ur ! i))" "\<forall>b \<in> set M. height h b \<le> i" "snd (ur ! i) = of_nat (length A')"
    using u i(1) by (auto simp: upd_at_def)
  have dist: "snd (ur ! 0) - snd (ur ! i) = (of_nat (length M) :: u64)" using u0 q(1,4) by simp
  have ul: "get_level h (fst (ur ! i)) i = Some (fst (nxt (height h) i R), of_nat (length M + snd (nxt (height h) i R)))"
    using linksD [of h L A' "fst (ur ! i)" "M @ R" i] lk q(1,2) i(1) nxt_skip [OF q(3), of R] by (simp add: link_to_def)
  have ux: "fst (ur ! i) \<noteq> x" using upd_at_in u i(1) d(2) by fastforce
  consider (at) "a = x" | (before) M' where "Q = A @ a # M'" "B = M' @ x # R" | (after) A2 where "R = A2 @ a # B"
    using eq by (auto simp: append_eq_append_conv2 Cons_eq_append_conv append_eq_Cons_conv)
  then show "get_level h' a i = Some (link_to (height h') i B)"
  proof cases
    case at
    then have "i < lv" using i(2) ht by simp
    moreover have "B = R" using eq at d by (auto simp: append_eq_append_conv2 Cons_eq_append_conv append_eq_Cons_conv)
    ultimately show ?thesis using gl [OF i(1), of a] ul at dist r [of R] d(2) by (simp add: link_to_def)
  next
    case before
    have ax: "a \<noteq> x" using before(1) d(2) by auto
    then have ia: "i < height h a" using i(2) ht by simp
    have mx: "x \<notin> set M'" using before(1) d(2) by auto
    show ?thesis
    proof (cases "a = fst (ur ! i)")
      case True
      have "A = A' \<and> M' = M" using before(1) q(1) True d(1) by (auto simp: append_eq_append_conv2 Cons_eq_append_conv append_eq_Cons_conv)
      then have m: "M' = M" by simp
      have skip: "nxt (height h') i B = (fst (nxt (height h') i (x # R)), length M + snd (nxt (height h') i (x # R)))"
        unfolding before(2) m by (rule nxt_skip) (use q(3) mx m ht in auto)
      show ?thesis
      proof (cases "i < lv")
        case True
        then show ?thesis using gl [OF i(1), of a] \<open>a = fst (ur ! i)\<close> ux skip dist ht by (simp add: link_to_def)
      next
        case False
        have "get_level h' a i = Some (fst (nxt (height h) i R), of_nat (length M + snd (nxt (height h) i R)) + 1)"
          using gl [OF i(1), of a] \<open>a = fst (ur ! i)\<close> ux ul False by simp
        then show ?thesis using skip False ht r [of R] d(2) by (simp add: link_to_def)
      qed
    next
      case False
      obtain b where b: "b \<in> set M'" "i < height h b"
        using upd_at_not [of "height h" Q i "ur ! i" A a M'] u i(1) before(1) d(1) False ia by auto
      have "nxt (height h') i B = nxt (height h') i M'"
        unfolding before(2) by (rule nxt_hit [OF b(1)]) (use b mx ht in auto)
      moreover have "nxt (height h) i (M' @ R) = nxt (height h) i M'" by (rule nxt_hit) (rule b)+
      moreover have "get_level h a i = Some (link_to (height h) i (M' @ R))"
        using linksD [of h L A a "M' @ R" i] lk before(1) i(1) ia by simp
      ultimately show ?thesis using gl [OF i(1), of a] False ax r [OF mx] by (simp add: link_to_def)
    qed
  next
    case after
    have ax: "a \<noteq> x" "x \<notin> set B" using after d(2) by auto
    have "a \<noteq> fst (ur ! i)" using after d(1) q(1) by auto
    then have "get_level h' a i = get_level h a i" using gl [OF i(1), of a] ax by simp
    moreover have "get_level h a i = Some (link_to (height h) i B)"
      using linksD [of h L "Q @ A2" a B i] lk after i ax ht by simp
    ultimately show ?thesis using r [OF ax(2)] by (simp add: link_to_def)
  qed
qed

section \<open>The invariant\<close>

definition zkey :: "'d zsl_heap \<Rightarrow> nat \<Rightarrow> 'd \<times> sds" where
  "zkey h a = (fst (the (nkey h a)), the (snd (the (nkey h a))))"

definition back_ok :: "'d zsl_heap \<Rightarrow> nat list \<Rightarrow> bool" where
  "back_ok h P \<longleftrightarrow> (\<forall>A a b B. P = A @ a # b # B \<longrightarrow> nback h b = Some (if A = [] then None else Some a))"

definition node_ok :: "'d zsl_heap \<Rightarrow> nat \<Rightarrow> nat \<Rightarrow> bool" where
  "node_ok h L a \<longleftrightarrow> 0 < height h a \<and> height h a \<le> L \<and> (\<exists>s e. nkey h a = Some (s, Some e))"

text \<open>The parts of the invariant that only concern the nodes: the header \<open>hdr\<close>, the nodes \<open>ns\<close> in their order, and the
  number \<open>L\<close> of levels in use.\<close>

definition nodes_ok :: "'d zsl_heap \<Rightarrow> nat \<Rightarrow> nat \<Rightarrow> nat list \<Rightarrow> bool" where
  "nodes_ok h hdr L ns \<longleftrightarrow>
     finite (dom h) \<and> distinct (hdr # ns) \<and> height h hdr = ZSKIPLIST_MAXLEVEL \<and> (\<exists>s. nkey h hdr = Some (s, None)) \<and>
     0 < L \<and> L \<le> ZSKIPLIST_MAXLEVEL \<and> (\<forall>a \<in> set ns. node_ok h L a) \<and> links h L (hdr # ns) \<and>
     (\<forall>i. L \<le> i \<longrightarrow> i < ZSKIPLIST_MAXLEVEL \<longrightarrow> (\<exists>s. get_level h hdr i = Some (None, s))) \<and> back_ok h (hdr # ns)"

definition zsl_keys :: "'d zskiplist \<Rightarrow> nat list \<Rightarrow> ('d \<times> sds) list" where
  "zsl_keys zsl ns = map (zkey (zsl_nodes zsl)) ns"

definition zsl_inv :: "'d::linorder zskiplist \<Rightarrow> nat list \<Rightarrow> bool" where
  "zsl_inv zsl ns \<longleftrightarrow>
     nodes_ok (zsl_nodes zsl) (zsl_header zsl) (zsl_level zsl) ns \<and>
     zsl_tail zsl = (if ns = [] then None else Some (last ns)) \<and> zsl_length zsl = of_nat (length ns) \<and>
     sorted_wrt zless (zsl_keys zsl ns)"

lemma nodes_okD:
  assumes "nodes_ok h hdr L ns"
  shows "finite (dom h)" "distinct (hdr # ns)" "height h hdr = ZSKIPLIST_MAXLEVEL" "0 < L" "L \<le> ZSKIPLIST_MAXLEVEL"
    "\<forall>a \<in> set ns. node_ok h L a" "links h L (hdr # ns)" "back_ok h (hdr # ns)"
    "\<And>i. L \<le> i \<Longrightarrow> i < ZSKIPLIST_MAXLEVEL \<Longrightarrow> \<exists>s. get_level h hdr i = Some (None, s)" "\<exists>s. nkey h hdr = Some (s, None)"
  using assms by (auto simp: nodes_ok_def)

lemma node_ok_dom: "node_ok h L a \<Longrightarrow> a \<in> dom h"
  by (auto simp: node_ok_def nkey_def)

lemma nodes_dom: "nodes_ok h hdr L ns \<Longrightarrow> insert hdr (set ns) \<subseteq> dom h"
proof -
  assume ok: "nodes_ok h hdr L ns"
  then have "set ns \<subseteq> dom h" using node_ok_dom unfolding nodes_ok_def by blast
  moreover have "hdr \<in> dom h" using ok by (auto simp: nodes_ok_def nkey_def)
  ultimately show ?thesis by blast
qed

lemma nodes_heights:
  assumes "nodes_ok h hdr L ns" "a \<in> set (hdr # ns)"
  shows "0 < height h a"
  using assms by (auto simp: nodes_ok_def node_ok_def ZSKIPLIST_MAXLEVEL_def)

lemma node_fields:
  assumes "node_ok h L a"
  obtains n where "h a = Some n" "zn_ele n = Some (snd (zkey h a))" "zn_score n = fst (zkey h a)"
proof -
  obtain s e where k: "nkey h a = Some (s, Some e)" using assms unfolding node_ok_def by blast
  then obtain n where n: "h a = Some n" "zn_score n = s" "zn_ele n = Some e" unfolding nkey_def by blast
  have "zkey h a = (s, e)" using k by (simp add: zkey_def)
  then show thesis using n by (intro that [of n]) simp_all
qed

text \<open>Keys that a change of the heap keeps.\<close>

lemma zkey_cong: "nkey h' a = nkey h a \<Longrightarrow> zkey h' a = zkey h a"
  by (simp add: zkey_def)

section \<open>Raising the number of levels\<close>

lemma raise_ok:
  assumes ok: "nodes_ok h hdr L ns" and l: "L \<le> l" "l \<le> ZSKIPLIST_MAXLEVEL"
  shows "\<exists>h'. raise_levels h hdr (of_nat (length ns)) [L..<l] = Some h' \<and> nodes_ok h' hdr l ns \<and>
    height h' = height h \<and> nkey h' = nkey h \<and> nback h' = nback h \<and> dom h' = dom h"
proof -
  note o = nodes_okD [OF ok]
  obtain h' where h': "raise_levels h hdr (of_nat (length ns)) [L..<l] = Some h'"
    "get_level h' = (\<lambda>b j. if j \<in> set [L..<l] \<and> b = hdr then Some (None, of_nat (length ns)) else get_level h b j)"
    "height h' = height h" "nkey h' = nkey h" "nback h' = nback h" "dom h' = dom h"
    using raise_levels_ok [of "[L..<l]" h hdr "of_nat (length ns)"] o(3,9) l(2) by auto
  have "links h' l (hdr # ns)"
    unfolding links_def
  proof (intro allI impI)
    fix A a B i assume eq: "hdr # ns = A @ a # B" and i: "i < l" "i < height h' a"
    show "get_level h' a i = Some (link_to (height h') i B)"
    proof (cases "i < L")
      case True
      then show ?thesis using linksD [of h L A a B i] o(7) eq i h'(2,3) by simp
    next
      case False
      have "a = hdr"
      proof (rule ccontr)
        assume "a \<noteq> hdr"
        then have "a \<in> set ns" using eq by (cases A) auto
        then show False using o(6) i(2) h'(3) False by (auto simp: node_ok_def)
      qed
      then have "B = ns" using eq o(2) by (cases A) auto
      have "nxt (height h) i (ns @ []) = (fst (nxt (height h) i []), length ns + snd (nxt (height h) i []))"
        by (rule nxt_skip) (use o(6) False in \<open>auto simp: node_ok_def\<close>)
      then show ?thesis using \<open>a = hdr\<close> \<open>B = ns\<close> False i(1) h'(2,3) by (simp add: link_to_def)
    qed
  qed
  moreover have "\<forall>a \<in> set ns. node_ok h' l a" using o(6) h'(3,4) l(1) by (auto simp: node_ok_def)
  moreover have "back_ok h' (hdr # ns)" using o(8) h'(5) by (simp add: back_ok_def)
  moreover have "\<exists>s. get_level h' hdr i = Some (None, s)" if "l \<le> i" "i < ZSKIPLIST_MAXLEVEL" for i
    using o(9) [of i] that l(1) h'(2) by simp
  ultimately have "nodes_ok h' hdr l ns" using o l h' by (auto simp: nodes_ok_def)
  then show ?thesis using h' by blast
qed

text \<open>The last node with a level that no node has is the header.\<close>

lemma upd_at_header:
  assumes "nodes_ok h hdr L (A @ B)" "L \<le> i" "i < ZSKIPLIST_MAXLEVEL"
  shows "upd_at (height h) (hdr # A) i (hdr, 0)"
  unfolding upd_at_def
  by (rule exI [of _ "[]"], rule exI [of _ A]) (use assms in \<open>force simp: nodes_ok_def node_ok_def\<close>)

section \<open>Inserting a node\<close>

definition alloc_ok :: "('d zsl_heap \<Rightarrow> nat) \<Rightarrow> bool" where
  "alloc_ok zmalloc \<longleftrightarrow> (\<forall>h. finite (dom h) \<longrightarrow> zmalloc h \<notin> dom h)"

lemma create_node_ok:
  assumes "zslCreateNode zmalloc h lv score ele = (h', x)"
  shows "x = zmalloc h" "height h' = (height h)(x := lv)" "nkey h' = (nkey h)(x \<mapsto> (score, ele))"
    "get_level h' = (\<lambda>b j. if b = x then (if j < lv then Some (None, 0) else None) else get_level h b j)"
    "nback h' = (nback h)(x \<mapsto> None)" "dom h' = insert x (dom h)"
proof -
  have x: "x = zmalloc h" and h': "h' = h(x \<mapsto> \<lparr>zn_ele = ele, zn_score = score, zn_backward = None, zn_level = replicate lv (None, 0)\<rparr>)"
    using assms by (auto simp: zslCreateNode_def Let_def)
  show "x = zmalloc h" by (rule x)
  show "height h' = (height h)(x := lv)" "nkey h' = (nkey h)(x \<mapsto> (score, ele))"
    "get_level h' = (\<lambda>b j. if b = x then (if j < lv then Some (None, 0) else None) else get_level h b j)"
    "nback h' = (nback h)(x \<mapsto> None)" "dom h' = insert x (dom h)"
    by (auto simp: h' height_def nkey_def get_level_def nback_def mem_get_def fun_eq_iff)
qed

lemma split_mid:
  assumes "Q @ x # R = A @ a # B"
  obtains (left) M where "Q = A @ a # M" "B = M @ x # R" | (mid) "A = Q" "a = x" "B = R" | (right) A2 where "A = Q @ x # A2" "R = A2 @ a # B"
  using assms by (auto simp: append_eq_append_conv2 Cons_eq_append_conv append_eq_Cons_conv)

lemma back_ok_insert:
  assumes "back_ok h (Q @ R)" "x \<notin> set (Q @ R)" "distinct (Q @ R)" "Q \<noteq> []"
    "nback h' x = Some (if length Q = 1 then None else Some (last Q))"
    "R \<noteq> [] \<Longrightarrow> nback h' (hd R) = Some (Some x)" "\<And>b. b \<noteq> x \<Longrightarrow> R = [] \<or> b \<noteq> hd R \<Longrightarrow> nback h' b = nback h b"
  shows "back_ok h' (Q @ x # R)"
  unfolding back_ok_def
proof (intro allI impI)
  fix A a b B assume eq: "Q @ x # R = A @ a # b # B"
  from eq show "nback h' b = Some (if A = [] then None else Some a)"
  proof (rule split_mid)
    fix M assume m: "Q = A @ a # M" "b # B = M @ x # R"
    show ?thesis
    proof (cases M)
      case Nil
      then show ?thesis using m assms(5) by (cases A) auto
    next
      case (Cons c M')
      then have q: "Q = A @ a # b # M'" using m by simp
      then have "nback h b = Some (if A = [] then None else Some a)" using assms(1) by (auto simp: back_ok_def)
      moreover have "b \<noteq> x" "R = [] \<or> b \<noteq> hd R" using q assms(2,3) by (auto simp: neq_Nil_conv)
      ultimately show ?thesis using assms(7) by simp
    qed
  next
    assume "A = Q" "a = x" "b # B = R"
    then show ?thesis using assms(4,6) by force
  next
    fix A2 assume r: "A = Q @ x # A2" "R = A2 @ a # b # B"
    then have "Q @ R = (Q @ A2) @ a # b # B" by simp
    then have "nback h b = Some (if Q @ A2 = [] then None else Some a)" using assms(1) unfolding back_ok_def by blast
    moreover have "b \<noteq> x" "b \<noteq> hd R" using r assms(2,3) by (cases A2; auto)+
    ultimately show ?thesis using assms(4,7) r by simp
  qed
qed

text \<open>The search of an insertion splits the nodes at the new key.\<close>

lemma cut_keys:
  assumes "\<forall>a \<in> set A. node_ok h L a \<and> pr (zkey h a)" "\<forall>a \<in> set B. node_ok h L a \<and> \<not> pr (zkey h a)"
    "\<And>n e r. zn_ele n = Some e \<Longrightarrow> go n r = Some (pr (zn_score n, e))"
  shows "cut go h (hdr # A) B"
proof -
  have go: "\<exists>n. h a = Some n \<and> go n r = Some (pr (zkey h a))" if "node_ok h L a" for a r
    using that assms(3) by (elim node_fields) (metis prod.collapse)
  show ?thesis unfolding cut_def
  proof (intro conjI allI impI)
    fix A' a B' assume "hdr # A = A' @ a # B'" "A' \<noteq> []"
    then have "a \<in> set A" by (cases A') auto
    then show "\<exists>n. h a = Some n \<and> go n (of_nat (length A')) = Some True" using go [of a "of_nat (length A')"] assms(1) by simp
  next
    fix A' a B' assume "B = A' @ a # B'"
    then show "\<exists>n. h a = Some n \<and> go n (of_nat (length (hdr # A) + length A')) = Some False"
      using go [of a "of_nat (length (hdr # A) + length A')"] assms(2) by simp
  qed
qed

text \<open>The nodes of a skip list before and after a property that holds of a prefix of the keys.\<close>

lemma split_nodes:
  assumes "nodes_ok h hdr L ns" "\<And>p q. zless p q \<Longrightarrow> pr q \<Longrightarrow> pr p" "sorted_wrt zless (map (zkey h) ns)"
  obtains A B where "ns = A @ B" "\<forall>a \<in> set A. node_ok h L a \<and> pr (zkey h a)" "\<forall>a \<in> set B. node_ok h L a \<and> \<not> pr (zkey h a)"
    "A = takeWhile (\<lambda>a. pr (zkey h a)) ns" "B = dropWhile (\<lambda>a. pr (zkey h a)) ns"
proof -
  let ?A = "takeWhile (\<lambda>a. pr (zkey h a)) ns" and ?B = "dropWhile (\<lambda>a. pr (zkey h a)) ns"
  have ns: "ns = ?A @ ?B" by simp
  have ok: "\<forall>a \<in> set ns. node_ok h L a" using assms(1) by (simp add: nodes_ok_def)
  have nb: "\<not> pr (zkey h b)" if "b \<in> set ?B" for b
  proof -
    have "?B \<noteq> []" using length_pos_if_in_set [OF that] by blast
    then obtain c B' where c: "?B = c # B'" unfolding neq_Nil_conv by blast
    then have n: "\<not> pr (zkey h c)" using hd_dropWhile [of "\<lambda>a. pr (zkey h a)" ns] by (metis list.distinct(1) list.sel(1))
    have "sorted_wrt zless (map (zkey h) (?A @ ?B))" using assms(3) by simp
    then have "sorted_wrt zless (map (zkey h) (c # B'))" unfolding map_append sorted_wrt_append c by simp
    then have "b = c \<or> zless (zkey h c) (zkey h b)" using that unfolding c by auto
    then show ?thesis
    proof
      assume "zless (zkey h c) (zkey h b)"
      from assms(2) [OF this] n show ?thesis by blast
    qed (use n in simp)
  qed
  have "\<forall>a \<in> set ?A. node_ok h L a \<and> pr (zkey h a)" using ok set_takeWhileD by fast
  moreover have "\<forall>b \<in> set ?B. node_ok h L b \<and> \<not> pr (zkey h b)" using ok nb set_dropWhileD by fast
  ultimately show thesis by (rule that [OF ns _ _ refl refl])
qed

lemma insert_nodes:
  assumes ok: "nodes_ok h hdr L (A @ B)" and u: "length ur = L" "\<forall>i < L. upd_at (height h) (hdr # A) i (ur ! i)"
    and lv: "0 < lv" "lv \<le> L" and x: "x \<notin> dom h" and c: "zslCreateNode zmalloc h lv score (Some ele) = (h1, x)"
  shows "\<exists>h2 h3 h4 f s h5. link_levels h1 x ur [0..<lv] = Some h2 \<and> bump_levels h2 ur [lv..<L] = Some h3 \<and>
    set_backward h3 x (if fst (ur ! 0) = hdr then None else Some (fst (ur ! 0))) = Some h4 \<and> get_level h4 x 0 = Some (f, s) \<and>
    f = (if B = [] then None else Some (hd B)) \<and>
    (case f of None \<Rightarrow> Some h4 | Some f \<Rightarrow> set_backward h4 f (Some x)) = Some h5 \<and>
    nodes_ok h5 hdr L (A @ x # B) \<and> dom h5 = insert x (dom h) \<and> nkey h5 = (nkey h)(x \<mapsto> (score, Some ele))"
proof -
  note o = nodes_okD [OF ok] and cr = create_node_ok [OF c]
  let ?Q = "hdr # A"
  have sub: "insert hdr (set (A @ B)) \<subseteq> dom h" by (rule nodes_dom [OF ok])
  then have xd: "x \<notin> set (?Q @ B)" using x by auto
  have pos: "\<forall>a \<in> set (?Q @ B). 0 < height h a" using nodes_heights [OF ok] by simp
  have uin: "fst (ur ! i) \<in> set ?Q" "i < height h (fst (ur ! i))" "fst (ur ! i) \<noteq> x" if "i < L" for i
    using upd_at_in [of "height h" ?Q i "ur ! i"] u(2) that xd by auto
  have "ur \<noteq> []" using u(1) lv by auto
  from link_levels_ok [OF _ this, of "[0..<lv]" x h1] obtain h2 where h2: "link_levels h1 x ur [0..<lv] = Some h2"
    "get_level h2 = (\<lambda>b j. if j \<in> set [0..<lv] \<and> b = x
                          then (let (f, s) = the (get_level h1 (fst (ur ! j)) j) in Some (f, s - (snd (ur ! 0) - snd (ur ! j))))
                          else if j \<in> set [0..<lv] \<and> b = fst (ur ! j) then Some (Some x, (snd (ur ! 0) - snd (ur ! j)) + 1)
                          else get_level h1 b j)"
    "height h2 = height h1" "nkey h2 = nkey h1" "nback h2 = nback h1" "dom h2 = dom h1"
    using lv u(1) uin cr(2) by auto
  from bump_levels_ok [of "[lv..<L]" ur h2] obtain h3 where h3: "bump_levels h2 ur [lv..<L] = Some h3"
    "get_level h3 = (\<lambda>b j. if j \<in> set [lv..<L] \<and> b = fst (ur ! j)
                          then (let (f, s) = the (get_level h2 b j) in Some (f, s + 1)) else get_level h2 b j)"
    "height h3 = height h2" "nkey h3 = nkey h2" "nback h3 = nback h2" "dom h3 = dom h2"
    using u(1) uin cr(2) h2(3) by auto
  have gl: "get_level h3 b j =
      (if j < lv \<and> b = x then (let (f, s) = the (get_level h (fst (ur ! j)) j) in Some (f, s - (snd (ur ! 0) - snd (ur ! j))))
       else if b = fst (ur ! j) then
         (if j < lv then Some (Some x, (snd (ur ! 0) - snd (ur ! j)) + 1)
          else (let (f, s) = the (get_level h b j) in Some (f, s + 1)))
       else if b = x then None else get_level h b j)" if "j < L" for b j
    using uin(3) [OF that] that lv by (simp add: h3(2) h2(2) cr(4))
  have ht: "height h3 = (height h)(x := lv)" using h3(3) h2(3) cr(2) by simp
  have dis: "distinct (?Q @ B)" and lk: "links h L (?Q @ B)" using o(2,7) by simp_all
  have lk3: "links h3 L (?Q @ x # B)"
    by (rule insert_links [OF lk dis xd u(2) _ lv ht gl]) (use pos in auto)
  have u0: "fst (ur ! 0) = last ?Q"
    using upd_at_0 [of "height h" ?Q "ur ! 0"] u(2) lv pos by auto
  have "x \<in> dom h3" using h3(6) h2(6) cr(6) by simp
  from set_backward_ok [OF this] obtain h4 where h4: "set_backward h3 x (if fst (ur ! 0) = hdr then None else Some (fst (ur ! 0))) = Some h4"
    "nback h4 = (nback h3)(x \<mapsto> (if fst (ur ! 0) = hdr then None else Some (fst (ur ! 0))))"
    "get_level h4 = get_level h3" "height h4 = height h3" "nkey h4 = nkey h3" "dom h4 = dom h3"
    by blast
  define f where "f = (if B = [] then None else Some (hd B))"
  have "fst (link_to (height h3) 0 B) = f"
    using pos xd ht by (cases B) (auto simp: f_def link_to_def)
  then obtain s where s: "get_level h4 x 0 = Some (f, s)"
    using linksD [of h3 L ?Q x B 0] lk3 lv ht h4(3) by (metis append_Cons fun_upd_same order_less_le_trans prod.collapse)
  obtain h5 where h5: "(case f of None \<Rightarrow> Some h4 | Some f \<Rightarrow> set_backward h4 f (Some x)) = Some h5"
    "nback h5 = (if B = [] then nback h4 else (nback h4)(hd B \<mapsto> Some x))"
    "get_level h5 = get_level h4" "height h5 = height h4" "nkey h5 = nkey h4" "dom h5 = dom h4"
  proof (cases B)
    case Nil
    then show thesis using that [of h4] by (simp add: f_def)
  next
    case (Cons b B')
    then have "b \<in> dom h4" using sub h4(6) h3(6) h2(6) cr(6) by auto
    from set_backward_ok [OF this, of "Some x"] Cons show thesis using that by (auto simp: f_def)
  qed
  have key: "nkey h5 = (nkey h)(x \<mapsto> (score, Some ele))" using h5(5) h4(5) h3(4) h2(4) cr(3) by simp
  have dom: "dom h5 = insert x (dom h)" using h5(6) h4(6) h3(6) h2(6) cr(6) by simp
  have ht5: "height h5 = (height h)(x := lv)" using h5(4) h4(4) ht by simp
  have nb: "nback h5 = (if B = [] then (nback h)(x \<mapsto> (if fst (ur ! 0) = hdr then None else Some (fst (ur ! 0))))
      else (nback h)(x \<mapsto> (if fst (ur ! 0) = hdr then None else Some (fst (ur ! 0))), hd B \<mapsto> Some x))"
    using h5(2) h4(2) h3(5) h2(5) cr(5) by simp
  have hdB: "B \<noteq> [] \<Longrightarrow> hd B \<noteq> x" using xd by (cases B) auto
  have "(if fst (ur ! 0) = hdr then None else Some (fst (ur ! 0))) = (if length ?Q = 1 then None else Some (last ?Q))"
    using u0 o(2) by (cases A rule: rev_cases) auto
  then have "back_ok h5 (?Q @ x # B)"
    using o(8) xd dis hdB by (intro back_ok_insert [of h ?Q B x]) (auto simp: nb)
  moreover have "links h5 L (?Q @ x # B)" using lk3 h5(3,4) h4(3,4) by (simp add: links_def)
  moreover have "node_ok h5 L a" if "a \<in> set (A @ x # B)" for a
    using that o(6) ht5 key lv xd by (auto simp: node_ok_def)
  moreover have "\<exists>s. get_level h5 hdr i = Some (None, s)" if "L \<le> i" "i < ZSKIPLIST_MAXLEVEL" for i
  proof -
    have "hdr \<noteq> x" using xd by auto
    then have "get_level h5 hdr i = get_level h hdr i" using that lv by (simp add: h5(3) h4(3) h3(2) h2(2) cr(4))
    then show ?thesis using o(9) that by simp
  qed
  ultimately have "nodes_ok h5 hdr L (A @ x # B)"
    using o ht5 key dom xd unfolding nodes_ok_def by auto
  then show ?thesis using h2(1) h3(1) h4(1) s f_def h5(1) dom key by blast
qed


text \<open>Searching for a key splits the nodes at it.\<close>

lemma search_nodes:
  assumes ok: "nodes_ok h hdr L (A @ B)" and c: "cut go h (hdr # A) B"
  shows "\<exists>ur. zsl_search go h L hdr 0 = Some ur \<and> length ur = L \<and> (\<forall>i < L. upd_at (height h) (hdr # A) i (ur ! i))"
  using search_ok [of h L "hdr # A" B go L "[]" hdr A] c nodes_okD [OF ok] by simp

lemma before_mono: "zless p q \<Longrightarrow> zless q k \<Longrightarrow> zless p k"
  by (rule zless_trans)

lemma node_before_key: "zn_ele n = Some e \<Longrightarrow> node_before score ele n r = Some (zless (zn_score n, e) (score, ele))"
  by (simp add: node_before_def zless_def)

text \<open>Insertion into a sorted list of keys.\<close>

definition zins :: "'d::linorder \<times> sds \<Rightarrow> ('d \<times> sds) list \<Rightarrow> ('d \<times> sds) list" where
  "zins k ks = takeWhile (\<lambda>p. zless p k) ks @ k # dropWhile (\<lambda>p. zless p k) ks"

lemma zins_sorted:
  assumes "sorted_wrt zless (ks1 @ ks2)" "\<forall>p \<in> set ks1. zless p k" "\<forall>p \<in> set ks2. \<not> zless p k" "k \<notin> set ks2"
  shows "zins k (ks1 @ ks2) = ks1 @ k # ks2" "sorted_wrt zless (ks1 @ k # ks2)"
proof -
  have g: "zless k p" if "p \<in> set ks2" for p using zless_linear [of k p] assms(3,4) that by auto
  have "takeWhile (\<lambda>p. zless p k) ks2 = []" "dropWhile (\<lambda>p. zless p k) ks2 = ks2" using assms(3) by (cases ks2; simp)+
  then show "zins k (ks1 @ ks2) = ks1 @ k # ks2" using assms(2) by (simp add: zins_def takeWhile_append2 dropWhile_append2)
  show "sorted_wrt zless (ks1 @ k # ks2)" using assms g by (auto simp: sorted_wrt_append)
qed

lemma length_zins [simp]: "length (zins k ks) = Suc (length ks)"
proof -
  have "length ks = length (takeWhile (\<lambda>p. zless p k) ks @ dropWhile (\<lambda>p. zless p k) ks)" by simp
  then show ?thesis unfolding zins_def length_append list.size by linarith
qed

lemma zkeys_cong: "(\<And>a. a \<in> set ns \<Longrightarrow> nkey h' a = nkey h a) \<Longrightarrow> map (zkey h') ns = map (zkey h) ns"
  by (auto intro: zkey_cong)

lemma zslInsert_ok:
  assumes inv: "zsl_inv zsl ns" and new: "(score, ele) \<notin> set (zsl_keys zsl ns)" and lv: "0 < lv" "lv \<le> ZSKIPLIST_MAXLEVEL"
    and al: "alloc_ok zmalloc"
  shows "\<exists>zsl' x ns1 ns2. zslInsert zmalloc zsl score ele lv = Some (zsl', x) \<and> ns = ns1 @ ns2 \<and> zsl_inv zsl' (ns1 @ x # ns2) \<and>
    zsl_keys zsl' (ns1 @ x # ns2) = zins (score, ele) (zsl_keys zsl ns) \<and> zsl_header zsl' = zsl_header zsl \<and>
    x \<notin> dom (zsl_nodes zsl) \<and> dom (zsl_nodes zsl') = insert x (dom (zsl_nodes zsl)) \<and>
    nkey (zsl_nodes zsl') = (nkey (zsl_nodes zsl))(x \<mapsto> (score, Some ele))"
proof -
  let ?h = "zsl_nodes zsl" and ?hdr = "zsl_header zsl" and ?L = "zsl_level zsl" and ?k = "(score, ele)"
  define top where "top = max ?L lv"
  have ok: "nodes_ok ?h ?hdr ?L ns" and so: "sorted_wrt zless (map (zkey ?h) ns)" and len: "zsl_length zsl = of_nat (length ns)"
    using inv by (auto simp: zsl_inv_def zsl_keys_def)
  obtain A B where ab: "ns = A @ B" "\<forall>a \<in> set A. node_ok ?h ?L a \<and> zless (zkey ?h a) ?k"
    "\<forall>a \<in> set B. node_ok ?h ?L a \<and> \<not> zless (zkey ?h a) ?k"
    by (rule split_nodes [OF ok before_mono [where k = ?k] so])
  have "cut (node_before score ele) ?h (?hdr # A) B" by (rule cut_keys [OF ab(2,3) node_before_key])
  from search_nodes [OF ok [unfolded ab(1)] this] obtain ur where ur: "zsl_search (node_before score ele) ?h ?L ?hdr 0 = Some ur"
    "length ur = ?L" "\<forall>i < ?L. upd_at (height ?h) (?hdr # A) i (ur ! i)" by blast
  have top: "?L \<le> top" "lv \<le> top" "top \<le> ZSKIPLIST_MAXLEVEL" using lv nodes_okD(5) [OF ok] by (auto simp: top_def)
  define ur' where "ur' = ur @ replicate (top - ?L) (?hdr, 0)"
  obtain h0 where h0: "raise_levels ?h ?hdr (of_nat (length ns)) [?L..<top] = Some h0" "nodes_ok h0 ?hdr top ns"
    "height h0 = height ?h" "nkey h0 = nkey ?h" "nback h0 = nback ?h" "dom h0 = dom ?h"
    using raise_ok [OF ok top(1,3)] by blast
  have u: "length ur' = top" "\<forall>i < top. upd_at (height h0) (?hdr # A) i (ur' ! i)"
  proof -
    show "length ur' = top" using ur(2) top(1) by (simp add: ur'_def)
    have "upd_at (height ?h) (?hdr # A) i (ur' ! i)" if "i < top" for i
    proof (cases "i < ?L")
      case True
      then show ?thesis using ur(2,3) by (simp add: ur'_def nth_append)
    next
      case False
      then have "ur' ! i = (?hdr, 0)" using ur(2) that by (simp add: ur'_def nth_append)
      then show ?thesis using upd_at_header [OF ok [unfolded ab(1)], of i] False that top(3) by simp
    qed
    then show "\<forall>i < top. upd_at (height h0) (?hdr # A) i (ur' ! i)" using h0(3) by simp
  qed
  have raise: "(if lv > ?L then do {
            h \<leftarrow> raise_levels ?h ?hdr (zsl_length zsl) [?L..<lv];
            Some (h, ur @ replicate (lv - ?L) (?hdr, 0), lv)
          }
          else Some (?h, ur, ?L)) = Some (h0, ur', top)"
    using h0(1) len by (auto simp: top_def ur'_def max_def)
  obtain h1 x where c: "zslCreateNode zmalloc h0 lv score (Some ele) = (h1, x)" by (cases "zslCreateNode zmalloc h0 lv score (Some ele)")
  have x: "x \<notin> dom h0" using al create_node_ok(1) [OF c] nodes_okD(1) [OF h0(2)] by (simp add: alloc_ok_def)
  obtain h2 h3 h4 f s h5 where r: "link_levels h1 x ur' [0..<lv] = Some h2" "bump_levels h2 ur' [lv..<top] = Some h3"
    "set_backward h3 x (if fst (ur' ! 0) = ?hdr then None else Some (fst (ur' ! 0))) = Some h4" "get_level h4 x 0 = Some (f, s)"
    "f = (if B = [] then None else Some (hd B))"
    "(case f of None \<Rightarrow> Some h4 | Some f \<Rightarrow> set_backward h4 f (Some x)) = Some h5"
    "nodes_ok h5 ?hdr top (A @ x # B)" "dom h5 = insert x (dom h0)" "nkey h5 = (nkey h0)(x \<mapsto> (score, Some ele))"
    using insert_nodes [OF h0(2) [unfolded ab(1)] u lv(1) top(2) x c] by blast
  let ?zsl = "zsl\<lparr>zsl_nodes := h5, zsl_tail := (if B = [] then Some x else zsl_tail zsl), zsl_level := top, zsl_length := zsl_length zsl + 1\<rparr>"
  have m0: "mem_get ur' 0 = Some (ur' ! 0)" using u(1) lv top(2) by auto
  have "zslInsert zmalloc zsl score ele lv = Some (?zsl, x)"
    unfolding zslInsert_def Let_def ur(1) bind.bind_lunit raise
    using c r(1-6) m0 by (auto simp: case_prod_beta split: if_splits)
  moreover have xs: "x \<notin> set ns" using x nodes_dom [OF h0(2)] by auto
  have old: "map (zkey h5) T = map (zkey ?h) T" if "set T \<subseteq> set ns" for T
    by (rule zkeys_cong) (use that xs r(9) h0(4) in auto)
  have kx: "zkey h5 x = ?k" by (simp add: zkey_def r(9))
  have so2: "sorted_wrt zless (map (zkey ?h) A @ map (zkey ?h) B)" using so ab(1) by simp
  note z = zins_sorted [OF so2, of ?k]
  have kB: "?k \<notin> set (map (zkey ?h) B)" using new ab(1) by (auto simp: zsl_keys_def)
  have keys: "map (zkey h5) (A @ x # B) = map (zkey ?h) A @ ?k # map (zkey ?h) B" using old [of A] old [of B] kx ab(1) by simp
  have "zins ?k (map (zkey ?h) ns) = map (zkey ?h) A @ ?k # map (zkey ?h) B" using z(1) ab kB by auto
  then have "zsl_keys ?zsl (A @ x # B) = zins ?k (zsl_keys zsl ns)" using keys by (simp add: zsl_keys_def)
  moreover have "sorted_wrt zless (map (zkey h5) (A @ x # B))" unfolding keys by (rule z(2)) (use ab kB in auto)
  then have "zsl_inv ?zsl (A @ x # B)"
    using r(7) inv ab(1) by (auto simp: zsl_inv_def zsl_keys_def)
  ultimately show ?thesis using ab(1) x h0(6) r(8,9) h0(4) by (intro exI [of _ ?zsl] exI [of _ x] exI [of _ A] exI [of _ B]) simp
qed

section \<open>Deletion\<close>

lemma unlink_levels_ok:
  assumes "distinct is" "\<forall>i \<in> set is. i < length ur \<and> fst (ur ! i) \<noteq> x \<and> i < height h (fst (ur ! i)) \<and>
      (\<forall>s. get_level h (fst (ur ! i)) i = Some (Some x, s) \<longrightarrow> i < height h x)"
  shows "\<exists>h'. unlink_levels h x ur is = Some h' \<and>
    get_level h' = (\<lambda>b j. if j \<in> set is \<and> b = fst (ur ! j)
                          then (let (f, s) = the (get_level h b j)
                                in if f = Some x then (let (xf, xs) = the (get_level h x j) in Some (xf, s + (xs - 1)))
                                   else Some (f, s - 1))
                          else get_level h b j) \<and>
    height h' = height h \<and> nkey h' = nkey h \<and> nback h' = nback h \<and> dom h' = dom h"
  using assms
proof (induction "is" arbitrary: h)
  case (Cons i "is")
  let ?u = "fst (ur ! i)"
  have i: "i < length ur" "?u \<noteq> x" "i < height h ?u" using Cons.prems(2) by auto
  obtain f s where fs: "get_level h ?u i = Some (f, s)" using get_level_iff [of h ?u i] i(3) by (metis not_None_eq surj_pair)
  define l where "l = (if f = Some x then (fst (the (get_level h x i)), s + (snd (the (get_level h x i)) - 1)) else (f, s - 1))"
  have xl: "\<exists>p. get_level h x i = Some p" if "f = Some x"
    using Cons.prems(2) fs that get_level_iff [of h x i] by auto
  obtain h1 where h1: "set_level h ?u i l = Some h1"
    "get_level h1 = (\<lambda>b j. if b = ?u \<and> j = i then Some l else get_level h b j)"
    "height h1 = height h" "nkey h1 = nkey h" "nback h1 = nback h" "dom h1 = dom h"
    using set_level_ok [OF i(3), of l] by blast
  have ni: "i \<notin> set is" using Cons.prems(1) by simp
  then have "\<forall>i \<in> set is. i < length ur \<and> fst (ur ! i) \<noteq> x \<and> i < height h1 (fst (ur ! i)) \<and>
      (\<forall>s. get_level h1 (fst (ur ! i)) i = Some (Some x, s) \<longrightarrow> i < height h1 x)"
    using Cons.prems(2) h1(2,3) by auto
  then obtain h' where h': "unlink_levels h1 x ur is = Some h'"
    "get_level h' = (\<lambda>b j. if j \<in> set is \<and> b = fst (ur ! j)
                          then (let (f, s) = the (get_level h1 b j)
                                in if f = Some x then (let (xf, xs) = the (get_level h1 x j) in Some (xf, s + (xs - 1)))
                                   else Some (f, s - 1))
                          else get_level h1 b j)"
    "height h' = height h1" "nkey h' = nkey h1" "nback h' = nback h1" "dom h' = dom h1"
    using Cons.IH [of h1] Cons.prems(1) by auto
  have run: "unlink_levels h x ur (i # is) = Some h'"
    using i(1) fs h1(1) h'(1) xl by (auto simp: case_prod_beta l_def)
  have "get_level h' = (\<lambda>b j. if j \<in> set (i # is) \<and> b = fst (ur ! j)
                          then (let (f, s) = the (get_level h b j)
                                in if f = Some x then (let (xf, xs) = the (get_level h x j) in Some (xf, s + (xs - 1)))
                                   else Some (f, s - 1))
                          else get_level h b j)"
    using fs ni i(2) by (auto simp: h'(2) h1(2) l_def fun_eq_iff case_prod_beta)
  then show ?case using run h' h1 by simp
qed (auto simp: fun_eq_iff)

text \<open>The links after \<open>x\<close> was taken out between \<open>Q\<close> and \<open>R\<close>.\<close>

lemma delete_links:
  assumes lk: "links h L (Q @ x # R)" and d: "distinct (Q @ x # R)"
    and u: "\<forall>i < L. upd_at (height h) Q i (ur ! i)" and ht: "height h' = height h"
    and gl: "\<And>b j. j < L \<Longrightarrow> get_level h' b j =
      (if b = fst (ur ! j)
       then (let (f, s) = the (get_level h b j)
             in if f = Some x then (let (xf, xs) = the (get_level h x j) in Some (xf, s + (xs - 1))) else Some (f, s - 1))
       else get_level h b j)"
  shows "links h' L (Q @ R)"
  unfolding links_def
proof (intro allI impI)
  fix A a B i assume eq: "Q @ R = A @ a # B" and i: "i < L" "i < height h' a"
  obtain A' M where q: "Q = A' @ fst (ur ! i) # M" "i < height h (fst (ur ! i))" "\<forall>b \<in> set M. height h b \<le> i"
    using u i(1) by (auto simp: upd_at_def)
  have xR: "fst (nxt (height h) i R) \<noteq> Some x" using nxt_fst_in [of "height h" i R x] d by auto
  have ul: "get_level h (fst (ur ! i)) i = Some (link_to (height h) i (M @ x # R))"
    using linksD [of h L A' "fst (ur ! i)" "M @ x # R" i] lk q(1,2) i(1) by simp
  have sk: "nxt (height h) i (M @ T) = (fst (nxt (height h) i T), length M + snd (nxt (height h) i T))" for T
    by (rule nxt_skip [OF q(3)])
  consider (left) M' where "Q = A @ a # M'" "B = M' @ R" | (right) A2 where "A = Q @ A2" "R = A2 @ a # B"
    using eq by (auto simp: append_eq_append_conv2 Cons_eq_append_conv append_eq_Cons_conv)
  then show "get_level h' a i = Some (link_to (height h') i B)"
  proof cases
    case left
    have ia: "i < height h a" using i(2) ht by simp
    show ?thesis
    proof (cases "a = fst (ur ! i)")
      case True
      have m: "M' = M" using left(1) q(1) True d by (auto simp: append_eq_append_conv2 Cons_eq_append_conv append_eq_Cons_conv)
      have xl: "get_level h x i = Some (link_to (height h) i R)" if "i < height h x"
        using linksD [of h L Q x R i] lk i(1) that by simp
      show ?thesis using gl [OF i(1), of a] True ul sk [of "x # R"] sk [of R] xl xR left(2) m ht
        by (cases "i < height h x") (simp_all add: link_to_def)
    next
      case False
      have dQ: "distinct Q" using d by simp
      obtain b where b: "b \<in> set M'" "i < height h b"
        using upd_at_not [OF u [rule_format, OF i(1)] left(1) dQ False ia] by blast
      have "nxt (height h) i (M' @ R) = nxt (height h) i M'" "nxt (height h) i (M' @ x # R) = nxt (height h) i M'"
        by (rule nxt_hit; rule b)+
      moreover have "get_level h a i = Some (link_to (height h) i (M' @ x # R))"
        using linksD [of h L A a "M' @ x # R" i] lk left(1) i(1) ia by simp
      ultimately show ?thesis using gl [OF i(1), of a] False left(2) ht by (simp add: link_to_def)
    qed
  next
    case right
    have "a \<noteq> fst (ur ! i)" using right d q(1) by auto
    moreover have "get_level h a i = Some (link_to (height h) i B)"
      using linksD [of h L "Q @ x # A2" a B i] lk right(2) i ht by simp
    ultimately show ?thesis using gl [OF i(1), of a] ht by simp
  qed
qed

lemma back_ok_delete:
  assumes "back_ok h (Q @ x # R)" "distinct (Q @ x # R)" "Q \<noteq> []"
    "R \<noteq> [] \<Longrightarrow> nback h' (hd R) = Some (if length Q = 1 then None else Some (last Q))"
    "\<And>b. R = [] \<or> b \<noteq> hd R \<Longrightarrow> nback h' b = nback h b"
  shows "back_ok h' (Q @ R)"
  unfolding back_ok_def
proof (intro allI impI)
  fix A a b B assume eq: "Q @ R = A @ a # b # B"
  consider (left) M where "Q = A @ a # b # M" "B = M @ R" | (mid) "Q = A @ [a]" "R = b # B" | (right) A2 where "A = Q @ A2" "R = A2 @ a # b # B"
    using eq by (auto simp: append_eq_append_conv2 Cons_eq_append_conv append_eq_Cons_conv)
  then show "nback h' b = Some (if A = [] then None else Some a)"
  proof cases
    case left
    then have "Q @ x # R = A @ a # b # (M @ x # R)" by simp
    then have "nback h b = Some (if A = [] then None else Some a)" using assms(1) unfolding back_ok_def by blast
    moreover have "R = [] \<or> b \<noteq> hd R" using left assms(2) by (auto simp: neq_Nil_conv)
    ultimately show ?thesis using assms(5) by simp
  next
    case mid
    then show ?thesis using assms(4) by (cases A) auto
  next
    case right
    then have "Q @ x # R = (Q @ x # A2) @ a # b # B" by simp
    then have "nback h b = Some (if Q @ x # A2 = [] then None else Some a)" using assms(1) unfolding back_ok_def by blast
    moreover have "b \<noteq> hd R" using right assms(2) by (cases A2; auto)
    ultimately show ?thesis using assms(3,5) right by simp
  qed
qed

lemma lower_level_ok:
  assumes "0 < l" "\<And>i. i < l \<Longrightarrow> get_level h hdr i \<noteq> None"
  shows "\<exists>l'. lower_level h hdr l = Some l' \<and> 0 < l' \<and> l' \<le> l \<and>
    (\<forall>i. l' \<le> i \<longrightarrow> i < l \<longrightarrow> (\<exists>s. get_level h hdr i = Some (None, s)))"
  using assms
proof (induction h hdr l rule: lower_level.induct)
  case (1 h hdr l)
  obtain f s where g: "get_level h hdr (Suc l) = Some (f, s)" using "1.prems"(2) [of "Suc l"] by auto
  show ?case
  proof (cases f)
    case None
    obtain l' where l': "lower_level h hdr (Suc l) = Some l'" "0 < l'" "l' \<le> Suc l"
      "\<forall>i. l' \<le> i \<longrightarrow> i < Suc l \<longrightarrow> (\<exists>s. get_level h hdr i = Some (None, s))"
      using "1.IH" [OF g refl None] "1.prems" by auto
    then show ?thesis using g None by (auto simp: less_Suc_eq)
  next
    case (Some y)
    then show ?thesis using g by auto
  qed
qed auto

lemma nodes_lower:
  assumes ok: "nodes_ok h hdr L ns" and l: "0 < L'" "L' \<le> L"
    and top: "\<forall>i. L' \<le> i \<longrightarrow> i < L \<longrightarrow> (\<exists>s. get_level h hdr i = Some (None, s))"
  shows "nodes_ok h hdr L' ns"
proof -
  note o = nodes_okD [OF ok]
  have "height h a \<le> L'" if a: "a \<in> set ns" for a
  proof (rule ccontr)
    assume "\<not> height h a \<le> L'"
    then have h: "L' < height h a" "L' < L" using o(6) a by (auto simp: node_ok_def)
    have "get_level h hdr L' = Some (link_to (height h) L' ns)"
      using linksD [of h L "[]" hdr ns L'] o(3,5,7) h(2) by simp
    then have "fst (nxt (height h) L' ns) = None" using top h(2) by (auto simp: link_to_def)
    then show False using h(1) a by (cases rule: nxt_cases [of ns "height h" L']) auto
  qed
  then have "\<forall>a \<in> set ns. node_ok h L' a" using o(6) by (auto simp: node_ok_def)
  moreover have "links h L' (hdr # ns)" using o(7) l(2) by (auto simp: links_def)
  moreover have "\<exists>s. get_level h hdr i = Some (None, s)" if "L' \<le> i" "i < ZSKIPLIST_MAXLEVEL" for i
    using top o(9) that by (cases "i < L") auto
  ultimately show ?thesis using ok l by (auto simp: nodes_ok_def)
qed

lemma upd_at_mono: "\<forall>i < L. upd_at ht Q i (ur ! i) \<Longrightarrow> L' \<le> L \<Longrightarrow> \<forall>i < L'. upd_at ht Q i (ur ! i)"
  by auto

lemma delete_nodes:
  assumes ok: "nodes_ok h hdr L (A @ x # B)" and u: "L \<le> length ur" "\<forall>i < L. upd_at (height h) (hdr # A) i (ur ! i)"
  shows "\<exists>h1 n s h2 L'. unlink_levels h x ur [0..<L] = Some h1 \<and> h1 x = Some n \<and>
    zn_backward n = (if A = [] then None else Some (last A)) \<and> get_level h1 x 0 = Some (if B = [] then None else Some (hd B), s) \<and>
    (case (if B = [] then None else Some (hd B)) of None \<Rightarrow> Some h1 | Some f \<Rightarrow> set_backward h1 f (zn_backward n)) = Some h2 \<and>
    lower_level h2 hdr L = Some L' \<and> nodes_ok h2 hdr L' (A @ B) \<and> L' \<le> L \<and>
    height h2 = height h \<and> nkey h2 = nkey h \<and> dom h2 = dom h"
proof -
  note o = nodes_okD [OF ok]
  let ?Q = "hdr # A"
  have dis: "distinct (?Q @ x # B)" and lk: "links h L (?Q @ x # B)" using o(2,7) by simp_all
  have xok: "node_ok h L x" and Lp: "0 < L" using o(4,6) by auto
  have uin: "fst (ur ! i) \<in> set ?Q" "i < height h (fst (ur ! i))" "fst (ur ! i) \<noteq> x" if "i < L" for i
    using upd_at_in [of "height h" ?Q i "ur ! i"] u(2) that dis by auto
  have fx: "i < height h x" if iL: "i < L" and g: "get_level h (fst (ur ! i)) i = Some (Some x, s)" for i s
  proof -
    obtain A' B' where s: "?Q @ x # B = A' @ fst (ur ! i) # B'" using split_list [of "fst (ur ! i)" "?Q @ x # B"] uin(1) [OF iL] by auto
    have "get_level h (fst (ur ! i)) i = Some (link_to (height h) i B')" using lk uin(2) iL s unfolding links_def by blast
    then show ?thesis using g nxt_fst_in [of "height h" i B' x] by (auto simp: link_to_def)
  qed
  have "\<forall>i \<in> set [0..<L]. i < length ur \<and> fst (ur ! i) \<noteq> x \<and> i < height h (fst (ur ! i)) \<and>
      (\<forall>s. get_level h (fst (ur ! i)) i = Some (Some x, s) \<longrightarrow> i < height h x)"
    using uin u(1) fx by auto
  from unlink_levels_ok [OF distinct_upt this] obtain h1 where h1: "unlink_levels h x ur [0..<L] = Some h1"
    "get_level h1 = (\<lambda>b j. if j \<in> set [0..<L] \<and> b = fst (ur ! j)
                          then (let (f, s) = the (get_level h b j)
                                in if f = Some x then (let (xf, xs) = the (get_level h x j) in Some (xf, s + (xs - 1)))
                                   else Some (f, s - 1))
                          else get_level h b j)"
    "height h1 = height h" "nkey h1 = nkey h" "nback h1 = nback h" "dom h1 = dom h" by blast
  have lk1: "links h1 L (?Q @ B)"
    by (rule delete_links [OF lk dis u(2) h1(3)]) (simp add: h1(2))
  have xb: "nback h x = Some (if A = [] then None else Some (last A))"
  proof (cases A rule: rev_cases)
    case Nil
    then show ?thesis using o(8) unfolding back_ok_def by fastforce
  next
    case (snoc A' a)
    then have "hdr # A @ x # B = (hdr # A') @ a # x # B" by simp
    then show ?thesis using o(8) snoc unfolding back_ok_def by fastforce
  qed
  then have "map_option zn_backward (h1 x) = Some (if A = [] then None else Some (last A))"
    using h1(5) unfolding nback_def [symmetric] by simp
  then obtain n where n: "h1 x = Some n" "zn_backward n = (if A = [] then None else Some (last A))"
    unfolding map_option_eq_Some by blast
  define f where "f = (if B = [] then None else Some (hd B))"
  have pos: "\<forall>b \<in> set B. 0 < height h b" using nodes_heights [OF ok] by simp
  have "fst (link_to (height h) 0 B) = f" using pos by (cases B) (auto simp: f_def link_to_def)
  then obtain s where "link_to (height h) 0 B = (f, s)" by (cases "link_to (height h) 0 B") simp
  then have s: "get_level h x 0 = Some (f, s)" using linksD [of h L ?Q x B 0] lk Lp xok by (simp add: node_ok_def)
  have s1: "get_level h1 x 0 = Some (f, s)" using s uin(3) [OF Lp] by (simp add: h1(2))
  obtain h2 where h2: "(case f of None \<Rightarrow> Some h1 | Some f \<Rightarrow> set_backward h1 f (zn_backward n)) = Some h2"
    "nback h2 = (if B = [] then nback h1 else (nback h1)(hd B \<mapsto> zn_backward n))"
    "get_level h2 = get_level h1" "height h2 = height h1" "nkey h2 = nkey h1" "dom h2 = dom h1"
  proof (cases B)
    case Nil
    then show thesis using that [of h1] by (simp add: f_def)
  next
    case (Cons b B')
    then have "b \<in> dom h1" using nodes_dom [OF ok] h1(6) by auto
    from set_backward_ok [OF this, of "zn_backward n"] Cons show thesis using that by (auto simp: f_def)
  qed
  have bk: "back_ok h2 (?Q @ B)"
    using dis o(8) n(2) by (intro back_ok_delete [of h ?Q x B h2]) (auto simp: h2(2) h1(5))
  have hl: "get_level h2 hdr i = get_level h hdr i" if "L \<le> i" for i using that by (simp add: h2(3) h1(2))
  have lk2: "links h2 L (?Q @ B)" using lk1 h2(3,4) by (simp add: links_def)
  have ok2: "nodes_ok h2 hdr L (A @ B)"
    using o bk lk2 dis hl h2(4-6) h1(3,4,6) unfolding nodes_ok_def by (auto simp: node_ok_def)
  have "get_level h2 hdr i \<noteq> None" if "i < L" for i
    using that o(3,5) h2(4) h1(3) get_level_iff [of h2 hdr i] by simp
  from lower_level_ok [OF Lp this] obtain L' where L': "lower_level h2 hdr L = Some L'" "0 < L'" "L' \<le> L"
    "\<forall>i. L' \<le> i \<longrightarrow> i < L \<longrightarrow> (\<exists>s. get_level h2 hdr i = Some (None, s))" by blast
  have "nodes_ok h2 hdr L' (A @ B)" by (rule nodes_lower [OF ok2 L'(2-4)])
  then show ?thesis using h1(1) n s1 h2(1) L'(1,3) h2(4-6) h1(3,4,6) by (auto simp: f_def)
qed

lemma sorted_remove: "sorted_wrt zless (ks1 @ k # ks2) \<Longrightarrow> sorted_wrt zless (ks1 @ ks2)"
  by (auto simp: sorted_wrt_append)

lemma zslDeleteNode_ok:
  assumes inv: "zsl_inv zsl (A @ x # B)" and u: "zsl_level zsl \<le> length ur"
    "\<forall>i < zsl_level zsl. upd_at (height (zsl_nodes zsl)) (zsl_header zsl # A) i (ur ! i)"
  shows "\<exists>zsl'. zslDeleteNode zsl x ur = Some zsl' \<and> zsl_inv zsl' (A @ B) \<and> zsl_header zsl' = zsl_header zsl \<and>
    zsl_level zsl' \<le> zsl_level zsl \<and> height (zsl_nodes zsl') = height (zsl_nodes zsl) \<and>
    nkey (zsl_nodes zsl') = nkey (zsl_nodes zsl) \<and> dom (zsl_nodes zsl') = dom (zsl_nodes zsl)"
proof -
  let ?h = "zsl_nodes zsl" and ?hdr = "zsl_header zsl" and ?L = "zsl_level zsl"
  have ok: "nodes_ok ?h ?hdr ?L (A @ x # B)" using inv by (simp add: zsl_inv_def)
  obtain h1 n s h2 L' where r: "unlink_levels ?h x ur [0..<?L] = Some h1" "h1 x = Some n"
    "zn_backward n = (if A = [] then None else Some (last A))" "get_level h1 x 0 = Some (if B = [] then None else Some (hd B), s)"
    "(case (if B = [] then None else Some (hd B)) of None \<Rightarrow> Some h1 | Some f \<Rightarrow> set_backward h1 f (zn_backward n)) = Some h2"
    "lower_level h2 ?hdr ?L = Some L'" "nodes_ok h2 ?hdr L' (A @ B)" "L' \<le> ?L" "height h2 = height ?h" "nkey h2 = nkey ?h" "dom h2 = dom ?h"
    using delete_nodes [OF ok u] by blast
  let ?zsl = "zsl\<lparr>zsl_nodes := h2, zsl_tail := (if B = [] then zn_backward n else zsl_tail zsl), zsl_level := L', zsl_length := zsl_length zsl - 1\<rparr>"
  have "zslDeleteNode zsl x ur = Some ?zsl"
    using r(1-6) by (auto simp: zslDeleteNode_def split: if_splits)
  moreover have zk: "zkey h2 = zkey ?h" by (simp add: zkey_def r(10) fun_eq_iff)
  have "sorted_wrt zless (map (zkey ?h) (A @ B))"
    using inv sorted_remove [of "map (zkey ?h) A" "zkey ?h x" "map (zkey ?h) B"] by (simp add: zsl_inv_def zsl_keys_def)
  then have "zsl_inv ?zsl (A @ B)"
    using inv r(3,7) zk by (simp add: zsl_inv_def zsl_keys_def)
  ultimately show ?thesis using r(8-11) by simp
qed

text \<open>Freeing a node that is not linked.\<close>

lemma free_node_ok:
  assumes inv: "zsl_inv zsl ns" and x: "x \<in> dom (zsl_nodes zsl)" "x \<notin> set (zsl_header zsl # ns)"
  shows "\<exists>h. zslFreeNode (zsl_nodes zsl) x = Some h \<and> zsl_inv (zsl\<lparr>zsl_nodes := h\<rparr>) ns \<and> dom h = dom (zsl_nodes zsl) - {x} \<and>
    nkey h = (nkey (zsl_nodes zsl))(x := None)"
proof -
  let ?h = "zsl_nodes zsl" and ?h' = "(zsl_nodes zsl)(x := None)" and ?hdr = "zsl_header zsl"
  have ok: "nodes_ok ?h ?hdr (zsl_level zsl) ns" using inv by (simp add: zsl_inv_def)
  have o: "height ?h' a = height ?h a" "nkey ?h' a = nkey ?h a" "nback ?h' a = nback ?h a" "get_level ?h' a = get_level ?h a" if "a \<noteq> x" for a
    using that by (auto simp: height_def nkey_def nback_def get_level_def fun_eq_iff)
  have l: "links ?h' (zsl_level zsl) (?hdr # ns)"
    unfolding links_def
  proof (intro allI impI)
    fix A a B i assume eq: "?hdr # ns = A @ a # B" and i: "i < zsl_level zsl" "i < height ?h' a"
    have ax: "a \<noteq> x" "x \<notin> set B" using x(2) eq by (metis in_set_conv_decomp) (use x(2) eq in \<open>metis Un_iff list.set_intros(2) set_append\<close>)
    have "nxt (height ?h') i B = nxt (height ?h) i B" by (rule nxt_cong) (use ax o(1) in metis)
    then show "get_level ?h' a i = Some (link_to (height ?h') i B)"
      using nodes_okD(7) [OF ok] eq i ax o unfolding links_def link_to_def by metis
  qed
  have b: "back_ok ?h' (?hdr # ns)"
    unfolding back_ok_def
  proof (intro allI impI)
    fix A a b B assume eq: "?hdr # ns = A @ a # b # B"
    then have "b \<noteq> x" using x(2) by auto
    then show "nback ?h' b = Some (if A = [] then None else Some a)"
      using nodes_okD(8) [OF ok] eq o(3) unfolding back_ok_def by metis
  qed
  have k: "map (zkey ?h') ns = map (zkey ?h) ns" by (rule zkeys_cong, rule o(2)) (use x(2) in auto)
  have nd: "node_ok ?h' (zsl_level zsl) a" if "a \<in> set ns" for a
  proof -
    have "a \<noteq> x" using x(2) that by auto
    then show ?thesis using nodes_okD(6) [OF ok] that o unfolding node_ok_def by metis
  qed
  have hx: "?hdr \<noteq> x" using x(2) by auto
  have "nodes_ok ?h' ?hdr (zsl_level zsl) ns"
    using ok l b nd o [OF hx] unfolding nodes_ok_def by auto
  moreover have "sorted_wrt zless (map (zkey ?h') ns)" unfolding k using inv by (simp add: zsl_inv_def zsl_keys_def)
  ultimately have "zsl_inv (zsl\<lparr>zsl_nodes := ?h'\<rparr>) ns" using inv by (simp add: zsl_inv_def zsl_keys_def)
  moreover have "zslFreeNode ?h x = Some ?h'" using x(1) by (auto simp: zslFreeNode_def)
  moreover have "nkey ?h' = (nkey ?h)(x := None)" by (auto simp: nkey_def fun_eq_iff)
  ultimately show ?thesis by auto
qed

end
