(* ===== verification/Skiplist_Ops.thy ===== *)
theory Skiplist_Ops
  imports Skiplist_Proofs
begin

text \<open>
  The operations of the skip list against the sorted list of keys that \<open>Skiplist_Proofs\<close> relates to it: deletion of a
  key, change of a score, release of the list, ranks in both directions, and the first and last node of a range of
  scores.
\<close>

section \<open>Deletion of a key\<close>

text \<open>The node after the end of a search.\<close>

lemma search_next:
  assumes ok: "nodes_ok (zsl_nodes zsl) (zsl_header zsl) (zsl_level zsl) (A @ B)"
    and u: "length ur = zsl_level zsl" "\<forall>i < zsl_level zsl. upd_at (height (zsl_nodes zsl)) (zsl_header zsl # A) i (ur ! i)"
  shows "search_end zsl ur = last (zsl_header zsl # A)"
    "\<exists>s. get_level (zsl_nodes zsl) (search_end zsl ur) 0 = Some (if B = [] then None else Some (hd B), s)"
proof -
  let ?h = "zsl_nodes zsl" and ?Q = "zsl_header zsl # A"
  note o = nodes_okD [OF ok]
  have pos: "\<forall>a \<in> set (?Q @ B). 0 < height ?h a" using nodes_heights [OF ok] by simp
  have "fst (ur ! 0) = last ?Q" using upd_at_0 [of "height ?h" ?Q "ur ! 0"] u(2) o(4) pos by auto
  moreover have "search_end zsl ur = fst (ur ! 0)" using u(1) o(4) by (cases ur) (auto simp: search_end_def)
  ultimately show e: "search_end zsl ur = last ?Q" by simp
  obtain Q l where q: "?Q = Q @ [l]" using rev_exhaust [of ?Q] by blast
  have lq: "0 < height ?h l" using pos unfolding q by simp
  have "(Q @ [l]) @ B = Q @ l # B" by simp
  then have "links ?h (zsl_level zsl) (Q @ l # B)" using o(7) unfolding append_Cons [symmetric] q by simp
  from linksD [OF this o(4) lq] have l: "get_level ?h l 0 = Some (link_to (height ?h) 0 B)" .
  obtain f s where fs: "link_to (height ?h) 0 B = (f, s)" by (cases "link_to (height ?h) 0 B")
  then have "f = (if B = [] then None else Some (hd B))"
    using pos by (cases B) (auto simp: link_to_def)
  moreover have "search_end zsl ur = l" unfolding e q by simp
  ultimately show "\<exists>s. get_level ?h (search_end zsl ur) 0 = Some (if B = [] then None else Some (hd B), s)"
    using l fs by simp
qed

text \<open>The search for a key in a skip list: the nodes before it, the others, and the result of the search.\<close>

lemma search_key:
  assumes inv: "zsl_inv zsl ns"
  obtains A B ur s where "ns = A @ B" "\<forall>a \<in> set A. node_ok (zsl_nodes zsl) (zsl_level zsl) a \<and> zless (zkey (zsl_nodes zsl) a) (score, ele)"
    "\<forall>b \<in> set B. node_ok (zsl_nodes zsl) (zsl_level zsl) b \<and> \<not> zless (zkey (zsl_nodes zsl) b) (score, ele)"
    "zsl_search (node_before score ele) (zsl_nodes zsl) (zsl_level zsl) (zsl_header zsl) 0 = Some ur" "length ur = zsl_level zsl"
    "\<forall>i < zsl_level zsl. upd_at (height (zsl_nodes zsl)) (zsl_header zsl # A) i (ur ! i)"
    "get_level (zsl_nodes zsl) (search_end zsl ur) 0 = Some (if B = [] then None else Some (hd B), s)"
proof -
  let ?h = "zsl_nodes zsl" and ?hdr = "zsl_header zsl" and ?L = "zsl_level zsl" and ?k = "(score, ele)"
  have ok: "nodes_ok ?h ?hdr ?L ns" and so: "sorted_wrt zless (map (zkey ?h) ns)"
    using inv by (auto simp: zsl_inv_def zsl_keys_def)
  obtain A B where ab: "ns = A @ B" "\<forall>a \<in> set A. node_ok ?h ?L a \<and> zless (zkey ?h a) ?k"
    "\<forall>a \<in> set B. node_ok ?h ?L a \<and> \<not> zless (zkey ?h a) ?k"
    by (rule split_nodes [OF ok before_mono [where k = ?k] so])
  have "cut (node_before score ele) ?h (?hdr # A) B" by (rule cut_keys [OF ab(2,3) node_before_key])
  from search_nodes [OF ok [unfolded ab(1)] this] obtain ur where ur: "zsl_search (node_before score ele) ?h ?L ?hdr 0 = Some ur"
    "length ur = ?L" "\<forall>i < ?L. upd_at (height ?h) (?hdr # A) i (ur ! i)" by blast
  from search_next(2) [OF ok [unfolded ab(1)] ur(2,3)] obtain s where
    "get_level ?h (search_end zsl ur) 0 = Some (if B = [] then None else Some (hd B), s)" by blast
  with ab ur show thesis by (rule that)
qed

text \<open>If the key is there, it is the first of the nodes that are not before it.\<close>

lemma key_at_head:
  assumes "sorted_wrt zless (map (zkey h) B)" "\<forall>b \<in> set B. \<not> zless (zkey h b) k" "k \<in> zkey h ` set B"
  obtains x B' where "B = x # B'" "zkey h x = k"
proof (cases B)
  case (Cons x B')
  have "zkey h x = k"
  proof (rule ccontr)
    assume n: "zkey h x \<noteq> k"
    then obtain b where "b \<in> set B'" "zkey h b = k" using assms(3) Cons by auto
    then have "zless (zkey h x) k" using assms(1) Cons by auto
    then show False using assms(2) Cons by simp
  qed
  then show thesis using that Cons by simp
qed (use assms(3) in simp)

lemma head_key:
  assumes "node_ok h L x"
  obtains n where "h x = Some n" "zn_ele n = Some (snd (zkey h x))" "score = zn_score n \<and> sdscmp (snd (zkey h x)) ele = 0 \<longleftrightarrow> zkey h x = (score, ele)"
proof (rule node_fields [OF assms])
  fix n assume n: "h x = Some n" "zn_ele n = Some (snd (zkey h x))" "zn_score n = fst (zkey h x)"
  have "score = zn_score n \<and> sdscmp (snd (zkey h x)) ele = 0 \<longleftrightarrow> zkey h x = (score, ele)"
    using n(3) by (auto simp: sdscmp_lex(2) prod_eq_iff)
  with n(1,2) show thesis by (rule that)
qed

lemma sorted_remove1:
  assumes "sorted_wrt zless (ks1 @ k # ks2)"
  shows "remove1 k (ks1 @ k # ks2) = ks1 @ ks2"
proof -
  have "k \<notin> set ks1" using assms zless_irrefl by (auto simp: sorted_wrt_append)
  then show ?thesis by (simp add: remove1_append)
qed

lemma zslDelete_found:
  assumes inv: "zsl_inv zsl ns" and k: "(score, ele) \<in> set (zsl_keys zsl ns)"
  shows "\<exists>zsl' x A B. zslDelete zsl score ele keep = Some (zsl', Some x) \<and> ns = A @ x # B \<and> zkey (zsl_nodes zsl) x = (score, ele) \<and>
    zsl_inv zsl' (A @ B) \<and> zsl_header zsl' = zsl_header zsl \<and> zsl_keys zsl' (A @ B) = remove1 (score, ele) (zsl_keys zsl ns) \<and>
    dom (zsl_nodes zsl') = dom (zsl_nodes zsl) - (if keep then {} else {x}) \<and>
    (\<forall>a. a \<noteq> x \<longrightarrow> nkey (zsl_nodes zsl') a = nkey (zsl_nodes zsl) a)"
proof (rule search_key [OF inv, of score ele])
  let ?h = "zsl_nodes zsl" and ?k = "(score, ele)"
  fix A B ur s assume ab: "ns = A @ B" "\<forall>a \<in> set A. node_ok ?h (zsl_level zsl) a \<and> zless (zkey ?h a) ?k"
    "\<forall>b \<in> set B. node_ok ?h (zsl_level zsl) b \<and> \<not> zless (zkey ?h b) ?k"
    and ur: "zsl_search (node_before score ele) ?h (zsl_level zsl) (zsl_header zsl) 0 = Some ur" "length ur = zsl_level zsl"
    "\<forall>i < zsl_level zsl. upd_at (height ?h) (zsl_header zsl # A) i (ur ! i)"
    and g: "get_level ?h (search_end zsl ur) 0 = Some (if B = [] then None else Some (hd B), s)"
  have so: "sorted_wrt zless (map (zkey ?h) ns)" and ok: "nodes_ok ?h (zsl_header zsl) (zsl_level zsl) ns"
    using inv by (simp_all add: zsl_inv_def zsl_keys_def)
  have "?k \<notin> zkey ?h ` set A" using ab(2) by (auto simp: image_iff)
  then have kB: "?k \<in> zkey ?h ` set B" using k ab(1) by (auto simp: zsl_keys_def)
  have soB: "sorted_wrt zless (map (zkey ?h) B)" using so ab(1) by (simp add: sorted_wrt_append)
  obtain x B' where x: "B = x # B'" "zkey ?h x = ?k" by (rule key_at_head [OF soB _ kB]) (use ab(3) in blast)
  have xok: "node_ok ?h (zsl_level zsl) x" using ab(3) x(1) by simp
  obtain n where n: "?h x = Some n" "zn_ele n = Some (snd (zkey ?h x))" "score = zn_score n \<and> sdscmp (snd (zkey ?h x)) ele = 0"
    using head_key [OF xok, of score ele] x(2) by blast
  obtain zsl1 where z1: "zslDeleteNode zsl x ur = Some zsl1" "zsl_inv zsl1 (A @ B')" "zsl_header zsl1 = zsl_header zsl"
    "nkey (zsl_nodes zsl1) = nkey ?h" "dom (zsl_nodes zsl1) = dom ?h"
    using zslDeleteNode_ok [of zsl A x B' ur] inv ab(1) x(1) ur(2,3) by auto
  have xd: "x \<in> dom (zsl_nodes zsl1)" "x \<notin> set (zsl_header zsl1 # A @ B')"
    using node_ok_dom [OF xok] z1(3,5) nodes_okD(2) [OF ok] ab(1) x(1) by auto
  have zk: "zkey (zsl_nodes zsl1) = zkey ?h" using z1(4) by (simp add: zkey_def fun_eq_iff)
  obtain h where h: "(if keep then Some (zsl_nodes zsl1) else zslFreeNode (zsl_nodes zsl1) x) = Some h" "zsl_inv (zsl1\<lparr>zsl_nodes := h\<rparr>) (A @ B')"
    "dom h = dom ?h - (if keep then {} else {x})" "\<forall>a. a \<noteq> x \<longrightarrow> nkey h a = nkey ?h a"
    using free_node_ok [OF z1(2) xd] z1(2,4,5) by (cases keep) auto
  have "zslDelete zsl score ele keep = Some (zsl1\<lparr>zsl_nodes := h\<rparr>, Some x)"
    using ur(1) g n z1(1) h(1) x(1) by (simp add: zslDelete_def)
  moreover have "map (zkey h) (A @ B') = map (zkey ?h) (A @ B')"
    by (rule zkeys_cong) (use h(4) xd(2) in auto)
  then have "zsl_keys (zsl1\<lparr>zsl_nodes := h\<rparr>) (A @ B') = remove1 ?k (zsl_keys zsl ns)"
    using sorted_remove1 [of "map (zkey ?h) A" ?k "map (zkey ?h) B'"] so ab(1) x by (simp add: zsl_keys_def)
  ultimately show ?thesis using ab(1) x h z1(3) by (intro exI [of _ "zsl1\<lparr>zsl_nodes := h\<rparr>"] exI [of _ x] exI [of _ A] exI [of _ B']) simp
qed

lemma zslDelete_absent:
  assumes inv: "zsl_inv zsl ns" and k: "(score, ele) \<notin> set (zsl_keys zsl ns)"
  shows "zslDelete zsl score ele keep = Some (zsl, None)"
proof (rule search_key [OF inv, of score ele])
  let ?h = "zsl_nodes zsl" and ?k = "(score, ele)"
  fix A B ur s assume ab: "ns = A @ B" "\<forall>b \<in> set B. node_ok ?h (zsl_level zsl) b \<and> \<not> zless (zkey ?h b) ?k"
    and ur: "zsl_search (node_before score ele) ?h (zsl_level zsl) (zsl_header zsl) 0 = Some ur"
    and g: "get_level ?h (search_end zsl ur) 0 = Some (if B = [] then None else Some (hd B), s)"
  show ?thesis
  proof (cases B)
    case Nil
    then show ?thesis using ur g by (simp add: zslDelete_def)
  next
    case (Cons x B')
    then have xok: "node_ok ?h (zsl_level zsl) x" and "zkey ?h x \<noteq> ?k" using ab k by (auto simp: zsl_keys_def)
    then obtain n where "?h x = Some n" "zn_ele n = Some (snd (zkey ?h x))" "\<not> (score = zn_score n \<and> sdscmp (snd (zkey ?h x)) ele = 0)"
      using head_key [OF xok, of score ele] by blast
    then show ?thesis using ur g Cons by (auto simp: zslDelete_def)
  qed
qed

section \<open>Changing a score\<close>

lemma zins_split:
  assumes "sorted_wrt zless (ks1 @ ks2)" "ks1 \<noteq> [] \<Longrightarrow> fst (last ks1) < fst k" "ks2 \<noteq> [] \<Longrightarrow> fst k < fst (hd ks2)"
  shows "zins k (ks1 @ ks2) = ks1 @ k # ks2" "sorted_wrt zless (ks1 @ k # ks2)"
proof -
  have le: "fst p \<le> fst q" if "zless p q" for p q :: "'a \<times> sds" using that by (auto simp: zless_def)
  have 1: "\<forall>p \<in> set ks1. zless p k"
  proof (cases ks1 rule: rev_cases)
    case (snoc ps p)
    then have "\<forall>q \<in> set ps. zless q p" "fst p < fst k" using assms(1,2) by (auto simp: sorted_wrt_append)
    then show ?thesis using snoc le by (auto simp: zless_def)
  qed simp
  have 2: "\<forall>p \<in> set ks2. zless k p"
  proof (cases ks2)
    case (Cons p ps)
    then have "\<forall>q \<in> set ps. zless p q" "fst k < fst p" using assms(1,3) by (auto simp: sorted_wrt_append)
    then show ?thesis using Cons le by (auto simp: zless_def)
  qed simp
  then have n: "\<forall>p \<in> set ks2. \<not> zless p k" "k \<notin> set ks2" using zless_asym zless_irrefl by blast+
  from zins_sorted [OF assms(1) 1 n] show "zins k (ks1 @ ks2) = ks1 @ k # ks2" "sorted_wrt zless (ks1 @ k # ks2)" .
qed

text \<open>Changing the score of a node in place.\<close>

lemma set_score_inv:
  assumes inv: "zsl_inv zsl (A @ x # B)" and n: "zsl_nodes zsl x = Some n"
    and so: "sorted_wrt zless (map (zkey (zsl_nodes zsl)) A @ (newscore, snd (zkey (zsl_nodes zsl) x)) # map (zkey (zsl_nodes zsl)) B)"
  shows "zsl_inv (zsl\<lparr>zsl_nodes := (zsl_nodes zsl)(x \<mapsto> n\<lparr>zn_score := newscore\<rparr>)\<rparr>) (A @ x # B) \<and>
    zsl_keys (zsl\<lparr>zsl_nodes := (zsl_nodes zsl)(x \<mapsto> n\<lparr>zn_score := newscore\<rparr>)\<rparr>) (A @ x # B) =
      map (zkey (zsl_nodes zsl)) A @ (newscore, snd (zkey (zsl_nodes zsl) x)) # map (zkey (zsl_nodes zsl)) B"
proof -
  let ?h = "zsl_nodes zsl" and ?h' = "(zsl_nodes zsl)(x \<mapsto> n\<lparr>zn_score := newscore\<rparr>)" and ?hdr = "zsl_header zsl"
  have ok: "nodes_ok ?h ?hdr (zsl_level zsl) (A @ x # B)" using inv by (simp add: zsl_inv_def)
  have h: "height ?h' = height ?h" "nback ?h' = nback ?h" "get_level ?h' = get_level ?h" "dom ?h' = dom ?h"
    using n by (auto simp: height_def nback_def get_level_def fun_eq_iff)
  have k: "nkey ?h' = (nkey ?h)(x \<mapsto> (newscore, zn_ele n))" by (auto simp: nkey_def fun_eq_iff)
  have "node_ok ?h (zsl_level zsl) x" using nodes_okD(6) [OF ok] by simp
  then have e: "zn_ele n = Some (snd (zkey ?h x))" using n by (elim node_fields) simp
  have xn: "x \<noteq> ?hdr" "x \<notin> set A" "x \<notin> set B" using nodes_okD(2) [OF ok] by auto
  have "\<forall>a \<in> set (A @ x # B). node_ok ?h' (zsl_level zsl) a" using nodes_okD(6) [OF ok] h(1) k e by (auto simp: node_ok_def)
  then have ok': "nodes_ok ?h' ?hdr (zsl_level zsl) (A @ x # B)"
    using ok h k xn(1) unfolding nodes_ok_def links_def back_ok_def by simp
  have "map (zkey ?h') A = map (zkey ?h) A" "map (zkey ?h') B = map (zkey ?h) B"
    by (rule zkeys_cong; use k xn in auto)+
  moreover have "zkey ?h' x = (newscore, snd (zkey ?h x))" using k e by (simp add: zkey_def)
  ultimately have keys: "map (zkey ?h') (A @ x # B) = map (zkey ?h) A @ (newscore, snd (zkey ?h x)) # map (zkey ?h) B" by simp
  have "sorted_wrt zless (map (zkey ?h') (A @ x # B))" unfolding keys by (rule so)
  then show ?thesis using ok' inv keys by (simp add: zsl_inv_def zsl_keys_def del: map_eq_conv)
qed

lemma zslUpdateScore_ok:
  assumes inv: "zsl_inv zsl ns" and k: "(curscore, ele) \<in> set (zsl_keys zsl ns)"
    and un: "\<forall>s. (s, ele) \<in> set (zsl_keys zsl ns) \<longrightarrow> s = curscore" and lv: "0 < lv" "lv \<le> ZSKIPLIST_MAXLEVEL" and al: "alloc_ok zmalloc"
  shows "\<exists>zsl' x ns' y. zslUpdateScore zmalloc zsl curscore ele newscore lv = Some (zsl', x) \<and> zsl_inv zsl' ns' \<and>
    zsl_header zsl' = zsl_header zsl \<and> zsl_keys zsl' ns' = zins (newscore, ele) (remove1 (curscore, ele) (zsl_keys zsl ns)) \<and>
    x \<in> set ns' \<and> zkey (zsl_nodes zsl') x = (newscore, ele) \<and> y \<in> set ns \<and> zkey (zsl_nodes zsl) y = (curscore, ele) \<and>
    dom (zsl_nodes zsl') = insert x (dom (zsl_nodes zsl) - {y}) \<and> set ns' = insert x (set ns - {y}) \<and>
    (\<forall>a. a \<noteq> x \<longrightarrow> a \<noteq> y \<longrightarrow> nkey (zsl_nodes zsl') a = nkey (zsl_nodes zsl) a)"
proof (rule search_key [OF inv, of curscore ele])
  let ?h = "zsl_nodes zsl" and ?k = "(curscore, ele)" and ?k' = "(newscore, ele)" and ?L = "zsl_level zsl"
  fix A B ur s assume ab: "ns = A @ B" "\<forall>a \<in> set A. node_ok ?h ?L a \<and> zless (zkey ?h a) ?k"
    "\<forall>b \<in> set B. node_ok ?h ?L b \<and> \<not> zless (zkey ?h b) ?k"
    and ur: "zsl_search (node_before curscore ele) ?h ?L (zsl_header zsl) 0 = Some ur" "length ur = ?L"
    "\<forall>i < ?L. upd_at (height ?h) (zsl_header zsl # A) i (ur ! i)"
    and g: "get_level ?h (search_end zsl ur) 0 = Some (if B = [] then None else Some (hd B), s)"
  have so: "sorted_wrt zless (map (zkey ?h) ns)" and ok: "nodes_ok ?h (zsl_header zsl) ?L ns"
    using inv by (simp_all add: zsl_inv_def zsl_keys_def)
  have "?k \<notin> zkey ?h ` set A" using ab(2) by (auto simp: image_iff)
  then have kB: "?k \<in> zkey ?h ` set B" using k ab(1) by (auto simp: zsl_keys_def)
  have soB: "sorted_wrt zless (map (zkey ?h) B)" using so ab(1) by (simp add: sorted_wrt_append)
  obtain x B' where x: "B = x # B'" "zkey ?h x = ?k" by (rule key_at_head [OF soB _ kB]) (use ab(3) in blast)
  have xok: "node_ok ?h ?L x" using ab(3) x(1) by simp
  obtain n where n: "?h x = Some n" "zn_ele n = Some ele" "curscore = zn_score n \<and> sdscmp ele ele = 0"
    using head_key [OF xok, of curscore ele] x(2) by auto
  have ns: "ns = A @ x # B'" using ab(1) x(1) by simp
  note o = nodes_okD [OF ok [unfolded ns]]
  have so2: "sorted_wrt zless (map (zkey ?h) A @ ?k # map (zkey ?h) B')" using so ns x(2) by simp
  have rm: "remove1 ?k (zsl_keys zsl ns) = map (zkey ?h) A @ map (zkey ?h) B'"
    using sorted_remove1 [OF so2] ns x(2) by (simp add: zsl_keys_def)
  have xd: "x \<notin> set (zsl_header zsl # A @ B')" using o(2) by auto
  have bx: "zn_backward n = (if A = [] then None else Some (last A))"
  proof (cases A rule: rev_cases)
    case Nil
    then have "nback ?h x = Some None" using o(8) unfolding back_ok_def by fastforce
    then show ?thesis using Nil n(1) by (simp add: nback_def)
  next
    case (snoc A' a)
    then have "zsl_header zsl # A @ x # B' = (zsl_header zsl # A') @ a # x # B'" by simp
    then have "nback ?h x = Some (Some a)" using o(8) unfolding back_ok_def by fastforce
    then show ?thesis using snoc n(1) by (simp add: nback_def)
  qed
  define before where "before \<longleftrightarrow> A = [] \<or> fst (zkey ?h (last A)) < newscore"
  have bf: "(case zn_backward n of None \<Rightarrow> Some True | Some b \<Rightarrow> do { m \<leftarrow> ?h b; Some (zn_score m < newscore) }) = Some before"
  proof (cases "A = []")
    case False
    then have "node_ok ?h ?L (last A)" using ab(2) by simp
    then obtain m where "?h (last A) = Some m" "zn_score m = fst (zkey ?h (last A))" by (rule node_fields)
    then show ?thesis using False bx by (simp add: before_def)
  qed (simp add: bx before_def)
  obtain f s' where fs: "get_level ?h x 0 = Some (f, s')" "f = (if B' = [] then None else Some (hd B'))"
  proof -
    have l: "get_level ?h x 0 = Some (link_to (height ?h) 0 B')"
      using linksD [of ?h ?L "zsl_header zsl # A" x B' 0] o(4,7) xok by (simp add: node_ok_def)
    have "fst (link_to (height ?h) 0 B') = (if B' = [] then None else Some (hd B'))"
      using nodes_heights [OF ok [unfolded ns]] by (cases B') (auto simp: link_to_def)
    then show thesis using l that by (cases "link_to (height ?h) 0 B'") simp
  qed
  define after where "after \<longleftrightarrow> B' = [] \<or> fst (zkey ?h (hd B')) > newscore"
  have af: "(case f of None \<Rightarrow> Some True | Some f \<Rightarrow> do { m \<leftarrow> ?h f; Some (zn_score m > newscore) }) = Some after"
  proof (cases "B' = []")
    case False
    then have "node_ok ?h ?L (hd B')" using ab(3) x(1) by simp
    then obtain m where "?h (hd B') = Some m" "zn_score m = fst (zkey ?h (hd B'))" by (rule node_fields)
    then show ?thesis using False fs(2) by (simp add: after_def)
  qed (simp add: fs(2) after_def)
  have unf: "zslUpdateScore zmalloc zsl curscore ele newscore lv =
      (if before \<and> after then Some (zsl\<lparr>zsl_nodes := ?h(x \<mapsto> n\<lparr>zn_score := newscore\<rparr>)\<rparr>, x)
         else do {
           zsl \<leftarrow> zslDeleteNode zsl x ur;
           (zsl, newnode) \<leftarrow> zslInsert zmalloc zsl newscore ele lv;
           h \<leftarrow> zslFreeNode (zsl_nodes zsl) x;
           Some (zsl\<lparr>zsl_nodes := h\<rparr>, newnode)
         })"
    using ur(1) g x(1) n bf af fs(1) by (simp add: zslUpdateScore_def)
  show ?thesis
  proof (cases "before \<and> after")
    case True
    have so3: "sorted_wrt zless (map (zkey ?h) A @ map (zkey ?h) B')" by (rule sorted_remove [OF so2])
    have z: "zins ?k' (map (zkey ?h) A @ map (zkey ?h) B') = map (zkey ?h) A @ ?k' # map (zkey ?h) B'"
      "sorted_wrt zless (map (zkey ?h) A @ ?k' # map (zkey ?h) B')"
      using True by (intro zins_split [OF so3]; auto simp: before_def after_def last_map hd_map)+
    let ?zsl = "zsl\<lparr>zsl_nodes := ?h(x \<mapsto> n\<lparr>zn_score := newscore\<rparr>)\<rparr>"
    have i: "zsl_inv ?zsl ns" "zsl_keys ?zsl ns = map (zkey ?h) A @ ?k' # map (zkey ?h) B'"
      using set_score_inv [of zsl A x B' n newscore] inv ns n(1) z(2) x(2) by auto
    have "zkey (zsl_nodes ?zsl) x = ?k'" using n(2) by (simp add: zkey_def nkey_def)
    moreover have "\<forall>a. a \<noteq> x \<longrightarrow> nkey (zsl_nodes ?zsl) a = nkey ?h a" by (simp add: nkey_def)
    moreover have "dom (zsl_nodes ?zsl) = insert x (dom ?h - {x})" by auto
    moreover have "set ns = insert x (set ns - {x})" using ns by auto
    ultimately show ?thesis using unf True i rm z(1) ns x(2)
      by (intro exI [of _ ?zsl] exI [of _ x] exI [of _ ns] exI [of _ x]) simp
  next
    case False
    obtain zsl1 where z1: "zslDeleteNode zsl x ur = Some zsl1" "zsl_inv zsl1 (A @ B')" "zsl_header zsl1 = zsl_header zsl"
      "nkey (zsl_nodes zsl1) = nkey ?h" "dom (zsl_nodes zsl1) = dom ?h"
      using zslDeleteNode_ok [of zsl A x B' ur] inv ns ur(2,3) by auto
    have zk: "zkey (zsl_nodes zsl1) = zkey ?h" using z1(4) by (simp add: zkey_def fun_eq_iff)
    have keys1: "zsl_keys zsl1 (A @ B') = map (zkey ?h) A @ map (zkey ?h) B'" by (simp add: zsl_keys_def zk)
    have kA: "?k \<notin> set (map (zkey ?h) A @ map (zkey ?h) B')"
      using so2 zless_irrefl by (auto simp: sorted_wrt_append)
    have "?k' \<notin> set (zsl_keys zsl1 (A @ B'))"
    proof
      assume a: "?k' \<in> set (zsl_keys zsl1 (A @ B'))"
      then have "?k' \<in> set (zsl_keys zsl ns)" using keys1 ns by (auto simp: zsl_keys_def)
      then have "newscore = curscore" using un by blast
      then show False using a keys1 kA by simp
    qed
    from zslInsert_ok [OF z1(2) this lv al] obtain zsl2 y ns1 ns2 where
      z2: "zslInsert zmalloc zsl1 newscore ele lv = Some (zsl2, y)" "A @ B' = ns1 @ ns2" "zsl_inv zsl2 (ns1 @ y # ns2)"
      "zsl_keys zsl2 (ns1 @ y # ns2) = zins ?k' (zsl_keys zsl1 (A @ B'))" "zsl_header zsl2 = zsl_header zsl1" "y \<notin> dom (zsl_nodes zsl1)"
      "dom (zsl_nodes zsl2) = insert y (dom (zsl_nodes zsl1))" "nkey (zsl_nodes zsl2) = (nkey (zsl_nodes zsl1))(y \<mapsto> (newscore, Some ele))" by blast
    have yx: "y \<noteq> x" using z2(6) z1(5) n(1) by auto
    have "x \<in> dom (zsl_nodes zsl2)" "x \<notin> set (zsl_header zsl2 # ns1 @ y # ns2)"
      using z2(2,5,7) z1(3,5) n(1) xd yx by auto
    from free_node_ok [OF z2(3) this] obtain h3 where h3: "zslFreeNode (zsl_nodes zsl2) x = Some h3"
      "zsl_inv (zsl2\<lparr>zsl_nodes := h3\<rparr>) (ns1 @ y # ns2)" "dom h3 = dom (zsl_nodes zsl2) - {x}"
      "nkey h3 = (nkey (zsl_nodes zsl2))(x := None)" by blast
    let ?zsl = "zsl2\<lparr>zsl_nodes := h3\<rparr>" and ?ns = "ns1 @ y # ns2"
    have run: "zslUpdateScore zmalloc zsl curscore ele newscore lv = Some (?zsl, y)"
      using unf False z1(1) z2(1) h3(1) by auto
    have "map (zkey h3) ?ns = map (zkey (zsl_nodes zsl2)) ?ns"
      by (rule zkeys_cong) (use h3(4) xd z2(2) yx in auto)
    then have "zsl_keys ?zsl ?ns = zins ?k' (remove1 ?k (zsl_keys zsl ns))" using z2(4) keys1 rm by (simp add: zsl_keys_def del: map_eq_conv map_append list.map)
    moreover have "zkey (zsl_nodes ?zsl) y = ?k'" using h3(4) z2(8) yx by (simp add: zkey_def)
    moreover have "\<forall>a. a \<noteq> y \<longrightarrow> a \<noteq> x \<longrightarrow> nkey (zsl_nodes ?zsl) a = nkey ?h a" using h3(4) z2(8) z1(4) by simp
    moreover have "dom (zsl_nodes ?zsl) = insert y (dom ?h - {x})" using h3(3) z2(7) z1(5) yx by auto
    moreover have "set ?ns = insert y (set ns - {x})"
    proof -
      have "set ?ns = insert y (set (A @ B'))" unfolding z2(2) by auto
      then show ?thesis using ns xd by auto
    qed
    ultimately show ?thesis using run h3(2) z2(5) z1(3) ns x(2)
      by (intro exI [of _ ?zsl] exI [of _ y] exI [of _ ?ns] exI [of _ x]) simp
  qed
qed

section \<open>Freeing\<close>

lemma free_loop_ok:
  assumes "\<forall>A a B. ns = A @ a # B \<longrightarrow> (\<exists>s. get_level h a 0 = Some (if B = [] then None else Some (hd B), s))" "distinct ns"
  shows "zslFree_loop h (if ns = [] then None else Some (hd ns)) = Some (h |` (- set ns))"
  using assms
proof (induction ns arbitrary: h)
  case Nil
  then show ?case by (subst zslFree_loop.simps) (simp add: restrict_map_def)
next
  case (Cons a ns)
  obtain s where s: "get_level h a 0 = Some (if ns = [] then None else Some (hd ns), s)" using Cons.prems(1) by blast
  then have "h a \<noteq> None" by (cases "h a") (auto simp: get_level_def)
  then have f: "zslFreeNode h a = Some (h(a := None))" by (auto simp: zslFreeNode_def)
  have lv: "\<exists>s. get_level (h(a := None)) b 0 = Some (if B = [] then None else Some (hd B), s)" if "ns = A @ b # B" for A b B
  proof -
    have "b \<noteq> a" using Cons.prems(2) that by auto
    moreover have "a # ns = (a # A) @ b # B" using that by simp
    ultimately show ?thesis using Cons.prems(1) by (fastforce simp: get_level_def)
  qed
  have "zslFree_loop (h(a := None)) (if ns = [] then None else Some (hd ns)) = Some ((h(a := None)) |` (- set ns))"
    by (rule Cons.IH) (use lv in blast, use Cons.prems(2) in simp)
  moreover have "(h(a := None)) |` (- set ns) = h |` (- set (a # ns))" by (auto simp: restrict_map_def fun_eq_iff)
  ultimately show ?case using s f by (subst zslFree_loop.simps) simp
qed

lemma level0:
  assumes ok: "nodes_ok h hdr L ns" and s: "hdr # ns = A @ a # B"
  shows "\<exists>s. get_level h a 0 = Some (if B = [] then None else Some (hd B), s)"
proof -
  have "a \<in> set (hdr # ns)" using s by simp
  then have "0 < height h a" by (rule nodes_heights [OF ok])
  then have l: "get_level h a 0 = Some (link_to (height h) 0 B)"
    using linksD [of h L A a B 0] nodes_okD(4,7) [OF ok] s by simp
  have "\<forall>b \<in> set B. 0 < height h b" using nodes_heights [OF ok] unfolding s by simp
  then have "fst (link_to (height h) 0 B) = (if B = [] then None else Some (hd B))" by (cases B) (auto simp: link_to_def)
  then show ?thesis using l by (cases "link_to (height h) 0 B") simp
qed

lemma zslFree_ok:
  assumes "zsl_inv zsl ns" "dom (zsl_nodes zsl) = insert (zsl_header zsl) (set ns)"
  shows "zslFree zsl = Some Map.empty"
proof -
  let ?h = "zsl_nodes zsl" and ?hdr = "zsl_header zsl"
  have ok: "nodes_ok ?h ?hdr (zsl_level zsl) ns" using assms(1) by (simp add: zsl_inv_def)
  have d: "distinct ns" "?hdr \<notin> set ns" using nodes_okD(2) [OF ok] by auto
  obtain s where s: "get_level ?h ?hdr 0 = Some (if ns = [] then None else Some (hd ns), s)"
    using level0 [OF ok, of "[]" ?hdr ns] by auto
  have "\<exists>s. get_level (?h(?hdr := None)) a 0 = Some (if B = [] then None else Some (hd B), s)" if "ns = A @ a # B" for A a B
  proof -
    have "a \<noteq> ?hdr" using d(2) that by auto
    then show ?thesis using level0 [OF ok, of "?hdr # A" a B] that by (simp add: get_level_def)
  qed
  then have "zslFree_loop (?h(?hdr := None)) (if ns = [] then None else Some (hd ns)) = Some ((?h(?hdr := None)) |` (- set ns))"
    using d(1) by (intro free_loop_ok) blast+
  moreover have "(?h(?hdr := None)) |` (- set ns) = Map.empty"
    using assms(2) by (auto simp: restrict_map_def fun_eq_iff)
  ultimately show ?thesis using s by (simp add: zslFree_def)
qed

section \<open>Ranks\<close>

lemma node_not_after_key: "zn_ele n = Some e \<Longrightarrow> node_not_after score ele n r =
    Some (zless (zn_score n, e) (score, ele) \<or> (zn_score n, e) = (score, ele))"
  by (auto simp: node_not_after_def zless_def sdscmp_le)

lemma rank_test:
  assumes "nodes_ok h hdr L ns" "u \<in> set (hdr # ns)"
  shows "\<exists>n. h u = Some n \<and> ((case zn_ele n of None \<Rightarrow> False | Some e \<Rightarrow> zn_score n = score \<and> sdscmp e ele = 0) \<longleftrightarrow>
    u \<in> set ns \<and> zkey h u = (score, ele))"
proof (cases "u = hdr")
  case True
  obtain s where "nkey h hdr = Some (s, None)" using nodes_okD(10) [OF assms(1)] by blast
  then obtain n where "h hdr = Some n" "zn_ele n = None" unfolding nkey_def by blast
  moreover have "hdr \<notin> set ns" using nodes_okD(2) [OF assms(1)] by simp
  ultimately show ?thesis using True by simp
next
  case False
  then have u: "u \<in> set ns" using assms(2) by simp
  then have uok: "node_ok h L u" using nodes_okD(6) [OF assms(1)] by blast
  obtain n where n: "h u = Some n" "zn_ele n = Some (snd (zkey h u))" "score = zn_score n \<and> sdscmp (snd (zkey h u)) ele = 0 \<longleftrightarrow> zkey h u = (score, ele)"
    by (rule head_key [OF uok])
  then show ?thesis using u by auto
qed

lemma rank_loop_found:
  assumes ok: "nodes_ok h hdr L (A0 @ x # B)" and c: "cut (node_not_after score ele) h (hdr # A0 @ [x]) B"
    and k: "zkey h x = (score, ele)" "\<forall>a \<in> set A0. zkey h a \<noteq> (score, ele)"
    and l: "0 < l" "l \<le> L" "hdr # A0 @ [x] = A @ a # M" "l \<le> height h a"
  shows "rank_loop h score ele l a (of_nat (length A)) = Some (of_nat (Suc (length A0)))"
  using l
proof (induction l arbitrary: A a M)
  case (Suc l)
  let ?Q = "hdr # A0 @ [x]"
  have "links h L (?Q @ B)" using nodes_okD(7) [OF ok] by simp
  from forward_ok [OF this c _ Suc.prems(3), of l] Suc.prems(2,4) obtain A' u M' where
    f: "?Q = A' @ u # M'" "l < height h u" "\<forall>b \<in> set M'. height h b \<le> l"
    "zsl_forward (node_not_after score ele) h l a (of_nat (length A)) = Some (u, of_nat (length A'))" by auto
  have "u \<in> set ?Q" unfolding f(1) by simp
  then have uin: "u \<in> set (hdr # A0 @ x # B)" by auto
  obtain n where n: "h u = Some n" "(case zn_ele n of None \<Rightarrow> False | Some e \<Rightarrow> zn_score n = score \<and> sdscmp e ele = 0) \<longleftrightarrow>
      u \<in> set (A0 @ x # B) \<and> zkey h u = (score, ele)" using rank_test [OF ok uin] by blast
  have d: "distinct ?Q" "distinct (hdr # A0 @ x # B)" using nodes_okD(2) [OF ok] by auto
  show ?case
  proof (cases M' rule: rev_cases)
    case Nil
    then have "u = x" "length A' = Suc (length A0)" using f(1) by auto
    then show ?thesis using f(4) n k(1) by simp
  next
    case (snoc M2 y)
    have "(hdr # A0) @ [x] = (A' @ u # M2) @ [y]" using f(1) snoc by simp
    then have e: "hdr # A0 = A' @ u # M2" "y = x" unfolding append1_eq_conv by simp_all
    have "u \<in> set (hdr # A0)" unfolding e(1) by simp
    then have "u = hdr \<or> u \<in> set A0" by simp
    then have t: "\<not> (u \<in> set (A0 @ x # B) \<and> zkey h u = (score, ele))" using k(2) d(2) by auto
    have "x \<in> set M'" using snoc e(2) by simp
    moreover have "0 < height h x" using nodes_heights [OF ok] by simp
    ultimately have "0 < l" using f(3) by auto
    then have "rank_loop h score ele l u (of_nat (length A')) = Some (of_nat (Suc (length A0)))"
      using Suc.IH [OF _ _ f(1)] f(2) Suc.prems(2) by simp
    then show ?thesis using f(4) n t by auto
  qed
qed simp

lemma rank_loop_absent:
  assumes ok: "nodes_ok h hdr L (A0 @ B)" and c: "cut (node_not_after score ele) h (hdr # A0) B"
    and k: "\<forall>a \<in> set (A0 @ B). zkey h a \<noteq> (score, ele)"
    and l: "l \<le> L" "hdr # A0 = A @ a # M" "l \<le> height h a"
  shows "rank_loop h score ele l a (of_nat (length A)) = Some 0"
  using l
proof (induction l arbitrary: A a M)
  case (Suc l)
  have "links h L ((hdr # A0) @ B)" using nodes_okD(7) [OF ok] by simp
  from forward_ok [OF this c _ Suc.prems(2), of l] Suc.prems(1,3) obtain A' u M' where
    f: "hdr # A0 = A' @ u # M'" "l < height h u"
    "zsl_forward (node_not_after score ele) h l a (of_nat (length A)) = Some (u, of_nat (length A'))" by auto
  have "u \<in> set (hdr # A0)" using f(1) by simp
  then have uin: "u \<in> set (hdr # A0 @ B)" by auto
  obtain n where n: "h u = Some n" "(case zn_ele n of None \<Rightarrow> False | Some e \<Rightarrow> zn_score n = score \<and> sdscmp e ele = 0) \<longleftrightarrow>
      u \<in> set (A0 @ B) \<and> zkey h u = (score, ele)" using rank_test [OF ok uin] by blast
  have "rank_loop h score ele l u (of_nat (length A')) = Some 0" using Suc.IH [OF _ f(1)] f(2) Suc.prems(1) by simp
  then show ?case using f(3) n k by auto
qed simp

definition zrank :: "'d::linorder \<times> sds \<Rightarrow> ('d \<times> sds) list \<Rightarrow> nat" where
  "zrank k ks = (if k \<in> set ks then Suc (length (filter (\<lambda>p. zless p k) ks)) else 0)"

lemma not_after_mono: "zless p q \<Longrightarrow> zless q k \<or> q = k \<Longrightarrow> zless p k \<or> p = k"
  using zless_trans by blast

lemma zslGetRank_ok:
  assumes inv: "zsl_inv zsl ns"
  shows "zslGetRank zsl score ele = Some (of_nat (zrank (score, ele) (zsl_keys zsl ns)))"
proof -
  let ?h = "zsl_nodes zsl" and ?hdr = "zsl_header zsl" and ?L = "zsl_level zsl" and ?k = "(score, ele)"
  have ok: "nodes_ok ?h ?hdr ?L ns" and so: "sorted_wrt zless (map (zkey ?h) ns)"
    using inv by (auto simp: zsl_inv_def zsl_keys_def)
  obtain A B where ab: "ns = A @ B" "\<forall>a \<in> set A. node_ok ?h ?L a \<and> (zless (zkey ?h a) ?k \<or> zkey ?h a = ?k)"
    "\<forall>a \<in> set B. node_ok ?h ?L a \<and> \<not> (zless (zkey ?h a) ?k \<or> zkey ?h a = ?k)"
    by (rule split_nodes [OF ok not_after_mono [where k = ?k] so])
  have c: "cut (node_not_after score ele) ?h (?hdr # A) B" by (rule cut_keys [OF ab(2,3) node_not_after_key])
  have L: "0 < ?L" "?L \<le> height ?h ?hdr" using nodes_okD [OF ok] by auto
  have soA: "sorted_wrt zless (map (zkey ?h) A)" using so ab(1) by (simp add: sorted_wrt_append)
  show ?thesis
  proof (cases "?k \<in> set (zsl_keys zsl ns)")
    case False
    then have "\<forall>a \<in> set (A @ B). zkey ?h a \<noteq> ?k" using ab(1) by (force simp: zsl_keys_def)
    from rank_loop_absent [OF ok [unfolded ab(1)] c this, where l = ?L and A = "[]" and a = ?hdr and M = A] L(2) False show ?thesis
      by (simp add: zslGetRank_def zrank_def)
  next
    case True
    then have "?k \<in> zkey ?h ` set A" using ab(1,3) by (auto simp: zsl_keys_def)
    then obtain x where x: "x \<in> set A" "zkey ?h x = ?k" by auto
    obtain A0 A1 where a: "A = A0 @ x # A1" using split_list [OF x(1)] by blast
    have "A1 = []"
    proof (cases A1)
      case (Cons y A2)
      then have "zless ?k (zkey ?h y)" using soA a x(2) by (simp add: sorted_wrt_append)
      then show ?thesis using ab(2) a Cons zless_asym by fastforce
    qed simp
    then have ax: "A = A0 @ [x]" using a by simp
    have lt: "\<forall>a \<in> set A0. zless (zkey ?h a) ?k" using soA ax x(2) by (simp add: sorted_wrt_append)
    then have ne: "\<forall>a \<in> set A0. zkey ?h a \<noteq> ?k" by auto
    have r: "rank_loop ?h score ele ?L ?hdr (of_nat (length ([] :: nat list))) = Some (of_nat (Suc (length A0)))"
      by (rule rank_loop_found [OF ok [unfolded ab(1) ax append.assoc append_Cons append_Nil] c [unfolded ax] x(2) ne L(1), where A = "[]" and a = ?hdr and M = "A0 @ [x]"])
        (use L in auto)
    have "filter (\<lambda>p. zless p ?k) (zsl_keys zsl ns) = map (zkey ?h) A0"
      using lt ab(1,3) ax x(2) by (simp add: zsl_keys_def filter_map comp_def)
    then show ?thesis using r True by (simp add: zslGetRank_def zrank_def)
  qed
qed

text \<open>A node by its rank.\<close>

lemma cut_ranks:
  assumes "\<forall>a \<in> set (A @ B). node_ok h L a" "length (A @ B) < 2 ^ 64" "k < 2 ^ 64" "length A \<le> k" "B \<noteq> [] \<Longrightarrow> k = length A"
  shows "cut (\<lambda>_ r. Some (r \<le> (of_nat k :: u64))) h (hdr # A) B"
proof -
  have le: "(of_nat m :: u64) \<le> of_nat k \<longleftrightarrow> m \<le> k" if "m < 2 ^ 64" for m
    using that assms(3) by (simp add: word_le_nat_alt unat_of_nat take_bit_eq_mod)
  have n: "\<exists>n. h a = Some n" if "a \<in> set (A @ B)" for a
  proof -
    have "a \<in> dom h" using assms(1) that node_ok_dom by blast
    then show ?thesis by blast
  qed
  show ?thesis unfolding cut_def
  proof (intro conjI allI impI)
    fix A' a B' assume e: "hdr # A = A' @ a # B'" "A' \<noteq> []"
    then have "a \<in> set A" "length A' \<le> length A" by (cases A'; auto)+
    then show "\<exists>n. h a = Some n \<and> Some ((of_nat (length A') :: u64) \<le> of_nat k) = Some True"
      using n [of a] le [of "length A'"] assms(2,4) by auto
  next
    fix A' a B' assume e: "B = A' @ a # B'"
    then have "k = length A" using assms(5) by simp
    then show "\<exists>n. h a = Some n \<and> Some ((of_nat (length (hdr # A) + length A') :: u64) \<le> of_nat k) = Some False"
      using n [of a] le [of "length (hdr # A) + length A'"] assms(2) e by auto
  qed
qed

lemma by_rank_loop_found:
  assumes ok: "nodes_ok h hdr L (A0 @ B)" and c: "cut (\<lambda>_ r. Some (r \<le> (of_nat k :: u64))) h (hdr # A0) B"
    and k: "k = length A0" "k < 2 ^ 64" and l: "0 < l" "l \<le> L" "hdr # A0 = A @ a # M" "l \<le> height h a"
  shows "by_rank_loop h (of_nat k) l a (of_nat (length A)) = Some (Some (last (hdr # A0)))"
  using l
proof (induction l arbitrary: A a M)
  case (Suc l)
  let ?Q = "hdr # A0"
  have "links h L (?Q @ B)" using nodes_okD(7) [OF ok] by simp
  from forward_ok [OF this c _ Suc.prems(3), of l] Suc.prems(2,4) obtain A' u M' where
    f: "?Q = A' @ u # M'" "l < height h u" "\<forall>b \<in> set M'. height h b \<le> l"
    "zsl_forward (\<lambda>_ r. Some (r \<le> (of_nat k :: u64))) h l a (of_nat (length A)) = Some (u, of_nat (length A'))" by auto
  have len: "length A' + length M' = k" using f(1) k(1) by (metis add_Suc_right length_Cons length_append nat.inject)
  have eq: "(of_nat (length A') :: u64) = of_nat k \<longleftrightarrow> length A' = k"
    using len k(2) by (auto simp: word_unat_eq_iff unat_of_nat take_bit_eq_mod)
  show ?case
  proof (cases M')
    case Nil
    then have "last ?Q = u" unfolding f(1) by simp
    then show ?thesis using f(4) eq len Nil by simp
  next
    case (Cons b M2)
    have "b \<in> set ?Q" unfolding f(1) using Cons by simp
    then have "0 < height h b" using nodes_heights [OF ok] by auto
    then have "0 < l" using f(3) Cons by simp
    then have "by_rank_loop h (of_nat k) l u (of_nat (length A')) = Some (Some (last (hdr # A0)))"
      using Suc.IH [OF _ _ f(1)] f(2) Suc.prems(2) by simp
    moreover have "length A' \<noteq> k" using len Cons by simp
    ultimately show ?thesis using f(4) eq by simp
  qed
qed simp

lemma by_rank_loop_beyond:
  assumes ok: "nodes_ok h hdr L A0" and c: "cut (\<lambda>_ r. Some (r \<le> (of_nat k :: u64))) h (hdr # A0) []"
    and k: "length A0 < k" "k < 2 ^ 64" and l: "l \<le> L" "hdr # A0 = A @ a # M" "l \<le> height h a"
  shows "by_rank_loop h (of_nat k) l a (of_nat (length A)) = Some None"
  using l
proof (induction l arbitrary: A a M)
  case (Suc l)
  have "links h L ((hdr # A0) @ [])" using nodes_okD(7) [OF ok] by simp
  from forward_ok [OF this c _ Suc.prems(2), of l] Suc.prems(1,3) obtain A' u M' where
    f: "hdr # A0 = A' @ u # M'" "l < height h u"
    "zsl_forward (\<lambda>_ r. Some (r \<le> (of_nat k :: u64))) h l a (of_nat (length A)) = Some (u, of_nat (length A'))" by auto
  have "length (hdr # A0) = length (A' @ u # M')" using f(1) by simp
  then have "length A' < k" using k(1) by simp
  then have "(of_nat (length A') :: u64) \<noteq> of_nat k"
    using k(2) by (auto simp: word_unat_eq_iff unat_of_nat take_bit_eq_mod)
  moreover have "by_rank_loop h (of_nat k) l u (of_nat (length A')) = Some None" using Suc.IH [OF _ f(1)] f(2) Suc.prems(1) by simp
  ultimately show ?case using f(3) by simp
qed simp

lemma zslGetElementByRank_ok:
  assumes inv: "zsl_inv zsl ns" and n: "length ns < 2 ^ 64" "k < 2 ^ 64" "0 < k"
  shows "zslGetElementByRank zsl (of_nat k) = Some (if k \<le> length ns then Some (ns ! (k - 1)) else None)"
proof -
  let ?h = "zsl_nodes zsl" and ?hdr = "zsl_header zsl" and ?L = "zsl_level zsl"
  have ok: "nodes_ok ?h ?hdr ?L ns" using inv by (simp add: zsl_inv_def)
  note o = nodes_okD [OF ok]
  have L: "0 < ?L" "?L \<le> height ?h ?hdr" using o by auto
  show ?thesis
  proof (cases "k \<le> length ns")
    case True
    let ?A = "take k ns" and ?B = "drop k ns"
    have c: "cut (\<lambda>_ r. Some (r \<le> (of_nat k :: u64))) ?h (?hdr # ?A) ?B"
      by (rule cut_ranks [where L = ?L]) (use o(6) n True in \<open>auto dest: in_set_takeD in_set_dropD\<close>)
    have ok2: "nodes_ok ?h ?hdr ?L (?A @ ?B)" using ok by simp
    have "by_rank_loop ?h (of_nat k) ?L ?hdr (of_nat (length ([] :: nat list))) = Some (Some (last (?hdr # ?A)))"
      by (rule by_rank_loop_found [OF ok2 c _ n(2) L(1), where A = "[]" and a = ?hdr and M = ?A]) (use L True in auto)
    moreover have "last (?hdr # ?A) = ns ! (k - 1)" using True n(3) by (cases ns) (auto simp: last_conv_nth)
    ultimately show ?thesis using True by (simp add: zslGetElementByRank_def)
  next
    case False
    have c: "cut (\<lambda>_ r. Some (r \<le> (of_nat k :: u64))) ?h (?hdr # ns) []"
      by (rule cut_ranks [where L = ?L]) (use o(6) n False in auto)
    have "by_rank_loop ?h (of_nat k) ?L ?hdr (of_nat (length ([] :: nat list))) = Some None"
      by (rule by_rank_loop_beyond [OF ok c _ n(2), where A = "[]" and a = ?hdr and M = ns]) (use L False in auto)
    then show ?thesis using False by (simp add: zslGetElementByRank_def)
  qed
qed

section \<open>Ranges\<close>

definition in_range :: "'d::linorder zrangespec \<Rightarrow> 'd \<Rightarrow> bool" where
  "in_range spec v \<longleftrightarrow> zslValueGteMin v spec \<and> zslValueLteMax v spec"

lemma gte_mono: "v \<le> w \<Longrightarrow> zslValueGteMin v spec \<Longrightarrow> zslValueGteMin w spec"
  by (auto simp: zslValueGteMin_def split: if_splits)

lemma lte_mono: "v \<le> w \<Longrightarrow> zslValueLteMax w spec \<Longrightarrow> zslValueLteMax v spec"
  by (auto simp: zslValueLteMax_def split: if_splits)

lemma zless_fst: "zless p q \<Longrightarrow> fst p \<le> fst q"
  by (auto simp: zless_def)

definition nscore :: "'d zsl_heap \<Rightarrow> nat \<Rightarrow> 'd" where
  "nscore h a = fst (zkey h a)"

lemma sorted_scores:
  assumes "zsl_inv zsl ns"
  shows "sorted (map (nscore (zsl_nodes zsl)) ns)"
proof -
  have "sorted_wrt zless (map (zkey (zsl_nodes zsl)) ns)" using assms by (simp add: zsl_inv_def zsl_keys_def)
  then show ?thesis unfolding sorted_wrt_map by (rule sorted_wrt_mono_rel [rotated]) (simp add: nscore_def zless_fst)
qed

lemma node_score:
  assumes "zsl_inv zsl ns" "a \<in> set ns"
  obtains n where "zsl_nodes zsl a = Some n" "zn_score n = nscore (zsl_nodes zsl) a"
proof -
  have "node_ok (zsl_nodes zsl) (zsl_level zsl) a" using assms nodes_okD(6) [of "zsl_nodes zsl" "zsl_header zsl" "zsl_level zsl" ns] by (simp add: zsl_inv_def)
  then obtain n where "zsl_nodes zsl a = Some n" "zn_score n = fst (zkey (zsl_nodes zsl) a)" by (rule node_fields)
  then show thesis by (intro that [of n]) (simp_all add: nscore_def)
qed

lemma zslIsInRange_ok:
  assumes inv: "zsl_inv zsl ns"
  shows "\<exists>b. zslIsInRange zsl spec = Some b \<and> (\<not> b \<longrightarrow> (\<forall>a \<in> set ns. \<not> in_range spec (nscore (zsl_nodes zsl) a))) \<and>
    (b \<longrightarrow> ns \<noteq> [] \<and> zslValueGteMin (nscore (zsl_nodes zsl) (last ns)) spec \<and> zslValueLteMax (nscore (zsl_nodes zsl) (hd ns)) spec)"
proof (cases "zr_min spec > zr_max spec \<or> zr_min spec = zr_max spec \<and> (zr_minex spec \<or> zr_maxex spec)")
  case True
  then have "\<not> in_range spec v" for v by (auto simp: in_range_def zslValueGteMin_def zslValueLteMax_def split: if_splits)
  then show ?thesis using True by (intro exI [of _ False]) (simp add: zslIsInRange_def)
next
  case ne: False
  let ?h = "zsl_nodes zsl"
  have ok: "nodes_ok ?h (zsl_header zsl) (zsl_level zsl) ns" and t: "zsl_tail zsl = (if ns = [] then None else Some (last ns))"
    using inv by (auto simp: zsl_inv_def)
  show ?thesis
  proof (cases "ns = []")
    case True
    then show ?thesis using ne t by (intro exI [of _ False]) (simp add: zslIsInRange_def)
  next
    case False
    obtain n where n: "?h (last ns) = Some n" "zn_score n = nscore ?h (last ns)"
      by (rule node_score [OF inv last_in_set [OF False]])
    obtain m where m: "?h (hd ns) = Some m" "zn_score m = nscore ?h (hd ns)"
      by (rule node_score [OF inv hd_in_set [OF False]])
    obtain s where s: "get_level ?h (zsl_header zsl) 0 = Some (Some (hd ns), s)" using level0 [OF ok, of "[]" "zsl_header zsl" ns] False by auto
    define b where "b \<longleftrightarrow> zslValueGteMin (nscore ?h (last ns)) spec \<and> zslValueLteMax (nscore ?h (hd ns)) spec"
    have r: "zslIsInRange zsl spec = Some b"
      unfolding zslIsInRange_def if_not_P [OF ne] using t False n m s by (simp add: b_def)
    have so: "sorted (map (nscore ?h) ns)" by (rule sorted_scores [OF inv])
    have "\<not> in_range spec (nscore ?h a)" if "\<not> b" "a \<in> set ns" for a
    proof -
      have "nscore ?h (hd ns) \<le> nscore ?h a" using so that(2) False by (cases ns) auto
      moreover have "nscore ?h a \<le> nscore ?h (last ns)" using so that(2) False by (cases ns rule: rev_cases) (auto simp: sorted_append)
      ultimately show ?thesis using that(1) by (auto simp: b_def in_range_def dest: gte_mono lte_mono)
    qed
    then show ?thesis using r False by (auto simp: b_def)
  qed
qed

lemma split_scores:
  assumes inv: "zsl_inv zsl ns" and mono: "\<And>v w. v \<le> w \<Longrightarrow> pr w \<Longrightarrow> pr v"
  obtains A B ur where "ns = A @ B" "\<forall>a \<in> set A. pr (nscore (zsl_nodes zsl) a)" "\<forall>b \<in> set B. \<not> pr (nscore (zsl_nodes zsl) b)"
    "zsl_search (\<lambda>n _. Some (pr (zn_score n))) (zsl_nodes zsl) (zsl_level zsl) (zsl_header zsl) 0 = Some ur"
    "length ur = zsl_level zsl" "\<forall>i < zsl_level zsl. upd_at (height (zsl_nodes zsl)) (zsl_header zsl # A) i (ur ! i)"
    "search_end zsl ur = last (zsl_header zsl # A)"
    "\<exists>s. get_level (zsl_nodes zsl) (search_end zsl ur) 0 = Some (if B = [] then None else Some (hd B), s)"
proof -
  let ?h = "zsl_nodes zsl" and ?hdr = "zsl_header zsl" and ?L = "zsl_level zsl"
  have ok: "nodes_ok ?h ?hdr ?L ns" and so: "sorted_wrt zless (map (zkey ?h) ns)"
    using inv by (auto simp: zsl_inv_def zsl_keys_def)
  have pm: "zless p q \<Longrightarrow> pr (fst q) \<Longrightarrow> pr (fst p)" for p q :: "'a \<times> sds" using zless_fst mono by blast
  obtain A B where ab: "ns = A @ B" "\<forall>a \<in> set A. node_ok ?h ?L a \<and> pr (fst (zkey ?h a))"
    "\<forall>a \<in> set B. node_ok ?h ?L a \<and> \<not> pr (fst (zkey ?h a))"
    by (rule split_nodes [OF ok pm so])
  have "cut (\<lambda>n _. Some (pr (zn_score n))) ?h (?hdr # A) B" by (rule cut_keys [OF ab(2,3)]) simp
  from search_nodes [OF ok [unfolded ab(1)] this] obtain ur where ur: "zsl_search (\<lambda>n _. Some (pr (zn_score n))) ?h ?L ?hdr 0 = Some ur"
    "length ur = ?L" "\<forall>i < ?L. upd_at (height ?h) (?hdr # A) i (ur ! i)" by blast
  show thesis
    by (rule that [OF ab(1) _ _ ur search_next [OF ok [unfolded ab(1)] ur(2,3)]]) (use ab in \<open>auto simp: nscore_def\<close>)
qed

lemma find_append_none: "\<forall>a \<in> set A. \<not> P a \<Longrightarrow> find P (A @ B) = find P B"
  by (induction A) auto

lemma zslFirstInRange_ok:
  assumes inv: "zsl_inv zsl ns"
  shows "zslFirstInRange zsl spec = Some (find (\<lambda>a. in_range spec (nscore (zsl_nodes zsl) a)) ns)"
proof -
  let ?h = "zsl_nodes zsl" and ?P = "\<lambda>a. in_range spec (nscore (zsl_nodes zsl) a)"
  obtain b where b: "zslIsInRange zsl spec = Some b" "\<not> b \<longrightarrow> (\<forall>a \<in> set ns. \<not> ?P a)"
    "b \<longrightarrow> ns \<noteq> [] \<and> zslValueGteMin (nscore ?h (last ns)) spec \<and> zslValueLteMax (nscore ?h (hd ns)) spec"
    using zslIsInRange_ok [OF inv, of spec] by blast
  show ?thesis
  proof (cases b)
    case False
    then have "find ?P ns = None" using b(2) by (simp add: find_None_iff)
    then show ?thesis using b(1) False by (simp add: zslFirstInRange_def)
  next
    case True
    have mono: "\<And>v w. v \<le> w \<Longrightarrow> \<not> zslValueGteMin w spec \<Longrightarrow> \<not> zslValueGteMin v spec" using gte_mono by blast
    show ?thesis
    proof (rule split_scores [OF inv, where pr = "\<lambda>v. \<not> zslValueGteMin v spec", OF mono])
      fix A B ur assume ab: "ns = A @ B" "\<forall>a \<in> set A. \<not> zslValueGteMin (nscore ?h a) spec" "\<forall>b \<in> set B. \<not> \<not> zslValueGteMin (nscore ?h b) spec"
        and ur: "zsl_search (\<lambda>n _. Some (\<not> zslValueGteMin (zn_score n) spec)) ?h (zsl_level zsl) (zsl_header zsl) 0 = Some ur"
        "\<exists>s. get_level ?h (search_end zsl ur) 0 = Some (if B = [] then None else Some (hd B), s)"
      have "B \<noteq> []"
      proof
        assume "B = []"
        then have "last ns \<in> set A" using ab(1) b(3) True by (metis append_Nil2 last_in_set)
        then show False using ab(2) b(3) True by blast
      qed
      then obtain x B' where x: "B = x # B'" unfolding neq_Nil_conv by blast
      obtain n where n: "?h x = Some n" "zn_score n = nscore ?h x" by (rule node_score [OF inv, of x]) (use ab(1) x in simp_all)
      have so: "sorted (map (nscore ?h) (x # B'))" using sorted_scores [OF inv] ab(1) x by (simp add: sorted_append)
      have "find ?P ns = find ?P (x # B')" unfolding ab(1) x by (rule find_append_none) (use ab(2) in \<open>auto simp: in_range_def\<close>)
      also have "\<dots> = (if zslValueLteMax (nscore ?h x) spec then Some x else None)"
      proof (cases "zslValueLteMax (nscore ?h x) spec")
        case True
        then show ?thesis using ab(3) x by (simp add: in_range_def)
      next
        case F: False
        have "\<not> ?P a" if "a \<in> set (x # B')" for a
        proof -
          have "nscore ?h x \<le> nscore ?h a" using so that by auto
          then show ?thesis using F by (auto simp: in_range_def dest: lte_mono)
        qed
        then have "find ?P (x # B') = None" unfolding find_None_iff by blast
        then show ?thesis using F by (simp only: if_False)
      qed
      finally show ?thesis using b(1) True ur n x by (auto simp: zslFirstInRange_def)
    qed
  qed
qed

lemma zslLastInRange_ok:
  assumes inv: "zsl_inv zsl ns"
  shows "zslLastInRange zsl spec = Some (find (\<lambda>a. in_range spec (nscore (zsl_nodes zsl) a)) (rev ns))"
proof -
  let ?h = "zsl_nodes zsl" and ?P = "\<lambda>a. in_range spec (nscore (zsl_nodes zsl) a)"
  obtain b where b: "zslIsInRange zsl spec = Some b" "\<not> b \<longrightarrow> (\<forall>a \<in> set ns. \<not> ?P a)"
    "b \<longrightarrow> ns \<noteq> [] \<and> zslValueGteMin (nscore ?h (last ns)) spec \<and> zslValueLteMax (nscore ?h (hd ns)) spec"
    using zslIsInRange_ok [OF inv, of spec] by blast
  show ?thesis
  proof (cases b)
    case False
    then have "find ?P (rev ns) = None" using b(2) by (simp add: find_None_iff)
    then show ?thesis using b(1) False by (simp add: zslLastInRange_def)
  next
    case True
    show ?thesis
    proof (rule split_scores [OF inv, where pr = "\<lambda>v. zslValueLteMax v spec", OF lte_mono])
      fix A B ur assume ab: "ns = A @ B" "\<forall>a \<in> set A. zslValueLteMax (nscore ?h a) spec" "\<forall>b \<in> set B. \<not> zslValueLteMax (nscore ?h b) spec"
        and ur: "zsl_search (\<lambda>n _. Some (zslValueLteMax (zn_score n) spec)) ?h (zsl_level zsl) (zsl_header zsl) 0 = Some ur"
        "search_end zsl ur = last (zsl_header zsl # A)"
      have "A \<noteq> []"
      proof
        assume "A = []"
        then have "hd ns \<in> set B" using ab(1) b(3) True by simp
        then show False using ab(3) b(3) True by blast
      qed
      then obtain A' x where x: "A = A' @ [x]" using rev_exhaust by blast
      obtain n where n: "?h x = Some n" "zn_score n = nscore ?h x" by (rule node_score [OF inv, of x]) (use ab(1) x in simp_all)
      have so: "sorted (map (nscore ?h) (A' @ [x]))" using sorted_scores [OF inv] ab(1) x by (simp add: sorted_append)
      have "find ?P (rev ns) = find ?P (rev B @ x # rev A')" using ab(1) x by simp
      also have "\<dots> = find ?P (x # rev A')" by (rule find_append_none) (use ab(3) in \<open>auto simp: in_range_def\<close>)
      also have "\<dots> = (if zslValueGteMin (nscore ?h x) spec then Some x else None)"
      proof (cases "zslValueGteMin (nscore ?h x) spec")
        case True
        then show ?thesis using ab(2) x by (simp add: in_range_def)
      next
        case F: False
        have "\<not> ?P a" if "a \<in> set (x # rev A')" for a
        proof -
          have "nscore ?h a \<le> nscore ?h x" using so that by (auto simp: sorted_append)
          then show ?thesis using F by (auto simp: in_range_def dest: gte_mono)
        qed
        then have "find ?P (x # rev A') = None" unfolding find_None_iff by blast
        then show ?thesis using F by (simp only: if_False)
      qed
      finally show ?thesis using b(1) True ur n x by (auto simp: zslLastInRange_def)
    qed
  qed
qed

section \<open>Creation\<close>

lemma zslCreate_ok: "zsl_inv (zslCreate zmalloc) [] \<and> dom (zsl_nodes (zslCreate zmalloc)) = {zsl_header (zslCreate zmalloc)}"
proof -
  obtain h x where c: "zslCreateNode zmalloc Map.empty ZSKIPLIST_MAXLEVEL (0 :: 'a :: {linorder, zero}) None = (h, x)"
    by (cases "zslCreateNode zmalloc Map.empty ZSKIPLIST_MAXLEVEL (0 :: 'a) None")
  note cr = create_node_ok [OF c]
  have z: "zslCreate zmalloc = \<lparr>zsl_nodes = h, zsl_header = x, zsl_tail = None, zsl_length = 0, zsl_level = 1\<rparr>"
    by (simp add: zslCreate_def c)
  have d: "dom h = {x}" using cr(6) by simp
  have "links h 1 [x]" using cr(2,4) by (auto simp: links_def link_to_def Cons_eq_append_conv ZSKIPLIST_MAXLEVEL_def)
  moreover have "back_ok h [x]" by (auto simp: back_ok_def Cons_eq_append_conv)
  moreover have "\<exists>s. get_level h x i = Some (None, s)" if "1 \<le> i" "i < ZSKIPLIST_MAXLEVEL" for i using that cr(4) by simp
  moreover have "height h x = ZSKIPLIST_MAXLEVEL" using cr(2) by simp
  moreover have "\<exists>s. nkey h x = Some (s, None)" using cr(3) by simp
  moreover have "finite (dom h)" using d by simp
  ultimately have "nodes_ok h x 1 []" unfolding nodes_ok_def by (simp add: ZSKIPLIST_MAXLEVEL_def)
  then show ?thesis using z d by (simp add: zsl_inv_def zsl_keys_def)
qed

lemma zslRandomLevel_bounds: "zslRandomLevel rs = Some lv \<Longrightarrow> 0 < lv \<and> lv \<le> ZSKIPLIST_MAXLEVEL"
proof -
  have "random_level_loop rs l = Some l' \<Longrightarrow> l \<le> l'" for l l'
    by (induction rs l rule: random_level_loop.induct) (auto split: if_splits)
  then show "zslRandomLevel rs = Some lv \<Longrightarrow> 0 < lv \<and> lv \<le> ZSKIPLIST_MAXLEVEL"
    by (fastforce simp: zslRandomLevel_def ZSKIPLIST_MAXLEVEL_def bind_eq_Some_conv split: if_splits)
qed

end
