(* ===== verification/Spec2Isabelle.thy ===== *)
theory Spec2Isabelle
  imports Intset Util_Glob Dict_Types Listpack_Ops T_Set_Ops T_Hash_Ops T_Zset Skiplist_Ops
begin

text \<open>
  A verification library for the data structures of the Redis 7.2.5 server that the repository ships
  under \<^verbatim>\<open>src/redis-bin/redis-7.2.5/src\<close>. All file names below are relative to that directory.

  \<^bold>\<open>The program.\<close> A Redis server keeps a table of keys, whose values are objects: sets, hashes and others.
  An object has one of several encodings, a compact one (an intset or a listpack, one block of memory) while it
  is small and a hash table (dict) when it has grown. The commands parse strings and numbers, look an object up
  and call the operations of its type, which call those of the encoding and convert between encodings. The
  development follows these layers from the bottom:

  \<^item> \<open>Redis_Prelude\<close>: bytes, fixed-width integers and bounds-checked memory; the lemmas all theories share.
  \<^item> \<open>Intset\<close> (\<^verbatim>\<open>intset.c\<close>): the record \<open>intset\<close> is the struct, one definition per function. \<open>intset_ok\<close> is the
    invariant; search, insertion with upgrade of the width, removal and the check of untrusted blobs are proved
    against a set of integers.
  \<^item> \<open>Util_Numbers\<close>, \<open>Util_Glob\<close> (\<^verbatim>\<open>util.c\<close>): decimal conversion, which is exact in both directions, and the glob
    matcher, which agrees with a declarative meaning of patterns.
  \<^item> \<open>Siphash\<close> (\<^verbatim>\<open>siphash.c\<close>): the hash function of the dicts and its case-insensitive variant.
  \<^item> \<open>Dict\<close> (\<^verbatim>\<open>dict.c\<close>, model), \<open>Dict_Proofs\<close> (invariant and single operations), \<open>Dict_Scan\<close> (cursor scans under
    resizing), \<open>Dict_Traversal\<close> (iterators, clearing, end of a rehash), \<open>Dict_Ops\<close> (sequences of operations as a
    map). What a dict type has to promise is the locale \<open>dict_contract\<close>, extended by \<open>value_dict\<close>.
  \<^item> \<open>Dict_Types\<close> (\<^verbatim>\<open>server.c\<close>, \<^verbatim>\<open>object.c\<close>): the callbacks of the dict types of the server; the locales are
    interpreted for them, with string comparison as the identity of keys.
  \<^item> \<open>Listpack\<close> (\<^verbatim>\<open>listpack.c\<close>, model), \<open>Listpack_Proofs\<close>, \<open>Listpack_Update\<close> (\<open>lp_rep\<close>: a block represents a list
    of entries; every read and update acts on that list), \<open>Listpack_Integrity\<close> (the check of untrusted blocks),
    \<open>Listpack_Ops\<close> (lists of strings and the properties).
  \<^item> \<open>Set_Interface\<close>, \<open>Map_Interface\<close>: the interfaces of containers and maps, as the locales \<open>set_impl\<close> and
    \<open>map_impl\<close>; the intset, the set object, the hash object and its hash table are instances.
  \<^item> \<open>T_Set\<close> (\<^verbatim>\<open>t_set.c\<close>, model), \<open>T_Set_Proofs\<close>, \<open>T_Set_Ops\<close>: set objects over intset, listpack and dict, with all
    conversions, refine sets of strings and respect the configured limits.
  \<^item> \<open>T_Hash\<close> (\<^verbatim>\<open>t_hash.c\<close>, model), \<open>T_Hash_Proofs\<close>, \<open>T_Hash_Ops\<close>: hash objects over listpack and dict refine maps of
    strings; the parts of HSET, HSETNX, HDEL, HINCRBY and HGET that work on the object.
  \<^item> \<open>Skiplist\<close> (\<^verbatim>\<open>t_zset.c\<close>, model), \<open>Skiplist_Proofs\<close>, \<open>Skiplist_Ops\<close>: the skip list of sorted sets on a heap of nodes.
    \<open>zsl_inv\<close> says that the links of every level, their spans and the back pointers agree with a list of nodes whose
    keys are sorted; insertion, deletion, change of a score, ranks and ranges are proved against that list.
  \<^item> \<open>T_Zset\<close> (\<^verbatim>\<open>t_zset.c\<close>, model): sorted sets in the encoding with a dict and a skip list.

  \<^bold>\<open>Correspondence.\<close> A function of the source is a definition with the same name; a leading underscore becomes
  \<open>u_\<close>, an inner loop is a function of its own, an out parameter and a changed object are components of the result.
  Undefined behaviour, a failed assertion and a panic are \<^const>\<open>None\<close>, so a theorem that ends in \<^const>\<open>Some\<close> excludes
  them. 32 and 64 bit unsigned values that can wrap are words; signed 64 bit values are \<^typ>\<open>int\<close> with their range
  stated. The host is little endian with 64 bit pointers. The fields of the global \<^verbatim>\<open>server\<close> that code reads, the
  hash seed and the resize policy of the dicts are arguments.

  \<^bold>\<open>Bounds.\<close> Loops are total functions or \<open>partial_function (option)\<close>; the theorems prove that they return. Sizes
  are bounded where the C code relies on it: below \<open>2^59\<close> or \<open>2^60\<close> entries for hash tables (their size is a power
  of two that has to fit 64 bits), strings below 2 GiB (dict keys are compared with an \<^verbatim>\<open>int\<close> length), listpacks
  below 4 GiB (their header). \<open>dictScan\<close> is driven with fuel, and \<open>dictScan_complete\<close> proves that some fuel is
  enough. The theorems about overflow show what happens beyond these bounds.

  \<^bold>\<open>Not modelled.\<close> Allocation and deallocation (the allocator aborts when it fails; lifetimes are not tracked),
  reference counts, active defragmentation, and the operations that return random elements of sets and
  hashes. Of the server: networking and the event loop, the command layer above the object operations (lookup
  of keys, replies, notifications), expiry, eviction, replication, persistence, cluster, sentinel, scripting,
  modules, streams, lists and the command line tools. The Go service and the monitoring
  configuration of the repository are programs of their own.
\<close>

end
